(* ===== verification/Prelude.thy ===== *)
theory Prelude
  imports Main "HOL-Library.Word" "HOL-Library.Multiset"
begin

text \<open>
  Prelude of the Octopus development: the machine integer types of the C++ code, the error
  values that stand for \<open>exit(0)\<close>, thrown exceptions and undefined behaviour, the
  operations on \<open>std::vector\<close> that the simulator uses (erase at an index, insert at an
  index, first index with a property), and the lemma collections the component theories share.
\<close>

section \<open>Types\<close>

type_synonym u8 = "8 word"
type_synonym u16 = "16 word"
type_synonym u32 = "32 word"
type_synonym u64 = "64 word"

text \<open>
  \<open>Exit\<close> carries the text the code prints before \<open>exit(0)\<close>; \<open>Throw\<close> names an
  exception of the standard library (\<open>out_of_range\<close> from \<open>at\<close>,
  \<open>bad_function_call\<close> from an empty \<open>std::function\<close>); \<open>Undefined\<close> names
  undefined behaviour (a read past an array, a division by zero).
\<close>

datatype sim_error = Exit string | Throw string | Undefined string

type_synonym 'a result = "sim_error + 'a"

definition result_bind :: "'a result \<Rightarrow> ('a \<Rightarrow> 'b result) \<Rightarrow> 'b result" where
  "result_bind r f = (case r of Inl e \<Rightarrow> Inl e | Inr x \<Rightarrow> f x)"

lemma result_bind_simps [simp]:
  "result_bind (Inl e) f = Inl e"
  "result_bind (Inr x) f = f x"
  by (simp_all add: result_bind_def)

lemma result_bind_Inr_iff:
  "result_bind r f = Inr y \<longleftrightarrow> (\<exists>x. r = Inr x \<and> f x = Inr y)"
  by (cases r) auto

lemma result_bind_InrE [elim]:
  assumes "result_bind r f = Inr y"
  obtains x where "r = Inr x" "f x = Inr y"
  using assms by (auto simp: result_bind_Inr_iff)

text \<open>
  A congruence for recursion through \<open>result_bind\<close>, and a weak form that lets the simplifier evaluate a bind
  before it looks at what follows.
\<close>

lemma result_bind_cong:
  "r = r' \<Longrightarrow> (\<And>x. r' = Inr x \<Longrightarrow> f x = g x) \<Longrightarrow> result_bind r f = result_bind r' g"
  by (cases r') simp_all

lemma result_bind_weak: "r = r' \<Longrightarrow> result_bind r f = result_bind r' f"
  by simp

lemma case_InrE:
  assumes "case r of Inl e \<Rightarrow> False | Inr x \<Rightarrow> P x"
  obtains x where "r = Inr x" "P x"
  using assms by (cases r) auto

section \<open>Vectors\<close>

text \<open>\<open>v.erase(v.begin() + i)\<close>\<close>

definition erase_at :: "nat \<Rightarrow> 'a list \<Rightarrow> 'a list" where
  "erase_at i xs = take i xs @ drop (Suc i) xs"

text \<open>\<open>v.insert(v.begin() + i, x)\<close>\<close>

definition insert_at :: "nat \<Rightarrow> 'a \<Rightarrow> 'a list \<Rightarrow> 'a list" where
  "insert_at i x xs = take i xs @ x # drop i xs"

text \<open>The index a \<open>for\<close> loop with a \<open>return i\<close> or \<open>break\<close> stops at.\<close>

fun first_index :: "('a \<Rightarrow> bool) \<Rightarrow> 'a list \<Rightarrow> nat option" where
  "first_index P [] = None"
| "first_index P (x # xs) =
     (if P x then Some 0 else map_option Suc (first_index P xs))"

named_theorems vector_simps "length, membership and multiset facts of the vector operations"

lemma erase_at_simps [simp]:
  "erase_at 0 (x # xs) = xs"
  "erase_at (Suc i) (x # xs) = x # erase_at i xs"
  "erase_at i [] = []"
  by (simp_all add: erase_at_def)

lemma length_erase_at [vector_simps]:
  "i < length xs \<Longrightarrow> length (erase_at i xs) = length xs - 1"
  by (simp add: erase_at_def min_def)

lemma length_erase_at_le: "length (erase_at i xs) \<le> length xs"
  by (simp add: erase_at_def min_def)

lemma set_erase_at_subset: "set (erase_at i xs) \<subseteq> set xs"
  unfolding erase_at_def by (auto dest: in_set_takeD in_set_dropD)

lemma mset_erase_at:
  "i < length xs \<Longrightarrow> add_mset (xs ! i) (mset (erase_at i xs)) = mset xs"
  by (induction xs arbitrary: i) (auto simp: less_Suc_eq_0_disj)

lemma mset_erase_at_diff [vector_simps]:
  "i < length xs \<Longrightarrow> mset (erase_at i xs) = mset xs - {#xs ! i#}"
  using mset_erase_at [of i xs] by (metis add_mset_remove_trivial)

lemma mset_insert_at [vector_simps]: "mset (insert_at i x xs) = add_mset x (mset xs)"
  unfolding insert_at_def by simp (metis append_take_drop_id mset_append)

lemma length_insert_at [vector_simps, simp]: "length (insert_at i x xs) = Suc (length xs)"
  using mset_insert_at [of i x xs] by (metis size_add_mset size_mset)

lemma set_insert_at [vector_simps, simp]: "set (insert_at i x xs) = insert x (set xs)"
  using mset_insert_at [of i x xs] by (metis set_mset_add_mset_insert set_mset_mset)

lemma filter_erase_at:
  "i < length xs \<Longrightarrow> \<not> P (xs ! i) \<Longrightarrow> filter P (erase_at i xs) = filter P xs"
  by (induction xs arbitrary: i) (auto simp: less_Suc_eq_0_disj)

lemma first_index_Some_iff:
  "first_index P xs = Some i \<longleftrightarrow> i < length xs \<and> P (xs ! i) \<and> (\<forall>j<i. \<not> P (xs ! j))"
proof (induction xs arbitrary: i)
  case Nil
  then show ?case by simp
next
  case (Cons x xs)
  show ?case
    by (cases i) (auto simp: Cons.IH less_Suc_eq_0_disj)
qed

lemma first_index_None_iff: "first_index P xs = None \<longleftrightarrow> (\<forall>x \<in> set xs. \<not> P x)"
  by (induction xs) auto

lemma first_index_SomeD [dest]:
  assumes "first_index P xs = Some i"
  shows "i < length xs" "P (xs ! i)" "\<And>j. j < i \<Longrightarrow> \<not> P (xs ! j)"
  using assms by (auto simp: first_index_Some_iff)

lemma first_index_cong [fundef_cong]:
  "xs = ys \<Longrightarrow> (\<And>x. x \<in> set ys \<Longrightarrow> P x = Q x) \<Longrightarrow> first_index P xs = first_index Q ys"
  by (induction ys arbitrary: xs) auto

text \<open>Replacing one inner vector of a vector of vectors, as a multiset of all elements.\<close>

lemma mset_concat_update:
  assumes "i < length bss"
  shows "mset (concat (bss[i := bs])) + mset (bss ! i) = mset (concat bss) + mset bs"
  using assms
  by (induction bss arbitrary: i) (auto simp: less_Suc_eq_0_disj ac_simps)

lemma mset_concat_erase:
  assumes "i < length bss" and "j < length (bss ! i)"
  shows "add_mset (bss ! i ! j) (mset (concat (bss[i := erase_at j (bss ! i)]))) = mset (concat bss)"
proof -
  have "mset (concat (bss[i := erase_at j (bss ! i)])) + mset (bss ! i)
      = mset (concat bss) + mset (erase_at j (bss ! i))"
    using assms(1) by (rule mset_concat_update)
  moreover have "mset (bss ! i) = add_mset (bss ! i ! j) (mset (erase_at j (bss ! i)))"
    using mset_erase_at [OF assms(2)] by simp
  ultimately show ?thesis by simp
qed

section \<open>Machine words\<close>

lemma word_less_maxI: "(x::'a::len word) \<noteq> - 1 \<Longrightarrow> x < - 1"
  by (simp add: order.not_eq_order_implies_strict)

lemma uint_eq_unat: "uint (w :: 'a::len word) = int (unat w)"
  by simp

section \<open>Fuel\<close>

text \<open>A loop that may run on takes fuel; \<open>None\<close> says it ran out.\<close>

type_synonym 'a fuelled = "'a result option"

definition fuel_bind :: "'a fuelled \<Rightarrow> ('a \<Rightarrow> 'b fuelled) \<Rightarrow> 'b fuelled" where
  "fuel_bind r f = (case r of None \<Rightarrow> None | Some (Inl e) \<Rightarrow> Some (Inl e) | Some (Inr x) \<Rightarrow> f x)"

lemma fuel_bind_simps [simp]:
  "fuel_bind None f = None"
  "fuel_bind (Some (Inl e)) f = Some (Inl e)"
  "fuel_bind (Some (Inr x)) f = f x"
  by (simp_all add: fuel_bind_def)

end
