(* ===== verification/Messages.thy ===== *)
theory Messages
  imports Prelude
begin

text \<open>
  The message that travels between components, \<open>class Message\<close> of
  header/Interconnect/CommunicationInterface.h, with its classification predicates, and the
  request kinds of the coherence protocols (\<open>MSIProtocol::REQUEST_TYPE_*\<close>).
\<close>

unbundle bit_operations_syntax

datatype message_type = REQUEST | DATA_RESPONSE | SERVICE_REQUEST

datatype message_source = LOWER_INTERCONNECT | UPPER_INTERCONNECT | SELF

datatype message_kind =
    K_UNKNOWN | K_DEMAND | K_GETS | K_GETM | K_PUTM | K_INV | K_MEM_READ | K_EVICT
  | K_WB_DATA | K_WB_INV | K_SUPPLY | K_SUPPLY_DEFERRED | K_RESP | K_FILL | K_FILL_ROLLBACK
  | K_MEM_WRITE | K_PUTS | K_FWD | K_ACK

record message =
  msg_id :: u64
  addr :: u64
  msg_cycle :: u64
  complementary_value :: u64
  complementary_value2 :: u64
  owner :: u16
  msg_from :: u16
  msg_to :: "u16 list"
  msg_source :: message_source
  msg_data :: "u8 list option"
  data_size :: u16
  msg_kind :: message_kind

text \<open>The constructor with its five arguments; every other member has its default.\<close>

definition new_message :: "u64 \<Rightarrow> u64 \<Rightarrow> u64 \<Rightarrow> u64 \<Rightarrow> u16 \<Rightarrow> message" where
  "new_message mid a c cv own =
     \<lparr> msg_id = mid, addr = a, msg_cycle = c, complementary_value = cv,
       complementary_value2 = 0, owner = own, msg_from = 0, msg_to = [],
       msg_source = LOWER_INTERCONNECT, msg_data = None, data_size = 0, msg_kind = K_UNKNOWN \<rparr>"

text \<open>
  \<open>copy(const uint8_t *data, uint16_t size)\<close> copies \<open>size\<close> bytes from \<open>data\<close>; when
  the source array is shorter the \<open>memcpy\<close> reads past its end.
\<close>

definition message_copy_data :: "message \<Rightarrow> u8 list \<Rightarrow> u16 \<Rightarrow> message result" where
  "message_copy_data m d sz =
     (if unat sz \<le> length d
      then Inr (m\<lparr>msg_data := Some (take (unat sz) d), data_size := sz\<rparr>)
      else Inl (Undefined ''Message::copy reads past the source array''))"

text \<open>\<open>REQUEST_TYPE_*\<close> of header/Protocols/MSIProtocol.h\<close>

definition REQUEST_TYPE_GETS :: u64 where "REQUEST_TYPE_GETS = 0"

definition REQUEST_TYPE_GETM :: u64 where "REQUEST_TYPE_GETM = 1"

definition REQUEST_TYPE_PUTM :: u64 where "REQUEST_TYPE_PUTM = 2"

definition REQUEST_TYPE_INV :: u64 where "REQUEST_TYPE_INV = 10"

lemmas request_type_defs =
  REQUEST_TYPE_GETS_def REQUEST_TYPE_GETM_def REQUEST_TYPE_PUTM_def REQUEST_TYPE_INV_def

definition isDemandRequest :: "message \<Rightarrow> bool" where
  "isDemandRequest m \<longleftrightarrow>
     msg_source m = LOWER_INTERCONNECT \<and> msg_data m = None \<and>
     (complementary_value m = 0 \<or> complementary_value m = 1)"

definition isInvalidation :: "message \<Rightarrow> bool" where
  "isInvalidation m \<longleftrightarrow> complementary_value m = 10 \<and> msg_data m = None"

lemma demand_not_invalidation: "isDemandRequest m \<Longrightarrow> \<not> isInvalidation m"
  by (auto simp: isDemandRequest_def isInvalidation_def)

lemma data_message_exempt:
  "msg_data m \<noteq> None \<Longrightarrow> \<not> isDemandRequest m \<and> \<not> isInvalidation m"
  by (auto simp: isDemandRequest_def isInvalidation_def)

lemma demand_request_cong:
  "isDemandRequest (m\<lparr>msg_cycle := c\<rparr>) = isDemandRequest m"
  "isDemandRequest (m\<lparr>msg_from := f\<rparr>) = isDemandRequest m"
  "isInvalidation (m\<lparr>msg_cycle := c\<rparr>) = isInvalidation m"
  "isInvalidation (m\<lparr>msg_from := f\<rparr>) = isInvalidation m"
  by (simp_all add: isDemandRequest_def isInvalidation_def)

declare demand_request_cong [simp]

end
