(* ===== verification/Arbiters.thy ===== *)
theory Arbiters
  imports Messages
begin

text \<open>
  The bus arbiters, src/Arbiters/*.cpp: the base class's search for the oldest message of an
  owner, and the first-come-first-serve, round-robin and time-division arbiters. The buffers an
  arbiter elects from are the senders' transmit queues, a list of lists of messages; electing
  removes the message from its queue. The virtual call \<open>elect\<close> is dispatched over the
  datatype \<open>arbiter\<close>. The locale \<open>electing\<close> is the contract the bus controllers
  rely on.
\<close>

section \<open>The base class\<close>

type_synonym buffers = "message list list"

record arbiter_base =
  m_candidates_ids :: "int list"
  m_arbiter_period :: int
  candidate_index :: nat

definition new_arbiter_base :: "int list \<Rightarrow> int \<Rightarrow> arbiter_base" where
  "new_arbiter_base ids period =
     \<lparr> m_candidates_ids = ids, m_arbiter_period = period, candidate_index = 0 \<rparr>"

text \<open>\<open>findMessage\<close> returns -1, here \<open>None\<close>, when the owner has no message.\<close>

definition findMessage :: "message list \<Rightarrow> int \<Rightarrow> nat option" where
  "findMessage buffer i = first_index (\<lambda>m. uint (owner m) = i) buffer"

text \<open>
  The loop of \<open>electOldestOwned\<close>: \<open>i\<close> is the loop index, \<open>best\<close> the pair
  \<open>(best_buf, best_idx)\<close> (\<open>None\<close> while \<open>best_buf\<close> is -1), \<open>bc\<close> is \<open>best_cycle\<close>.
\<close>

fun oldest_owned_loop ::
  "nat \<Rightarrow> buffers \<Rightarrow> int \<Rightarrow> (nat \<times> nat) option \<Rightarrow> u64 \<Rightarrow> (nat \<times> nat) option" where
  "oldest_owned_loop i [] own best bc = best"
| "oldest_owned_loop i (b # bs) own best bc =
     (case findMessage b own of
        None \<Rightarrow> oldest_owned_loop (Suc i) bs own best bc
      | Some idx \<Rightarrow>
          if msg_cycle (b ! idx) < bc
          then oldest_owned_loop (Suc i) bs own (Some (i, idx)) (msg_cycle (b ! idx))
          else oldest_owned_loop (Suc i) bs own best bc)"

text \<open>\<open>None\<close> is the result \<open>false\<close>; then the buffers are untouched.\<close>

definition electOldestOwned :: "buffers \<Rightarrow> int \<Rightarrow> (message \<times> buffers) option" where
  "electOldestOwned bufs own =
     (case oldest_owned_loop 0 bufs own None 0xFFFFFFFFFFFFFFFF of
        None \<Rightarrow> None
      | Some (b, i) \<Rightarrow> Some (bufs ! b ! i, bufs[b := erase_at i (bufs ! b)]))"

section \<open>First come first serve\<close>

fun fcfs_loop :: "nat \<Rightarrow> buffers \<Rightarrow> nat option \<Rightarrow> u64 \<Rightarrow> nat option" where
  "fcfs_loop i [] best bc = best"
| "fcfs_loop i (b # bs) best bc =
     (if b \<noteq> [] \<and> msg_cycle (b ! 0) < bc
      then fcfs_loop (Suc i) bs (Some i) (msg_cycle (b ! 0))
      else fcfs_loop (Suc i) bs best bc)"

definition FCFS_elect :: "u64 \<Rightarrow> buffers \<Rightarrow> (message \<times> buffers) option" where
  "FCFS_elect cycle_number bufs =
     (case fcfs_loop 0 bufs None 0xFFFFFFFFFFFFFFFF of
        None \<Rightarrow> None
      | Some b \<Rightarrow> Some (bufs ! b ! 0, bufs[b := erase_at 0 (bufs ! b)]))"

section \<open>Round robin\<close>

text \<open>
  \<open>candidate_id\<close> is stored as \<open>uint64_t\<close> and cast back to \<open>int\<close> at each use; the two
  casts cancel on the identifiers, which are \<open>int\<close>.
\<close>

record rr_arbiter = arbiter_base +
  candidate_id :: int

definition new_RRArbiter :: "int list \<Rightarrow> int \<Rightarrow> rr_arbiter" where
  "new_RRArbiter ids period =
     \<lparr> m_candidates_ids = ids, m_arbiter_period = period, candidate_index = 0,
       candidate_id = 0 \<rparr>"

text \<open>
  \<open>selectCandidate\<close>: the caller \<open>elect\<close> runs it once per candidate, so never with an
  empty candidate list (where the \<open>%\<close> would trap).
\<close>

definition RR_selectCandidate :: "rr_arbiter \<Rightarrow> rr_arbiter" where
  "RR_selectCandidate a =
     (let i = (candidate_index a + 1) mod length (m_candidates_ids a)
      in a\<lparr>candidate_index := i, candidate_id := m_candidates_ids a ! i\<rparr>)"

definition RR_coreElect :: "rr_arbiter \<Rightarrow> buffers \<Rightarrow> (message \<times> buffers) option" where
  "RR_coreElect a bufs = electOldestOwned bufs (candidate_id a)"

fun RR_elect_loop ::
  "nat \<Rightarrow> rr_arbiter \<Rightarrow> buffers \<Rightarrow> rr_arbiter \<times> (message \<times> buffers) option" where
  "RR_elect_loop 0 a bufs = (a, None)"
| "RR_elect_loop (Suc n) a bufs =
     (let a' = RR_selectCandidate a
      in case RR_coreElect a' bufs of
           Some r \<Rightarrow> (a', Some r)
         | None \<Rightarrow> RR_elect_loop n a' bufs)"

definition RR_elect ::
  "rr_arbiter \<Rightarrow> u64 \<Rightarrow> buffers \<Rightarrow> rr_arbiter \<times> (message \<times> buffers) option" where
  "RR_elect a cycle_number bufs = RR_elect_loop (length (m_candidates_ids a)) a bufs"

definition RR_forceElect ::
  "rr_arbiter \<Rightarrow> u64 \<Rightarrow> buffers \<Rightarrow> rr_arbiter \<times> (message \<times> buffers) option" where
  "RR_forceElect a cycle_number bufs = (a, RR_coreElect a bufs)"

section \<open>Time division\<close>

text \<open>
  The period is an \<open>int\<close> converted to \<open>uint64_t\<close> in \<open>cycle_number % m_arbiter_period\<close>. A
  zero period and an empty candidate list both divide by zero.
\<close>

definition TDM_selectCandidate :: "arbiter_base \<Rightarrow> u64 \<Rightarrow> (arbiter_base \<times> int) result" where
  "TDM_selectCandidate a cycle_number =
     (if word_of_int (m_arbiter_period a) = (0 :: u64)
      then Inl (Undefined ''TDMArbiter: cycle modulo 0'')
      else if cycle_number mod word_of_int (m_arbiter_period a) = 0
      then (if m_candidates_ids a = [] then Inl (Undefined ''TDMArbiter: index modulo 0'')
            else let i = (candidate_index a + 1) mod length (m_candidates_ids a)
                 in Inr (a\<lparr>candidate_index := i\<rparr>, m_candidates_ids a ! i))
      else if candidate_index a < length (m_candidates_ids a)
           then Inr (a, m_candidates_ids a ! candidate_index a)
           else Inl (Throw ''out_of_range''))"

definition TDM_coreElect ::
  "arbiter_base \<Rightarrow> u64 \<Rightarrow> buffers \<Rightarrow> (arbiter_base \<times> (message \<times> buffers) option) result" where
  "TDM_coreElect a cycle_number bufs =
     result_bind (TDM_selectCandidate a cycle_number)
       (\<lambda>(a', c). Inr (a', electOldestOwned bufs c))"

definition TDM_elect ::
  "arbiter_base \<Rightarrow> u64 \<Rightarrow> buffers \<Rightarrow> (arbiter_base \<times> (message \<times> buffers) option) result" where
  "TDM_elect a cycle_number bufs =
     (if word_of_int (m_arbiter_period a) = (0 :: u64)
      then Inl (Undefined ''TDMArbiter: cycle modulo 0'')
      else if cycle_number mod word_of_int (m_arbiter_period a) \<noteq> 0 then Inr (a, None)
      else TDM_coreElect a cycle_number bufs)"

section \<open>The virtual calls\<close>

datatype arbiter =
    FCFSArbiter arbiter_base
  | RRArbiter rr_arbiter
  | TDMArbiter arbiter_base

text \<open>\<open>Arbiter::forceElect\<close> calls \<open>elect\<close> unless a class overrides it.\<close>

fun arbiter_elect ::
  "arbiter \<Rightarrow> u64 \<Rightarrow> buffers \<Rightarrow> (arbiter \<times> (message \<times> buffers) option) result" where
  "arbiter_elect (FCFSArbiter a) t bufs = Inr (FCFSArbiter a, FCFS_elect t bufs)"
| "arbiter_elect (RRArbiter a) t bufs =
     (case RR_elect a t bufs of (a', r) \<Rightarrow> Inr (RRArbiter a', r))"
| "arbiter_elect (TDMArbiter a) t bufs =
     result_bind (TDM_elect a t bufs) (\<lambda>(a', r). Inr (TDMArbiter a', r))"

fun arbiter_forceElect ::
  "arbiter \<Rightarrow> u64 \<Rightarrow> buffers \<Rightarrow> (arbiter \<times> (message \<times> buffers) option) result" where
  "arbiter_forceElect (FCFSArbiter a) t bufs = arbiter_elect (FCFSArbiter a) t bufs"
| "arbiter_forceElect (RRArbiter a) t bufs =
     (case RR_forceElect a t bufs of (a', r) \<Rightarrow> Inr (RRArbiter a', r))"
| "arbiter_forceElect (TDMArbiter a) t bufs =
     result_bind (TDM_coreElect a t bufs) (\<lambda>(a', r). Inr (TDMArbiter a', r))"

section \<open>What electing does to the buffers\<close>

text \<open>
  An election takes one message \<open>m\<close> out of one queue, and \<open>m\<close> is the first message of its
  owner there: the queue stays a FIFO for each owner.
\<close>

definition takes_one :: "buffers \<Rightarrow> message \<Rightarrow> buffers \<Rightarrow> bool" where
  "takes_one bufs m bufs' \<longleftrightarrow>
     (\<exists>i j. i < length bufs \<and> j < length (bufs ! i) \<and> m = bufs ! i ! j \<and>
            (\<forall>k<j. owner (bufs ! i ! k) \<noteq> owner m) \<and>
            bufs' = bufs[i := erase_at j (bufs ! i)])"

lemma takes_oneI:
  assumes "i < length bufs" "j < length (bufs ! i)"
    and "\<And>k. k < j \<Longrightarrow> owner (bufs ! i ! k) \<noteq> owner (bufs ! i ! j)"
  shows "takes_one bufs (bufs ! i ! j) (bufs[i := erase_at j (bufs ! i)])"
  using assms unfolding takes_one_def by blast

lemma takes_one_mset:
  "takes_one bufs m bufs' \<Longrightarrow> add_mset m (mset (concat bufs')) = mset (concat bufs)"
  unfolding takes_one_def by (auto simp: mset_concat_erase)

lemma takes_one_length: "takes_one bufs m bufs' \<Longrightarrow> length bufs' = length bufs"
  unfolding takes_one_def by auto

lemma takes_one_mem:
  assumes "takes_one bufs m bufs'"
  shows "m \<in> set (concat bufs)"
proof -
  have "m \<in># add_mset m (mset (concat bufs'))" by simp
  then show ?thesis unfolding takes_one_mset [OF assms] by simp
qed

lemma takes_one_shrinks:
  "takes_one bufs m bufs' \<Longrightarrow> k < length bufs \<Longrightarrow> length (bufs' ! k) \<le> length (bufs ! k)"
  unfolding takes_one_def by (auto simp: nth_list_update length_erase_at_le)

lemma filter_owner_erase_at:
  assumes "j < length b" and "\<forall>k<j. owner (b ! k) \<noteq> owner (b ! j)"
  shows "filter (\<lambda>x. owner x = owner (b ! j)) b
       = b ! j # filter (\<lambda>x. owner x = owner (b ! j)) (erase_at j b)"
  using assms
proof (induction b arbitrary: j)
  case (Cons x b)
  then show ?case by (cases j) (auto simp: All_less_Suc2)
qed simp

lemma takes_one_owner_fifo:
  assumes "takes_one bufs m bufs'"
  obtains i where "i < length bufs"
    "filter (\<lambda>x. owner x = owner m) (bufs ! i) = m # filter (\<lambda>x. owner x = owner m) (bufs' ! i)"
    "\<And>k. k \<noteq> i \<Longrightarrow> bufs' ! k = bufs ! k"
    "\<And>own. own \<noteq> owner m \<Longrightarrow>
       filter (\<lambda>x. owner x = own) (bufs' ! i) = filter (\<lambda>x. owner x = own) (bufs ! i)"
proof -
  from assms obtain i j where ij: "i < length bufs" "j < length (bufs ! i)" "m = bufs ! i ! j"
    "\<forall>k<j. owner (bufs ! i ! k) \<noteq> owner m" "bufs' = bufs[i := erase_at j (bufs ! i)]"
    unfolding takes_one_def by blast
  show thesis
  proof (rule that [of i])
    show "i < length bufs" by fact
    show "filter (\<lambda>x. owner x = owner m) (bufs ! i) = m # filter (\<lambda>x. owner x = owner m) (bufs' ! i)"
      using ij filter_owner_erase_at [of j "bufs ! i"] by simp
    show "\<And>k. k \<noteq> i \<Longrightarrow> bufs' ! k = bufs ! k" using ij by simp
    show "\<And>own. own \<noteq> owner m \<Longrightarrow>
       filter (\<lambda>x. owner x = own) (bufs' ! i) = filter (\<lambda>x. owner x = own) (bufs ! i)"
      using ij by (simp add: filter_erase_at)
  qed
qed

section \<open>The search for the oldest message of an owner\<close>

lemma findMessage_SomeD:
  assumes "findMessage b own = Some j"
  shows "j < length b" "uint (owner (b ! j)) = own"
    "\<And>k. k < j \<Longrightarrow> owner (b ! k) \<noteq> owner (b ! j)"
proof -
  note D = first_index_SomeD [OF assms [unfolded findMessage_def]]
  show "j < length b" "uint (owner (b ! j)) = own" using D(1,2) by simp_all
  show "owner (b ! k) \<noteq> owner (b ! j)" if "k < j" for k
    using D(3) [OF that] D(2) by auto
qed

lemma findMessage_None: "findMessage b own = None \<longleftrightarrow> (\<forall>m\<in>set b. uint (owner m) \<noteq> own)"
  by (simp add: findMessage_def first_index_None_iff)

text \<open>
  Both searches keep the best candidate seen so far in a loop over the queues. \<open>min_loop\<close> is
  that loop for any rule \<open>f\<close> that names a queue's candidate and its cycle.
\<close>

fun min_loop ::
  "('b \<Rightarrow> (nat \<times> u64) option) \<Rightarrow> nat \<Rightarrow> 'b list \<Rightarrow> (nat \<times> nat) option \<Rightarrow> u64 \<Rightarrow> (nat \<times> nat) option" where
  "min_loop f i [] best bc = best"
| "min_loop f i (b # bs) best bc =
     (case f b of
        None \<Rightarrow> min_loop f (Suc i) bs best bc
      | Some (j, c) \<Rightarrow>
          if c < bc then min_loop f (Suc i) bs (Some (i, j)) c
          else min_loop f (Suc i) bs best bc)"

lemma min_loop_spec:
  "(min_loop f i bs best bc = best \<and> (\<forall>k<length bs. \<forall>j c. f (bs ! k) = Some (j, c) \<longrightarrow> bc \<le> c))
   \<or> (\<exists>k j c. min_loop f i bs best bc = Some (i + k, j) \<and> k < length bs \<and>
        f (bs ! k) = Some (j, c) \<and> c < bc \<and>
        (\<forall>k'<length bs. \<forall>j' c'. f (bs ! k') = Some (j', c') \<longrightarrow> c \<le> c' \<and> (k' < k \<longrightarrow> c < c')))"
proof (induction bs arbitrary: i best bc)
  case Nil
  show ?case by simp
next
  case (Cons b bs)
  note all_Suc = All_less_Suc2
  show ?case
  proof (cases "\<exists>j c. f b = Some (j, c) \<and> c < bc")
    case True
    then obtain j c where b: "f b = Some (j, c)" "c < bc" by blast
    from Cons.IH [of "Suc i" "Some (i, j)" c] show ?thesis
    proof (elim disjE exE conjE)
      assume "min_loop f (Suc i) bs (Some (i, j)) c = Some (i, j)"
        "\<forall>k<length bs. \<forall>j c'. f (bs ! k) = Some (j, c') \<longrightarrow> c \<le> c'"
      with b show ?thesis
        by - (rule disjI2, rule exI [of _ 0], rule exI [of _ j], rule exI [of _ c], simp add: all_Suc)
    next
      fix k j' c'
      assume "min_loop f (Suc i) bs (Some (i, j)) c = Some (Suc i + k, j')" "k < length bs"
        "f (bs ! k) = Some (j', c')" "c' < c"
        "\<forall>k'<length bs. \<forall>j'' c''. f (bs ! k') = Some (j'', c'') \<longrightarrow> c' \<le> c'' \<and> (k' < k \<longrightarrow> c' < c'')"
      with b show ?thesis
        by - (rule disjI2, rule exI [of _ "Suc k"], rule exI [of _ j'], rule exI [of _ c'],
            auto simp: all_Suc)
    qed
  next
    case False
    then have step: "min_loop f i (b # bs) best bc = min_loop f (Suc i) bs best bc"
      and b: "\<forall>j c. f b = Some (j, c) \<longrightarrow> bc \<le> c"
      by (auto split: option.splits simp: not_less)
    from Cons.IH [of "Suc i" best bc] show ?thesis
    proof (elim disjE exE conjE)
      assume "min_loop f (Suc i) bs best bc = best"
        "\<forall>k<length bs. \<forall>j c. f (bs ! k) = Some (j, c) \<longrightarrow> bc \<le> c"
      with b step show ?thesis by (intro disjI1) (simp add: all_Suc)
    next
      fix k j c
      assume "min_loop f (Suc i) bs best bc = Some (Suc i + k, j)" "k < length bs"
        "f (bs ! k) = Some (j, c)" "c < bc"
        "\<forall>k'<length bs. \<forall>j'' c''. f (bs ! k') = Some (j'', c'') \<longrightarrow> c \<le> c'' \<and> (k' < k \<longrightarrow> c < c'')"
      with b step show ?thesis
        by - (rule disjI2, rule exI [of _ "Suc k"], rule exI [of _ j], rule exI [of _ c],
            simp add: all_Suc, force)
    qed
  qed
qed

definition owned_candidate :: "int \<Rightarrow> message list \<Rightarrow> (nat \<times> u64) option" where
  "owned_candidate own b = map_option (\<lambda>j. (j, msg_cycle (b ! j))) (findMessage b own)"

definition head_candidate :: "message list \<Rightarrow> (nat \<times> u64) option" where
  "head_candidate b = (case b of [] \<Rightarrow> None | m # _ \<Rightarrow> Some (0, msg_cycle m))"

lemma oldest_owned_loop_min:
  "oldest_owned_loop i bs own best bc = min_loop (owned_candidate own) i bs best bc"
  by (induction i bs own best bc rule: oldest_owned_loop.induct)
    (auto simp: owned_candidate_def split: option.splits)

lemma fcfs_loop_min:
  "map_option (\<lambda>i. (i, 0)) (fcfs_loop i bs best bc) =
   min_loop head_candidate i bs (map_option (\<lambda>i. (i, 0)) best) bc"
  by (induction i bs best bc rule: fcfs_loop.induct)
    (auto simp: head_candidate_def neq_Nil_conv split: list.splits)

lemma max_cycle_leD: "(0xFFFFFFFFFFFFFFFF :: u64) \<le> c \<Longrightarrow> c = 0xFFFFFFFFFFFFFFFF"
  using unsigned_less [of c, where ?'a = nat] by (simp add: word_le_nat_alt word_unat_eq_iff)

lemma electOldestOwned_SomeE:
  assumes "electOldestOwned bufs own = Some (m, bufs')"
  obtains i j where "i < length bufs" "findMessage (bufs ! i) own = Some j" "m = bufs ! i ! j"
    "bufs' = bufs[i := erase_at j (bufs ! i)]"
    "\<And>k j'. k < length bufs \<Longrightarrow> findMessage (bufs ! k) own = Some j' \<Longrightarrow>
       msg_cycle m \<le> msg_cycle (bufs ! k ! j')"
proof -
  let ?M = "0xFFFFFFFFFFFFFFFF :: u64"
  from assms obtain i j where loop: "oldest_owned_loop 0 bufs own None ?M = Some (i, j)"
    and m: "m = bufs ! i ! j" and bufs': "bufs' = bufs[i := erase_at j (bufs ! i)]"
    by (auto simp: electOldestOwned_def split: option.splits)
  from loop min_loop_spec [of "owned_candidate own" 0 bufs None ?M]
  obtain c where i: "i < length bufs" and c: "owned_candidate own (bufs ! i) = Some (j, c)"
    and min: "\<And>k' j' c'. k' < length bufs \<Longrightarrow> owned_candidate own (bufs ! k') = Some (j', c') \<Longrightarrow>
                c \<le> c' \<and> (k' < i \<longrightarrow> c < c')"
    unfolding oldest_owned_loop_min by auto
  from c have j: "findMessage (bufs ! i) own = Some j" and mc: "msg_cycle m = c"
    using m by (auto simp: owned_candidate_def)
  from min have "\<And>k j'. k < length bufs \<Longrightarrow> findMessage (bufs ! k) own = Some j' \<Longrightarrow>
       msg_cycle m \<le> msg_cycle (bufs ! k ! j')"
    unfolding mc by (simp add: owned_candidate_def)
  with i j m bufs' show thesis by (rule that)
qed

lemma electOldestOwned_NoneD:
  assumes "electOldestOwned bufs own = None" "b \<in> set bufs" "findMessage b own = Some j"
  shows "msg_cycle (b ! j) = 0xFFFFFFFFFFFFFFFF"
proof -
  let ?M = "0xFFFFFFFFFFFFFFFF :: u64"
  from assms(1) have "oldest_owned_loop 0 bufs own None ?M = None"
    by (auto simp: electOldestOwned_def split: option.splits)
  with min_loop_spec [of "owned_candidate own" 0 bufs None ?M] assms(2,3)
  have "?M \<le> msg_cycle (b ! j)"
    by (auto simp: oldest_owned_loop_min owned_candidate_def in_set_conv_nth)
  then show ?thesis by (rule max_cycle_leD)
qed

lemma electOldestOwned_takes_one:
  assumes "electOldestOwned bufs own = Some (m, bufs')"
  shows "takes_one bufs m bufs'" and "uint (owner m) = own"
proof -
  from assms obtain i j where ij: "i < length bufs" "findMessage (bufs ! i) own = Some j"
    "m = bufs ! i ! j" "bufs' = bufs[i := erase_at j (bufs ! i)]"
    by (rule electOldestOwned_SomeE) blast
  note j = findMessage_SomeD [OF ij(2)]
  show "takes_one bufs m bufs'"
    unfolding ij(3,4) using ij(1) j(1,3) by (rule takes_oneI)
  show "uint (owner m) = own" using ij(3) j(2) by simp
qed

lemma head_candidate_nonempty: "b \<noteq> [] \<Longrightarrow> head_candidate b = Some (0, msg_cycle (hd b))"
  by (cases b) (simp_all add: head_candidate_def)

lemma FCFS_elect_SomeE:
  assumes "FCFS_elect t bufs = Some (m, bufs')"
  obtains i where "i < length bufs" "bufs ! i \<noteq> []" "m = hd (bufs ! i)"
    "bufs' = bufs[i := tl (bufs ! i)]"
    "\<And>b. b \<in> set bufs \<Longrightarrow> b \<noteq> [] \<Longrightarrow> msg_cycle m \<le> msg_cycle (hd b)"
    "\<And>k. k < i \<Longrightarrow> bufs ! k \<noteq> [] \<Longrightarrow> msg_cycle m < msg_cycle (hd (bufs ! k))"
proof -
  let ?M = "0xFFFFFFFFFFFFFFFF :: u64"
  from assms obtain i where loop: "fcfs_loop 0 bufs None ?M = Some i"
    and m: "m = bufs ! i ! 0" and bufs': "bufs' = bufs[i := erase_at 0 (bufs ! i)]"
    by (auto simp: FCFS_elect_def split: option.splits)
  have "min_loop head_candidate 0 bufs None ?M = Some (i, 0)"
    using fcfs_loop_min [of 0 bufs None ?M] loop by simp
  with min_loop_spec [of head_candidate 0 bufs None ?M] obtain c where
    i: "i < length bufs" and c: "head_candidate (bufs ! i) = Some (0, c)"
    and min: "\<And>k' j' c'. k' < length bufs \<Longrightarrow> head_candidate (bufs ! k') = Some (j', c') \<Longrightarrow>
         c \<le> c' \<and> (k' < i \<longrightarrow> c < c')"
    by auto
  from c obtain ms where b: "bufs ! i = m # ms" and mc: "msg_cycle m = c"
    using m by (auto simp: head_candidate_def split: list.splits)
  show thesis
  proof (rule that [of i])
    show "i < length bufs" by fact
    show "bufs ! i \<noteq> []" "m = hd (bufs ! i)" "bufs' = bufs[i := tl (bufs ! i)]"
      using b bufs' by simp_all
    show "msg_cycle m \<le> msg_cycle (hd b)" if "b \<in> set bufs" "b \<noteq> []" for b
      using that min [of _ 0 "msg_cycle (hd b)"] head_candidate_nonempty [of b] mc
      by (auto simp: in_set_conv_nth)
    show "msg_cycle m < msg_cycle (hd (bufs ! k))" if "k < i" "bufs ! k \<noteq> []" for k
      using that i min [of k] head_candidate_nonempty [of "bufs ! k"] mc by auto
  qed
qed

lemma FCFS_elect_NoneD:
  assumes "FCFS_elect t bufs = None" "b \<in> set bufs" "b \<noteq> []"
  shows "msg_cycle (hd b) = 0xFFFFFFFFFFFFFFFF"
proof -
  let ?M = "0xFFFFFFFFFFFFFFFF :: u64"
  from assms(1) have "fcfs_loop 0 bufs None ?M = None"
    by (auto simp: FCFS_elect_def split: option.splits)
  then have "min_loop head_candidate 0 bufs None ?M = None"
    using fcfs_loop_min [of 0 bufs None ?M] by simp
  with min_loop_spec [of head_candidate 0 bufs None ?M] assms(2) head_candidate_nonempty [OF assms(3)]
  have "?M \<le> msg_cycle (hd b)"
    by (auto simp: in_set_conv_nth)
  then show ?thesis by (rule max_cycle_leD)
qed

lemma FCFS_elect_takes_one:
  assumes "FCFS_elect t bufs = Some (m, bufs')"
  shows "takes_one bufs m bufs'"
  using assms
proof (rule FCFS_elect_SomeE)
  fix i
  assume "i < length bufs" "bufs ! i \<noteq> []" "m = hd (bufs ! i)" "bufs' = bufs[i := tl (bufs ! i)]"
  then show ?thesis
    using takes_oneI [of i bufs 0] by (auto simp: neq_Nil_conv)
qed

section \<open>Messages an arbiter can serve\<close>

text \<open>
  \<open>servable\<close>: some queue's first message of the owner carries a cycle below the start value of
  \<open>best_cycle\<close>.
\<close>

definition servable :: "buffers \<Rightarrow> int \<Rightarrow> bool" where
  "servable bufs own \<longleftrightarrow>
     (\<exists>b\<in>set bufs. case findMessage b own of
                     None \<Rightarrow> False | Some j \<Rightarrow> msg_cycle (b ! j) \<noteq> 0xFFFFFFFFFFFFFFFF)"

lemma oldest_owned_loop_None:
  "oldest_owned_loop i bs own None 0xFFFFFFFFFFFFFFFF = None \<longleftrightarrow> \<not> servable bs own"
proof -
  have lt: "c < 0xFFFFFFFFFFFFFFFF \<longleftrightarrow> c \<noteq> (0xFFFFFFFFFFFFFFFF :: u64)" for c
    using max_cycle_leD [of c] by (auto simp: not_less [symmetric])
  have some: "oldest_owned_loop i bs own (Some p) bc \<noteq> None" for i p bs bc
    by (induction bs arbitrary: i p bc) (auto split: option.splits)
  show ?thesis
    by (induction bs arbitrary: i) (auto simp: servable_def lt some split: option.splits)
qed

lemma electOldestOwned_None: "electOldestOwned bufs own = None \<longleftrightarrow> \<not> servable bufs own"
  using oldest_owned_loop_None [of 0 bufs own]
  by (auto simp: electOldestOwned_def split: option.splits)

text \<open>The message elected for an owner depends on the messages of that owner only.\<close>

definition owned :: "int \<Rightarrow> message list \<Rightarrow> message list" where
  "owned own b = filter (\<lambda>m. uint (owner m) = own) b"

lemma findMessage_owned:
  "findMessage b own = None \<Longrightarrow> owned own b = []"
  "findMessage b own = Some j \<Longrightarrow> owned own b = b ! j # tl (owned own b)"
  unfolding findMessage_def owned_def
  by (induction b arbitrary: j) (auto split: if_splits)

lemma oldest_owned_loop_owned:
  "map_option fst (oldest_owned_loop i bs own best bc)
   = fcfs_loop i (map (owned own) bs) (map_option fst best) bc"
proof (induction i bs own best bc rule: oldest_owned_loop.induct)
  case (2 i b bs own best bc)
  show ?case
  proof (cases "findMessage b own")
    case None
    then show ?thesis using 2 by (simp add: findMessage_owned(1))
  next
    case (Some j)
    then have "owned own b \<noteq> []" "owned own b ! 0 = b ! j"
      using findMessage_owned(2) [OF Some] by (metis list.distinct(1), metis nth_Cons_0)
    with Some 2 show ?thesis by simp
  qed
qed simp

lemma electOldestOwned_owned:
  "map_option fst (electOldestOwned bufs own)
   = map_option fst (FCFS_elect t (map (owned own) bufs))"
proof (cases "electOldestOwned bufs own")
  case None
  then show ?thesis
    using oldest_owned_loop_owned [of 0 bufs own None "0xFFFFFFFFFFFFFFFF", symmetric]
    by (auto simp: electOldestOwned_def FCFS_elect_def split: option.splits prod.splits)
next
  case (Some r)
  obtain m bufs' where r: "electOldestOwned bufs own = Some (m, bufs')"
    using Some by (cases r) auto
  obtain i j where loop: "oldest_owned_loop 0 bufs own None 0xFFFFFFFFFFFFFFFF = Some (i, j)"
    and m: "m = bufs ! i ! j"
    using r by (auto simp: electOldestOwned_def split: option.splits)
  have ij: "i < length bufs \<and> findMessage (bufs ! i) own = Some j"
    using min_loop_spec [of "owned_candidate own" 0 bufs None "0xFFFFFFFFFFFFFFFF"] loop
    by (auto simp: oldest_owned_loop_min owned_candidate_def)
  have "fcfs_loop 0 (map (owned own) bufs) None 0xFFFFFFFFFFFFFFFF = Some i"
    using oldest_owned_loop_owned [of 0 bufs own None "0xFFFFFFFFFFFFFFFF"] loop by simp
  moreover have "map (owned own) bufs ! i ! 0 = m"
    using ij m findMessage_owned(2) [of "bufs ! i" own j] by (metis nth_Cons_0 nth_map)
  ultimately show ?thesis
    using r by (simp add: FCFS_elect_def)
qed

lemma takes_one_owned:
  assumes "takes_one bufs m bufs'"
  obtains i where "i < length bufs" "owned own (bufs ! i) = owned own [m] @ owned own (bufs' ! i)"
    "\<And>k. k \<noteq> i \<Longrightarrow> bufs' ! k = bufs ! k"
  using assms
proof (rule takes_one_owner_fifo)
  fix i
  assume i: "i < length bufs"
    "filter (\<lambda>x. owner x = owner m) (bufs ! i) = m # filter (\<lambda>x. owner x = owner m) (bufs' ! i)"
    "\<And>k. k \<noteq> i \<Longrightarrow> bufs' ! k = bufs ! k"
    "\<And>own. own \<noteq> owner m \<Longrightarrow>
       filter (\<lambda>x. owner x = own) (bufs' ! i) = filter (\<lambda>x. owner x = own) (bufs ! i)"
  have "owned own (bufs ! i) = owned own [m] @ owned own (bufs' ! i)"
  proof (cases "\<exists>w::u16. uint w = own")
    case True
    then obtain w :: u16 where w: "own = uint w" by auto
    show ?thesis
      using i(2) i(4) [of w] unfolding owned_def w by (cases "w = owner m") (auto simp: word_uint_eq_iff [symmetric])
  next
    case False
    then show ?thesis by (auto simp: owned_def)
  qed
  with i(1,3) show thesis by (intro that) auto
qed

section \<open>Round robin\<close>

lemma RR_selectCandidate_fields [simp]:
  "m_candidates_ids (RR_selectCandidate a) = m_candidates_ids a"
  "candidate_index (RR_selectCandidate a) = Suc (candidate_index a) mod length (m_candidates_ids a)"
  "candidate_id (RR_selectCandidate a)
   = m_candidates_ids a ! (Suc (candidate_index a) mod length (m_candidates_ids a))"
  by (simp_all add: RR_selectCandidate_def Let_def)

lemma RR_elect_loop_spec:
  assumes "RR_elect_loop n a bufs = (a', r)" and "m_candidates_ids a = ids" and "ids \<noteq> []"
  shows "m_candidates_ids a' = ids \<and>
    (case r of
       None \<Rightarrow> \<forall>d\<in>{1..n}. \<not> servable bufs (ids ! ((candidate_index a + d) mod length ids))
     | Some (m, bufs') \<Rightarrow>
         \<exists>d\<in>{1..n}. candidate_index a' = (candidate_index a + d) mod length ids \<and>
           electOldestOwned bufs (ids ! candidate_index a') = Some (m, bufs') \<and>
           (\<forall>e\<in>{1..<d}. \<not> servable bufs (ids ! ((candidate_index a + e) mod length ids))))"
  using assms
proof (induction n arbitrary: a)
  case 0
  then show ?case by auto
next
  case (Suc n)
  let ?a = "RR_selectCandidate a"
  let ?N = "length ids"
  have shift: "(candidate_index ?a + d) mod ?N = (candidate_index a + Suc d) mod ?N" for d
    by (simp add: Suc.prems(2) mod_add_left_eq)
  show ?case
  proof (cases "electOldestOwned bufs (candidate_id ?a)")
    case (Some r')
    then have "a' = ?a" "r = Some r'"
      using Suc.prems(1) by (auto simp: RR_coreElect_def Let_def)
    with Some Suc.prems(2,3) show ?thesis
      by (auto intro!: bexI [of _ 1] split: prod.splits)
  next
    case None
    then have rec: "RR_elect_loop n ?a bufs = (a', r)"
      using Suc.prems(1) by (simp add: RR_coreElect_def Let_def)
    have none: "\<not> servable bufs (ids ! ((candidate_index a + 1) mod ?N))"
      using None Suc.prems(2) by (simp add: electOldestOwned_None)
    note IH = Suc.IH [OF rec, unfolded shift, simplified Suc.prems(2) RR_selectCandidate_fields, OF refl Suc.prems(3)]
    show ?thesis
    proof (cases r)
      case r: None
      have "\<not> servable bufs (ids ! ((candidate_index a + d) mod ?N))" if "d \<in> {1..Suc n}" for d
        using that IH r none by (cases d) (auto simp: Suc_le_eq, (case_tac nat, auto)?)
      with IH r show ?thesis by auto
    next
      case (Some p)
      obtain m bufs' where p: "p = (m, bufs')" by (cases p)
      from IH Some p obtain d where d: "d \<in> {1..n}"
        "candidate_index a' = (candidate_index a + Suc d) mod ?N"
        "electOldestOwned bufs (ids ! candidate_index a') = Some (m, bufs')"
        "\<forall>e\<in>{1..<d}. \<not> servable bufs (ids ! ((candidate_index a + Suc e) mod ?N))"
        by auto
      have "\<not> servable bufs (ids ! ((candidate_index a + e) mod ?N))" if e: "e \<in> {1..<Suc d}" for e
      proof (cases "e = 1")
        case True
        then show ?thesis using none by simp
      next
        case False
        then obtain e' where "e = Suc e'" "e' \<in> {1..<d}" using e by (cases e) auto
        then show ?thesis using d(4) by simp
      qed
      with d IH Some p show ?thesis by (auto intro!: bexI [of _ "Suc d"])
    qed
  qed
qed

text \<open>\<open>rr_distance\<close>: how many selections until the candidate at index \<open>k\<close> is tried.\<close>

definition rr_distance :: "nat \<Rightarrow> nat \<Rightarrow> nat \<Rightarrow> nat" where
  "rr_distance n ci k = (if ci mod n < k then k - ci mod n else k + n - ci mod n)"

lemma rr_distance_bounds:
  assumes "k < n"
  shows "1 \<le> rr_distance n ci k" "rr_distance n ci k \<le> n"
  using assms mod_less_divisor [of n ci] unfolding rr_distance_def by (auto simp del: mod_less_divisor)

lemma rr_distance_reaches:
  assumes "k < n"
  shows "(ci + rr_distance n ci k) mod n = k"
proof -
  have lt: "ci mod n < n" using assms by simp
  have "(ci + rr_distance n ci k) mod n = (ci mod n + rr_distance n ci k) mod n"
    by (simp add: mod_add_left_eq)
  also have "\<dots> = k"
  proof (cases "ci mod n < k")
    case False
    then have "ci mod n + rr_distance n ci k = k + n" using lt by (simp add: rr_distance_def)
    then show ?thesis using assms by (metis mod_add_self2 mod_less)
  qed (use assms in \<open>simp add: rr_distance_def\<close>)
  finally show ?thesis .
qed

lemma rr_distance_advance:
  assumes "k < n" "1 \<le> d" "d < rr_distance n ci k"
  shows "rr_distance n ((ci + d) mod n) k = rr_distance n ci k - d"
proof -
  have lt: "ci mod n < n" using assms(1) by simp
  have "(ci + d) mod n = (ci mod n + d) mod n" by (simp add: mod_add_left_eq)
  also have "\<dots> = (if ci mod n + d < n then ci mod n + d else ci mod n + d - n)"
  proof (cases "ci mod n + d < n")
    case False
    have "ci mod n + d - n < n"
      using lt assms(3) rr_distance_bounds(2) [OF assms(1), of ci] by linarith
    then show ?thesis using False by (simp add: le_mod_geq)
  qed simp
  finally show ?thesis
    using lt assms unfolding rr_distance_def by (auto split: if_splits)
qed

lemma RR_elect_progress:
  assumes "k < length (m_candidates_ids a)"
    and "servable bufs (m_candidates_ids a ! k)"
  obtains a' m bufs' where "RR_elect a t bufs = (a', Some (m, bufs'))"
    "m_candidates_ids a' = m_candidates_ids a"
    "uint (owner m) = m_candidates_ids a ! k \<or>
     rr_distance (length (m_candidates_ids a)) (candidate_index a') k
       < rr_distance (length (m_candidates_ids a)) (candidate_index a) k"
proof -
  let ?ids = "m_candidates_ids a"
  let ?n = "length ?ids"
  let ?D = "rr_distance ?n (candidate_index a) k"
  obtain a' r where run: "RR_elect a t bufs = (a', r)" by (cases "RR_elect a t bufs")
  have ne: "?ids \<noteq> []" using assms(1) by auto
  note spec = RR_elect_loop_spec [OF run [unfolded RR_elect_def] refl ne]
  note D = rr_distance_bounds [OF assms(1), of "candidate_index a"]
    rr_distance_reaches [OF assms(1), of "candidate_index a"]
  have "r \<noteq> None"
  proof
    assume "r = None"
    with spec have "\<forall>d\<in>{1..?n}. \<not> servable bufs (?ids ! ((candidate_index a + d) mod ?n))" by simp
    moreover have "?D \<in> {1..?n}" using D by simp
    ultimately show False using D(3) assms(2) by metis
  qed
  then obtain m bufs' where r: "r = Some (m, bufs')" by auto
  from spec r obtain d where d: "d \<in> {1..?n}" "candidate_index a' = (candidate_index a + d) mod ?n"
    "electOldestOwned bufs (?ids ! candidate_index a') = Some (m, bufs')"
    "\<forall>e\<in>{1..<d}. \<not> servable bufs (?ids ! ((candidate_index a + e) mod ?n))"
    and ids: "m_candidates_ids a' = ?ids"
    by auto
  have "d \<le> ?D"
  proof (rule ccontr)
    assume "\<not> d \<le> ?D"
    then have "?D \<in> {1..<d}" using D by simp
    with d(4) D(3) assms(2) show False by metis
  qed
  then have "uint (owner m) = ?ids ! k \<or> rr_distance ?n (candidate_index a') k < ?D"
  proof (cases "d = ?D")
    case True
    then show ?thesis using d(2,3) D(3) electOldestOwned_takes_one(2) by auto
  next
    case False
    then show ?thesis
      using \<open>d \<le> ?D\<close> d(1,2) rr_distance_advance [OF assms(1), of d "candidate_index a"] by auto
  qed
  with run r ids show thesis by (intro that) auto
qed

text \<open>A run of elections: at each arbitration the queues may have changed.\<close>

fun RR_run :: "rr_arbiter \<Rightarrow> (u64 \<times> buffers) list \<Rightarrow> (message \<times> buffers) option list" where
  "RR_run a [] = []"
| "RR_run a ((t, bufs) # ins) = (case RR_elect a t bufs of (a', r) \<Rightarrow> r # RR_run a' ins)"

lemma RR_run_waiting:
  assumes "k < length (m_candidates_ids a)"
    and "rr_distance (length (m_candidates_ids a)) (candidate_index a) k \<le> n"
    and "n \<le> length ins"
    and "\<forall>(t, bufs)\<in>set (take n ins). servable bufs (m_candidates_ids a ! k)"
  shows "\<exists>i<n. \<exists>m bufs'. RR_run a ins ! i = Some (m, bufs') \<and> uint (owner m) = m_candidates_ids a ! k"
  using assms
proof (induction n arbitrary: a ins)
  case 0
  then show ?case
    using rr_distance_bounds(1) [OF 0(1), of "candidate_index a"] by linarith
next
  case (Suc n)
  obtain t bufs ins' where ins: "ins = (t, bufs) # ins'" using Suc.prems(3) by (cases ins) auto
  obtain a' m bufs' where step: "RR_elect a t bufs = (a', Some (m, bufs'))"
    "m_candidates_ids a' = m_candidates_ids a"
    "uint (owner m) = m_candidates_ids a ! k \<or>
     rr_distance (length (m_candidates_ids a)) (candidate_index a') k
       < rr_distance (length (m_candidates_ids a)) (candidate_index a) k"
    by (rule RR_elect_progress [OF Suc.prems(1), of bufs t]) (use Suc.prems(4) ins in auto)
  from step(3) show ?case
  proof
    assume "uint (owner m) = m_candidates_ids a ! k"
    then show ?thesis using ins step(1) by (intro exI [of _ 0]) auto
  next
    assume lt: "rr_distance (length (m_candidates_ids a)) (candidate_index a') k
       < rr_distance (length (m_candidates_ids a)) (candidate_index a) k"
    have "\<exists>i<n. \<exists>m bufs'. RR_run a' ins' ! i = Some (m, bufs') \<and> uint (owner m) = m_candidates_ids a' ! k"
      by (rule Suc.IH) (use Suc.prems ins step(2) lt in auto)
    then show ?thesis
      using ins step(1,2) by (metis (no_types, lifting) RR_run.simps(2) Suc_less_eq case_prod_conv nth_Cons_Suc)
  qed
qed

section \<open>Time division\<close>

fun TDM_run ::
  "arbiter_base \<Rightarrow> (u64 \<times> buffers) list \<Rightarrow> (message \<times> buffers) option list result" where
  "TDM_run a [] = Inr []"
| "TDM_run a ((t, bufs) # ins) =
     result_bind (TDM_elect a t bufs)
       (\<lambda>(a', r). result_bind (TDM_run a' ins) (\<lambda>rs. Inr (r # rs)))"

text \<open>What an election does for one core.\<close>

definition served :: "int \<Rightarrow> (message \<times> buffers) option \<Rightarrow> message option" where
  "served own r = (case r of Some (m, _) \<Rightarrow> if uint (owner m) = own then Some m else None
                           | None \<Rightarrow> None)"

definition served_run :: "int \<Rightarrow> (message \<times> buffers) option list result \<Rightarrow> message option list result" where
  "served_run own r = result_bind r (\<lambda>rs. Inr (map (served own) rs))"

lemma served_electOldestOwned:
  assumes "map (owned own) bufs1 = map (owned own) bufs2"
  shows "served own (electOldestOwned bufs1 c) = served own (electOldestOwned bufs2 c)"
proof (cases "c = own")
  case True
  have "map_option fst (electOldestOwned bufs1 own) = map_option fst (electOldestOwned bufs2 own)"
    unfolding electOldestOwned_owned [where t = 0] assms ..
  then show ?thesis
    unfolding True served_def
    by (cases "electOldestOwned bufs1 own"; cases "electOldestOwned bufs2 own")
      (simp_all add: case_prod_beta)
next
  case False
  have "served own (electOldestOwned bufs c) = None" for bufs
  proof (cases "electOldestOwned bufs c")
    case (Some r)
    then show ?thesis
      using False electOldestOwned_takes_one(2) [of bufs c "fst r" "snd r"]
      by (simp add: served_def case_prod_beta)
  qed (simp add: served_def)
  then show ?thesis by simp
qed

lemma TDM_elect_cases:
  obtains (error) e where "\<And>bufs. TDM_elect a t bufs = Inl e"
  | (idle) a' where "\<And>bufs. TDM_elect a t bufs = Inr (a', None)"
  | (slot) a' c where "\<And>bufs. TDM_elect a t bufs = Inr (a', electOldestOwned bufs c)"
proof (cases "word_of_int (m_arbiter_period a) = (0 :: u64)")
  case True
  then show thesis by (intro error) (simp add: TDM_elect_def)
next
  case nonzero: False
  show thesis
  proof (cases "t mod word_of_int (m_arbiter_period a) = 0")
    case False
    with nonzero show ?thesis by (intro idle) (simp add: TDM_elect_def)
  next
    case True
    show ?thesis
    proof (cases "TDM_selectCandidate a t")
      case (Inl e)
      with nonzero True show ?thesis by (intro error) (simp add: TDM_elect_def TDM_coreElect_def)
    next
      case (Inr r)
      with nonzero True show ?thesis
        by (intro slot [of "fst r" "snd r"])
          (simp add: TDM_elect_def TDM_coreElect_def case_prod_beta)
    qed
  qed
qed

lemma TDM_run_isolation:
  assumes "list_all2 (\<lambda>(t1, b1) (t2, b2). t1 = t2 \<and> map (owned own) b1 = map (owned own) b2) ins1 ins2"
  shows "served_run own (TDM_run a ins1) = served_run own (TDM_run a ins2)"
  using assms
proof (induction ins1 ins2 arbitrary: a rule: list_all2_induct)
  case Nil
  show ?case by simp
next
  case (Cons x xs y ys)
  obtain t b1 b2 where xy: "x = (t, b1)" "y = (t, b2)" "map (owned own) b1 = map (owned own) b2"
    using Cons.hyps by (cases x; cases y) auto
  have srv: "served own (electOldestOwned b1 c) = served own (electOldestOwned b2 c)" for c
    using xy(3) by (rule served_electOldestOwned)
  have step: "served_run own (result_bind (TDM_run a' xs) (\<lambda>rs. Inr (r1 # rs)))
      = served_run own (result_bind (TDM_run a' ys) (\<lambda>rs. Inr (r2 # rs)))"
    if "served own r1 = served own r2" for a' r1 r2
    using that Cons.IH [of a'] unfolding served_run_def
    by (cases "TDM_run a' xs"; cases "TDM_run a' ys") auto
  show ?case
    by (cases a t rule: TDM_elect_cases) (simp_all add: xy(1,2) step srv)
qed

lemma TDM_elect_slot:
  assumes "word_of_int (m_arbiter_period a) \<noteq> (0 :: u64)" "m_candidates_ids a \<noteq> []"
  shows "TDM_elect a t bufs =
    (if t mod word_of_int (m_arbiter_period a) \<noteq> 0 then Inr (a, None)
     else let i = (candidate_index a + 1) mod length (m_candidates_ids a)
          in Inr (a\<lparr>candidate_index := i\<rparr>, electOldestOwned bufs (m_candidates_ids a ! i)))"
  using assms by (simp add: TDM_elect_def TDM_coreElect_def TDM_selectCandidate_def Let_def)

section \<open>The contract of an arbiter\<close>

locale electing =
  fixes elect :: "'a \<Rightarrow> u64 \<Rightarrow> buffers \<Rightarrow> ('a \<times> (message \<times> buffers) option) result"
  assumes elect_takes_one: "elect a t bufs = Inr (a', Some (m, bufs')) \<Longrightarrow> takes_one bufs m bufs'"

text \<open>Elections, one after the other, on queues nothing is added to.\<close>

fun election_run ::
  "('a \<Rightarrow> u64 \<Rightarrow> buffers \<Rightarrow> ('a \<times> (message \<times> buffers) option) result)
   \<Rightarrow> 'a \<Rightarrow> u64 list \<Rightarrow> buffers \<Rightarrow> ('a \<times> message list \<times> buffers) result" where
  "election_run e a [] bufs = Inr (a, [], bufs)"
| "election_run e a (t # ts) bufs =
     result_bind (e a t bufs)
       (\<lambda>(a', r). case r of
          None \<Rightarrow> election_run e a' ts bufs
        | Some (m, bufs') \<Rightarrow>
            result_bind (election_run e a' ts bufs')
              (\<lambda>(a'', ms, bufs''). Inr (a'', m # ms, bufs'')))"

context electing
begin

lemma elect_conserves:
  "elect a t bufs = Inr (a', Some (m, bufs')) \<Longrightarrow> add_mset m (mset (concat bufs')) = mset (concat bufs)"
  by (rule takes_one_mset [OF elect_takes_one])

lemma elect_length: "elect a t bufs = Inr (a', Some (m, bufs')) \<Longrightarrow> length bufs' = length bufs"
  by (rule takes_one_length [OF elect_takes_one])

lemma elect_mem: "elect a t bufs = Inr (a', Some (m, bufs')) \<Longrightarrow> m \<in> set (concat bufs)"
  by (rule takes_one_mem [OF elect_takes_one])

lemma run_conserves:
  "election_run elect a ts bufs = Inr (a', ms, bufs') \<Longrightarrow>
   mset ms + mset (concat bufs') = mset (concat bufs)"
proof (induction ts arbitrary: a bufs ms)
  case (Cons t ts)
  from Cons.prems obtain a1 r where e: "elect a t bufs = Inr (a1, r)"
    by (auto simp: result_bind_Inr_iff)
  show ?case
  proof (cases r)
    case None
    then show ?thesis using Cons.prems e by (auto intro: Cons.IH)
  next
    case (Some p)
    then obtain m bufs1 where p: "r = Some (m, bufs1)" by (cases p) auto
    from Cons.prems e p obtain ms1 where
      "election_run elect a1 ts bufs1 = Inr (a', ms1, bufs')" "ms = m # ms1"
      by (auto simp: result_bind_Inr_iff)
    then show ?thesis using Cons.IH elect_conserves e p by fastforce
  qed
qed simp

text \<open>One owner's messages, queued in one buffer, leave in the order they were queued.\<close>

lemma run_owner_fifo:
  assumes "election_run elect a ts bufs = Inr (a', ms, bufs')"
    and "\<And>k. k < length bufs \<Longrightarrow> k \<noteq> i \<Longrightarrow> owned own (bufs ! k) = []"
    and "i < length bufs"
  shows "owned own ms @ owned own (bufs' ! i) = owned own (bufs ! i)"
  using assms
proof (induction ts arbitrary: a bufs ms)
  case Nil
  then show ?case by (simp add: owned_def)
next
  case (Cons t ts)
  from Cons.prems(1) obtain a1 r where e: "elect a t bufs = Inr (a1, r)"
    by (auto simp: result_bind_Inr_iff)
  show ?case
  proof (cases r)
    case None
    then show ?thesis using Cons e by auto
  next
    case (Some p)
    then obtain m bufs1 where p: "r = Some (m, bufs1)" by (cases p) auto
    from Cons.prems(1) e p obtain ms1 where
      rest: "election_run elect a1 ts bufs1 = Inr (a', ms1, bufs')" "ms = m # ms1"
      by (auto simp: result_bind_Inr_iff)
    have t1: "takes_one bufs m bufs1" using e p by (blast intro: elect_takes_one)
    from takes_one_owned [OF t1, of own] obtain j where
      j: "j < length bufs" "owned own (bufs ! j) = owned own [m] @ owned own (bufs1 ! j)"
        "\<And>k. k \<noteq> j \<Longrightarrow> bufs1 ! k = bufs ! k" by blast
    have len: "length bufs1 = length bufs" using t1 by (rule takes_one_length)
    have others: "owned own (bufs1 ! k) = []" if "k < length bufs1" "k \<noteq> i" for k
      using that Cons.prems(2) [of k] j len by (cases "k = j") auto
    have "owned own (bufs ! i) = owned own [m] @ owned own (bufs1 ! i)"
    proof (cases "j = i")
      case False
      then have "owned own [m] = []" using Cons.prems(2) [OF j(1) False] j(2) by simp
      then show ?thesis using j(3) False by simp
    qed (use j in simp)
    moreover have "owned own ms1 @ owned own (bufs' ! i) = owned own (bufs1 ! i)"
      using Cons.IH [OF rest(1) others] Cons.prems(3) len by simp
    ultimately show ?thesis using rest(2) by (simp add: owned_def)
  qed
qed

end

section \<open>The code's arbiters keep the contract\<close>

lemma RR_elect_takes_one:
  assumes "RR_elect a t bufs = (a', Some (m, bufs'))"
  shows "takes_one bufs m bufs'"
proof -
  have "RR_elect_loop n a bufs = (a', Some (m, bufs')) \<Longrightarrow> takes_one bufs m bufs'" for n
    by (induction n arbitrary: a)
      (auto simp: Let_def RR_coreElect_def electOldestOwned_takes_one split: option.splits)
  then show ?thesis using assms by (simp add: RR_elect_def)
qed

lemma TDM_coreElect_takes_one:
  "TDM_coreElect a t bufs = Inr (a', Some (m, bufs')) \<Longrightarrow> takes_one bufs m bufs'"
  by (auto simp: TDM_coreElect_def electOldestOwned_takes_one)

lemma TDM_elect_takes_one:
  "TDM_elect a t bufs = Inr (a', Some (m, bufs')) \<Longrightarrow> takes_one bufs m bufs'"
  by (auto simp: TDM_elect_def TDM_coreElect_takes_one split: if_splits)

interpretation fcfs: electing "\<lambda>(a :: arbiter_base) t bufs. Inr (a, FCFS_elect t bufs)"
  by unfold_locales (auto intro: FCFS_elect_takes_one)

interpretation rr: electing "\<lambda>a t bufs. Inr (RR_elect a t bufs)"
  by unfold_locales (auto intro: RR_elect_takes_one)

interpretation tdm: electing TDM_elect
  by unfold_locales (rule TDM_elect_takes_one)

interpretation any_arbiter: electing arbiter_elect
proof
  fix a t bufs a' m bufs'
  assume "arbiter_elect a t bufs = Inr (a', Some (m, bufs'))"
  then show "takes_one bufs m bufs'"
    by (cases a) (auto intro: FCFS_elect_takes_one RR_elect_takes_one TDM_elect_takes_one
        split: prod.splits)
qed

interpretation forced: electing arbiter_forceElect
proof
  fix a t bufs a' m bufs'
  assume "arbiter_forceElect a t bufs = Inr (a', Some (m, bufs'))"
  then show "takes_one bufs m bufs'"
    by (cases a) (auto simp: RR_forceElect_def RR_coreElect_def electOldestOwned_takes_one
        intro: FCFS_elect_takes_one TDM_coreElect_takes_one split: prod.splits)
qed

lemma arbiter_elect_total:
  "\<exists>e. arbiter_elect (FCFSArbiter b) t bufs = Inr e"
  "\<exists>e. arbiter_elect (RRArbiter r) t bufs = Inr e"
  by (auto split: prod.splits)

lemma electOldestOwned_min:
  "electOldestOwned bufs own = Some (m, bufs') \<Longrightarrow> b \<in> set bufs \<Longrightarrow>
   findMessage b own = Some j \<Longrightarrow> msg_cycle m \<le> msg_cycle (b ! j)"
  by (erule electOldestOwned_SomeE) (metis in_set_conv_nth)

lemma findMessage_oldest:
  assumes "sorted_wrt (\<lambda>x y. owner x = owner y \<longrightarrow> msg_cycle x \<le> msg_cycle y) b"
    and "x \<in> set b" and "uint (owner x) = own"
  obtains j where "findMessage b own = Some j" "msg_cycle (b ! j) \<le> msg_cycle x"
proof -
  from assms(2,3) obtain j where j: "findMessage b own = Some j"
    using findMessage_None by fastforce
  from assms(2) obtain k where k: "k < length b" "b ! k = x" by (auto simp: in_set_conv_nth)
  note D = findMessage_SomeD [OF j]
  have own: "owner (b ! j) = owner x" using D(2) assms(3) by (simp add: word_uint_eq_iff)
  have "msg_cycle (b ! j) \<le> msg_cycle x"
  proof (cases "k \<le> j")
    case True
    then show ?thesis using D(3) [of k] k own by (cases "k = j") auto
  next
    case False
    then show ?thesis using sorted_wrt_nth_less [OF assms(1), of j k] k own by auto
  qed
  with j show thesis by (rule that)
qed

section \<open>Properties\<close>

definition example_message :: "u64 \<Rightarrow> u64 \<Rightarrow> u16 \<Rightarrow> message" where
  "example_message mid c own = new_message mid 0 c 0 own"

lemma example_message_fields [simp]:
  "owner (example_message mid c own) = own" "msg_cycle (example_message mid c own) = c"
  "msg_id (example_message mid c own) = mid"
  by (simp_all add: example_message_def new_message_def)

text \<open>
  Whatever sequence of elections any arbiter performs on the senders' queues, no message is lost or
  duplicated: the elected messages and the remaining ones together are the original ones; and the messages
  a sender queued in its buffer are elected in the order it queued them.
\<close>

lemma elections_conserve_and_keep_order:
  assumes "election_run arbiter_elect a ts bufs = Inr (a', ms, bufs')"
  shows "mset ms + mset (concat bufs') = mset (concat bufs) \<and>
    (i < length bufs \<and> (\<forall>k<length bufs. k \<noteq> i \<longrightarrow> owned own (bufs ! k) = []) \<longrightarrow>
     owned own ms @ owned own (bufs' ! i) = owned own (bufs ! i))"
  using any_arbiter.run_conserves [OF assms] any_arbiter.run_owner_fifo [OF assms] by auto

lemma elections_conserve_and_keep_order_witness:
  "case election_run arbiter_elect (RRArbiter (new_RRArbiter [0, 1] 1)) [5, 6, 7]
     [[example_message 1 3 0, example_message 2 4 0], [example_message 3 1 1]] of
     Inl e \<Rightarrow> False
   | Inr (a', ms, bufs') \<Rightarrow>
       map msg_id ms = [3, 1, 2] \<and>
       owned 0 ms @ owned 0 (bufs' ! 0) = [example_message 1 3 0, example_message 2 4 0]"
proof -
  let ?bufs = "[[example_message 1 3 0, example_message 2 4 0], [example_message 3 1 1]]"
  have "case election_run arbiter_elect (RRArbiter (new_RRArbiter [0, 1] 1)) [5, 6, 7] ?bufs of
      Inl e \<Rightarrow> False | Inr r \<Rightarrow> map msg_id (fst (snd r)) = [3, 1, 2]"
    by code_simp
  then obtain a' ms bufs' where run:
    "election_run arbiter_elect (RRArbiter (new_RRArbiter [0, 1] 1)) [5, 6, 7] ?bufs = Inr (a', ms, bufs')"
    and ids: "map msg_id ms = [3, 1, 2]"
    by (rule case_InrE) (metis fst_conv snd_conv prod.exhaust)
  from elections_conserve_and_keep_order [OF run, of 0 0]
  have "owned 0 ms @ owned 0 (bufs' ! 0) = [example_message 1 3 0, example_message 2 4 0]"
    by (simp add: owned_def less_Suc_eq_0_disj)
  with run ids show ?thesis by simp
qed

text \<open>
  C39. Round robin bounds waiting: when in each of the next \<open>n\<close> arbitrations (\<open>n\<close> the number of
  candidates) core \<open>k\<close> has a message queued, one of those arbitrations elects a message of core \<open>k\<close>,
  whatever the other cores do.
\<close>

theorem RR_bounded_waiting:
  assumes "k < length (m_candidates_ids a)"
    and "length (m_candidates_ids a) \<le> length ins"
    and "\<forall>(t, bufs)\<in>set (take (length (m_candidates_ids a)) ins). servable bufs (m_candidates_ids a ! k)"
  shows "\<exists>i<length (m_candidates_ids a). \<exists>m bufs'.
           RR_run a ins ! i = Some (m, bufs') \<and> uint (owner m) = m_candidates_ids a ! k"
  using assms rr_distance_bounds(2) [OF assms(1)] by (intro RR_run_waiting)

theorem RR_bounded_waiting_witness:
  "\<exists>i<length [0, 1 :: int]. \<exists>m bufs'.
     RR_run (new_RRArbiter [0, 1] 1)
       [(5, [[example_message 1 3 0], [example_message 3 1 1]]),
        (6, [[example_message 1 3 0], [example_message 4 6 1]])] ! i
     = Some (m, bufs') \<and> uint (owner m) = 0"
  using RR_bounded_waiting [of 0 "new_RRArbiter [0, 1] 1"
      "[(5, [[example_message 1 3 0], [example_message 3 1 1]]),
        (6, [[example_message 1 3 0], [example_message 4 6 1]])]"]
  by (simp add: servable_def findMessage_def new_RRArbiter_def del: RR_run.simps)

text \<open>
  C26. Time division isolates the cores: in two runs over the same cycles in which one core queues the same
  messages, the core is served the same messages at the same cycles, whatever the other cores queue.
\<close>

theorem TDM_timing_isolation:
  assumes "list_all2 (\<lambda>(t1, b1) (t2, b2). t1 = t2 \<and> map (owned own) b1 = map (owned own) b2) ins1 ins2"
  shows "served_run own (TDM_run a ins1) = served_run own (TDM_run a ins2)"
  using assms by (rule TDM_run_isolation)

theorem TDM_timing_isolation_witness:
  "served_run 1 (TDM_run (new_arbiter_base [0, 1] 10)
      [(10, [[], [example_message 3 1 1]]), (20, [[], []])])
   = served_run 1 (TDM_run (new_arbiter_base [0, 1] 10)
      [(10, [[example_message 1 3 0], [example_message 3 1 1]]), (20, [[example_message 2 9 0], []])])
   \<and> served_run 1 (TDM_run (new_arbiter_base [0, 1] 10)
      [(10, [[], [example_message 3 1 1]]), (20, [[], []])]) = Inr [Some (example_message 3 1 1), None]"
proof
  show "served_run 1 (TDM_run (new_arbiter_base [0, 1] 10)
      [(10, [[], [example_message 3 1 1]]), (20, [[], []])])
   = served_run 1 (TDM_run (new_arbiter_base [0, 1] 10)
      [(10, [[example_message 1 3 0], [example_message 3 1 1]]), (20, [[example_message 2 9 0], []])])"
    by (rule TDM_timing_isolation) (simp add: owned_def)
  show "served_run 1 (TDM_run (new_arbiter_base [0, 1] 10)
      [(10, [[], [example_message 3 1 1]]), (20, [[], []])]) = Inr [Some (example_message 3 1 1), None]"
    by (simp add: TDM_elect_slot new_arbiter_base_def electOldestOwned_def findMessage_def served_run_def served_def)
qed

text \<open>
  First come first serve elects the head of a queue with the smallest cycle, the first such queue on a
  tie, removes it and nothing else, and elects nothing only when every head carries the largest 64-bit cycle.
\<close>

lemma FCFS_elects_oldest_head:
  "case FCFS_elect t bufs of
     None \<Rightarrow> \<forall>b\<in>set bufs. b \<noteq> [] \<longrightarrow> msg_cycle (hd b) = 0xFFFFFFFFFFFFFFFF
   | Some (m, bufs') \<Rightarrow>
       \<exists>i<length bufs. bufs ! i = m # bufs' ! i \<and> bufs' = bufs[i := tl (bufs ! i)] \<and>
         (\<forall>b\<in>set bufs. b \<noteq> [] \<longrightarrow> msg_cycle m \<le> msg_cycle (hd b)) \<and>
         (\<forall>k<i. bufs ! k \<noteq> [] \<longrightarrow> msg_cycle m < msg_cycle (hd (bufs ! k)))"
proof (cases "FCFS_elect t bufs")
  case None
  then show ?thesis using FCFS_elect_NoneD by fastforce
next
  case (Some r)
  then obtain m bufs' where r: "FCFS_elect t bufs = Some (m, bufs')" by (cases r) auto
  from r show ?thesis
    by (rule FCFS_elect_SomeE) (use r in auto)
qed

lemma FCFS_elects_oldest_head_witness:
  "\<exists>m bufs'. FCFS_elect 9 [[example_message 1 3 0], [example_message 3 1 1]] = Some (m, bufs') \<and>
     msg_cycle m \<le> 3"
proof -
  let ?bufs = "[[example_message 1 3 0], [example_message 3 1 1]]"
  have "FCFS_elect 9 ?bufs \<noteq> None" by code_simp
  then show ?thesis
    using FCFS_elects_oldest_head [where t = 9 and bufs = ?bufs] by auto
qed

text \<open>
  When every queue holds each core's messages in the order of their cycles (senders push them with the
  current cycle), the message elected for a core is the oldest of all its messages in all queues, and the
  election fails only when no queue has one with a cycle below the largest 64-bit value.
\<close>

lemma electOldestOwned_elects_oldest:
  assumes "\<forall>b\<in>set bufs. sorted_wrt (\<lambda>x y. owner x = owner y \<longrightarrow> msg_cycle x \<le> msg_cycle y) b"
  shows "case electOldestOwned bufs own of
      None \<Rightarrow> \<forall>x\<in>set (concat bufs). uint (owner x) = own \<longrightarrow> msg_cycle x = 0xFFFFFFFFFFFFFFFF
    | Some (m, bufs') \<Rightarrow> uint (owner m) = own \<and> takes_one bufs m bufs' \<and>
        (\<forall>x\<in>set (concat bufs). uint (owner x) = own \<longrightarrow> msg_cycle m \<le> msg_cycle x)"
proof -
  have first: "\<exists>j. findMessage b own = Some j \<and> msg_cycle (b ! j) \<le> msg_cycle x"
    if "b \<in> set bufs" "x \<in> set b" "uint (owner x) = own" for b x
    using findMessage_oldest [OF _ that(2,3)] assms that(1) by blast
  show ?thesis
  proof (cases "electOldestOwned bufs own")
    case None
    show ?thesis
      unfolding None
      using electOldestOwned_NoneD [OF None] first max_cycle_leD by fastforce
  next
    case (Some r)
    then obtain m bufs' where r: "electOldestOwned bufs own = Some (m, bufs')" by (cases r) auto
    note min = electOldestOwned_min [OF r]
    have "msg_cycle m \<le> msg_cycle x" if "b \<in> set bufs" "x \<in> set b" "uint (owner x) = own" for b x
      using first [OF that] min [OF that(1)] order.trans by blast
    then show ?thesis using r electOldestOwned_takes_one [OF r] by auto
  qed
qed

lemma electOldestOwned_elects_oldest_witness:
  "\<exists>m bufs'. electOldestOwned [[example_message 1 3 0, example_message 2 4 1], [example_message 3 1 1]] 1
     = Some (m, bufs') \<and> msg_cycle m \<le> 1"
proof -
  let ?bufs = "[[example_message 1 3 0, example_message 2 4 1], [example_message 3 1 1]]"
  have "electOldestOwned ?bufs 1 \<noteq> None" by code_simp
  then show ?thesis
    using electOldestOwned_elects_oldest [of ?bufs 1] by auto
qed

end
