(* ===== verification/Interfaces.thy ===== *)
theory Interfaces
  imports Arbiters
begin

text \<open>
  The bus interfaces, src/Interconnect/BusInterface.cpp and TripleBusInterface.cpp: the transmit and
  receive queues through which a component talks to a bus. The static delivery counter
  \<open>s_rx_delivery_seq\<close> is passed to and returned by the operations that advance it. Virtual
  calls are dispatched over the datatype \<open>interface\<close>. The locale \<open>rx_queue\<close> is what a
  cache controller relies on when it reads its interface.
\<close>

section \<open>Bus interface\<close>

record bus_interface =
  m_interface_id :: int
  m_buffer_selector :: int
  m_buffer_max_size :: int
  m_tx_request_buffer :: "message list"
  m_tx_response_buffer :: "message list"
  m_rx_request_buffer :: "message list"
  m_rx_response_buffer :: "message list"
  m_rx_request_seq :: "u64 list"
  m_rx_response_seq :: "u64 list"

definition new_BusInterface :: "int \<Rightarrow> int \<Rightarrow> bus_interface" where
  "new_BusInterface i buffer_max_size =
     \<lparr> m_interface_id = i, m_buffer_selector = - 1, m_buffer_max_size = buffer_max_size,
       m_tx_request_buffer = [], m_tx_response_buffer = [],
       m_rx_request_buffer = [], m_rx_response_buffer = [],
       m_rx_request_seq = [], m_rx_response_seq = [] \<rparr>"

text \<open>The loop of \<open>peekMessage\<close>; the caller starts it with two rounds.\<close>

fun Bus_peek_loop ::
  "nat \<Rightarrow> 'a bus_interface_scheme \<Rightarrow> 'a bus_interface_scheme \<times> message option" where
  "Bus_peek_loop 0 s = (s, None)"
| "Bus_peek_loop (Suc n) s =
     (if m_rx_request_buffer s \<noteq> [] \<and> m_buffer_selector s \<noteq> 0
      then (s\<lparr>m_buffer_selector := 0\<rparr>, Some (m_rx_request_buffer s ! 0))
      else if m_rx_response_buffer s \<noteq> [] \<and> m_buffer_selector s \<noteq> 1
      then (s\<lparr>m_buffer_selector := 1\<rparr>, Some (m_rx_response_buffer s ! 0))
      else Bus_peek_loop n (s\<lparr>m_buffer_selector := - 1\<rparr>))"

definition Bus_peekMessage ::
  "'a bus_interface_scheme \<Rightarrow> 'a bus_interface_scheme \<times> message option" where
  "Bus_peekMessage s = Bus_peek_loop 2 s"

text \<open>Erasing the first element of an empty vector is undefined.\<close>

definition Bus_popFrontMessage :: "'a bus_interface_scheme \<Rightarrow> 'a bus_interface_scheme result" where
  "Bus_popFrontMessage s =
     (if m_buffer_selector s = 0
      then (if m_rx_request_buffer s = [] \<or> m_rx_request_seq s = []
            then Inl (Undefined ''BusInterface: erase of an empty request buffer'')
            else Inr (s\<lparr>m_rx_request_buffer := erase_at 0 (m_rx_request_buffer s),
                        m_rx_request_seq := erase_at 0 (m_rx_request_seq s)\<rparr>))
      else if m_buffer_selector s = 1
      then (if m_rx_response_buffer s = [] \<or> m_rx_response_seq s = []
            then Inl (Undefined ''BusInterface: erase of an empty response buffer'')
            else Inr (s\<lparr>m_rx_response_buffer := erase_at 0 (m_rx_response_buffer s),
                        m_rx_response_seq := erase_at 0 (m_rx_response_seq s)\<rparr>))
      else Inr s)"

text \<open>The caller's message is passed by reference: it comes back with its new fields.\<close>

definition stamp_message :: "'a bus_interface_scheme \<Rightarrow> message \<Rightarrow> u64 \<Rightarrow> message" where
  "stamp_message s m cyc =
     (if cyc \<noteq> 0 then m\<lparr>msg_cycle := cyc\<rparr> else m)\<lparr>msg_from := word_of_int (m_interface_id s)\<rparr>"

definition Bus_pushMessage ::
  "'a bus_interface_scheme \<Rightarrow> message \<Rightarrow> u64 \<Rightarrow> message_type
   \<Rightarrow> 'a bus_interface_scheme \<times> message \<times> bool" where
  "Bus_pushMessage s m cyc ty =
     (let m' = stamp_message s m cyc in
      if ty = REQUEST \<and> int (length (m_tx_request_buffer s)) < m_buffer_max_size s
      then (s\<lparr>m_tx_request_buffer := m_tx_request_buffer s @ [m']\<rparr>, m', True)
      else if ty = DATA_RESPONSE \<and> int (length (m_tx_response_buffer s)) < m_buffer_max_size s
      then (s\<lparr>m_tx_response_buffer := m_tx_response_buffer s @ [m']\<rparr>, m', True)
      else (s, m', False))"

definition Bus_pushMessage2RX ::
  "u64 \<Rightarrow> 'a bus_interface_scheme \<Rightarrow> message \<Rightarrow> message_type
   \<Rightarrow> u64 \<times> 'a bus_interface_scheme \<times> bool" where
  "Bus_pushMessage2RX sq s m ty =
     (case ty of
        REQUEST \<Rightarrow>
          if isDemandRequest m \<and> m_buffer_max_size s \<le> int (length (m_rx_request_buffer s))
          then (sq, s, False)
          else (sq + 1, s\<lparr>m_rx_request_buffer := m_rx_request_buffer s @ [m],
                          m_rx_request_seq := m_rx_request_seq s @ [sq + 1]\<rparr>, True)
      | DATA_RESPONSE \<Rightarrow>
          (sq + 1, s\<lparr>m_rx_response_buffer := m_rx_response_buffer s @ [m],
                     m_rx_response_seq := m_rx_response_seq s @ [sq + 1]\<rparr>, True)
      | SERVICE_REQUEST \<Rightarrow> (sq, s, False))"

definition Bus_canAcceptRX :: "'a bus_interface_scheme \<Rightarrow> message_type \<Rightarrow> bool" where
  "Bus_canAcceptRX s ty =
     (case ty of
        REQUEST \<Rightarrow> int (length (m_rx_request_buffer s)) < m_buffer_max_size s
      | DATA_RESPONSE \<Rightarrow> True
      | SERVICE_REQUEST \<Rightarrow> False)"

definition Bus_txResponseFreeSlots :: "'a bus_interface_scheme \<Rightarrow> int" where
  "Bus_txResponseFreeSlots s = m_buffer_max_size s - int (length (m_tx_response_buffer s))"

definition same_line :: "u64 \<Rightarrow> u64 \<Rightarrow> message \<Rightarrow> bool" where
  "same_line address msk m \<longleftrightarrow> address AND NOT (msk - 1) = addr m AND NOT (msk - 1)"

definition Bus_rollback ::
  "'a bus_interface_scheme \<Rightarrow> u64 \<Rightarrow> u64 \<Rightarrow> 'a bus_interface_scheme \<times> message option" where
  "Bus_rollback s address msk =
     (case first_index (same_line address msk) (m_tx_request_buffer s) of
        Some i \<Rightarrow> (s\<lparr>m_tx_request_buffer := erase_at i (m_tx_request_buffer s)\<rparr>,
                   Some (m_tx_request_buffer s ! i))
      | None \<Rightarrow>
          (case first_index (same_line address msk) (m_tx_response_buffer s) of
             Some i \<Rightarrow> (s\<lparr>m_tx_response_buffer := erase_at i (m_tx_response_buffer s)\<rparr>,
                        Some (m_tx_response_buffer s ! i))
           | None \<Rightarrow> (s, None)))"

section \<open>Triple bus interface\<close>

record triple_bus_interface = bus_interface +
  m_tx_service_buffer :: "message list"
  m_rx_service_buffer :: "message list"
  m_rx_service_seq :: "u64 list"
  m_service_selected :: bool

definition new_TripleBusInterface :: "int \<Rightarrow> int \<Rightarrow> triple_bus_interface" where
  "new_TripleBusInterface i buffer_max_size =
     bus_interface.extend (new_BusInterface i buffer_max_size)
       \<lparr> m_tx_service_buffer = [], m_rx_service_buffer = [], m_rx_service_seq = [],
         m_service_selected = False \<rparr>"

definition Triple_peekMessage ::
  "triple_bus_interface \<Rightarrow> triple_bus_interface \<times> message option" where
  "Triple_peekMessage s =
     (if m_rx_service_buffer s \<noteq> [] \<and>
         (m_rx_request_buffer s = [] \<or> m_rx_service_seq s ! 0 < m_rx_request_seq s ! 0)
      then (s\<lparr>m_service_selected := True\<rparr>, Some (m_rx_service_buffer s ! 0))
      else Bus_peekMessage (s\<lparr>m_service_selected := False\<rparr>))"

definition Triple_popFrontMessage :: "triple_bus_interface \<Rightarrow> triple_bus_interface result" where
  "Triple_popFrontMessage s =
     (if m_service_selected s
      then (if m_rx_service_buffer s = [] \<or> m_rx_service_seq s = []
            then Inl (Undefined ''TripleBusInterface: erase of an empty service buffer'')
            else Inr (s\<lparr>m_rx_service_buffer := erase_at 0 (m_rx_service_buffer s),
                        m_rx_service_seq := erase_at 0 (m_rx_service_seq s),
                        m_service_selected := False\<rparr>))
      else Bus_popFrontMessage s)"

definition Triple_pushMessage ::
  "triple_bus_interface \<Rightarrow> message \<Rightarrow> u64 \<Rightarrow> message_type
   \<Rightarrow> triple_bus_interface \<times> message \<times> bool" where
  "Triple_pushMessage s m cyc ty =
     (if ty \<noteq> SERVICE_REQUEST then Bus_pushMessage s m cyc ty
      else let m' = stamp_message s m cyc in
           if int (length (m_tx_service_buffer s)) < m_buffer_max_size s
           then (s\<lparr>m_tx_service_buffer := m_tx_service_buffer s @ [m']\<rparr>, m', True)
           else (s, m', False))"

definition Triple_pushMessage2RX ::
  "u64 \<Rightarrow> triple_bus_interface \<Rightarrow> message \<Rightarrow> message_type \<Rightarrow> u64 \<times> triple_bus_interface \<times> bool" where
  "Triple_pushMessage2RX sq s m ty =
     (if ty \<noteq> SERVICE_REQUEST then Bus_pushMessage2RX sq s m ty
      else (sq + 1, s\<lparr>m_rx_service_buffer := m_rx_service_buffer s @ [m],
                      m_rx_service_seq := m_rx_service_seq s @ [sq + 1]\<rparr>, True))"

definition Triple_canAcceptRX :: "triple_bus_interface \<Rightarrow> message_type \<Rightarrow> bool" where
  "Triple_canAcceptRX s ty = (if ty \<noteq> SERVICE_REQUEST then Bus_canAcceptRX s ty else True)"

section \<open>The virtual calls\<close>

datatype interface = BusI bus_interface | TripleI triple_bus_interface

fun itf_id :: "interface \<Rightarrow> int" where
  "itf_id (BusI s) = m_interface_id s"
| "itf_id (TripleI s) = m_interface_id s"

fun itf_peekMessage :: "interface \<Rightarrow> interface \<times> message option" where
  "itf_peekMessage (BusI s) = map_prod BusI id (Bus_peekMessage s)"
| "itf_peekMessage (TripleI s) = map_prod TripleI id (Triple_peekMessage s)"

fun itf_popFrontMessage :: "interface \<Rightarrow> interface result" where
  "itf_popFrontMessage (BusI s) = map_sum id BusI (Bus_popFrontMessage s)"
| "itf_popFrontMessage (TripleI s) = map_sum id TripleI (Triple_popFrontMessage s)"

fun itf_pushMessage ::
  "interface \<Rightarrow> message \<Rightarrow> u64 \<Rightarrow> message_type \<Rightarrow> interface \<times> message \<times> bool" where
  "itf_pushMessage (BusI s) m cyc ty = map_prod BusI id (Bus_pushMessage s m cyc ty)"
| "itf_pushMessage (TripleI s) m cyc ty = map_prod TripleI id (Triple_pushMessage s m cyc ty)"

fun itf_pushMessage2RX ::
  "u64 \<Rightarrow> interface \<Rightarrow> message \<Rightarrow> message_type \<Rightarrow> u64 \<times> interface \<times> bool" where
  "itf_pushMessage2RX sq (BusI s) m ty =
     map_prod id (map_prod BusI id) (Bus_pushMessage2RX sq s m ty)"
| "itf_pushMessage2RX sq (TripleI s) m ty =
     map_prod id (map_prod TripleI id) (Triple_pushMessage2RX sq s m ty)"

fun itf_canAcceptRX :: "interface \<Rightarrow> message_type \<Rightarrow> bool" where
  "itf_canAcceptRX (BusI s) ty = Bus_canAcceptRX s ty"
| "itf_canAcceptRX (TripleI s) ty = Triple_canAcceptRX s ty"

fun itf_txResponseFreeSlots :: "interface \<Rightarrow> int" where
  "itf_txResponseFreeSlots (BusI s) = Bus_txResponseFreeSlots s"
| "itf_txResponseFreeSlots (TripleI s) = Bus_txResponseFreeSlots s"

fun itf_rollback :: "interface \<Rightarrow> u64 \<Rightarrow> u64 \<Rightarrow> interface \<times> message option" where
  "itf_rollback (BusI s) a msk = map_prod BusI id (Bus_rollback s a msk)"
| "itf_rollback (TripleI s) a msk = map_prod TripleI id (Bus_rollback s a msk)"

text \<open>
  \<open>getCongregatedBuffers\<close> and \<open>getCongregatedServiceBuffers\<close> hand a controller pointers to the
  transmit queues of its interfaces. Here a controller reads the queues with the first three functions and
  writes back what the arbiter left with the next three.
\<close>

fun tx_request :: "interface \<Rightarrow> message list" where
  "tx_request (BusI s) = m_tx_request_buffer s"
| "tx_request (TripleI s) = m_tx_request_buffer s"

fun tx_response :: "interface \<Rightarrow> message list" where
  "tx_response (BusI s) = m_tx_response_buffer s"
| "tx_response (TripleI s) = m_tx_response_buffer s"

fun tx_service :: "interface \<Rightarrow> message list" where
  "tx_service (BusI s) = []"
| "tx_service (TripleI s) = m_tx_service_buffer s"

fun set_tx_request :: "interface \<Rightarrow> message list \<Rightarrow> interface" where
  "set_tx_request (BusI s) b = BusI (s\<lparr>m_tx_request_buffer := b\<rparr>)"
| "set_tx_request (TripleI s) b = TripleI (s\<lparr>m_tx_request_buffer := b\<rparr>)"

fun set_tx_response :: "interface \<Rightarrow> message list \<Rightarrow> interface" where
  "set_tx_response (BusI s) b = BusI (s\<lparr>m_tx_response_buffer := b\<rparr>)"
| "set_tx_response (TripleI s) b = TripleI (s\<lparr>m_tx_response_buffer := b\<rparr>)"

fun set_tx_service :: "interface \<Rightarrow> message list \<Rightarrow> interface" where
  "set_tx_service (BusI s) b = BusI s"
| "set_tx_service (TripleI s) b = TripleI (s\<lparr>m_tx_service_buffer := b\<rparr>)"

fun rx_request :: "interface \<Rightarrow> message list" where
  "rx_request (BusI s) = m_rx_request_buffer s"
| "rx_request (TripleI s) = m_rx_request_buffer s"

fun rx_response :: "interface \<Rightarrow> message list" where
  "rx_response (BusI s) = m_rx_response_buffer s"
| "rx_response (TripleI s) = m_rx_response_buffer s"

fun rx_service :: "interface \<Rightarrow> message list" where
  "rx_service (BusI s) = []"
| "rx_service (TripleI s) = m_rx_service_buffer s"

fun rx_request_seq :: "interface \<Rightarrow> u64 list" where
  "rx_request_seq (BusI s) = m_rx_request_seq s"
| "rx_request_seq (TripleI s) = m_rx_request_seq s"

fun rx_response_seq :: "interface \<Rightarrow> u64 list" where
  "rx_response_seq (BusI s) = m_rx_response_seq s"
| "rx_response_seq (TripleI s) = m_rx_response_seq s"

fun rx_service_seq :: "interface \<Rightarrow> u64 list" where
  "rx_service_seq (BusI s) = []"
| "rx_service_seq (TripleI s) = m_rx_service_seq s"

section \<open>Well-formed interfaces\<close>

text \<open>The delivery numbers run parallel to the receive queues.\<close>

definition Bus_wf :: "'a bus_interface_scheme \<Rightarrow> bool" where
  "Bus_wf s \<longleftrightarrow>
     length (m_rx_request_seq s) = length (m_rx_request_buffer s) \<and>
     length (m_rx_response_seq s) = length (m_rx_response_buffer s) \<and>
     m_buffer_selector s \<in> {- 1, 0, 1}"

definition Triple_wf :: "triple_bus_interface \<Rightarrow> bool" where
  "Triple_wf s \<longleftrightarrow> Bus_wf s \<and> length (m_rx_service_seq s) = length (m_rx_service_buffer s)"

fun itf_wf :: "interface \<Rightarrow> bool" where
  "itf_wf (BusI s) = Bus_wf s"
| "itf_wf (TripleI s) = Triple_wf s"

definition itf_queued :: "interface \<Rightarrow> message multiset" where
  "itf_queued i = mset (rx_request i) + mset (rx_response i) + mset (rx_service i)"

lemma Bus_wf_new [simp]: "Bus_wf (new_BusInterface i n)"
  by (simp add: Bus_wf_def new_BusInterface_def)

lemma Triple_wf_new [simp]: "Triple_wf (new_TripleBusInterface i n)"
  by (simp add: Triple_wf_def Bus_wf_def new_TripleBusInterface_def new_BusInterface_def
      bus_interface.defs)

text \<open>What a peek does, case by case.\<close>

lemma Bus_peekMessage_cases:
  obtains (request) "m_rx_request_buffer s \<noteq> []"
      "m_buffer_selector s \<noteq> 0 \<or> m_rx_response_buffer s = []"
      "Bus_peekMessage s = (s\<lparr>m_buffer_selector := 0\<rparr>, Some (m_rx_request_buffer s ! 0))"
  | (response) "m_rx_response_buffer s \<noteq> []"
      "m_buffer_selector s = 0 \<or> m_rx_request_buffer s = []"
      "Bus_peekMessage s = (s\<lparr>m_buffer_selector := 1\<rparr>, Some (m_rx_response_buffer s ! 0))"
  | (empty) "m_rx_request_buffer s = []" "m_rx_response_buffer s = []"
      "Bus_peekMessage s = (s\<lparr>m_buffer_selector := - 1\<rparr>, None)"
  by (cases "m_rx_request_buffer s = []"; cases "m_rx_response_buffer s = []";
      cases "m_buffer_selector s = 0"; cases "m_buffer_selector s = 1")
    (auto simp: Bus_peekMessage_def numeral_2_eq_2)

lemma Triple_peekMessage_cases:
  obtains (service) "m_rx_service_buffer s \<noteq> []"
      "m_rx_request_buffer s = [] \<or> m_rx_service_seq s ! 0 < m_rx_request_seq s ! 0"
      "Triple_peekMessage s = (s\<lparr>m_service_selected := True\<rparr>, Some (m_rx_service_buffer s ! 0))"
  | (bus) "m_rx_service_buffer s = [] \<or>
        m_rx_request_buffer s \<noteq> [] \<and> m_rx_request_seq s ! 0 \<le> m_rx_service_seq s ! 0"
      "Triple_peekMessage s = Bus_peekMessage (s\<lparr>m_service_selected := False\<rparr>)"
  by (cases "m_rx_service_buffer s \<noteq> [] \<and>
         (m_rx_request_buffer s = [] \<or> m_rx_service_seq s ! 0 < m_rx_request_seq s ! 0)")
    (auto simp: Triple_peekMessage_def not_less)

section \<open>The contract of a receive queue\<close>

locale rx_queue =
  fixes peek :: "'i \<Rightarrow> 'i \<times> message option"
    and pop :: "'i \<Rightarrow> 'i result"
    and push :: "u64 \<Rightarrow> 'i \<Rightarrow> message \<Rightarrow> message_type \<Rightarrow> u64 \<times> 'i \<times> bool"
    and can_accept :: "'i \<Rightarrow> message_type \<Rightarrow> bool"
    and wf :: "'i \<Rightarrow> bool"
    and queued :: "'i \<Rightarrow> message multiset"
  assumes peek_keeps: "wf i \<Longrightarrow> peek i = (i', r) \<Longrightarrow> wf i' \<and> queued i' = queued i"
    and peek_None: "wf i \<Longrightarrow> snd (peek i) = None \<longleftrightarrow> queued i = {#}"
    and peek_pop: "wf i \<Longrightarrow> peek i = (i', Some m) \<Longrightarrow>
           \<exists>i''. pop i' = Inr i'' \<and> wf i'' \<and> queued i = add_mset m (queued i'')"
    and push_queued: "wf i \<Longrightarrow> push sq i m ty = (sq', i', ok) \<Longrightarrow>
           wf i' \<and> queued i' = (if ok then add_mset m (queued i) else queued i) \<and>
           sq' = (if ok then sq + 1 else sq) \<and> (\<not> ok \<longrightarrow> i' = i)"
    and can_accept_push: "can_accept i ty \<Longrightarrow> snd (snd (push sq i m ty))"

text \<open>A controller reads its interface by a peek and a pop.\<close>

fun read_messages ::
  "('i \<Rightarrow> 'i \<times> message option) \<Rightarrow> ('i \<Rightarrow> 'i result) \<Rightarrow> nat \<Rightarrow> 'i \<Rightarrow> ('i \<times> message list) result" where
  "read_messages pk pp 0 i = Inr (i, [])"
| "read_messages pk pp (Suc n) i =
     (case pk i of
        (i', None) \<Rightarrow> Inr (i', [])
      | (i', Some m) \<Rightarrow>
          result_bind (pp i') (\<lambda>i''. result_bind (read_messages pk pp n i'')
            (\<lambda>(j, ms). Inr (j, m # ms))))"

context rx_queue
begin

lemma read_messages_exact:
  "wf i \<Longrightarrow> \<exists>j ms. read_messages peek pop n i = Inr (j, ms) \<and> wf j \<and>
     queued i = mset ms + queued j \<and> length ms = min n (size (queued i))"
proof (induction n arbitrary: i)
  case 0
  then show ?case by simp
next
  case (Suc n)
  obtain i' r where pk: "peek i = (i', r)" by (cases "peek i")
  show ?case
  proof (cases r)
    case None
    then show ?thesis
      using pk peek_None [OF Suc.prems] peek_keeps [OF Suc.prems pk] by simp
  next
    case (Some m)
    with peek_pop [OF Suc.prems] pk obtain i'' where
      pp: "pop i' = Inr i''" "wf i''" "queued i = add_mset m (queued i'')" by blast
    with Suc.IH [OF pp(2)] pk Some show ?thesis by auto
  qed
qed

lemma read_all:
  assumes "wf i"
  obtains j ms where "read_messages peek pop (size (queued i)) i = Inr (j, ms)"
    "wf j" "mset ms = queued i" "queued j = {#}"
proof -
  obtain j ms where r: "read_messages peek pop (size (queued i)) i = Inr (j, ms)" "wf j"
    "queued i = mset ms + queued j" "length ms = min (size (queued i)) (size (queued i))"
    using read_messages_exact [OF assms, of "size (queued i)"] by (elim exE conjE) (rule that)
  have "size (queued i) = length ms + size (queued j)"
    using arg_cong [OF r(3), of size] unfolding size_union size_mset .
  then have j: "queued j = {#}" using r(4) unfolding min.idem by simp
  have "mset ms = queued i" using r(3) unfolding j by simp
  show thesis by (rule that) fact+
qed

lemma push_rejected: "wf i \<Longrightarrow> push sq i m ty = (sq', i', False) \<Longrightarrow> sq' = sq \<and> i' = i"
  using push_queued by fastforce

end

lemma erase_at_0: "xs \<noteq> [] \<Longrightarrow> erase_at 0 xs = tl xs"
  by (cases xs) simp_all

lemma mset_head_tl: "xs \<noteq> [] \<Longrightarrow> mset xs = add_mset (xs ! 0) (mset (tl xs))"
  by (cases xs) simp_all

lemma length_eq_Nil: "length xs = length ys \<Longrightarrow> xs = [] \<longleftrightarrow> ys = []"
  by auto

lemma Bus_peek_pop:
  assumes "Bus_wf s"
  shows "case Bus_peekMessage s of
      (s', None) \<Rightarrow> s' = s\<lparr>m_buffer_selector := - 1\<rparr> \<and> m_rx_request_buffer s = [] \<and> m_rx_response_buffer s = []
    | (s', Some m) \<Rightarrow> Bus_wf s' \<and> (\<exists>sel. s' = s\<lparr>m_buffer_selector := sel\<rparr>) \<and>
        (\<exists>s''. Bus_popFrontMessage s' = Inr s'' \<and> Bus_wf s'' \<and> bus_interface.more s'' = bus_interface.more s \<and>
           mset (m_rx_request_buffer s) + mset (m_rx_response_buffer s)
           = add_mset m (mset (m_rx_request_buffer s'') + mset (m_rx_response_buffer s'')))"
proof (cases rule: Bus_peekMessage_cases [of s])
  case request
  then have "m_rx_request_seq s \<noteq> []" using assms by (auto simp: Bus_wf_def)
  with request assms show ?thesis
    by (auto simp: Bus_popFrontMessage_def Bus_wf_def erase_at_0 mset_head_tl [OF request(1)])
next
  case response
  then have "m_rx_response_seq s \<noteq> []" using assms by (auto simp: Bus_wf_def)
  with response assms show ?thesis
    by (auto simp: Bus_popFrontMessage_def Bus_wf_def erase_at_0 mset_head_tl [OF response(1)])
next
  case empty
  then show ?thesis by simp
qed


lemma Bus_push2RX_cases:
  "Bus_pushMessage2RX sq s m ty = (sq', s', ok) \<Longrightarrow>
   (ok \<longrightarrow> sq' = sq + 1 \<and>
      (s' = s\<lparr>m_rx_request_buffer := m_rx_request_buffer s @ [m],
              m_rx_request_seq := m_rx_request_seq s @ [sq + 1]\<rparr> \<and> ty = REQUEST \<or>
       s' = s\<lparr>m_rx_response_buffer := m_rx_response_buffer s @ [m],
              m_rx_response_seq := m_rx_response_seq s @ [sq + 1]\<rparr> \<and> ty = DATA_RESPONSE)) \<and>
   (\<not> ok \<longrightarrow> sq' = sq \<and> s' = s)"
  by (auto simp: Bus_pushMessage2RX_def split: message_type.splits if_splits)

abbreviation bus_queued :: "'a bus_interface_scheme \<Rightarrow> message multiset" where
  "bus_queued s \<equiv> mset (m_rx_request_buffer s) + mset (m_rx_response_buffer s)"

interpretation bus_rx: rx_queue Bus_peekMessage Bus_popFrontMessage Bus_pushMessage2RX
    Bus_canAcceptRX Bus_wf "bus_queued :: bus_interface \<Rightarrow> _"
proof
  fix s s' :: bus_interface and r
  assume "Bus_wf s" "Bus_peekMessage s = (s', r)"
  then show "Bus_wf s' \<and> bus_queued s' = bus_queued s"
    using Bus_peek_pop [of s] by (cases r) (auto simp: Bus_wf_def)
next
  fix s :: bus_interface
  assume "Bus_wf s"
  then show "snd (Bus_peekMessage s) = None \<longleftrightarrow> bus_queued s = {#}"
    by (cases rule: Bus_peekMessage_cases [of s]) auto
next
  fix s s' :: bus_interface and m
  assume "Bus_wf s" "Bus_peekMessage s = (s', Some m)"
  then show "\<exists>s''. Bus_popFrontMessage s' = Inr s'' \<and> Bus_wf s'' \<and>
      bus_queued s = add_mset m (bus_queued s'')"
    using Bus_peek_pop [of s] by auto
next
  fix s s' :: bus_interface and sq m ty sq' ok
  assume "Bus_wf s" "Bus_pushMessage2RX sq s m ty = (sq', s', ok)"
  then show "Bus_wf s' \<and> bus_queued s' = (if ok then add_mset m (bus_queued s) else bus_queued s) \<and>
      sq' = (if ok then sq + 1 else sq) \<and> (\<not> ok \<longrightarrow> s' = s)"
    using Bus_push2RX_cases [of sq s m ty sq' s' ok] by (auto simp: Bus_wf_def)
next
  fix s :: bus_interface and ty sq m
  assume "Bus_canAcceptRX s ty"
  then show "snd (snd (Bus_pushMessage2RX sq s m ty))"
    by (auto simp: Bus_canAcceptRX_def Bus_pushMessage2RX_def split: message_type.splits)
qed

abbreviation triple_queued :: "triple_bus_interface \<Rightarrow> message multiset" where
  "triple_queued s \<equiv> bus_queued s + mset (m_rx_service_buffer s)"

lemma Triple_peek_pop:
  assumes "Triple_wf s"
  shows "case Triple_peekMessage s of
      (s', None) \<Rightarrow> triple_queued s = {#} \<and> triple_queued s' = {#} \<and> Triple_wf s'
    | (s', Some m) \<Rightarrow> Triple_wf s' \<and> triple_queued s' = triple_queued s \<and>
        (\<exists>s''. Triple_popFrontMessage s' = Inr s'' \<and> Triple_wf s'' \<and>
           triple_queued s = add_mset m (triple_queued s''))"
proof (cases rule: Triple_peekMessage_cases [of s])
  case service
  then have "m_rx_service_seq s \<noteq> []" using assms by (auto simp: Triple_wf_def)
  with service assms show ?thesis
    by (auto simp: Triple_popFrontMessage_def Triple_wf_def Bus_wf_def erase_at_0
        mset_head_tl [OF service(1)])
next
  case bus
  let ?s = "s\<lparr>m_service_selected := False\<rparr>"
  have wf: "Bus_wf ?s" "length (m_rx_service_seq ?s) = length (m_rx_service_buffer ?s)"
    using assms by (simp_all add: Triple_wf_def Bus_wf_def)
  show ?thesis
  proof (cases rule: Bus_peekMessage_cases [of ?s])
    case request
    then have "m_rx_request_seq s \<noteq> []" using wf by (auto simp: Bus_wf_def)
    with request bus wf show ?thesis
      by (auto simp: Triple_popFrontMessage_def Bus_popFrontMessage_def Triple_wf_def Bus_wf_def
          erase_at_0 mset_head_tl)
  next
    case response
    then have "m_rx_response_seq s \<noteq> []" using wf by (auto simp: Bus_wf_def)
    with response bus wf show ?thesis
      by (auto simp: Triple_popFrontMessage_def Bus_popFrontMessage_def Triple_wf_def Bus_wf_def
          erase_at_0 mset_head_tl)
  next
    case empty
    with bus wf show ?thesis by (auto simp: Triple_wf_def Bus_wf_def)
  qed
qed

interpretation triple_rx: rx_queue Triple_peekMessage Triple_popFrontMessage Triple_pushMessage2RX
    Triple_canAcceptRX Triple_wf triple_queued
proof
  fix s s' r
  assume "Triple_wf s" "Triple_peekMessage s = (s', r)"
  then show "Triple_wf s' \<and> triple_queued s' = triple_queued s"
    using Triple_peek_pop [of s] by (cases r) auto
next
  fix s
  assume "Triple_wf s"
  then show "snd (Triple_peekMessage s) = None \<longleftrightarrow> triple_queued s = {#}"
    using Triple_peek_pop [of s] by (cases "Triple_peekMessage s"; cases "snd (Triple_peekMessage s)") auto
next
  fix s s' m
  assume "Triple_wf s" "Triple_peekMessage s = (s', Some m)"
  then show "\<exists>s''. Triple_popFrontMessage s' = Inr s'' \<and> Triple_wf s'' \<and>
      triple_queued s = add_mset m (triple_queued s'')"
    using Triple_peek_pop [of s] by auto
next
  fix s s' sq m ty sq' ok
  assume "Triple_wf s" "Triple_pushMessage2RX sq s m ty = (sq', s', ok)"
  then show "Triple_wf s' \<and> triple_queued s' = (if ok then add_mset m (triple_queued s) else triple_queued s) \<and>
      sq' = (if ok then sq + 1 else sq) \<and> (\<not> ok \<longrightarrow> s' = s)"
    using Bus_push2RX_cases [of sq s m ty sq' s' ok]
    by (auto simp: Triple_wf_def Bus_wf_def Triple_pushMessage2RX_def split: if_splits)
next
  fix s ty sq m
  assume "Triple_canAcceptRX s ty"
  then show "snd (snd (Triple_pushMessage2RX sq s m ty))"
    by (cases ty) (auto simp: Triple_canAcceptRX_def Triple_pushMessage2RX_def Bus_canAcceptRX_def
        Bus_pushMessage2RX_def)
qed

text \<open>Every interface keeps the contract, so a controller need not know its kind.\<close>

interpretation any_rx: rx_queue itf_peekMessage itf_popFrontMessage itf_pushMessage2RX
    itf_canAcceptRX itf_wf itf_queued
proof
  fix i i' r
  assume "itf_wf i" "itf_peekMessage i = (i', r)"
  then show "itf_wf i' \<and> itf_queued i' = itf_queued i"
    by (cases i) (auto simp: itf_queued_def map_prod_def split: prod.splits
        dest: bus_rx.peek_keeps triple_rx.peek_keeps)
next
  fix i
  assume "itf_wf i"
  then show "snd (itf_peekMessage i) = None \<longleftrightarrow> itf_queued i = {#}"
    using bus_rx.peek_None triple_rx.peek_None
    by (cases i) (auto simp: itf_queued_def)
next
  fix i i' m
  assume i: "itf_wf i" "itf_peekMessage i = (i', Some m)"
  show "\<exists>i''. itf_popFrontMessage i' = Inr i'' \<and> itf_wf i'' \<and> itf_queued i = add_mset m (itf_queued i'')"
  proof (cases i)
    case (BusI s)
    with i obtain s' where s': "Bus_peekMessage s = (s', Some m)" "i' = BusI s'"
      by (cases "Bus_peekMessage s") auto
    with bus_rx.peek_pop [OF _ s'(1)] i BusI show ?thesis by (auto simp: itf_queued_def)
  next
    case (TripleI s)
    with i obtain s' where s': "Triple_peekMessage s = (s', Some m)" "i' = TripleI s'"
      by (cases "Triple_peekMessage s") auto
    with triple_rx.peek_pop [OF _ s'(1)] i TripleI show ?thesis by (auto simp: itf_queued_def)
  qed
next
  fix i i' sq m ty sq' ok
  assume i: "itf_wf i" "itf_pushMessage2RX sq i m ty = (sq', i', ok)"
  show "itf_wf i' \<and> itf_queued i' = (if ok then add_mset m (itf_queued i) else itf_queued i) \<and>
      sq' = (if ok then sq + 1 else sq) \<and> (\<not> ok \<longrightarrow> i' = i)"
  proof (cases i)
    case (BusI s)
    with i obtain s' where s': "Bus_pushMessage2RX sq s m ty = (sq', s', ok)" "i' = BusI s'"
      by (cases "Bus_pushMessage2RX sq s m ty") auto
    with bus_rx.push_queued [OF _ s'(1)] i BusI show ?thesis by (auto simp: itf_queued_def)
  next
    case (TripleI s)
    with i obtain s' where s': "Triple_pushMessage2RX sq s m ty = (sq', s', ok)" "i' = TripleI s'"
      by (cases "Triple_pushMessage2RX sq s m ty") auto
    with triple_rx.push_queued [OF _ s'(1)] i TripleI show ?thesis by (auto simp: itf_queued_def)
  qed
next
  fix i ty sq m
  assume "itf_canAcceptRX i ty"
  then show "snd (snd (itf_pushMessage2RX sq i m ty))"
    using bus_rx.can_accept_push triple_rx.can_accept_push by (cases i) simp_all
qed

section \<open>Bus order at a triple bus interface\<close>

text \<open>
  What can happen to one interface: a bus controller delivers a message to it, a bus controller delivers
  one elsewhere (which advances the shared counter), or the component behind it reads. The run returns the
  requests and service messages delivered (delivery number, service channel or not, message) and those
  read.
\<close>

datatype rx_event = Deliver message message_type | DeliverElsewhere | ReadMessage

type_synonym delivery = "u64 \<times> bool \<times> message"

definition delivered_entry ::
  "u64 \<Rightarrow> message \<Rightarrow> message_type \<Rightarrow> bool \<Rightarrow> delivery list" where
  "delivered_entry sq m ty ok =
     (if ok \<and> ty \<noteq> DATA_RESPONSE then [(sq, ty = SERVICE_REQUEST, m)] else [])"

definition read_entry :: "triple_bus_interface \<Rightarrow> message \<Rightarrow> delivery list" where
  "read_entry s m =
     (if m_service_selected s then [(m_rx_service_seq s ! 0, True, m)]
      else if m_buffer_selector s = 0 then [(m_rx_request_seq s ! 0, False, m)]
      else [])"

fun triple_run ::
  "rx_event list \<Rightarrow> u64 \<Rightarrow> triple_bus_interface \<Rightarrow> (delivery list \<times> delivery list) result" where
  "triple_run [] sq s = Inr ([], [])"
| "triple_run (Deliver m ty # es) sq s =
     (case Triple_pushMessage2RX sq s m ty of
        (sq', s', ok) \<Rightarrow>
          result_bind (triple_run es sq' s')
            (\<lambda>(ds, rs). Inr (delivered_entry sq' m ty ok @ ds, rs)))"
| "triple_run (DeliverElsewhere # es) sq s = triple_run es (sq + 1) s"
| "triple_run (ReadMessage # es) sq s =
     (case Triple_peekMessage s of
        (s', None) \<Rightarrow> triple_run es sq s'
      | (s', Some m) \<Rightarrow>
          result_bind (Triple_popFrontMessage s')
            (\<lambda>s''. result_bind (triple_run es sq s'')
               (\<lambda>(ds, rs). Inr (ds, read_entry s' m @ rs))))"

definition service_entries :: "triple_bus_interface \<Rightarrow> delivery list" where
  "service_entries s = map (\<lambda>(q, m). (q, True, m)) (zip (m_rx_service_seq s) (m_rx_service_buffer s))"

definition request_entries :: "triple_bus_interface \<Rightarrow> delivery list" where
  "request_entries s = map (\<lambda>(q, m). (q, False, m)) (zip (m_rx_request_seq s) (m_rx_request_buffer s))"

text \<open>\<open>R\<close> is the merge, in bus order, of what is still queued on the two channels.\<close>

definition bus_order_inv :: "u64 \<Rightarrow> triple_bus_interface \<Rightarrow> delivery list \<Rightarrow> bool" where
  "bus_order_inv sq s R \<longleftrightarrow>
     Triple_wf s \<and>
     filter (\<lambda>(q, b, m). b) R = service_entries s \<and>
     filter (\<lambda>(q, b, m). \<not> b) R = request_entries s \<and>
     sorted_wrt (\<lambda>x y. fst x < fst y) R \<and> (\<forall>x\<in>set R. fst x \<le> sq)"

lemma word_add1_less: "unat (sq :: u64) + 1 < 2 ^ 64 \<Longrightarrow> sq < sq + 1"
  by (simp add: word_less_nat_alt unat_word_ariths)

lemma unat_add1: "unat (sq :: u64) + 1 < 2 ^ 64 \<Longrightarrow> unat (sq + 1) = unat sq + 1"
  by (simp add: unat_word_ariths)

lemma bus_order_inv_counter:
  assumes "bus_order_inv sq s R" "unat sq + 1 < 2 ^ 64"
  shows "bus_order_inv (sq + 1) s R"
  using assms word_add1_less [OF assms(2)] unfolding bus_order_inv_def
  by (auto intro: order.trans order.strict_implies_order)

lemma bus_order_inv_deliver:
  assumes inv: "bus_order_inv sq s R" and nowrap: "unat sq + 1 < 2 ^ 64"
    and push: "Triple_pushMessage2RX sq s m ty = (sq', s', ok)"
  shows "bus_order_inv sq' s' (R @ delivered_entry sq' m ty ok)" "sq' = sq \<or> sq' = sq + 1"
proof -
  note lt = word_add1_less [OF nowrap]
  have top: "\<forall>x\<in>set R. fst x < sq + 1"
    using inv lt unfolding bus_order_inv_def by (auto intro: order.strict_trans1)
  have len: "length (m_rx_request_seq s) = length (m_rx_request_buffer s)"
    "length (m_rx_service_seq s) = length (m_rx_service_buffer s)"
    using inv unfolding bus_order_inv_def Triple_wf_def Bus_wf_def by auto
  have "Triple_wf s'" using triple_rx.push_queued [OF _ push] inv unfolding bus_order_inv_def by blast
  then show "bus_order_inv sq' s' (R @ delivered_entry sq' m ty ok)"
    using inv push top len lt
    by (cases ty) (auto simp: bus_order_inv_def delivered_entry_def Triple_pushMessage2RX_def
        Bus_pushMessage2RX_def service_entries_def request_entries_def sorted_wrt_append
        order.strict_implies_order split: if_splits)
  show "sq' = sq \<or> sq' = sq + 1"
    using push by (auto simp: Triple_pushMessage2RX_def Bus_pushMessage2RX_def
        split: message_type.splits if_splits)
qed

lemma bus_order_inv_read:
  assumes inv: "bus_order_inv sq s R" and peek: "Triple_peekMessage s = (s', Some m)"
  obtains s'' R' where "Triple_popFrontMessage s' = Inr s''" "R = read_entry s' m @ R'"
    "bus_order_inv sq s'' R'"
proof -
  have wf: "Triple_wf s" using inv by (simp add: bus_order_inv_def)
  from triple_rx.peek_pop [OF wf peek] obtain s'' where
    pop: "Triple_popFrontMessage s' = Inr s''" "Triple_wf s''" by blast
  have len: "length (m_rx_request_seq s) = length (m_rx_request_buffer s)"
    "length (m_rx_service_seq s) = length (m_rx_service_buffer s)"
    using wf unfolding Triple_wf_def Bus_wf_def by auto
  have F: "filter (\<lambda>(q, b, m). b) R = service_entries s" "filter (\<lambda>(q, b, m). \<not> b) R = request_entries s"
    "sorted_wrt (\<lambda>x y. fst x < fst y) R" "\<forall>x\<in>set R. fst x \<le> sq"
    using inv by (simp_all add: bus_order_inv_def)
  show thesis
  proof (cases rule: Triple_peekMessage_cases [of s])
    case service
    then obtain q qs ms where svc: "m_rx_service_seq s = q # qs" "m_rx_service_buffer s = m # ms"
      using len peek by (cases "m_rx_service_seq s"; cases "m_rx_service_buffer s") auto
    have s'': "service_entries s'' = tl (service_entries s)" "request_entries s'' = request_entries s"
      and rd: "read_entry s' m = [(q, True, m)]"
      using service svc pop(1) peek
      by (auto simp: Triple_popFrontMessage_def service_entries_def request_entries_def read_entry_def)
    obtain e R' where R: "R = e # R'"
      using F(1) svc by (cases R) (auto simp: service_entries_def)
    have e: "e = (q, True, m)"
    proof (cases "fst (snd e)")
      case True
      then show ?thesis using F(1) R svc by (auto simp: service_entries_def split: if_splits prod.splits)
    next
      case False
      then have hd: "request_entries s = e # filter (\<lambda>(q, b, m). \<not> b) R'"
        using F(2) R by (auto split: prod.splits)
      then have "m_rx_request_buffer s \<noteq> []" "fst e = m_rx_request_seq s ! 0"
        using len by (cases "m_rx_request_seq s"; cases "m_rx_request_buffer s";
            auto simp: request_entries_def)+
      then have "q < fst e" using service(2) svc by simp
      moreover have "(q, True, m) \<in> set R'"
      proof -
        have "(q, True, m) \<in> set (filter (\<lambda>(q, b, m). b) R)"
          unfolding F(1) using svc by (simp add: service_entries_def)
        then show ?thesis using R False by (auto split: prod.splits if_splits)
      qed
      ultimately show ?thesis using F(3) R by fastforce
    qed
    have "filter (\<lambda>(q, b, m). b) R' = service_entries s''"
      unfolding s'' F(1) [symmetric] R e by simp
    moreover have "filter (\<lambda>(q, b, m). \<not> b) R' = request_entries s''"
      using F(2) unfolding s'' R e by simp
    ultimately have "bus_order_inv sq s'' R'"
      using F(3,4) pop(2) unfolding R bus_order_inv_def by simp
    then show thesis using pop(1) R rd e by (intro that) auto
  next
    case bus
    let ?s = "s\<lparr>m_service_selected := False\<rparr>"
    show thesis
    proof (cases rule: Bus_peekMessage_cases [of ?s])
      case request
      then obtain q qs ms where req: "m_rx_request_seq s = q # qs" "m_rx_request_buffer s = m # ms"
        using len peek bus by (cases "m_rx_request_seq s"; cases "m_rx_request_buffer s") auto
      have s'': "service_entries s'' = service_entries s" "request_entries s'' = tl (request_entries s)"
        and rd: "read_entry s' m = [(q, False, m)]"
        using request bus req pop(1) peek
        by (auto simp: Triple_popFrontMessage_def Bus_popFrontMessage_def service_entries_def
            request_entries_def read_entry_def)
      obtain e R' where R: "R = e # R'"
        using F(2) req by (cases R) (auto simp: request_entries_def)
      have e: "e = (q, False, m)"
      proof (cases "fst (snd e)")
        case False
        then show ?thesis using F(2) R req by (auto simp: request_entries_def split: if_splits prod.splits)
      next
        case True
        then have hd: "service_entries s = e # filter (\<lambda>(q, b, m). b) R'"
          using F(1) R by (auto split: prod.splits)
        then have "m_rx_service_buffer s \<noteq> []" "fst e = m_rx_service_seq s ! 0"
          using len by (cases "m_rx_service_seq s"; cases "m_rx_service_buffer s";
              auto simp: service_entries_def)+
        then have "q \<le> fst e" using bus(1) req by simp
        moreover have "(q, False, m) \<in> set R'"
        proof -
          have "(q, False, m) \<in> set (filter (\<lambda>(q, b, m). \<not> b) R)"
            unfolding F(2) using req by (simp add: request_entries_def)
          then show ?thesis using R True by (auto split: prod.splits if_splits)
        qed
        ultimately show ?thesis using F(3) R by fastforce
      qed
      have "filter (\<lambda>(q, b, m). \<not> b) R' = request_entries s''"
        unfolding s'' F(2) [symmetric] R e by simp
      moreover have "filter (\<lambda>(q, b, m). b) R' = service_entries s''"
        using F(1) unfolding s'' R e by simp
      ultimately have "bus_order_inv sq s'' R'"
        using F(3,4) pop(2) unfolding R bus_order_inv_def by simp
      then show thesis using pop(1) R rd e by (intro that) auto
    next
      case response
      have "service_entries s'' = service_entries s" "request_entries s'' = request_entries s"
        "read_entry s' m = []"
        using response bus pop(1) peek
        by (auto simp: Triple_popFrontMessage_def Bus_popFrontMessage_def service_entries_def
            request_entries_def read_entry_def split: if_splits)
      then show thesis using pop F by (intro that [of s'' R]) (auto simp: bus_order_inv_def)
    next
      case empty
      then show thesis using bus peek by simp
    qed
  qed
qed

lemma triple_run_order:
  assumes "bus_order_inv sq s R" and "unat sq + length es < 2 ^ 64"
  shows "\<exists>ds rs R'. triple_run es sq s = Inr (ds, rs) \<and> R @ ds = rs @ R'"
  using assms
proof (induction es sq s arbitrary: R rule: triple_run.induct)
  case (1 sq s)
  then show ?case by simp
next
  case (2 m ty es sq s)
  obtain sq' s' ok where push: "Triple_pushMessage2RX sq s m ty = (sq', s', ok)"
    by (cases "Triple_pushMessage2RX sq s m ty") auto
  have nw: "unat sq + 1 < 2 ^ 64" using 2(3) by simp
  note D = bus_order_inv_deliver [OF 2(2) nw push]
  have "unat sq' + length es < 2 ^ 64" using D(2) 2(3) unat_add1 [OF nw] by auto
  with 2(1) [OF push [symmetric] refl D(1)] show ?case using push by fastforce
next
  case (3 es sq s)
  have nw: "unat sq + 1 < 2 ^ 64" using 3(3) by simp
  with 3(1) [OF bus_order_inv_counter [OF 3(2) nw]] 3(3) unat_add1 [OF nw] show ?case by simp
next
  case (4 es sq s)
  obtain s' r where peek: "Triple_peekMessage s = (s', r)" by (cases "Triple_peekMessage s")
  show ?case
  proof (cases r)
    case None
    have empty: "triple_queued s = {#}" 
      using triple_rx.peek_None [of s] peek None 4(3) by (simp add: bus_order_inv_def)
    have "bus_order_inv sq s' R"
      using peek None 4(3) empty
      by (cases rule: Triple_peekMessage_cases [of s]; cases rule: Bus_peekMessage_cases [of "s\<lparr>m_service_selected := False\<rparr>"])
        (auto simp: bus_order_inv_def Triple_wf_def Bus_wf_def service_entries_def request_entries_def)
    with 4(1) [OF peek [symmetric] None] 4(4) peek None show ?thesis by simp
  next
    case (Some m)
    from 4(3) peek [unfolded Some] obtain s'' R' where
      "Triple_popFrontMessage s' = Inr s''" "R = read_entry s' m @ R'" "bus_order_inv sq s'' R'"
      by (rule bus_order_inv_read)
    with 4(2) [OF peek [symmetric] Some, of s'' R'] 4(4) peek Some show ?thesis
      by (auto simp: result_bind_def split: sum.splits)
  qed
qed

section \<open>Properties\<close>

text \<open>
  A component that reads its interface, bus or triple bus, by peeks and pops gets each delivered
  message exactly once: \<open>n\<close> reads never fail and never touch an empty vector, return \<open>n\<close> messages (all of
  them when fewer are queued), and leave exactly the others queued.
\<close>

lemma interface_reads_exactly_once:
  assumes "itf_wf i"
  shows "\<exists>j ms. read_messages itf_peekMessage itf_popFrontMessage n i = Inr (j, ms) \<and> itf_wf j \<and>
     itf_queued i = mset ms + itf_queued j \<and> length ms = min n (size (itf_queued i))"
  using assms by (rule any_rx.read_messages_exact)

lemma interface_reads_exactly_once_witness:
  "\<exists>j ms. read_messages itf_peekMessage itf_popFrontMessage 3
      (BusI ((new_BusInterface 1 4)\<lparr>m_rx_request_buffer := [example_message 1 3 0, example_message 2 4 0],
         m_rx_request_seq := [1, 2], m_rx_response_buffer := [example_message 3 5 0],
         m_rx_response_seq := [3]\<rparr>)) = Inr (j, ms) \<and> length ms = 3"
  using interface_reads_exactly_once [of "BusI ((new_BusInterface 1 4)
         \<lparr>m_rx_request_buffer := [example_message 1 3 0, example_message 2 4 0],
         m_rx_request_seq := [1, 2], m_rx_response_buffer := [example_message 3 5 0],
         m_rx_response_seq := [3]\<rparr>)" 3]
  by (force simp: Bus_wf_def new_BusInterface_def itf_queued_def)

text \<open>
  Neither receive queue of a bus interface starves the other: right after a message of one queue was
  read, and whatever was delivered since, the next peek returns the head of the other queue if it has one.
\<close>

lemma peek_alternates:
  assumes "Bus_wf s" and "Bus_peekMessage s = (s1, Some m)" and "Bus_popFrontMessage s1 = Inr s2"
    and "m_buffer_selector s3 = m_buffer_selector s2"
  shows "(m_buffer_selector s1 = 0 \<and>
           (m_rx_response_buffer s3 \<noteq> [] \<longrightarrow>
            snd (Bus_peekMessage s3) = Some (hd (m_rx_response_buffer s3)))) \<or>
         (m_buffer_selector s1 = 1 \<and>
           (m_rx_request_buffer s3 \<noteq> [] \<longrightarrow>
            snd (Bus_peekMessage s3) = Some (hd (m_rx_request_buffer s3))))"
proof -
  have sel: "m_buffer_selector s3 = m_buffer_selector s1"
    using assms(3,4) by (auto simp: Bus_popFrontMessage_def split: if_splits)
  have "m_buffer_selector s1 = 0 \<or> m_buffer_selector s1 = 1"
    using assms(2) by (cases rule: Bus_peekMessage_cases [of s]) auto
  then show ?thesis
    by (cases rule: Bus_peekMessage_cases [of s3]) (auto simp: sel hd_conv_nth)
qed

lemma peek_alternates_witness:
  "snd (Bus_peekMessage ((new_BusInterface 1 4)\<lparr>m_buffer_selector := 0,
      m_rx_request_buffer := [example_message 2 4 0], m_rx_request_seq := [2],
      m_rx_response_buffer := [example_message 3 5 0], m_rx_response_seq := [3]\<rparr>))
   = Some (example_message 3 5 0)"
proof -
  let ?s = "(new_BusInterface 1 4)\<lparr>m_rx_request_buffer := [example_message 1 3 0, example_message 2 4 0],
      m_rx_request_seq := [1, 2], m_rx_response_buffer := [example_message 3 5 0], m_rx_response_seq := [3]\<rparr>"
  let ?s2 = "(new_BusInterface 1 4)\<lparr>m_buffer_selector := 0,
      m_rx_request_buffer := [example_message 2 4 0], m_rx_request_seq := [2],
      m_rx_response_buffer := [example_message 3 5 0], m_rx_response_seq := [3]\<rparr>"
  have "Bus_wf ?s" "Bus_peekMessage ?s = (?s\<lparr>m_buffer_selector := 0\<rparr>, Some (example_message 1 3 0))"
    "Bus_popFrontMessage (?s\<lparr>m_buffer_selector := 0\<rparr>) = Inr ?s2"
    by (simp_all add: Bus_wf_def new_BusInterface_def Bus_peekMessage_def numeral_2_eq_2
        Bus_popFrontMessage_def)
  from peek_alternates [OF this refl] show ?thesis by simp
qed

lemma bus_order_inv_new: "bus_order_inv sq (new_TripleBusInterface i n) []"
  by (simp add: bus_order_inv_def service_entries_def request_entries_def)
    (simp add: new_TripleBusInterface_def new_BusInterface_def bus_interface.defs)

text \<open>
  C17. A component behind a triple bus interface reads the requests and the back-invalidations in the order
  in which the buses delivered them, skipping none, however deliveries and reads interleave: what it has
  read is an initial part of what was delivered, and no read fails.
\<close>

theorem triple_reads_in_bus_order:
  assumes "unat sq + length es < 2 ^ 64"
  shows "\<exists>ds rs. triple_run es sq (new_TripleBusInterface i n) = Inr (ds, rs) \<and>
           rs = take (length rs) ds"
  using triple_run_order [OF bus_order_inv_new assms, of i n] by fastforce

theorem triple_reads_in_bus_order_witness:
  "\<exists>ds rs. triple_run [Deliver (example_message 1 3 0) REQUEST, DeliverElsewhere,
       Deliver (example_message 2 4 1) SERVICE_REQUEST, Deliver (example_message 3 5 0) DATA_RESPONSE,
       ReadMessage, ReadMessage, ReadMessage] 7 (new_TripleBusInterface 1 4) = Inr (ds, rs) \<and>
     rs = take (length rs) ds"
  by (rule triple_reads_in_bus_order) simp

end
