(* ===== verification/Buses.thy ===== *)
theory Buses
  imports Interfaces
begin

text \<open>
  The bus controllers, src/Interconnect: broadcast and send of \<open>BusController\<close>, the split, triple,
  unified and point-to-point buses, the direct interconnect, and the clocked shells \<open>Bus\<close> and
  \<open>DirectInterconnect\<close>. A controller's state is a record, its interfaces a list that the operations
  pass along with the delivery counter. Pointers to transmit queues are values of \<open>tx_ref\<close>.
  Log and trace calls are left out.
\<close>

section \<open>Pointers to transmit queues\<close>

datatype tx_ref = TxRequest nat | TxResponse nat | TxService nat

fun tx_deref :: "interface list \<Rightarrow> tx_ref \<Rightarrow> message list" where
  "tx_deref itfs (TxRequest k) = tx_request (itfs ! k)"
| "tx_deref itfs (TxResponse k) = tx_response (itfs ! k)"
| "tx_deref itfs (TxService k) = tx_service (itfs ! k)"

fun tx_assign :: "tx_ref \<Rightarrow> message list \<Rightarrow> interface list \<Rightarrow> interface list" where
  "tx_assign (TxRequest k) b itfs = itfs[k := set_tx_request (itfs ! k) b]"
| "tx_assign (TxResponse k) b itfs = itfs[k := set_tx_response (itfs ! k) b]"
| "tx_assign (TxService k) b itfs = itfs[k := set_tx_service (itfs ! k) b]"

text \<open>\<open>getCongregatedBuffers\<close> over the interfaces at the indices \<open>ks\<close>\<close>

definition getCongregatedBuffers :: "nat list \<Rightarrow> bool \<Rightarrow> tx_ref list" where
  "getCongregatedBuffers ks request_buffer =
     map (\<lambda>k. if request_buffer then TxRequest k else TxResponse k) ks"

definition getCongregatedServiceBuffers :: "nat list \<Rightarrow> tx_ref list" where
  "getCongregatedServiceBuffers ks = map TxService ks"

text \<open>
  An election works on the queues behind the pointers: the queue it shortened is written back.
\<close>

definition tx_write_back :: "tx_ref list \<Rightarrow> buffers \<Rightarrow> interface list \<Rightarrow> interface list" where
  "tx_write_back refs bufs itfs =
     fold (\<lambda>(r, b) s. if b \<noteq> tx_deref itfs r then tx_assign r b s else s) (zip refs bufs) itfs"

definition elect_from ::
  "(arbiter \<Rightarrow> u64 \<Rightarrow> buffers \<Rightarrow> (arbiter \<times> (message \<times> buffers) option) result)
   \<Rightarrow> arbiter \<Rightarrow> u64 \<Rightarrow> tx_ref list \<Rightarrow> interface list
   \<Rightarrow> (arbiter \<times> message option \<times> interface list) result" where
  "elect_from elect a t refs itfs =
     result_bind (elect a t (map (tx_deref itfs) refs))
       (\<lambda>(a', r). case r of
          None \<Rightarrow> Inr (a', None, itfs)
        | Some (m, bufs) \<Rightarrow> Inr (a', Some m, tx_write_back refs bufs itfs))"

section \<open>Broadcast and send\<close>

fun push_all ::
  "u64 \<Rightarrow> interface list \<Rightarrow> message \<Rightarrow> message_type \<Rightarrow> u64 \<times> interface list" where
  "push_all sq [] m ty = (sq, [])"
| "push_all sq (i # itfs) m ty =
     (case itf_pushMessage2RX sq i m ty of
        (sq', i', _) \<Rightarrow> map_prod id ((#) i') (push_all sq' itfs m ty))"

definition broadcast ::
  "u64 \<Rightarrow> interface list \<Rightarrow> message \<Rightarrow> message_type \<Rightarrow> u64 \<times> interface list \<times> bool" where
  "broadcast sq itfs m ty =
     (if isDemandRequest m \<and> (\<exists>i\<in>set itfs. \<not> itf_canAcceptRX i ty) then (sq, itfs, False)
      else case push_all sq itfs m ty of (sq', itfs') \<Rightarrow> (sq', itfs', True))"

fun send_loop ::
  "u64 \<Rightarrow> interface list \<Rightarrow> message \<Rightarrow> u16 list \<Rightarrow> message_type \<Rightarrow> (u64 \<times> interface list) result" where
  "send_loop sq itfs m [] ty = Inr (sq, itfs)"
| "send_loop sq itfs m (d # ds) ty =
     (case first_index (\<lambda>i. itf_id i = uint d) itfs of
        None \<Rightarrow> Inl (Exit ''BusController: Wrong destination'')
      | Some j \<Rightarrow>
          (case itf_pushMessage2RX sq (itfs ! j) m ty of
             (sq', i', ok) \<Rightarrow>
               if ok then send_loop sq' (itfs[j := i']) m ds ty
               else Inl (Exit ''BusController: full buffer'')))"

definition bus_send ::
  "u64 \<Rightarrow> interface list \<Rightarrow> message \<Rightarrow> message_type \<Rightarrow> (u64 \<times> interface list) result" where
  "bus_send sq itfs m ty = send_loop sq itfs m (msg_to m) ty"

section \<open>Split bus\<close>

record split_bus =
  request_arbiter :: arbiter
  response_arbiter :: arbiter
  m_request_latency :: int
  m_response_latency :: int
  m_response_reserve :: int
  clk_in_slot_req :: int
  elected_msg_req :: message
  message_available_req :: bool
  buffers_req :: "tx_ref list"
  clk_in_slot_resp :: int
  elected_msg_resp :: message
  message_available_resp :: bool
  buffers_resp :: "tx_ref list"

text \<open>\<open>arbiter_type\<close> names the class, as the configuration does.\<close>

definition new_arbiter :: "string \<Rightarrow> int list \<Rightarrow> int \<Rightarrow> arbiter result" where
  "new_arbiter arbiter_type ids period =
     (if arbiter_type = ''TDMArbiter'' then Inr (TDMArbiter (new_arbiter_base ids period))
      else if arbiter_type = ''FCFSArbiter'' then Inr (FCFSArbiter (new_arbiter_base ids period))
      else if arbiter_type = ''RRArbiter'' then Inr (RRArbiter (new_RRArbiter ids period))
      else Inl (Exit ''Error: there is no matching arbiter''))"

definition new_SplitBusController ::
  "string \<Rightarrow> int \<Rightarrow> int \<Rightarrow> int option \<Rightarrow> interface list \<Rightarrow> split_bus result" where
  "new_SplitBusController arbiter_type req_lat resp_lat response_reserve itfs =
     result_bind (new_arbiter arbiter_type (map itf_id itfs) req_lat)
       (\<lambda>a1. result_bind (new_arbiter arbiter_type (map itf_id itfs) resp_lat)
         (\<lambda>a2. Inr
            \<lparr> request_arbiter = a1, response_arbiter = a2,
              m_request_latency = req_lat, m_response_latency = resp_lat,
              m_response_reserve = (case response_reserve of None \<Rightarrow> 0 | Some r \<Rightarrow> r),
              clk_in_slot_req = 0, elected_msg_req = new_message 0 0 0 0 0,
              message_available_req = False,
              buffers_req = getCongregatedBuffers [0..<length itfs] True,
              clk_in_slot_resp = 0, elected_msg_resp = new_message 0 0 0 0 0,
              message_available_resp = False,
              buffers_resp = getCongregatedBuffers [0..<length itfs] False \<rparr>))"

definition responseBackpressured :: "split_bus \<Rightarrow> interface list \<Rightarrow> bool" where
  "responseBackpressured c itfs \<longleftrightarrow>
     (\<exists>i\<in>set itfs. itf_txResponseFreeSlots i \<le> m_response_reserve c)"

definition split_elect_req ::
  "split_bus \<Rightarrow> u64 \<Rightarrow> interface list \<Rightarrow> (split_bus \<times> interface list) result" where
  "split_elect_req c t itfs =
     (if clk_in_slot_req c = 0 \<and> \<not> message_available_req c
      then result_bind (elect_from arbiter_elect (request_arbiter c) t (buffers_req c) itfs)
             (\<lambda>(a, r, itfs'). case r of
                None \<Rightarrow> Inr (c\<lparr>request_arbiter := a, message_available_req := False\<rparr>, itfs')
              | Some m \<Rightarrow> Inr (c\<lparr>request_arbiter := a, message_available_req := True,
                                  elected_msg_req := m\<rparr>, itfs'))
      else Inr (c, itfs))"

definition split_requestBusStep ::
  "split_bus \<Rightarrow> u64 \<Rightarrow> u64 \<Rightarrow> interface list \<Rightarrow> (split_bus \<times> u64 \<times> interface list) result" where
  "split_requestBusStep c t sq itfs =
     (if responseBackpressured c itfs then Inr (c, sq, itfs)
      else result_bind (split_elect_req c t itfs)
        (\<lambda>(c1, itfs1).
           if message_available_req c1 \<and> clk_in_slot_req c1 = m_request_latency c1 - 1
           then (case broadcast sq itfs1 (elected_msg_req c1) REQUEST of
                   (sq2, itfs2, ok) \<Rightarrow>
                     Inr (if ok then c1\<lparr>message_available_req := False, clk_in_slot_req := 0\<rparr> else c1,
                          sq2, itfs2))
           else if message_available_req c1
           then Inr (c1\<lparr>clk_in_slot_req := clk_in_slot_req c1 + 1\<rparr>, sq, itfs1)
           else Inr (c1\<lparr>clk_in_slot_req := 0\<rparr>, sq, itfs1)))"

definition split_elect_resp ::
  "split_bus \<Rightarrow> u64 \<Rightarrow> interface list \<Rightarrow> (split_bus \<times> interface list) result" where
  "split_elect_resp c t itfs =
     (if clk_in_slot_resp c = 0 \<and> \<not> message_available_resp c
      then result_bind (elect_from arbiter_elect (response_arbiter c) t (buffers_resp c) itfs)
             (\<lambda>(a, r, itfs'). case r of
                None \<Rightarrow> Inr (c\<lparr>response_arbiter := a, message_available_resp := False\<rparr>, itfs')
              | Some m \<Rightarrow> Inr (c\<lparr>response_arbiter := a, message_available_resp := True,
                                  elected_msg_resp := m\<rparr>, itfs'))
      else Inr (c, itfs))"

definition split_responseBusStep ::
  "split_bus \<Rightarrow> u64 \<Rightarrow> u64 \<Rightarrow> interface list \<Rightarrow> (split_bus \<times> u64 \<times> interface list) result" where
  "split_responseBusStep c t sq itfs =
     result_bind (split_elect_resp c t itfs)
       (\<lambda>(c1, itfs1).
          if message_available_resp c1 \<and> clk_in_slot_resp c1 = m_response_latency c1 - 1
          then result_bind (bus_send sq itfs1 (elected_msg_resp c1) DATA_RESPONSE)
                 (\<lambda>(sq2, itfs2). Inr (c1\<lparr>message_available_resp := False, clk_in_slot_resp := 0\<rparr>, sq2, itfs2))
          else if message_available_resp c1
          then Inr (c1\<lparr>clk_in_slot_resp := clk_in_slot_resp c1 + 1\<rparr>, sq, itfs1)
          else Inr (c1\<lparr>clk_in_slot_resp := 0\<rparr>, sq, itfs1))"

definition split_busStep ::
  "split_bus \<Rightarrow> u64 \<Rightarrow> u64 \<Rightarrow> interface list \<Rightarrow> (split_bus \<times> u64 \<times> interface list) result" where
  "split_busStep c t sq itfs =
     result_bind (split_requestBusStep c t sq itfs)
       (\<lambda>(c1, sq1, itfs1). split_responseBusStep c1 t sq1 itfs1)"

section \<open>Triple bus\<close>

definition serviceBusStep :: "u64 \<Rightarrow> interface list \<Rightarrow> u64 \<times> interface list" where
  "serviceBusStep sq itfs =
     (let refs = getCongregatedServiceBuffers [0..<length itfs] in
      case first_index (\<lambda>r. tx_deref itfs r \<noteq> []) refs of
        None \<Rightarrow> (sq, itfs)
      | Some i \<Rightarrow>
          (case broadcast sq itfs (tx_deref itfs (refs ! i) ! 0) SERVICE_REQUEST of
             (sq', itfs', ok) \<Rightarrow>
               (sq', if ok then tx_assign (refs ! i) (erase_at 0 (tx_deref itfs' (refs ! i))) itfs'
                     else itfs')))"

definition triple_busStep ::
  "split_bus \<Rightarrow> u64 \<Rightarrow> u64 \<Rightarrow> interface list \<Rightarrow> (split_bus \<times> u64 \<times> interface list) result" where
  "triple_busStep c t sq itfs =
     result_bind (split_busStep c t sq itfs)
       (\<lambda>(c1, sq1, itfs1). case serviceBusStep sq1 itfs1 of (sq2, itfs2) \<Rightarrow> Inr (c1, sq2, itfs2))"

section \<open>Unified bus\<close>

record unified_bus =
  u_arbiter :: arbiter
  u_request_latency :: int
  u_response_latency :: int
  clk_in_slot :: int
  elected_msg :: message
  message_available :: bool

definition new_UnifiedBusController :: "string \<Rightarrow> int \<Rightarrow> int \<Rightarrow> int list \<Rightarrow> unified_bus result" where
  "new_UnifiedBusController arbiter_type req_lat resp_lat lower_level_ids =
     result_bind (new_arbiter arbiter_type lower_level_ids (req_lat + resp_lat))
       (\<lambda>a. Inr \<lparr> u_arbiter = a, u_request_latency = req_lat, u_response_latency = resp_lat,
                   clk_in_slot = 0, elected_msg = new_message 0 0 0 0 0, message_available = False \<rparr>)"

definition unified_elect ::
  "(arbiter \<Rightarrow> u64 \<Rightarrow> buffers \<Rightarrow> (arbiter \<times> (message \<times> buffers) option) result)
   \<Rightarrow> bool \<Rightarrow> unified_bus \<Rightarrow> u64 \<Rightarrow> interface list \<Rightarrow> (unified_bus \<times> interface list) result" where
  "unified_elect elect request_buffer c t itfs =
     result_bind (elect_from elect (u_arbiter c) t
                    (getCongregatedBuffers [0..<length itfs] request_buffer) itfs)
       (\<lambda>(a, r, itfs'). case r of
          None \<Rightarrow> Inr (c\<lparr>u_arbiter := a, message_available := False\<rparr>, itfs')
        | Some m \<Rightarrow> Inr (c\<lparr>u_arbiter := a, message_available := True, elected_msg := m\<rparr>, itfs'))"

text \<open>The four cases of \<open>requestBusStep\<close>, tested in the code's order.\<close>

definition unified_slot_action ::
  "unified_bus \<Rightarrow> u64 \<Rightarrow> u64 \<Rightarrow> interface list \<Rightarrow> (unified_bus \<times> u64 \<times> interface list) result" where
  "unified_slot_action c t sq itfs =
     (if clk_in_slot c = 0
      then result_bind (unified_elect arbiter_elect True c t itfs) (\<lambda>(c', itfs'). Inr (c', sq, itfs'))
      else if clk_in_slot c = u_request_latency c - 1
      then (if message_available c
            then (case broadcast sq itfs (elected_msg c) REQUEST of (sq', itfs', _) \<Rightarrow> Inr (c, sq', itfs'))
            else Inr (c, sq, itfs))
      else if clk_in_slot c = u_request_latency c
      then result_bind (unified_elect arbiter_forceElect False c t itfs) (\<lambda>(c', itfs'). Inr (c', sq, itfs'))
      else if clk_in_slot c = u_request_latency c + u_response_latency c - 1
      then (if message_available c
            then result_bind (bus_send sq itfs (elected_msg c) DATA_RESPONSE)
                   (\<lambda>(sq', itfs'). Inr (c\<lparr>message_available := False\<rparr>, sq', itfs'))
            else Inr (c, sq, itfs))
      else Inr (c, sq, itfs))"

text \<open>
  \<open>%\<close> on \<open>int\<close>: the dividend is positive here, so the remainder is that of the absolute value of
  the divisor.
\<close>

definition next_slot :: "bool \<Rightarrow> int \<Rightarrow> int \<Rightarrow> int result" where
  "next_slot available clk period =
     (if available then (if period = 0 then Inl (Undefined ''modulo 0'') else Inr ((clk + 1) mod \<bar>period\<bar>))
      else Inr 0)"

definition unified_busStep ::
  "unified_bus \<Rightarrow> u64 \<Rightarrow> u64 \<Rightarrow> interface list \<Rightarrow> (unified_bus \<times> u64 \<times> interface list) result" where
  "unified_busStep c t sq itfs =
     result_bind (unified_slot_action c t sq itfs)
       (\<lambda>(c1, sq1, itfs1).
          result_bind (next_slot (message_available c1) (clk_in_slot c1)
                         (u_request_latency c1 + u_response_latency c1))
            (\<lambda>k. Inr (c1\<lparr>clk_in_slot := k\<rparr>, sq1, itfs1)))"

section \<open>Point to point\<close>

record p2p_bus =
  p_arbiter :: arbiter
  p_request_latency :: int
  p_response_latency :: int
  clk_in_slot_lower :: int
  clk_in_slot_upper :: int
  elected_msg_lower :: message
  elected_msg_upper :: message
  message_available_lower :: bool
  message_available_upper :: bool
  buffers_lower :: "tx_ref list"
  buffers_upper :: "tx_ref list"

fun lower_indices :: "interface list \<Rightarrow> int list \<Rightarrow> nat list" where
  "lower_indices itfs [] = []"
| "lower_indices itfs (i # ids) =
     (case first_index (\<lambda>x. itf_id x = i) itfs of
        None \<Rightarrow> lower_indices itfs ids
      | Some k \<Rightarrow> k # lower_indices itfs ids)"

definition upper_index :: "interface list \<Rightarrow> int list \<Rightarrow> nat list" where
  "upper_index itfs ids =
     (case first_index (\<lambda>x. itf_id x \<notin> set ids) itfs of None \<Rightarrow> [] | Some k \<Rightarrow> [k])"

text \<open>
  The constructor leaves \<open>clk_in_slot_upper\<close> and \<open>message_available_upper\<close> uninitialised: their
  first values are the arguments \<open>clk_upper\<close> and \<open>available_upper\<close>.
\<close>

definition new_Point2PointController ::
  "int \<Rightarrow> bool \<Rightarrow> string \<Rightarrow> int \<Rightarrow> int \<Rightarrow> int list \<Rightarrow> int list \<Rightarrow> interface list \<Rightarrow> p2p_bus result" where
  "new_Point2PointController clk_upper available_upper arbiter_type req_lat resp_lat candidates_id
     lower_level_ids itfs =
     result_bind (new_arbiter arbiter_type
                    (if candidates_id = [] then lower_level_ids else candidates_id) (req_lat + resp_lat))
       (\<lambda>a. Inr
          \<lparr> p_arbiter = a, p_request_latency = req_lat, p_response_latency = resp_lat,
            clk_in_slot_lower = 0, clk_in_slot_upper = clk_upper,
            elected_msg_lower = new_message 0 0 0 0 0, elected_msg_upper = new_message 0 0 0 0 0,
            message_available_lower = False, message_available_upper = available_upper,
            buffers_lower = getCongregatedBuffers (lower_indices itfs lower_level_ids) True
              @ getCongregatedBuffers (lower_indices itfs lower_level_ids) False,
            buffers_upper = getCongregatedBuffers (upper_index itfs lower_level_ids) True
              @ getCongregatedBuffers (upper_index itfs lower_level_ids) False \<rparr>)"

definition lower_slot_action ::
  "p2p_bus \<Rightarrow> u64 \<Rightarrow> u64 \<Rightarrow> interface list \<Rightarrow> (p2p_bus \<times> u64 \<times> interface list) result" where
  "lower_slot_action c t sq itfs =
     (if clk_in_slot_lower c = 0
      then result_bind (elect_from arbiter_elect (p_arbiter c) t (buffers_lower c) itfs)
             (\<lambda>(a, r, itfs'). case r of
                None \<Rightarrow> Inr (c\<lparr>p_arbiter := a, message_available_lower := False\<rparr>, sq, itfs')
              | Some m \<Rightarrow> Inr (c\<lparr>p_arbiter := a, message_available_lower := True,
                                  elected_msg_lower := m\<rparr>, sq, itfs'))
      else if clk_in_slot_lower c = p_request_latency c - 1 \<and> message_available_lower c
      then result_bind (bus_send sq itfs (elected_msg_lower c) DATA_RESPONSE)
             (\<lambda>(sq', itfs'). Inr (c, sq', itfs'))
      else Inr (c, sq, itfs))"

definition lowerBusStep ::
  "p2p_bus \<Rightarrow> u64 \<Rightarrow> u64 \<Rightarrow> interface list \<Rightarrow> (p2p_bus \<times> u64 \<times> interface list) result" where
  "lowerBusStep c t sq itfs =
     result_bind (lower_slot_action c t sq itfs)
       (\<lambda>(c1, sq1, itfs1).
          result_bind (next_slot (message_available_lower c1) (clk_in_slot_lower c1) (p_request_latency c1))
            (\<lambda>k. Inr (c1\<lparr>clk_in_slot_lower := k\<rparr>, sq1, itfs1)))"

definition upper_slot_action ::
  "p2p_bus \<Rightarrow> u64 \<Rightarrow> interface list \<Rightarrow> (p2p_bus \<times> u64 \<times> interface list) result" where
  "upper_slot_action c sq itfs =
     (if clk_in_slot_upper c = 0
      then (case first_index (\<lambda>r. tx_deref itfs r \<noteq> []) (buffers_upper c) of
              Some i \<Rightarrow>
                let b = tx_deref itfs (buffers_upper c ! i) in
                Inr (c\<lparr>message_available_upper := True, elected_msg_upper := b ! 0\<rparr>, sq,
                     tx_assign (buffers_upper c ! i) (erase_at 0 b) itfs)
            | None \<Rightarrow>
                Inr (if buffers_upper c = [] then c else c\<lparr>message_available_upper := False\<rparr>, sq, itfs))
      else if clk_in_slot_upper c = p_response_latency c - 1 \<and> message_available_upper c
      then result_bind (bus_send sq itfs (elected_msg_upper c) DATA_RESPONSE)
             (\<lambda>(sq', itfs'). Inr (c, sq', itfs'))
      else Inr (c, sq, itfs))"

definition upperBusStep ::
  "p2p_bus \<Rightarrow> u64 \<Rightarrow> interface list \<Rightarrow> (p2p_bus \<times> u64 \<times> interface list) result" where
  "upperBusStep c sq itfs =
     result_bind (upper_slot_action c sq itfs)
       (\<lambda>(c1, sq1, itfs1).
          result_bind (next_slot (message_available_upper c1) (clk_in_slot_upper c1) (p_response_latency c1))
            (\<lambda>k. Inr (c1\<lparr>clk_in_slot_upper := k\<rparr>, sq1, itfs1)))"

definition p2p_busStep ::
  "p2p_bus \<Rightarrow> u64 \<Rightarrow> u64 \<Rightarrow> interface list \<Rightarrow> (p2p_bus \<times> u64 \<times> interface list) result" where
  "p2p_busStep c t sq itfs =
     result_bind (lowerBusStep c t sq itfs)
       (\<lambda>(c1, sq1, itfs1). upperBusStep c1 sq1 itfs1)"

section \<open>Direct interconnect\<close>

text \<open>
  One loop of \<open>controllerStep\<close> from index \<open>i\<close> on: the first queue whose head the peer
  accepts is served. \<open>at(i ^ 1)\<close> throws past the end.
\<close>

fun direct_loop ::
  "message_type \<Rightarrow> tx_ref list \<Rightarrow> nat \<Rightarrow> u64 \<Rightarrow> interface list \<Rightarrow> (u64 \<times> interface list) result" where
  "direct_loop ty [] i sq itfs = Inr (sq, itfs)"
| "direct_loop ty (r # refs) i sq itfs =
     (if tx_deref itfs r = [] then direct_loop ty refs (Suc i) sq itfs
      else let j = (if even i then i + 1 else i - 1) in
        if j < length itfs
        then (case itf_pushMessage2RX sq (itfs ! j) (tx_deref itfs r ! 0) ty of
                (sq', d, ok) \<Rightarrow>
                  if ok then Inr (sq', tx_assign r (erase_at 0 (tx_deref itfs r)) (itfs[j := d]))
                  else direct_loop ty refs (Suc i) sq' (itfs[j := d]))
        else Inl (Throw ''out_of_range''))"

definition controllerStep :: "u64 \<Rightarrow> interface list \<Rightarrow> (u64 \<times> interface list) result" where
  "controllerStep sq itfs =
     result_bind (direct_loop REQUEST (getCongregatedBuffers [0..<length itfs] True) 0 sq itfs)
       (\<lambda>(sq1, itfs1).
          direct_loop DATA_RESPONSE (getCongregatedBuffers [0..<length itfs] False) 0 sq1 itfs1)"

section \<open>The clocked buses\<close>

datatype bus_controller =
    SplitController split_bus
  | TripleController split_bus
  | UnifiedController unified_bus
  | P2PController p2p_bus

fun busStep ::
  "bus_controller \<Rightarrow> u64 \<Rightarrow> u64 \<Rightarrow> interface list \<Rightarrow> (bus_controller \<times> u64 \<times> interface list) result" where
  "busStep (SplitController c) t sq itfs =
     result_bind (split_busStep c t sq itfs) (\<lambda>(c', r). Inr (SplitController c', r))"
| "busStep (TripleController c) t sq itfs =
     result_bind (triple_busStep c t sq itfs) (\<lambda>(c', r). Inr (TripleController c', r))"
| "busStep (UnifiedController c) t sq itfs =
     result_bind (unified_busStep c t sq itfs) (\<lambda>(c', r). Inr (UnifiedController c', r))"
| "busStep (P2PController c) t sq itfs =
     result_bind (p2p_busStep c t sq itfs) (\<lambda>(c', r). Inr (P2PController c', r))"

record bus =
  m_interfaces :: "interface list"
  interconnect_controller :: bus_controller
  m_bus_cycle :: u64
  m_bus_cycle_edges :: u64

definition bus_cycleProcess :: "u64 \<Rightarrow> bus \<Rightarrow> (u64 \<times> bus) result" where
  "bus_cycleProcess sq b =
     result_bind
       (if m_bus_cycle_edges b mod 2 = 1
        then result_bind (busStep (interconnect_controller b) (m_bus_cycle b) sq (m_interfaces b))
               (\<lambda>(c, sq', itfs). Inr (sq', b\<lparr>interconnect_controller := c, m_interfaces := itfs,
                                             m_bus_cycle := m_bus_cycle b + 1\<rparr>))
        else Inr (sq, b))
       (\<lambda>(sq', b'). Inr (sq', b'\<lparr>m_bus_cycle_edges := m_bus_cycle_edges b' + 1\<rparr>))"

text \<open>The null pointer for an unknown identifier is \<open>None\<close>.\<close>

definition getInterfaceFor :: "interface list \<Rightarrow> int \<Rightarrow> interface option" where
  "getInterfaceFor itfs i =
     (case first_index (\<lambda>x. itf_id x = i) itfs of None \<Rightarrow> None | Some k \<Rightarrow> Some (itfs ! k))"

definition new_Bus ::
  "(int \<Rightarrow> int \<Rightarrow> interface) \<Rightarrow> int list \<Rightarrow> int list \<Rightarrow> int \<Rightarrow> bus_controller \<Rightarrow> bus" where
  "new_Bus new_itf upper_level_cache_ids lower_level_ids buffers_max_size ctl =
     \<lparr> m_interfaces = map (\<lambda>i. new_itf i buffers_max_size) (upper_level_cache_ids @ lower_level_ids),
       interconnect_controller = ctl, m_bus_cycle = 1, m_bus_cycle_edges = 1 \<rparr>"

record direct_interconnect =
  d_interfaces :: "interface list"
  m_interconnect_cycle :: u64
  m_interconnect_cycle_edges :: u64

definition new_DirectInterconnect :: "int \<Rightarrow> int \<Rightarrow> int \<Rightarrow> direct_interconnect" where
  "new_DirectInterconnect upper_id lower_id buffers_max_size =
     \<lparr> d_interfaces = [BusI (new_BusInterface lower_id buffers_max_size),
                       BusI (new_BusInterface upper_id buffers_max_size)],
       m_interconnect_cycle = 1, m_interconnect_cycle_edges = 1 \<rparr>"

definition direct_cycleProcess ::
  "u64 \<Rightarrow> direct_interconnect \<Rightarrow> (u64 \<times> direct_interconnect) result" where
  "direct_cycleProcess sq d =
     result_bind
       (if m_interconnect_cycle_edges d mod 2 = 1
        then result_bind (controllerStep sq (d_interfaces d))
               (\<lambda>(sq', itfs). Inr (sq', d\<lparr>d_interfaces := itfs,
                                          m_interconnect_cycle := m_interconnect_cycle d + 1\<rparr>))
        else Inr (sq, d))
       (\<lambda>(sq', d'). Inr (sq', d'\<lparr>m_interconnect_cycle_edges := m_interconnect_cycle_edges d' + 1\<rparr>))"

section \<open>Interfaces and pointers\<close>

named_theorems itf_simps "fields of an interface after a setter or a push"

lemma itf_set_tx [simp, itf_simps]:
  "itf_id (set_tx_request i b) = itf_id i" "itf_id (set_tx_response i b) = itf_id i"
  "itf_id (set_tx_service i b) = itf_id i"
  "tx_request (set_tx_request i b) = b" "tx_request (set_tx_response i b) = tx_request i"
  "tx_request (set_tx_service i b) = tx_request i"
  "tx_response (set_tx_response i b) = b" "tx_response (set_tx_request i b) = tx_response i"
  "tx_response (set_tx_service i b) = tx_response i"
  "rx_request (set_tx_request i b) = rx_request i" "rx_request (set_tx_response i b) = rx_request i"
  "rx_request (set_tx_service i b) = rx_request i"
  "itf_wf (set_tx_request i b) = itf_wf i" "itf_wf (set_tx_response i b) = itf_wf i"
  "itf_wf (set_tx_service i b) = itf_wf i"
  by (cases i; simp add: Bus_wf_def Triple_wf_def)+

lemma push_rx_tx:
  assumes "itf_pushMessage2RX sq i m ty = (sq', i', ok)"
  shows "tx_request i' = tx_request i" "tx_response i' = tx_response i" "tx_service i' = tx_service i"
    "itf_id i' = itf_id i" "itf_wf i \<Longrightarrow> itf_wf i'" "\<not> ok \<Longrightarrow> i' = i \<and> sq' = sq"
proof -
  show "tx_request i' = tx_request i" "tx_response i' = tx_response i" "tx_service i' = tx_service i"
    "itf_id i' = itf_id i" "\<not> ok \<Longrightarrow> i' = i \<and> sq' = sq"
    using assms
    by (cases i; cases ty; auto simp: Bus_pushMessage2RX_def Triple_pushMessage2RX_def split: if_splits)+
  show "itf_wf i \<Longrightarrow> itf_wf i'" using any_rx.push_queued [OF _ assms] by blast
qed

lemma push_rx_request:
  assumes "itf_pushMessage2RX sq i m ty = (sq', i', ok)"
  shows "rx_request i' = (if ok \<and> ty = REQUEST then rx_request i @ [m] else rx_request i)"
    "ty = REQUEST \<Longrightarrow> ok \<longleftrightarrow> \<not> isDemandRequest m \<or> itf_canAcceptRX i REQUEST"
    "ty = DATA_RESPONSE \<Longrightarrow> ok"
  using assms
  by (cases i; cases ty; auto simp: Bus_pushMessage2RX_def Triple_pushMessage2RX_def
      Bus_canAcceptRX_def Triple_canAcceptRX_def split: if_splits)+

lemma push_all_length: "push_all sq itfs m ty = (sq', itfs') \<Longrightarrow> length itfs' = length itfs"
  by (induction itfs arbitrary: sq itfs' sq')
    (auto simp: map_prod_def split: prod.splits)

lemma push_all_nth:
  "push_all sq itfs m ty = (sq', itfs') \<Longrightarrow> k < length itfs \<Longrightarrow>
   \<exists>s1 s2 ok. itf_pushMessage2RX s1 (itfs ! k) m ty = (s2, itfs' ! k, ok)"
proof (induction itfs arbitrary: sq itfs' sq' k)
  case (Cons i itfs)
  obtain s1 i' ok s2 is2 where *: "itf_pushMessage2RX sq i m ty = (s1, i', ok)"
    "push_all s1 itfs m ty = (s2, is2)"
    by (metis prod_cases3 surj_pair)
  then have "itfs' = i' # is2" using Cons.prems(1) by simp
  then show ?case using * Cons.IH [OF *(2)] Cons.prems(2) by (cases k) auto
qed simp

lemma broadcast_length: "broadcast sq itfs m ty = (sq', itfs', ok) \<Longrightarrow> length itfs' = length itfs"
  by (auto simp: broadcast_def push_all_length split: if_splits prod.splits)

lemma broadcast_tx:
  assumes "broadcast sq itfs m ty = (sq', itfs', ok)" "k < length itfs"
  shows "tx_request (itfs' ! k) = tx_request (itfs ! k)"
    "tx_response (itfs' ! k) = tx_response (itfs ! k)"
    "tx_service (itfs' ! k) = tx_service (itfs ! k)"
    "itf_id (itfs' ! k) = itf_id (itfs ! k)"
    "itf_wf (itfs ! k) \<Longrightarrow> itf_wf (itfs' ! k)"
proof -
  have "itfs' = itfs \<or> (\<exists>s1 s2 ok. itf_pushMessage2RX s1 (itfs ! k) m ty = (s2, itfs' ! k, ok))"
    using assms push_all_nth [OF _ assms(2)]
    by (auto simp: broadcast_def split: if_splits prod.splits)
  then show "tx_request (itfs' ! k) = tx_request (itfs ! k)"
    "tx_response (itfs' ! k) = tx_response (itfs ! k)"
    "tx_service (itfs' ! k) = tx_service (itfs ! k)"
    "itf_id (itfs' ! k) = itf_id (itfs ! k)"
    "itf_wf (itfs ! k) \<Longrightarrow> itf_wf (itfs' ! k)"
    using push_rx_tx by (metis, metis, metis, metis, metis)
qed

text \<open>A request broadcast reaches every interface or none.\<close>

lemma broadcast_request:
  assumes "broadcast sq itfs m REQUEST = (sq', itfs', ok)"
  shows "\<not> ok \<Longrightarrow> itfs' = itfs \<and> sq' = sq \<and> isDemandRequest m"
    and "ok \<Longrightarrow> k < length itfs \<Longrightarrow> rx_request (itfs' ! k) = rx_request (itfs ! k) @ [m]"
    and "ok \<longleftrightarrow> \<not> isDemandRequest m \<or> (\<forall>i\<in>set itfs. itf_canAcceptRX i REQUEST)"
proof -
  show "\<not> ok \<Longrightarrow> itfs' = itfs \<and> sq' = sq \<and> isDemandRequest m"
    and ok: "ok \<longleftrightarrow> \<not> isDemandRequest m \<or> (\<forall>i\<in>set itfs. itf_canAcceptRX i REQUEST)"
    using assms by (auto simp: broadcast_def split: if_splits prod.splits)
  assume "ok" "k < length itfs"
  then obtain s1 s2 ok' where "itf_pushMessage2RX s1 (itfs ! k) m REQUEST = (s2, itfs' ! k, ok')"
    using assms push_all_nth by (fastforce simp: broadcast_def split: if_splits prod.splits)
  with ok \<open>ok\<close> \<open>k < length itfs\<close> show "rx_request (itfs' ! k) = rx_request (itfs ! k) @ [m]"
    using push_rx_request by fastforce
qed

lemma broadcast_other:
  assumes "broadcast sq itfs m ty = (sq', itfs', ok)" "ty \<noteq> REQUEST" "k < length itfs"
  shows "rx_request (itfs' ! k) = rx_request (itfs ! k)"
proof -
  have "itfs' = itfs \<or> (\<exists>s1 s2 ok. itf_pushMessage2RX s1 (itfs ! k) m ty = (s2, itfs' ! k, ok))"
    using assms(1) push_all_nth [OF _ assms(3)]
    by (auto simp: broadcast_def split: if_splits prod.splits)
  then show ?thesis using push_rx_request(1) assms(2) by metis
qed

text \<open>A response send touches receive response queues only and cannot find them full.\<close>

lemma send_loop_response:
  "case send_loop sq itfs m ds DATA_RESPONSE of
     Inl e \<Rightarrow> e = Exit ''BusController: Wrong destination''
   | Inr (sq', itfs') \<Rightarrow> length itfs' = length itfs \<and>
       (\<forall>k<length itfs. rx_request (itfs' ! k) = rx_request (itfs ! k) \<and>
          tx_request (itfs' ! k) = tx_request (itfs ! k) \<and>
          tx_response (itfs' ! k) = tx_response (itfs ! k) \<and>
          tx_service (itfs' ! k) = tx_service (itfs ! k) \<and>
          itf_id (itfs' ! k) = itf_id (itfs ! k) \<and>
          (itf_wf (itfs ! k) \<longrightarrow> itf_wf (itfs' ! k)))"
proof (induction ds arbitrary: sq itfs)
  case Nil
  then show ?case by simp
next
  case (Cons d ds)
  show ?case
  proof (cases "first_index (\<lambda>i. itf_id i = uint d) itfs")
    case None
    then show ?thesis by simp
  next
    case (Some j)
    then have j: "j < length itfs" by (blast dest: first_index_SomeD(1))
    obtain s1 i' ok where p: "itf_pushMessage2RX sq (itfs ! j) m DATA_RESPONSE = (s1, i', ok)"
      by (metis prod_cases3)
    note P = push_rx_tx [OF p] push_rx_request [OF p]
    have ok using P by simp
    have upd: "rx_request (itfs[j := i'] ! k) = rx_request (itfs ! k)"
      "tx_request (itfs[j := i'] ! k) = tx_request (itfs ! k)"
      "tx_response (itfs[j := i'] ! k) = tx_response (itfs ! k)"
      "tx_service (itfs[j := i'] ! k) = tx_service (itfs ! k)"
      "itf_id (itfs[j := i'] ! k) = itf_id (itfs ! k)"
      "itf_wf (itfs ! k) \<Longrightarrow> itf_wf (itfs[j := i'] ! k)" for k
      using P j by (cases "k = j"; simp)+
    show ?thesis
      using Cons.IH [where sq = s1 and itfs = "itfs[j := i']"] Some p \<open>ok\<close> upd
      by (auto split: sum.splits)
  qed
qed

section \<open>Elections through pointers\<close>

lemma fold_write_one:
  assumes "i < length refs" "b' \<noteq> f (refs ! i)"
  shows "fold (\<lambda>(r, b) s. if b \<noteq> f r then g r b s else s) (zip refs ((map f refs)[i := b'])) s
       = g (refs ! i) b' s"
proof -
  have same: "fold (\<lambda>(r, b) s. if b \<noteq> f r then g r b s else s) (zip rs (map f rs)) s = s" for rs s
    by (induction rs arbitrary: s) auto
  show ?thesis
    using assms
  proof (induction refs arbitrary: i s)
    case (Cons r refs)
    then show ?case by (cases i) (auto simp: same)
  qed simp
qed

lemma elect_from_cases:
  assumes "elect_from arbiter_elect a t refs itfs = Inr (a', r, itfs')"
  shows "(r = None \<and> itfs' = itfs) \<or>
    (\<exists>m i j. r = Some m \<and> i < length refs \<and> j < length (tx_deref itfs (refs ! i)) \<and>
       m = tx_deref itfs (refs ! i) ! j \<and>
       itfs' = tx_assign (refs ! i) (erase_at j (tx_deref itfs (refs ! i))) itfs)"
proof -
  obtain a0 r0 where e0: "arbiter_elect a t (map (tx_deref itfs) refs) = Inr (a0, r0)"
    using assms by (auto simp: elect_from_def result_bind_Inr_iff)
  have rest: "(case r0 of None \<Rightarrow> Inr (a0, None, itfs)
      | Some (m, bufs) \<Rightarrow> Inr (a0, Some m, tx_write_back refs bufs itfs)) = (Inr (a', r, itfs') :: _ result)"
    using assms e0 by (simp add: elect_from_def)
  have e: "arbiter_elect a t (map (tx_deref itfs) refs) = Inr (a', r0)"
    using rest e0 by (simp split: option.splits prod.splits)
  show ?thesis
  proof (cases r0)
    case None
    then show ?thesis using rest by simp
  next
    case (Some p)
    then obtain m bufs where p: "r0 = Some (m, bufs)" by (cases p) auto
    from any_arbiter.elect_takes_one [OF e [unfolded p]] obtain i j where
      ij: "i < length refs" "j < length (tx_deref itfs (refs ! i))" "m = tx_deref itfs (refs ! i) ! j"
        "bufs = (map (tx_deref itfs) refs)[i := erase_at j (tx_deref itfs (refs ! i))]"
      unfolding takes_one_def by auto
    have ne: "erase_at j (tx_deref itfs (refs ! i)) \<noteq> tx_deref itfs (refs ! i)"
    proof
      assume "erase_at j (tx_deref itfs (refs ! i)) = tx_deref itfs (refs ! i)"
      then have "length (erase_at j (tx_deref itfs (refs ! i))) = length (tx_deref itfs (refs ! i))"
        by (rule arg_cong)
      then show False using length_erase_at [OF ij(2)] ij(2) by linarith
    qed
    have "tx_write_back refs bufs itfs = tx_assign (refs ! i) (erase_at j (tx_deref itfs (refs ! i))) itfs"
      unfolding tx_write_back_def ij(4)
      by (rule fold_write_one [where f = "tx_deref itfs" and g = tx_assign, OF ij(1) ne])
    then have "r = Some m" "itfs' = tx_assign (refs ! i) (erase_at j (tx_deref itfs (refs ! i))) itfs"
      using rest p by simp_all
    then show ?thesis using ij(1-3) by blast
  qed
qed

text \<open>An arbiter that cannot fail.\<close>

fun arbiter_ok :: "arbiter \<Rightarrow> bool" where
  "arbiter_ok (TDMArbiter a) \<longleftrightarrow>
     word_of_int (m_arbiter_period a) \<noteq> (0 :: u64) \<and> m_candidates_ids a \<noteq> []"
| "arbiter_ok _ \<longleftrightarrow> True"

lemma arbiter_elect_ok:
  assumes "arbiter_ok a"
  obtains a' r where "arbiter_elect a t bufs = Inr (a', r)" "arbiter_ok a'"
  using assms
proof (cases a)
  case (TDMArbiter b)
  then have *: "word_of_int (m_arbiter_period b) \<noteq> (0 :: u64)" "m_candidates_ids b \<noteq> []"
    using assms by simp_all
  obtain b' r where "TDM_elect b t bufs = Inr (b', r)" "m_arbiter_period b' = m_arbiter_period b"
    "m_candidates_ids b' = m_candidates_ids b"
    using TDM_elect_slot [OF *, of t bufs]
    by (cases "t mod word_of_int (m_arbiter_period b) = 0") (simp_all add: Let_def)
  then show thesis using * TDMArbiter by (intro that [of "TDMArbiter b'" r]) auto
next
  case (RRArbiter b)
  then show thesis by (intro that [of "RRArbiter (fst (RR_elect b t bufs))" "snd (RR_elect b t bufs)"])
      (simp_all add: case_prod_beta)
next
  case (FCFSArbiter b)
  then show thesis by (intro that) auto
qed

lemma elect_from_ok:
  assumes "arbiter_ok a"
  obtains a' r itfs' where "elect_from arbiter_elect a t refs itfs = Inr (a', r, itfs')" "arbiter_ok a'"
proof -
  obtain a' r where e: "arbiter_elect a t (map (tx_deref itfs) refs) = Inr (a', r)" "arbiter_ok a'"
    using arbiter_elect_ok [OF assms] .
  then show thesis
    by (cases r) (auto simp: elect_from_def intro: that)
qed

section \<open>A bus and its agents\<close>

text \<open>
  The agents on a bus push requests, responses and service messages into their transmit queues and read their
  receive queues; the bus controller runs between these. \<open>sys_sent\<close> collects the requests the interfaces
  accepted, \<open>sys_read k\<close> the requests agent \<open>k\<close> has read.
\<close>

record 'c bus_system =
  sys_ctl :: 'c
  sys_seq :: u64
  sys_itfs :: "interface list"
  sys_sent :: "message list"
  sys_read :: "nat \<Rightarrow> message list"

datatype bus_event = BusCycle u64 | AgentPush nat message u64 message_type | AgentRead nat

type_synonym 'c bus_step =
  "'c \<Rightarrow> u64 \<Rightarrow> u64 \<Rightarrow> interface list \<Rightarrow> ('c \<times> u64 \<times> interface list) result"

definition agent_push ::
  "nat \<Rightarrow> message \<Rightarrow> u64 \<Rightarrow> message_type \<Rightarrow> 'c bus_system \<Rightarrow> 'c bus_system" where
  "agent_push k m cyc ty s =
     (case itf_pushMessage (sys_itfs s ! k) m cyc ty of
        (i', m', ok) \<Rightarrow>
          s\<lparr>sys_itfs := (sys_itfs s)[k := i'],
            sys_sent := (if ok \<and> ty = REQUEST then sys_sent s @ [m'] else sys_sent s)\<rparr>)"

definition agent_read :: "nat \<Rightarrow> 'c bus_system \<Rightarrow> 'c bus_system result" where
  "agent_read k s =
     (case itf_peekMessage (sys_itfs s ! k) of
        (i', None) \<Rightarrow> Inr (s\<lparr>sys_itfs := (sys_itfs s)[k := i']\<rparr>)
      | (i', Some m) \<Rightarrow>
          result_bind (itf_popFrontMessage i')
            (\<lambda>i''. Inr (s\<lparr>sys_itfs := (sys_itfs s)[k := i''],
                 sys_read := (sys_read s)(k := sys_read s k @
                   (if rx_request i'' \<noteq> rx_request i' then [m] else []))\<rparr>)))"

fun bus_event_step :: "'c bus_step \<Rightarrow> bus_event \<Rightarrow> 'c bus_system \<Rightarrow> 'c bus_system result" where
  "bus_event_step stp (BusCycle t) s =
     result_bind (stp (sys_ctl s) t (sys_seq s) (sys_itfs s))
       (\<lambda>(c, sq, itfs). Inr (s\<lparr>sys_ctl := c, sys_seq := sq, sys_itfs := itfs\<rparr>))"
| "bus_event_step stp (AgentPush k m cyc ty) s =
     Inr (if k < length (sys_itfs s) then agent_push k m cyc ty s else s)"
| "bus_event_step stp (AgentRead k) s =
     (if k < length (sys_itfs s) then agent_read k s else Inr s)"

fun bus_run :: "'c bus_step \<Rightarrow> bus_event list \<Rightarrow> 'c bus_system \<Rightarrow> 'c bus_system result" where
  "bus_run stp [] s = Inr s"
| "bus_run stp (e # es) s = result_bind (bus_event_step stp e s) (bus_run stp es)"

definition new_system :: "'c \<Rightarrow> interface list \<Rightarrow> 'c bus_system" where
  "new_system c itfs = \<lparr> sys_ctl = c, sys_seq = 0, sys_itfs = itfs, sys_sent = [], sys_read = (\<lambda>_. []) \<rparr>"

definition tx_all :: "interface list \<Rightarrow> message multiset" where
  "tx_all itfs = mset (concat (map tx_request itfs))"

lemma tx_all_update:
  assumes "k < length itfs"
  shows "tx_all (itfs[k := i]) + mset (tx_request (itfs ! k)) = tx_all itfs + mset (tx_request i)"
  using mset_concat_update [of k "map tx_request itfs" "tx_request i"] assms
  by (simp add: tx_all_def map_update)

lemma tx_all_cong:
  assumes "length itfs' = length itfs" "\<And>k. k < length itfs \<Longrightarrow> tx_request (itfs' ! k) = tx_request (itfs ! k)"
  shows "tx_all itfs' = tx_all itfs"
proof -
  have "map tx_request itfs' = map tx_request itfs"
    using assms by (intro nth_equalityI) auto
  then show ?thesis by (simp add: tx_all_def)
qed

section \<open>What makes a bus an atomic total-order broadcast\<close>

text \<open>
  The law of one step: the requests in the transmit queues or held by the controller stay there, except
  those (at most one in the code) appended to the receive request queue of every interface.
\<close>

definition request_step ::
  "message multiset \<Rightarrow> interface list \<Rightarrow> message multiset \<Rightarrow> interface list \<Rightarrow> bool" where
  "request_step held itfs held' itfs' \<longleftrightarrow>
     length itfs' = length itfs \<and>
     (\<forall>k<length itfs. itf_wf (itfs ! k) \<longrightarrow> itf_wf (itfs' ! k)) \<and>
     (\<exists>D. (\<forall>k<length itfs. rx_request (itfs' ! k) = rx_request (itfs ! k) @ D) \<and>
          held' + tx_all itfs' + mset D = held + tx_all itfs)"

lemma request_step_trans:
  assumes "request_step h1 i1 h2 i2" "request_step h2 i2 h3 i3"
  shows "request_step h1 i1 h3 i3"
proof -
  from assms obtain D1 D2 where
    "\<forall>k<length i1. rx_request (i2 ! k) = rx_request (i1 ! k) @ D1" "h2 + tx_all i2 + mset D1 = h1 + tx_all i1"
    "\<forall>k<length i2. rx_request (i3 ! k) = rx_request (i2 ! k) @ D2" "h3 + tx_all i3 + mset D2 = h2 + tx_all i2"
    unfolding request_step_def by blast
  moreover have "length i2 = length i1" "length i3 = length i2"
    "\<forall>k<length i1. itf_wf (i1 ! k) \<longrightarrow> itf_wf (i2 ! k)" "\<forall>k<length i2. itf_wf (i2 ! k) \<longrightarrow> itf_wf (i3 ! k)"
    using assms unfolding request_step_def by blast+
  ultimately show ?thesis
    unfolding request_step_def
    by (intro conjI exI [of _ "D1 @ D2"]) (auto simp: ac_simps)
qed

locale ordered_bus =
  fixes stp :: "'c bus_step"
    and held :: "'c \<Rightarrow> message multiset"
    and ctl_ok :: "nat \<Rightarrow> 'c \<Rightarrow> bool"
    and benign :: "sim_error \<Rightarrow> bool"
  assumes step_keeps: "ctl_ok (length itfs) c \<Longrightarrow> stp c t sq itfs = Inr (c', sq', itfs') \<Longrightarrow>
        ctl_ok (length itfs) c' \<and> request_step (held c) itfs (held c') itfs'"
    and step_error: "ctl_ok (length itfs) c \<Longrightarrow> stp c t sq itfs = Inl e \<Longrightarrow> benign e"

definition total_order_inv ::
  "('c \<Rightarrow> message multiset) \<Rightarrow> (nat \<Rightarrow> 'c \<Rightarrow> bool) \<Rightarrow> 'c bus_system \<Rightarrow> bool" where
  "total_order_inv held ctl_ok s \<longleftrightarrow>
     ctl_ok (length (sys_itfs s)) (sys_ctl s) \<and> (\<forall>k<length (sys_itfs s). itf_wf (sys_itfs s ! k)) \<and>
     (\<exists>D. (\<forall>k<length (sys_itfs s). sys_read s k @ rx_request (sys_itfs s ! k) = D) \<and>
          held (sys_ctl s) + tx_all (sys_itfs s) + mset D = mset (sys_sent s))"

lemma agent_push_inv:
  assumes inv: "total_order_inv held ctl_ok s" and k: "k < length (sys_itfs s)"
  shows "total_order_inv held ctl_ok (agent_push k m cyc ty s)"
proof -
  let ?i = "sys_itfs s ! k"
  obtain i' m' ok where p: "itf_pushMessage ?i m cyc ty = (i', m', ok)" by (metis prod_cases3)
  have P: "tx_request i' = (if ok \<and> ty = REQUEST then tx_request ?i @ [m'] else tx_request ?i)"
    "rx_request i' = rx_request ?i" "itf_wf ?i \<Longrightarrow> itf_wf i'"
    using p by (cases ?i; auto simp: Bus_pushMessage_def Triple_pushMessage_def Let_def Bus_wf_def
        Triple_wf_def split: if_splits)+
  have tx: "tx_all ((sys_itfs s)[k := i']) = tx_all (sys_itfs s) +
      (if ok \<and> ty = REQUEST then {#m'#} else {#})"
    using tx_all_update [OF k, of i'] P(1) by (auto split: if_splits)
  have rx: "rx_request ((sys_itfs s)[k := i'] ! j) = rx_request (sys_itfs s ! j)"
    "itf_wf (sys_itfs s ! j) \<Longrightarrow> itf_wf ((sys_itfs s)[k := i'] ! j)" for j
    using P k by (cases "j = k"; simp)+
  show ?thesis
    using inv tx rx by (auto simp: total_order_inv_def agent_push_def p)
qed

lemma peek_fields:
  assumes "itf_peekMessage i = (i', r)"
  shows "rx_request i' = rx_request i \<and> tx_request i' = tx_request i"
proof (cases i)
  case (BusI s)
  then show ?thesis using assms
    by (cases rule: Bus_peekMessage_cases [of s]) auto
next
  case (TripleI s)
  show ?thesis
  proof (cases rule: Triple_peekMessage_cases [of s])
    case service
    then show ?thesis using assms TripleI by auto
  next
    case bus
    then show ?thesis using assms TripleI
      by (cases rule: Bus_peekMessage_cases [of "s\<lparr>m_service_selected := False\<rparr>"]) auto
  qed
qed

lemma read_request:
  assumes wf: "itf_wf i" and pk: "itf_peekMessage i = (i', Some m)" and pp: "itf_popFrontMessage i' = Inr i''"
  shows "itf_wf i''" "tx_request i'' = tx_request i" "rx_request i' = rx_request i"
    "(if rx_request i'' \<noteq> rx_request i' then [m] else []) @ rx_request i'' = rx_request i"
proof -
  from any_rx.peek_pop [OF wf pk] pp show "itf_wf i''" by simp
  have ne: "xs \<noteq> [] \<Longrightarrow> tl xs \<noteq> xs" "xs \<noteq> [] \<Longrightarrow> xs ! 0 # tl xs = xs" for xs :: "message list"
    by (cases xs; simp)+
  show "tx_request i'' = tx_request i" "rx_request i' = rx_request i"
    "(if rx_request i'' \<noteq> rx_request i' then [m] else []) @ rx_request i'' = rx_request i"
  proof (atomize (full), cases i)
    case (BusI s)
    show "tx_request i'' = tx_request i \<and> rx_request i' = rx_request i \<and>
        (if rx_request i'' \<noteq> rx_request i' then [m] else []) @ rx_request i'' = rx_request i"
      using assms(2,3) BusI ne
      by (cases rule: Bus_peekMessage_cases [of s])
        (auto simp: Bus_popFrontMessage_def erase_at_0 split: if_splits)
  next
    case (TripleI s)
    show "tx_request i'' = tx_request i \<and> rx_request i' = rx_request i \<and>
        (if rx_request i'' \<noteq> rx_request i' then [m] else []) @ rx_request i'' = rx_request i"
    proof (cases rule: Triple_peekMessage_cases [of s])
      case service
      then show ?thesis using assms(2,3) TripleI
        by (auto simp: Triple_popFrontMessage_def split: if_splits)
    next
      case bus
      then show ?thesis using assms(2,3) TripleI ne
        by (cases rule: Bus_peekMessage_cases [of "s\<lparr>m_service_selected := False\<rparr>"])
          (auto simp: Triple_popFrontMessage_def Bus_popFrontMessage_def erase_at_0 split: if_splits)
    qed
  qed
qed

lemma agent_read_inv:
  assumes inv: "total_order_inv held ctl_ok s" and k: "k < length (sys_itfs s)"
  obtains s' where "agent_read k s = Inr s'" "total_order_inv held ctl_ok s'"
proof -
  let ?i = "sys_itfs s ! k"
  have wf: "itf_wf ?i" using inv k by (simp add: total_order_inv_def)
  obtain i' r where pk: "itf_peekMessage ?i = (i', r)" by (cases "itf_peekMessage ?i")
  have upd: "total_order_inv held ctl_ok (s\<lparr>sys_itfs := (sys_itfs s)[k := j], sys_read := (sys_read s)(k := ms)\<rparr>)"
    if "itf_wf j" "tx_request j = tx_request ?i" "ms @ rx_request j = sys_read s k @ rx_request ?i" for j ms
  proof -
    have "tx_all ((sys_itfs s)[k := j]) = tx_all (sys_itfs s)"
      using tx_all_update [OF k, of j] that(2) by simp
    moreover have "itf_wf ((sys_itfs s)[k := j] ! l)" if "l < length (sys_itfs s)" for l
      using inv that \<open>itf_wf j\<close> k by (cases "l = k") (auto simp: total_order_inv_def)
    moreover have "(if l = k then ms else sys_read s l) @ rx_request ((sys_itfs s)[k := j] ! l)
        = sys_read s l @ rx_request (sys_itfs s ! l)" if "l < length (sys_itfs s)" for l
      using that(1) \<open>ms @ rx_request j = _\<close> k by auto
    ultimately show ?thesis
      using inv by (auto simp: total_order_inv_def)
  qed
  show thesis
  proof (cases r)
    case None
    have "rx_request i' = rx_request ?i \<and> tx_request i' = tx_request ?i"
      using pk by (rule peek_fields)
    with upd [of i' "sys_read s k"] any_rx.peek_keeps [OF wf pk] show thesis
      using pk None by (intro that) (auto simp: agent_read_def)
  next
    case (Some m)
    from any_rx.peek_pop [OF wf pk [unfolded Some]] obtain i'' where pp: "itf_popFrontMessage i' = Inr i''" by blast
    note R = read_request [OF wf pk [unfolded Some] pp]
    have "total_order_inv held ctl_ok (s\<lparr>sys_itfs := (sys_itfs s)[k := i''], sys_read := (sys_read s)(k := sys_read s k @
           (if rx_request i'' \<noteq> rx_request i' then [m] else []))\<rparr>)"
    proof (rule upd)
      show "(sys_read s k @ (if rx_request i'' \<noteq> rx_request i' then [m] else [])) @ rx_request i''
          = sys_read s k @ rx_request ?i"
        by (simp only: append_assoc R(4))
    qed (use R in simp_all)
    then show thesis using pk Some pp by (intro that) (auto simp: agent_read_def)
  qed
qed

context ordered_bus
begin

lemma event_keeps:
  assumes inv: "total_order_inv held ctl_ok s"
  shows "case bus_event_step stp e s of Inr s' \<Rightarrow> total_order_inv held ctl_ok s' | Inl err \<Rightarrow> benign err"
proof (cases e)
  case (BusCycle t)
  show ?thesis
  proof (cases "stp (sys_ctl s) t (sys_seq s) (sys_itfs s)")
    case (Inl err)
    then show ?thesis using BusCycle inv step_error by (auto simp: total_order_inv_def)
  next
    case (Inr r)
    obtain c sq itfs where r: "r = (c, sq, itfs)" by (cases r)
    from inv have wf: "ctl_ok (length (sys_itfs s)) (sys_ctl s)" by (simp add: total_order_inv_def)
    note S = step_keeps [OF wf Inr [unfolded r]]
    from S obtain D where D: "\<forall>k<length (sys_itfs s). rx_request (itfs ! k) = rx_request (sys_itfs s ! k) @ D"
      "held c + tx_all itfs + mset D = held (sys_ctl s) + tx_all (sys_itfs s)" "length itfs = length (sys_itfs s)"
      "\<forall>k<length (sys_itfs s). itf_wf (sys_itfs s ! k) \<longrightarrow> itf_wf (itfs ! k)"
      unfolding request_step_def by blast
    from inv obtain D0 where D0: "\<forall>k<length (sys_itfs s). sys_read s k @ rx_request (sys_itfs s ! k) = D0"
      "held (sys_ctl s) + tx_all (sys_itfs s) + mset D0 = mset (sys_sent s)"
      unfolding total_order_inv_def by blast
    have "\<forall>k<length itfs. sys_read s k @ rx_request (itfs ! k) = D0 @ D"
      using D(1,3) D0(1) by (metis append_assoc)
    moreover have "held c + tx_all itfs + mset (D0 @ D) = mset (sys_sent s)"
      using D(2) D0(2) by (simp add: ac_simps)
    ultimately show ?thesis
      using BusCycle Inr r S D(3,4) inv by (auto simp: total_order_inv_def)
  qed
next
  case (AgentPush k m cyc ty)
  then show ?thesis using inv agent_push_inv by auto
next
  case (AgentRead k)
  then show ?thesis using inv by (auto elim: agent_read_inv)
qed

lemma run_total_order:
  "total_order_inv held ctl_ok s \<Longrightarrow>
   case bus_run stp es s of Inr s' \<Rightarrow> total_order_inv held ctl_ok s' | Inl err \<Rightarrow> benign err"
proof (induction es arbitrary: s)
  case (Cons e es)
  show ?case
  proof (cases "bus_event_step stp e s")
    case (Inl err)
    then show ?thesis using event_keeps [OF Cons.prems, of e] by simp
  next
    case (Inr s')
    then show ?thesis using event_keeps [OF Cons.prems, of e] Cons.IH [of s'] by simp
  qed
qed simp

end

lemma total_order_new:
  assumes "ctl_ok (length itfs) c" "held c = {#}"
    and "\<forall>i\<in>set itfs. itf_wf i \<and> tx_request i = [] \<and> rx_request i = []"
  shows "total_order_inv held ctl_ok (new_system c itfs)"
  using assms by (auto simp: total_order_inv_def new_system_def tx_all_def)

section \<open>The split and triple buses keep the law\<close>

definition split_held :: "split_bus \<Rightarrow> message multiset" where
  "split_held c = (if message_available_req c then {#elected_msg_req c#} else {#})"

definition split_ok :: "nat \<Rightarrow> split_bus \<Rightarrow> bool" where
  "split_ok n c \<longleftrightarrow>
     buffers_req c = getCongregatedBuffers [0..<n] True \<and>
     buffers_resp c = getCongregatedBuffers [0..<n] False \<and>
     arbiter_ok (request_arbiter c) \<and> arbiter_ok (response_arbiter c)"

definition wrong_destination :: "sim_error \<Rightarrow> bool" where
  "wrong_destination e \<longleftrightarrow> e = Exit ''BusController: Wrong destination''"

lemma request_step_refl: "request_step h itfs h itfs"
  unfolding request_step_def by (intro conjI exI [of _ "[]"]) auto

text \<open>A step that leaves requests alone.\<close>

lemma request_step_same:
  assumes "length itfs' = length itfs"
    and "\<And>k. k < length itfs \<Longrightarrow> rx_request (itfs' ! k) = rx_request (itfs ! k)"
    and "\<And>k. k < length itfs \<Longrightarrow> tx_request (itfs' ! k) = tx_request (itfs ! k)"
    and "\<And>k. k < length itfs \<Longrightarrow> itf_wf (itfs ! k) \<Longrightarrow> itf_wf (itfs' ! k)"
  shows "request_step h itfs h itfs'"
  using assms tx_all_cong [OF assms(1,3)] unfolding request_step_def
  by (intro conjI exI [of _ "[]"]) auto

lemma split_elect_req_keeps:
  assumes ok: "split_ok (length itfs) c"
  obtains c1 itfs1 where "split_elect_req c t itfs = Inr (c1, itfs1)" "split_ok (length itfs) c1"
    "request_step (split_held c) itfs (split_held c1) itfs1"
    "m_request_latency c1 = m_request_latency c" "clk_in_slot_req c1 = clk_in_slot_req c"
proof (cases "clk_in_slot_req c = 0 \<and> \<not> message_available_req c")
  case False
  then have "split_elect_req c t itfs = Inr (c, itfs)"
    by (simp only: split_elect_req_def if_False)
  then show thesis using ok request_step_refl by (intro that) auto
next
  case True
  have a: "arbiter_ok (request_arbiter c)" using ok by (simp add: split_ok_def)
  obtain a' r itfs' where e: "elect_from arbiter_elect (request_arbiter c) t (buffers_req c) itfs
      = Inr (a', r, itfs')" and a': "arbiter_ok a'"
    by (rule elect_from_ok [OF a])
  from elect_from_cases [OF e] show thesis
  proof (elim disjE exE conjE)
    assume "r = None" "itfs' = itfs"
    then show thesis
      using True e ok a' request_step_refl
      by (intro that [of "c\<lparr>request_arbiter := a', message_available_req := False\<rparr>" itfs])
        (auto simp: split_elect_req_def split_ok_def split_held_def)
  next
    fix m i j
    assume r: "r = Some m" "i < length (buffers_req c)" "j < length (tx_deref itfs (buffers_req c ! i))"
      "m = tx_deref itfs (buffers_req c ! i) ! j"
      "itfs' = tx_assign (buffers_req c ! i) (erase_at j (tx_deref itfs (buffers_req c ! i))) itfs"
    have i: "i < length itfs" "buffers_req c ! i = TxRequest i"
      using ok r(2) by (auto simp: split_ok_def getCongregatedBuffers_def)
    let ?E = "erase_at j (tx_request (itfs ! i))"
    have ms: "mset (tx_request (itfs ! i)) = add_mset m (mset ?E)"
      using mset_erase_at [of j "tx_request (itfs ! i)"] r(3,4) i by simp
    have itfs': "itfs' = itfs[i := set_tx_request (itfs ! i) ?E]" using r(5) i(2) by simp
    have "add_mset m (tx_all itfs') + mset ?E = tx_all itfs + mset ?E"
      using tx_all_update [OF i(1), of "set_tx_request (itfs ! i) ?E"] unfolding itfs' ms by simp
    then have tx: "add_mset m (tx_all itfs') = tx_all itfs" by (simp only: union_right_cancel)
    have "request_step {#} itfs {#m#} itfs'"
      unfolding request_step_def
      using i(1) tx by (intro conjI exI [of _ "[]"]) (simp_all add: itfs' nth_list_update)
    then show thesis
      using True e ok a' r(1)
      by (intro that [of "c\<lparr>request_arbiter := a', message_available_req := True, elected_msg_req := m\<rparr>" itfs'])
        (auto simp: split_elect_req_def split_ok_def split_held_def)
  qed
qed

lemma request_step_broadcast:
  assumes "broadcast sq itfs m REQUEST = (sq', itfs', ok)"
  shows "request_step {#m#} itfs (if ok then {#} else {#m#}) itfs'"
proof (cases ok)
  case False
  then show ?thesis using broadcast_request(1) [OF assms] request_step_refl by simp
next
  case True
  have "tx_all itfs' = tx_all itfs"
    using broadcast_length [OF assms] broadcast_tx(1) [OF assms] by (rule tx_all_cong)
  then show ?thesis
    using True broadcast_length [OF assms] broadcast_tx(5) [OF assms] broadcast_request(2) [OF assms True]
    unfolding request_step_def by (intro conjI exI [of _ "[m]"]) auto
qed

lemma split_request_keeps:
  assumes ok: "split_ok (length itfs) c"
  obtains c' sq' itfs' where "split_requestBusStep c t sq itfs = Inr (c', sq', itfs')"
    "split_ok (length itfs) c'" "request_step (split_held c) itfs (split_held c') itfs'"
proof (cases "responseBackpressured c itfs")
  case True
  then show thesis using ok request_step_refl by (intro that) (auto simp: split_requestBusStep_def)
next
  case False
  obtain c1 itfs1 where e: "split_elect_req c t itfs = Inr (c1, itfs1)" "split_ok (length itfs) c1"
    "request_step (split_held c) itfs (split_held c1) itfs1"
    by (rule split_elect_req_keeps [OF ok])
  show thesis
  proof (cases "message_available_req c1 \<and> clk_in_slot_req c1 = m_request_latency c1 - 1")
    case True
    obtain sq2 itfs2 ok2 where b: "broadcast sq itfs1 (elected_msg_req c1) REQUEST = (sq2, itfs2, ok2)"
      by (metis prod_cases3)
    let ?c = "if ok2 then c1\<lparr>message_available_req := False, clk_in_slot_req := 0\<rparr> else c1"
    have "request_step (split_held c1) itfs1 (split_held ?c) itfs2"
      using request_step_broadcast [OF b] True by (auto simp: split_held_def split: if_splits)
    then have "request_step (split_held c) itfs (split_held ?c) itfs2"
      using e(3) request_step_trans by blast
    then show thesis
      using False e b True by (intro that [of ?c sq2 itfs2]) (auto simp: split_requestBusStep_def split_ok_def)
  next
    case F2: False
    let ?c = "if message_available_req c1 then c1\<lparr>clk_in_slot_req := clk_in_slot_req c1 + 1\<rparr>
      else c1\<lparr>clk_in_slot_req := 0\<rparr>"
    have "split_requestBusStep c t sq itfs = Inr (?c, sq, itfs1)"
      using False e(1) F2 by (simp add: split_requestBusStep_def)
    moreover have "split_held ?c = split_held c1" "split_ok (length itfs) ?c"
      using e(2) by (simp_all add: split_held_def split_ok_def)
    ultimately show thesis using e(3) by (intro that [of ?c sq itfs1]) (simp_all only:)
  qed
qed

lemma split_response_keeps:
  assumes ok: "split_ok (length itfs) c"
  shows "case split_responseBusStep c t sq itfs of
      Inl e \<Rightarrow> wrong_destination e
    | Inr (c', sq', itfs') \<Rightarrow> split_ok (length itfs) c' \<and> request_step (split_held c) itfs (split_held c') itfs'"
proof -
  obtain c1 itfs1 where e: "split_elect_resp c t itfs = Inr (c1, itfs1)" and c1: "split_ok (length itfs) c1"
    "split_held c1 = split_held c" and s1: "request_step (split_held c) itfs (split_held c1) itfs1"
  proof (cases "clk_in_slot_resp c = 0 \<and> \<not> message_available_resp c")
    case False
    then have "split_elect_resp c t itfs = Inr (c, itfs)" by (simp only: split_elect_resp_def if_False)
    then show thesis using ok request_step_refl by (intro that) auto
  next
    case True
    have a: "arbiter_ok (response_arbiter c)" using ok by (simp add: split_ok_def)
    obtain a' r itfs' where e: "elect_from arbiter_elect (response_arbiter c) t (buffers_resp c) itfs
        = Inr (a', r, itfs')" and a': "arbiter_ok a'"
      by (rule elect_from_ok [OF a])
    have "request_step (split_held c) itfs (split_held c) itfs'"
      using elect_from_cases [OF e]
    proof (elim disjE exE conjE)
      fix m i j
      assume r: "i < length (buffers_resp c)"
        "itfs' = tx_assign (buffers_resp c ! i) (erase_at j (tx_deref itfs (buffers_resp c ! i))) itfs"
      have i: "i < length itfs" "buffers_resp c ! i = TxResponse i"
        using ok r(1) by (auto simp: split_ok_def getCongregatedBuffers_def)
      show ?thesis
        using r(2) i by (intro request_step_same) (auto simp: nth_list_update)
    qed (simp add: request_step_refl)
    then show thesis
      using True e ok a'
      by (intro that [of "case r of None \<Rightarrow> c\<lparr>response_arbiter := a', message_available_resp := False\<rparr>
            | Some m \<Rightarrow> c\<lparr>response_arbiter := a', message_available_resp := True, elected_msg_resp := m\<rparr>" itfs'])
        (auto simp: split_elect_resp_def split_ok_def split_held_def split: option.splits)
  qed
  show ?thesis
  proof (cases "message_available_resp c1 \<and> clk_in_slot_resp c1 = m_response_latency c1 - 1")
    case True
    show ?thesis
    proof (cases "bus_send sq itfs1 (elected_msg_resp c1) DATA_RESPONSE")
      case (Inl err)
      then show ?thesis
        using e True send_loop_response [where sq = sq and itfs = itfs1 and m = "elected_msg_resp c1" and ds = "msg_to (elected_msg_resp c1)"]
        by (simp add: split_responseBusStep_def bus_send_def wrong_destination_def)
    next
      case (Inr r)
      obtain sq2 itfs2 where r: "r = (sq2, itfs2)" by (cases r)
      have "request_step (split_held c1) itfs1 (split_held c1) itfs2"
        using send_loop_response [where sq = sq and itfs = itfs1 and m = "elected_msg_resp c1" and ds = "msg_to (elected_msg_resp c1)"] Inr r
        by (intro request_step_same) (auto simp: bus_send_def)
      with s1 have "request_step (split_held c) itfs (split_held c1) itfs2" by (rule request_step_trans)
      then show ?thesis
        using e True Inr r c1 by (auto simp: split_responseBusStep_def split_ok_def split_held_def)
    qed
  next
    case False
    then show ?thesis
      using e c1 s1 by (auto simp: split_responseBusStep_def split_ok_def split_held_def)
  qed
qed

lemma split_busStep_keeps:
  assumes ok: "split_ok (length itfs) c"
  shows "case split_busStep c t sq itfs of
      Inl e \<Rightarrow> wrong_destination e
    | Inr (c', sq', itfs') \<Rightarrow> split_ok (length itfs) c' \<and> request_step (split_held c) itfs (split_held c') itfs'"
proof -
  obtain c1 sq1 itfs1 where q: "split_requestBusStep c t sq itfs = Inr (c1, sq1, itfs1)"
    "split_ok (length itfs) c1" "request_step (split_held c) itfs (split_held c1) itfs1"
    by (rule split_request_keeps [OF ok])
  have len: "length itfs1 = length itfs" using q(3) by (simp add: request_step_def)
  from split_response_keeps [of itfs1 c1 t sq1] q len request_step_trans [OF q(3)] show ?thesis
    by (auto simp: split_busStep_def split: sum.splits)
qed

interpretation split_order: ordered_bus split_busStep split_held split_ok wrong_destination
proof
  fix itfs c t sq c' sq' itfs'
  assume "split_ok (length itfs) c" "split_busStep c t sq itfs = Inr (c', sq', itfs')"
  then show "split_ok (length itfs) c' \<and> request_step (split_held c) itfs (split_held c') itfs'"
    using split_busStep_keeps [of itfs c t sq] by simp
next
  fix itfs c t sq e
  assume "split_ok (length itfs) c" "split_busStep c t sq itfs = Inl e"
  then show "wrong_destination e"
    using split_busStep_keeps [of itfs c t sq] by simp
qed

lemma service_keeps:
  assumes "serviceBusStep sq itfs = (sq', itfs')"
  shows "request_step h itfs h itfs'"
proof (cases "first_index (\<lambda>r. tx_deref itfs r \<noteq> []) (getCongregatedServiceBuffers [0..<length itfs])")
  case None
  then show ?thesis using assms request_step_refl by (simp add: serviceBusStep_def)
next
  case (Some i)
  then have i: "i < length itfs"
    by (auto dest!: first_index_SomeD(1) simp: getCongregatedServiceBuffers_def)
  then have r: "getCongregatedServiceBuffers [0..<length itfs] ! i = TxService i"
    by (simp add: getCongregatedServiceBuffers_def)
  obtain sq2 itfs2 ok where b:
    "broadcast sq itfs (tx_service (itfs ! i) ! 0) SERVICE_REQUEST = (sq2, itfs2, ok)"
    by (metis prod_cases3)
  note B = broadcast_length [OF b] broadcast_tx [OF b] broadcast_other [OF b]
  have "itfs' = (if ok then itfs2[i := set_tx_service (itfs2 ! i) (erase_at 0 (tx_service (itfs2 ! i)))] else itfs2)"
    using assms Some r b by (auto simp: serviceBusStep_def Let_def)
  then show ?thesis
    using B i by (intro request_step_same) (auto simp: nth_list_update)
qed

interpretation triple_order: ordered_bus triple_busStep split_held split_ok wrong_destination
proof
  fix itfs c t sq c' sq' itfs'
  assume ok: "split_ok (length itfs) c" and st: "triple_busStep c t sq itfs = Inr (c', sq', itfs')"
  then obtain sq1 itfs1 where
    s: "split_busStep c t sq itfs = Inr (c', sq1, itfs1)" "serviceBusStep sq1 itfs1 = (sq', itfs')"
    by (auto simp: triple_busStep_def result_bind_Inr_iff split: prod.splits)
  from split_order.step_keeps [OF ok s(1)] service_keeps [OF s(2)] request_step_trans
  show "split_ok (length itfs) c' \<and> request_step (split_held c) itfs (split_held c') itfs'" by blast
next
  fix itfs c t sq e
  assume ok: "split_ok (length itfs) c" and st: "triple_busStep c t sq itfs = Inl e"
  then have "split_busStep c t sq itfs = Inl e"
    by (auto simp: triple_busStep_def result_bind_def split: sum.splits prod.splits)
  with ok show "wrong_destination e" by (rule split_order.step_error)
qed

section \<open>Slot timing of the split bus\<close>

fun split_request_steps ::
  "u64 list \<Rightarrow> split_bus \<Rightarrow> u64 \<Rightarrow> interface list \<Rightarrow> (split_bus \<times> u64 \<times> interface list) result" where
  "split_request_steps [] c sq itfs = Inr (c, sq, itfs)"
| "split_request_steps (t # ts) c sq itfs =
     result_bind (split_requestBusStep c t sq itfs)
       (\<lambda>(c', sq', itfs'). split_request_steps ts c' sq' itfs')"

lemma split_step_waiting:
  assumes "\<not> responseBackpressured c itfs" "message_available_req c"
    and "clk_in_slot_req c \<noteq> m_request_latency c - 1"
  shows "split_requestBusStep c t sq itfs = Inr (c\<lparr>clk_in_slot_req := clk_in_slot_req c + 1\<rparr>, sq, itfs)"
  using assms by (simp add: split_requestBusStep_def split_elect_req_def)

lemma responseBackpressured_update [simp]:
  "responseBackpressured (c\<lparr>clk_in_slot_req := x\<rparr>) itfs = responseBackpressured c itfs"
  by (simp add: responseBackpressured_def)

lemma split_steps_waiting:
  assumes "\<not> responseBackpressured c itfs" "message_available_req c"
    and "clk_in_slot_req c + int (length ts) \<le> m_request_latency c - 1"
  shows "split_request_steps ts c sq itfs
    = Inr (c\<lparr>clk_in_slot_req := clk_in_slot_req c + int (length ts)\<rparr>, sq, itfs)"
  using assms
proof (induction ts arbitrary: c)
  case (Cons t ts)
  have "split_requestBusStep c t sq itfs = Inr (c\<lparr>clk_in_slot_req := clk_in_slot_req c + 1\<rparr>, sq, itfs)"
    using Cons.prems by (intro split_step_waiting) auto
  then show ?case using Cons.prems Cons.IH [of "c\<lparr>clk_in_slot_req := clk_in_slot_req c + 1\<rparr>"]
    by (simp add: algebra_simps)
qed simp

lemma split_steps_append:
  "split_request_steps (ts @ us) c sq itfs =
   result_bind (split_request_steps ts c sq itfs) (\<lambda>(c', sq', itfs'). split_request_steps us c' sq' itfs')"
proof (induction ts arbitrary: c sq itfs)
  case (Cons t ts)
  then show ?case by (cases "split_requestBusStep c t sq itfs") auto
qed simp

lemma responseBackpressured_map:
  "responseBackpressured c itfs \<longleftrightarrow>
   (\<exists>x\<in>set (map itf_txResponseFreeSlots itfs). x \<le> m_response_reserve c)"
  by (simp add: responseBackpressured_def)

lemma split_elect_req_idle:
  assumes "split_elect_req c t itfs = Inr (c1, itfs1)" "split_ok (length itfs) c"
  shows "clk_in_slot_req c1 = clk_in_slot_req c" "m_request_latency c1 = m_request_latency c"
    "m_response_reserve c1 = m_response_reserve c" "responseBackpressured c1 itfs1 = responseBackpressured c itfs"
proof -
  show F: "clk_in_slot_req c1 = clk_in_slot_req c" "m_request_latency c1 = m_request_latency c"
    "m_response_reserve c1 = m_response_reserve c"
    using assms(1) by (auto simp: split_elect_req_def result_bind_Inr_iff split: if_splits option.splits)
  have "itfs1 = itfs \<or> (\<exists>i b. i < length itfs \<and> itfs1 = itfs[i := set_tx_request (itfs ! i) b])"
  proof (cases "clk_in_slot_req c = 0 \<and> \<not> message_available_req c")
    case True
    then obtain a' r where e: "elect_from arbiter_elect (request_arbiter c) t (buffers_req c) itfs
        = Inr (a', r, itfs1)"
      using assms(1) by (auto simp: split_elect_req_def split: option.splits)
    from elect_from_cases [OF e] show ?thesis
    proof (elim disjE exE conjE)
      fix m i j
      assume i: "i < length (buffers_req c)"
        "itfs1 = tx_assign (buffers_req c ! i) (erase_at j (tx_deref itfs (buffers_req c ! i))) itfs"
      then have "i < length itfs" "buffers_req c ! i = TxRequest i"
        using assms(2) by (auto simp: split_ok_def getCongregatedBuffers_def)
      with i(2) show ?thesis by auto
    qed simp
  next
    case False
    then have "split_elect_req c t itfs = Inr (c, itfs)"
      by (simp only: split_elect_req_def if_False)
    then show ?thesis using assms(1) by simp
  qed
  moreover have "itf_txResponseFreeSlots (set_tx_request i b) = itf_txResponseFreeSlots i" for i b
    by (cases i) (simp_all add: Bus_txResponseFreeSlots_def)
  ultimately have "map itf_txResponseFreeSlots itfs1 = map itf_txResponseFreeSlots itfs"
    by (auto simp: map_update intro!: list_update_id [symmetric] nth_equalityI)
      (auto simp: nth_list_update)
  then show "responseBackpressured c1 itfs1 = responseBackpressured c itfs"
    unfolding responseBackpressured_map F(3) by (simp only:)
qed

section \<open>The point-to-point slot\<close>

fun lower_steps ::
  "u64 list \<Rightarrow> p2p_bus \<Rightarrow> u64 \<Rightarrow> interface list \<Rightarrow> (p2p_bus \<times> u64 \<times> interface list) result" where
  "lower_steps [] c sq itfs = Inr (c, sq, itfs)"
| "lower_steps (t # ts) c sq itfs =
     result_bind (lowerBusStep c t sq itfs) (\<lambda>(c', sq', itfs'). lower_steps ts c' sq' itfs')"

lemma lower_steps_slot:
  assumes "message_available_lower c" "0 < clk_in_slot_lower c"
    and "clk_in_slot_lower c + int (length ts) = p_request_latency c" "ts \<noteq> []"
  shows "lower_steps ts c sq itfs =
    result_bind (bus_send sq itfs (elected_msg_lower c) DATA_RESPONSE)
      (\<lambda>(sq', itfs'). Inr (c\<lparr>clk_in_slot_lower := 0\<rparr>, sq', itfs'))"
  using assms
proof (induction ts arbitrary: c)
  case (Cons t ts)
  show ?case
  proof (cases "ts = []")
    case True
    then have "clk_in_slot_lower c = p_request_latency c - 1" using Cons.prems(3) by simp
    then show ?thesis
      using Cons.prems True
      by (cases "bus_send sq itfs (elected_msg_lower c) DATA_RESPONSE")
        (auto simp: lowerBusStep_def lower_slot_action_def next_slot_def)
  next
    case False
    then have len: "1 \<le> int (length ts)" by (simp add: Suc_leI)
    let ?c = "c\<lparr>clk_in_slot_lower := clk_in_slot_lower c + 1\<rparr>"
    have "lowerBusStep c t sq itfs = Inr (?c, sq, itfs)"
      using Cons.prems len
      by (simp add: lowerBusStep_def lower_slot_action_def next_slot_def)
    then show ?thesis
      using Cons.IH [of ?c] Cons.prems False by (simp add: algebra_simps)
  qed
qed simp

text \<open>The receive queues of all interfaces.\<close>

definition rx_state :: "interface list \<Rightarrow> (message list \<times> message list) list" where
  "rx_state itfs = map (\<lambda>i. (rx_request i, rx_response i)) itfs"

lemma rx_state_assign [simp]: "rx_state (tx_assign r b itfs) = rx_state itfs"
proof -
  have rx: "rx_request (set_tx_request i b) = rx_request i" "rx_response (set_tx_request i b) = rx_response i"
    "rx_request (set_tx_response i b) = rx_request i" "rx_response (set_tx_response i b) = rx_response i"
    "rx_request (set_tx_service i b) = rx_request i" "rx_response (set_tx_service i b) = rx_response i" for i
    by (cases i; simp)+
  have upd: "map f (xs[k := y]) = map f xs" if "f y = f (xs ! k)" for f :: "interface \<Rightarrow> 'b" and xs k y
    using that by (cases "k < length xs") (simp_all add: map_update list_update_same_conv list_update_beyond)
  show ?thesis
    unfolding rx_state_def by (cases r) (auto simp: rx intro!: upd)
qed

lemma lowerBusStep_latency_one:
  assumes "p_request_latency c = 1" "clk_in_slot_lower c = 0" "lowerBusStep c t sq itfs = Inr (c', sq', itfs')"
  shows "sq' = sq \<and> rx_state itfs' = rx_state itfs \<and> clk_in_slot_lower c' = 0 \<and>
    p_request_latency c' = 1 \<and> p_response_latency c' = p_response_latency c \<and>
    clk_in_slot_upper c' = clk_in_slot_upper c"
proof -
  from assms obtain a' r where e: "elect_from arbiter_elect (p_arbiter c) t (buffers_lower c) itfs = Inr (a', r, itfs')"
    and c': "sq' = sq" "clk_in_slot_lower c' = 0" "p_request_latency c' = 1"
      "p_response_latency c' = p_response_latency c" "clk_in_slot_upper c' = clk_in_slot_upper c"
    by (auto simp: lowerBusStep_def lower_slot_action_def next_slot_def result_bind_Inr_iff
        split: option.splits if_splits)
  from elect_from_cases [OF e] have "rx_state itfs' = rx_state itfs" by auto
  with c' show ?thesis by simp
qed

lemma upperBusStep_latency_one:
  assumes "p_response_latency c = 1" "clk_in_slot_upper c = 0" "upperBusStep c sq itfs = Inr (c', sq', itfs')"
  shows "sq' = sq \<and> rx_state itfs' = rx_state itfs \<and> clk_in_slot_upper c' = 0 \<and>
    p_response_latency c' = 1 \<and> p_request_latency c' = p_request_latency c \<and>
    clk_in_slot_lower c' = clk_in_slot_lower c"
  using assms
  by (auto simp: upperBusStep_def upper_slot_action_def next_slot_def Let_def result_bind_Inr_iff
      split: option.splits if_splits)

fun p2p_steps ::
  "u64 list \<Rightarrow> p2p_bus \<Rightarrow> u64 \<Rightarrow> interface list \<Rightarrow> (p2p_bus \<times> u64 \<times> interface list) result" where
  "p2p_steps [] c sq itfs = Inr (c, sq, itfs)"
| "p2p_steps (t # ts) c sq itfs =
     result_bind (p2p_busStep c t sq itfs) (\<lambda>(c', sq', itfs'). p2p_steps ts c' sq' itfs')"

lemma p2p_steps_latency_one:
  assumes "p_request_latency c = 1" "clk_in_slot_lower c = 0"
    and "p_response_latency c = 1" "clk_in_slot_upper c = 0"
    and "p2p_steps ts c sq itfs = Inr (c', sq', itfs')"
  shows "rx_state itfs' = rx_state itfs \<and> sq' = sq"
  using assms
proof (induction ts arbitrary: c sq itfs)
  case (Cons t ts)
  from Cons.prems(5) obtain c1 sq1 itfs1 c2 sq2 itfs2 where
    s: "lowerBusStep c t sq itfs = Inr (c1, sq1, itfs1)" "upperBusStep c1 sq1 itfs1 = Inr (c2, sq2, itfs2)"
      "p2p_steps ts c2 sq2 itfs2 = Inr (c', sq', itfs')"
    by (auto simp: p2p_busStep_def result_bind_Inr_iff)
  note L = lowerBusStep_latency_one [OF Cons.prems(1,2) s(1)]
  have U: "sq2 = sq1 \<and> rx_state itfs2 = rx_state itfs1 \<and> clk_in_slot_upper c2 = 0 \<and>
    p_response_latency c2 = 1 \<and> p_request_latency c2 = p_request_latency c1 \<and>
    clk_in_slot_lower c2 = clk_in_slot_lower c1"
    by (rule upperBusStep_latency_one) (use L Cons.prems s(2) in auto)
  show ?case using Cons.IH [OF _ _ _ _ s(3)] L U by auto
qed simp

text \<open>A unified bus with no request queued leaves the responses where they are.\<close>

lemma unified_idle_without_requests:
  assumes "clk_in_slot c = 0" "\<forall>i\<in>set itfs. tx_request i = []" "unified_busStep c t sq itfs = Inr (c', sq', itfs')"
  shows "itfs' = itfs \<and> sq' = sq \<and> clk_in_slot c' = 0"
proof -
  from assms(1,3) obtain a' r where
    e: "elect_from arbiter_elect (u_arbiter c) t (getCongregatedBuffers [0..<length itfs] True) itfs = Inr (a', r, itfs')"
    and c': "sq' = sq" "r = None \<Longrightarrow> clk_in_slot c' = 0"
    by (auto simp: unified_busStep_def unified_slot_action_def unified_elect_def next_slot_def
        result_bind_Inr_iff split: option.splits if_splits)
  from elect_from_cases [OF e] assms(2) c' show ?thesis
    by (auto simp: getCongregatedBuffers_def)
qed

section \<open>The direct interconnect\<close>

lemma push_rx_response:
  assumes "itf_pushMessage2RX sq i m ty = (sq', i', ok)"
  shows "rx_response i' = (if ok \<and> ty = DATA_RESPONSE then rx_response i @ [m] else rx_response i)"
  using assms
  by (cases i; cases ty; auto simp: Bus_pushMessage2RX_def Triple_pushMessage2RX_def split: if_splits)

lemma set_tx_rx_response [simp]:
  "rx_response (set_tx_request i b) = rx_response i" "rx_response (set_tx_response i b) = rx_response i"
  by (cases i; simp)+

lemma head_then_tail: "xs \<noteq> [] \<Longrightarrow> (ys @ [xs ! 0]) @ tl xs = ys @ xs"
  by (cases xs) simp_all

lemma direct_requests:
  assumes "direct_loop REQUEST [TxRequest 0, TxRequest (Suc 0)] 0 sq [a, b] = Inr (sq', itfs')"
  obtains a' b' where "itfs' = [a', b']"
    "rx_request b' @ tx_request a' = rx_request b @ tx_request a"
    "rx_request a' @ tx_request b' = rx_request a @ tx_request b"
    "tx_response a' = tx_response a" "tx_response b' = tx_response b"
    "rx_response a' = rx_response a" "rx_response b' = rx_response b"
proof -
  obtain s1 b1 k1 where p1: "itf_pushMessage2RX sq b (tx_request a ! 0) REQUEST = (s1, b1, k1)"
    by (metis prod_cases3)
  obtain s2 a1 k2 where p2: "itf_pushMessage2RX sq a (tx_request b ! 0) REQUEST = (s2, a1, k2)"
    by (metis prod_cases3)
  note P1 = push_rx_tx [OF p1] push_rx_request(1) [OF p1] push_rx_response [OF p1]
  note P2 = push_rx_tx [OF p2] push_rx_request(1) [OF p2] push_rx_response [OF p2]
  have keep1: "\<not> k1 \<Longrightarrow> b1 = b \<and> s1 = sq" and keep2: "\<not> k2 \<Longrightarrow> a1 = a \<and> s2 = sq" using P1(6) P2(6) by auto
  consider (up) "tx_request a \<noteq> []" k1 | (down) "tx_request a = [] \<or> \<not> k1" "tx_request b \<noteq> []" k2
    | (none) "tx_request a = [] \<or> \<not> k1" "tx_request b = [] \<or> \<not> k2" by blast
  then show thesis
  proof cases
    case up
    have "itfs' = [set_tx_request a (tl (tx_request a)), b1]"
      using assms p1 up by (simp add: erase_at_0)
    then show thesis by (rule that) (use P1 up head_then_tail in simp_all)
  next
    case down
    have "itfs' = [a1, set_tx_request b (tl (tx_request b))]"
      using assms p1 p2 down keep1 by (cases "tx_request a = []") (auto simp: erase_at_0)
    then show thesis by (rule that) (use P2 down head_then_tail in simp_all)
  next
    case none
    have "itfs' = [a, b]"
      using assms p1 p2 none keep1 keep2 by (cases "tx_request a = []"; cases "tx_request b = []") (auto simp: erase_at_0)
    then show thesis by (rule that) simp_all
  qed
qed

lemma direct_responses:
  assumes "direct_loop DATA_RESPONSE [TxResponse 0, TxResponse (Suc 0)] 0 sq [a, b] = Inr (sq', itfs')"
  obtains a' b' where "itfs' = [a', b']"
    "rx_response b' @ tx_response a' = rx_response b @ tx_response a"
    "rx_response a' @ tx_response b' = rx_response a @ tx_response b"
    "tx_request a' = tx_request a" "tx_request b' = tx_request b"
    "rx_request a' = rx_request a" "rx_request b' = rx_request b"
proof -
  obtain s1 b1 k1 where p1: "itf_pushMessage2RX sq b (tx_response a ! 0) DATA_RESPONSE = (s1, b1, k1)"
    by (metis prod_cases3)
  obtain s2 a1 k2 where p2: "itf_pushMessage2RX sq a (tx_response b ! 0) DATA_RESPONSE = (s2, a1, k2)"
    by (metis prod_cases3)
  note P1 = push_rx_tx [OF p1] push_rx_request(1) [OF p1] push_rx_response [OF p1]
  note P2 = push_rx_tx [OF p2] push_rx_request(1) [OF p2] push_rx_response [OF p2]
  have keep1: "\<not> k1 \<Longrightarrow> b1 = b \<and> s1 = sq" and keep2: "\<not> k2 \<Longrightarrow> a1 = a \<and> s2 = sq" using P1(6) P2(6) by auto
  consider (up) "tx_response a \<noteq> []" k1 | (down) "tx_response a = [] \<or> \<not> k1" "tx_response b \<noteq> []" k2
    | (none) "tx_response a = [] \<or> \<not> k1" "tx_response b = [] \<or> \<not> k2" by blast
  then show thesis
  proof cases
    case up
    have "itfs' = [set_tx_response a (tl (tx_response a)), b1]"
      using assms p1 up by (simp add: erase_at_0)
    then show thesis by (rule that) (use P1 up head_then_tail in simp_all)
  next
    case down
    have "itfs' = [a1, set_tx_response b (tl (tx_response b))]"
      using assms p1 p2 down keep1 by (cases "tx_response a = []") (auto simp: erase_at_0)
    then show thesis by (rule that) (use P2 down head_then_tail in simp_all)
  next
    case none
    have "itfs' = [a, b]"
      using assms p1 p2 none keep1 keep2 by (cases "tx_response a = []"; cases "tx_response b = []") (auto simp: erase_at_0)
    then show thesis by (rule that) simp_all
  qed
qed

section \<open>Properties\<close>

definition fresh_interfaces :: "interface list \<Rightarrow> bool" where
  "fresh_interfaces itfs \<longleftrightarrow>
     (\<forall>i\<in>set itfs. itf_wf i \<and> tx_request i = [] \<and> rx_request i = [])"

lemma new_SplitBusController_ok:
  assumes "new_SplitBusController ty rl pl res itfs = Inr c"
    and "ty = ''TDMArbiter'' \<Longrightarrow> word_of_int rl \<noteq> (0 :: u64) \<and> word_of_int pl \<noteq> (0 :: u64) \<and> itfs \<noteq> []"
  shows "split_ok (length itfs) c" "split_held c = {#}"
  using assms
  by (auto simp: new_SplitBusController_def new_arbiter_def new_arbiter_base_def split_ok_def split_held_def
      split: if_splits)

text \<open>
  C16. The split bus and the triple bus are atomic total-order broadcasts for requests: however bus cycles and
  the agents' pushes and reads interleave, what each agent has read of its request channel followed by what
  waits in its receive queue is one and the same sequence \<open>D\<close> for all agents, and \<open>D\<close> together with the
  requests still queued at the senders or held by the controller is exactly what the senders pushed. The only
  way a run can stop is a response addressed to an identifier that is not on the bus.
\<close>

theorem bus_total_order:
  assumes "new_SplitBusController ty rl pl res itfs = Inr c"
    and "ty = ''TDMArbiter'' \<Longrightarrow> word_of_int rl \<noteq> (0 :: u64) \<and> word_of_int pl \<noteq> (0 :: u64) \<and> itfs \<noteq> []"
    and "fresh_interfaces itfs"
    and "stp = split_busStep \<or> stp = triple_busStep"
  shows "case bus_run stp es (new_system c itfs) of
      Inl e \<Rightarrow> e = Exit ''BusController: Wrong destination''
    | Inr s \<Rightarrow> \<exists>D. (\<forall>k<length (sys_itfs s). sys_read s k @ rx_request (sys_itfs s ! k) = D) \<and>
        split_held (sys_ctl s) + tx_all (sys_itfs s) + mset D = mset (sys_sent s)"
proof -
  have "total_order_inv split_held split_ok (new_system c itfs)"
    using new_SplitBusController_ok [OF assms(1,2)] assms(3)
    by (intro total_order_new) (auto simp: fresh_interfaces_def)
  with split_order.run_total_order triple_order.run_total_order assms(4)
  have "case bus_run stp es (new_system c itfs) of
      Inr s \<Rightarrow> total_order_inv split_held split_ok s | Inl e \<Rightarrow> wrong_destination e"
    by blast
  then show ?thesis
    by (auto simp: total_order_inv_def wrong_destination_def split: sum.splits)
qed

definition example_bus_interfaces :: "interface list" where
  "example_bus_interfaces = map (\<lambda>i. TripleI (new_TripleBusInterface i 4)) [0, 1, 10]"

lemma example_bus_fresh: "fresh_interfaces example_bus_interfaces"
  by (simp add: fresh_interfaces_def example_bus_interfaces_def)
    (simp add: new_TripleBusInterface_def new_BusInterface_def bus_interface.defs)

theorem bus_total_order_witness:
  "\<exists>c. new_SplitBusController ''RRArbiter'' 2 2 None example_bus_interfaces = Inr c \<and>
     (case bus_run triple_busStep [AgentPush 0 (example_message 1 0 0) 5 REQUEST,
          AgentPush 1 (example_message 2 0 1) 6 REQUEST, BusCycle 7, BusCycle 8, AgentRead 2, BusCycle 9]
          (new_system c example_bus_interfaces) of
        Inl e \<Rightarrow> e = Exit ''BusController: Wrong destination''
      | Inr s \<Rightarrow> \<exists>D. (\<forall>k<length (sys_itfs s). sys_read s k @ rx_request (sys_itfs s ! k) = D) \<and>
          split_held (sys_ctl s) + tx_all (sys_itfs s) + mset D = mset (sys_sent s))"
proof -
  obtain c where c: "new_SplitBusController ''RRArbiter'' 2 2 None example_bus_interfaces = Inr c"
    by (simp add: new_SplitBusController_def new_arbiter_def)
  show ?thesis
    by (intro exI [of _ c] conjI c bus_total_order [OF c _ example_bus_fresh]) simp_all
qed

text \<open>
  A split bus delivers a request exactly \<open>m_request_latency\<close> cycles after it starts the slot that elects
  it, a latency of 1 included: with no response back-pressure, over the cycles of the slot nothing changes but
  the slot counter, and in the last one every interface gets the elected message, provided all can accept it.
\<close>

lemma split_request_latency:
  assumes "split_ok (length itfs) c" and "clk_in_slot_req c = 0"
    and "\<not> responseBackpressured c itfs"
    and "split_elect_req c t itfs = Inr (c1, itfs1)" and "message_available_req c1"
    and "1 \<le> m_request_latency c" and "int (length ts) = m_request_latency c - 1"
    and "\<not> isDemandRequest (elected_msg_req c1) \<or> (\<forall>i\<in>set itfs1. itf_canAcceptRX i REQUEST)"
  shows "\<exists>sq' itfs'. split_request_steps (t # ts) c sq itfs
      = Inr (c1\<lparr>message_available_req := False, clk_in_slot_req := 0\<rparr>, sq', itfs') \<and>
      broadcast sq itfs1 (elected_msg_req c1) REQUEST = (sq', itfs', True) \<and>
      (\<forall>k<length itfs1. rx_request (itfs' ! k) = rx_request (itfs1 ! k) @ [elected_msg_req c1])"
proof -
  note E = split_elect_req_idle [OF assms(4,1)]
  obtain sq' itfs' ok where b: "broadcast sq itfs1 (elected_msg_req c1) REQUEST = (sq', itfs', ok)"
    by (metis prod_cases3)
  have ok using broadcast_request(3) [OF b] assms(8) by simp
  note rx = broadcast_request(2) [OF b this]
  have "split_request_steps (t # ts) c sq itfs
      = Inr (c1\<lparr>message_available_req := False, clk_in_slot_req := 0\<rparr>, sq', itfs')"
  proof (cases ts rule: rev_cases)
    case Nil
    then show ?thesis
      using assms E b \<open>ok\<close> by (simp add: split_requestBusStep_def)
  next
    case (snoc us u)
    have len: "int (length us) = m_request_latency c - 2" using assms(7) snoc by simp
    let ?c2 = "c1\<lparr>clk_in_slot_req := 1\<rparr>"
    let ?c3 = "c1\<lparr>clk_in_slot_req := 1 + int (length us)\<rparr>"
    have 1: "split_requestBusStep c t sq itfs = Inr (?c2, sq, itfs1)"
      using assms E len by (simp add: split_requestBusStep_def)
    have 2: "split_request_steps us ?c2 sq itfs1 = Inr (?c3, sq, itfs1)"
      using split_steps_waiting [of ?c2 itfs1 us sq] assms E len by simp
    have 3: "split_requestBusStep ?c3 u sq itfs1
        = Inr (c1\<lparr>message_available_req := False, clk_in_slot_req := 0\<rparr>, sq', itfs')"
      using assms E b \<open>ok\<close> len by (simp add: split_requestBusStep_def split_elect_req_def)
    have "split_request_steps (t # ts) c sq itfs = split_request_steps (us @ [u]) ?c2 sq itfs1"
      using 1 snoc by simp
    also have "\<dots> = split_request_steps [u] ?c3 sq itfs1"
      using 2 by (simp only: split_steps_append result_bind_simps prod.case)
    finally show ?thesis using 3 by simp
  qed
  with b rx \<open>ok\<close> show ?thesis by auto
qed

definition example_split :: "int \<Rightarrow> split_bus" where
  "example_split lat =
     (case new_SplitBusController ''FCFSArbiter'' lat lat None
        [BusI (new_BusInterface 0 4), BusI (new_BusInterface 1 4)] of
        Inr c \<Rightarrow> c | Inl _ \<Rightarrow> undefined)"

definition example_split_interfaces :: "interface list" where
  "example_split_interfaces =
     [BusI ((new_BusInterface 0 4)\<lparr>m_tx_request_buffer := [example_message 1 3 0]\<rparr>), BusI (new_BusInterface 1 4)]"

lemma example_split_elect:
  "split_elect_req (example_split lat) t example_split_interfaces
   = Inr ((example_split lat)\<lparr>message_available_req := True, elected_msg_req := example_message 1 3 0\<rparr>,
       [BusI (new_BusInterface 0 4), BusI (new_BusInterface 1 4)])"
  by (simp add: split_elect_req_def example_split_def new_SplitBusController_def new_arbiter_def
      example_split_interfaces_def elect_from_def getCongregatedBuffers_def FCFS_elect_def new_BusInterface_def
      tx_write_back_def)

lemma split_request_latency_witness:
  "\<exists>c' sq' itfs'. split_request_steps [5] (example_split 1) 0 example_split_interfaces = Inr (c', sq', itfs') \<and>
     rx_request (itfs' ! 1) = [example_message 1 3 0]"
proof -
  let ?itfs1 = "[BusI (new_BusInterface 0 4), BusI (new_BusInterface 1 4)]"
  have s: "split_ok (length example_split_interfaces) (example_split 1)" "clk_in_slot_req (example_split 1) = 0"
    "\<not> responseBackpressured (example_split 1) example_split_interfaces" "m_request_latency (example_split 1) = 1"
    by (simp_all add: split_ok_def example_split_def new_SplitBusController_def new_arbiter_def
        example_split_interfaces_def responseBackpressured_def Bus_txResponseFreeSlots_def new_BusInterface_def)
  have "\<forall>i\<in>set ?itfs1. itf_canAcceptRX i REQUEST"
    by (simp add: Bus_canAcceptRX_def new_BusInterface_def)
  with split_request_latency [OF s(1-3) example_split_elect, of "[]" 5 0] s(4)
  show ?thesis by (auto simp: new_BusInterface_def)
qed

text \<open>
  A point-to-point bus with request latency of at least 2 sends the message it elects from the lower
  interfaces exactly once, in the last cycle of the slot, to the destinations of the message, and starts the
  next slot.
\<close>

lemma p2p_sends_elected_message:
  assumes "clk_in_slot_lower c = 0" and "2 \<le> p_request_latency c"
    and "int (length ts) = p_request_latency c - 1"
    and "elect_from arbiter_elect (p_arbiter c) t (buffers_lower c) itfs = Inr (a, Some m, itfs1)"
  shows "lower_steps (t # ts) c sq itfs =
     result_bind (bus_send sq itfs1 m DATA_RESPONSE)
       (\<lambda>(sq', itfs'). Inr (c\<lparr>p_arbiter := a, message_available_lower := True, elected_msg_lower := m\<rparr>,
                            sq', itfs'))"
proof -
  let ?c = "c\<lparr>p_arbiter := a, message_available_lower := True, elected_msg_lower := m, clk_in_slot_lower := 1\<rparr>"
  have "lowerBusStep c t sq itfs = Inr (?c, sq, itfs1)"
    using assms by (simp add: lowerBusStep_def lower_slot_action_def next_slot_def)
  moreover have "ts \<noteq> []" using assms(2,3) by auto
  moreover have "?c\<lparr>clk_in_slot_lower := 0\<rparr>
      = c\<lparr>p_arbiter := a, message_available_lower := True, elected_msg_lower := m\<rparr>"
    using assms(1) by simp
  ultimately show ?thesis
    using lower_steps_slot [of ?c ts sq itfs1] assms(3) by simp
qed

definition example_p2p :: "int \<Rightarrow> p2p_bus" where
  "example_p2p lat =
     (case new_Point2PointController 0 False ''FCFSArbiter'' lat lat [] [0]
        [BusI (new_BusInterface 1 4), BusI (new_BusInterface 0 4)] of
        Inr c \<Rightarrow> c | Inl _ \<Rightarrow> undefined)"

definition example_p2p_interfaces :: "interface list" where
  "example_p2p_interfaces =
     [BusI (new_BusInterface 1 4),
      BusI ((new_BusInterface 0 4)\<lparr>m_tx_request_buffer := [(example_message 1 3 0)\<lparr>msg_to := [1]\<rparr>]\<rparr>)]"

lemma example_p2p_elect:
  "elect_from arbiter_elect (p_arbiter (example_p2p lat)) t (buffers_lower (example_p2p lat)) example_p2p_interfaces
   = Inr (p_arbiter (example_p2p lat), Some ((example_message 1 3 0)\<lparr>msg_to := [1]\<rparr>),
       [BusI (new_BusInterface 1 4), BusI (new_BusInterface 0 4)])"
  by (simp add: example_p2p_def new_Point2PointController_def new_arbiter_def example_p2p_interfaces_def
      elect_from_def getCongregatedBuffers_def FCFS_elect_def new_BusInterface_def tx_write_back_def
      example_message_def new_message_def)

lemma p2p_sends_elected_message_witness:
  "lower_steps [5, 6] (example_p2p 2) 0 example_p2p_interfaces =
     result_bind (bus_send 0 [BusI (new_BusInterface 1 4), BusI (new_BusInterface 0 4)]
         ((example_message 1 3 0)\<lparr>msg_to := [1]\<rparr>) DATA_RESPONSE)
       (\<lambda>(sq', itfs'). Inr ((example_p2p 2)\<lparr>message_available_lower := True,
           elected_msg_lower := (example_message 1 3 0)\<lparr>msg_to := [1]\<rparr>\<rparr>, sq', itfs'))"
proof -
  have c: "clk_in_slot_lower (example_p2p 2) = 0" "p_request_latency (example_p2p 2) = 2"
    by (simp_all add: example_p2p_def new_Point2PointController_def new_arbiter_def)
  show ?thesis
    using p2p_sends_elected_message [OF c(1) _ _ example_p2p_elect, of "[6]" 5 0] c by simp
qed

text \<open>
  A point-to-point bus whose latencies are 1 never delivers anything: the elected messages leave the
  senders' queues, and in any run the receive queues of all interfaces stay as they were. (The if/else-if chain
  of \<open>lowerBusStep\<close> and \<open>upperBusStep\<close> elects in slot 0 and sends in slot \<open>latency - 1\<close>, the same slot.)
\<close>

lemma p2p_latency_one_never_delivers:
  assumes "p_request_latency c = 1" and "clk_in_slot_lower c = 0"
    and "p_response_latency c = 1" and "clk_in_slot_upper c = 0"
  shows "case p2p_steps ts c sq itfs of
      Inl e \<Rightarrow> True | Inr (c', sq', itfs') \<Rightarrow> rx_state itfs' = rx_state itfs \<and> sq' = sq"
  using p2p_steps_latency_one [OF assms, of ts sq itfs] by (auto split: sum.splits)

lemma p2p_latency_one_never_delivers_witness:
  "case p2p_steps [5, 6, 7] (example_p2p 1) 0 example_p2p_interfaces of
      Inl e \<Rightarrow> False
    | Inr (c', sq', itfs') \<Rightarrow> tx_all itfs' = {#} \<and> rx_state itfs' = [([], []), ([], [])]"
proof -
  have c: "p_request_latency (example_p2p 1) = 1" "clk_in_slot_lower (example_p2p 1) = 0"
    "p_response_latency (example_p2p 1) = 1" "clk_in_slot_upper (example_p2p 1) = 0"
    by (simp_all add: example_p2p_def new_Point2PointController_def new_arbiter_def)
  have run: "case p2p_steps [5, 6, 7] (example_p2p 1) 0 example_p2p_interfaces of
      Inl e \<Rightarrow> False | Inr (c', sq', itfs') \<Rightarrow> concat (map tx_request itfs') = []"
    by code_simp
  have "rx_state example_p2p_interfaces = [([], []), ([], [])]"
    by (simp add: rx_state_def example_p2p_interfaces_def new_BusInterface_def)
  with run p2p_latency_one_never_delivers [OF c, where ts = "[5, 6, 7]" and sq = 0 and itfs = example_p2p_interfaces] show ?thesis
    by (auto simp: tx_all_def simp del: p2p_steps.simps split: sum.splits)
qed

lemma tx_assign_length: "length (tx_assign r b itfs) = length itfs"
  by (cases r) simp_all

lemma direct_loop_length: "direct_loop ty refs i sq itfs = Inr (sq', itfs') \<Longrightarrow> length itfs' = length itfs"
  by (induction ty refs i sq itfs rule: direct_loop.induct)
     (auto simp: Let_def tx_assign_length split: if_splits prod.splits)
text \<open>
  The direct interconnect is four FIFO channels: for requests and for responses, in each direction, the
  peer's receive queue followed by the sender's transmit queue is left unchanged by a controller step, so
  nothing is lost, duplicated or reordered.
\<close>

lemma direct_is_fifo:
  assumes "length itfs = 2" and "controllerStep sq itfs = Inr (sq', itfs')"
    and "a < 2" and "b = 1 - a"
  shows "rx_request (itfs' ! b) @ tx_request (itfs' ! a) = rx_request (itfs ! b) @ tx_request (itfs ! a) \<and>
    rx_response (itfs' ! b) @ tx_response (itfs' ! a) = rx_response (itfs ! b) @ tx_response (itfs ! a)"
proof -
  obtain x y where xy: "itfs = [x, y]"
    using assms(1) by (auto simp: numeral_2_eq_2 length_Suc_conv)
  from assms(2) obtain sq1 itfs1 where
    s1: "direct_loop REQUEST [TxRequest 0, TxRequest (Suc 0)] 0 sq [x, y] = Inr (sq1, itfs1)"
    and s2: "direct_loop DATA_RESPONSE [TxResponse 0, TxResponse (Suc 0)] 0 sq1 itfs1 = Inr (sq', itfs')"
    by (auto simp: controllerStep_def xy getCongregatedBuffers_def result_bind_Inr_iff simp del: direct_loop.simps)
  from s1 obtain x1 y1 where 1: "itfs1 = [x1, y1]"
    "rx_request y1 @ tx_request x1 = rx_request y @ tx_request x"
    "rx_request x1 @ tx_request y1 = rx_request x @ tx_request y"
    "tx_response x1 = tx_response x" "tx_response y1 = tx_response y"
    "rx_response x1 = rx_response x" "rx_response y1 = rx_response y"
    by (rule direct_requests)
  have "direct_loop DATA_RESPONSE [TxResponse 0, TxResponse (Suc 0)] 0 sq1 [x1, y1] = Inr (sq', itfs')"
    using s2 1(1) by (simp del: direct_loop.simps)
  then obtain x2 y2 where 2: "itfs' = [x2, y2]"
    "rx_response y2 @ tx_response x2 = rx_response y1 @ tx_response x1"
    "rx_response x2 @ tx_response y2 = rx_response x1 @ tx_response y1"
    "tx_request x2 = tx_request x1" "tx_request y2 = tx_request y1"
    "rx_request x2 = rx_request x1" "rx_request y2 = rx_request y1"
    by (rule direct_responses)
  have "a = 0 \<or> a = 1" using assms(3) by auto
  then show ?thesis using 1 2 xy assms(4) by auto
qed

lemma direct_is_fifo_witness:
  "\<exists>sq' itfs'. controllerStep 0 example_p2p_interfaces = Inr (sq', itfs') \<and>
     rx_request (itfs' ! 0) @ tx_request (itfs' ! 1) = [(example_message 1 3 0)\<lparr>msg_to := [1]\<rparr>]"
proof -
  have "case controllerStep 0 example_p2p_interfaces of Inl e \<Rightarrow> False | Inr _ \<Rightarrow> True"
    by code_simp
  then obtain sq' itfs' where s: "controllerStep 0 example_p2p_interfaces = Inr (sq', itfs')"
    by (auto split: sum.splits)
  have len: "length example_p2p_interfaces = 2" by (simp add: example_p2p_interfaces_def)
  from direct_is_fifo [OF len s, of 1 0] s show ?thesis
    by (simp add: example_p2p_interfaces_def new_BusInterface_def)
qed

end
