(* ===== verification/Mesh.thy ===== *)
theory Mesh
  imports Buses "HOL-Library.AList"
begin

text \<open>
  The packet-switched interconnects: \<open>MeshInterface\<close>, \<open>MeshController\<close> with its links, and \<open>Mesh\<close>
  (src/Interconnect/Mesh*.cpp); the NoC, which adds switches, is at the end of the theory. The operations work on any extension
  of the interface's record. Log and trace calls are left out.
\<close>

section \<open>Interfaces\<close>

record mesh_interface =
  mi_id :: int
  mi_buffer_selector :: int
  mi_buffer_max_size :: int
  mi_link_ids :: "int list"
  mi_tx_request :: "message list list"
  mi_tx_data :: "message list list"
  mi_rx_request :: "message list"
  mi_rx_data :: "message list"

definition new_MeshInterface :: "int \<Rightarrow> int \<Rightarrow> int list \<Rightarrow> mesh_interface" where
  "new_MeshInterface i buffer_max_size link_ids =
     \<lparr> mi_id = i, mi_buffer_selector = - 1, mi_buffer_max_size = buffer_max_size, mi_link_ids = link_ids,
       mi_tx_request = map (\<lambda>_. []) link_ids, mi_tx_data = map (\<lambda>_. []) link_ids,
       mi_rx_request = [], mi_rx_data = [] \<rparr>"

fun Mesh_peek_loop :: "nat \<Rightarrow> 'a mesh_interface_scheme \<Rightarrow> 'a mesh_interface_scheme \<times> message option" where
  "Mesh_peek_loop 0 s = (s, None)"
| "Mesh_peek_loop (Suc n) s =
     (if mi_rx_request s \<noteq> [] \<and> mi_buffer_selector s \<noteq> 0
      then (s\<lparr>mi_buffer_selector := 0\<rparr>, Some (mi_rx_request s ! 0))
      else if mi_rx_data s \<noteq> [] \<and> mi_buffer_selector s \<noteq> 1
      then (s\<lparr>mi_buffer_selector := 1\<rparr>, Some (mi_rx_data s ! 0))
      else Mesh_peek_loop n (s\<lparr>mi_buffer_selector := - 1\<rparr>))"

definition Mesh_peekMessage :: "'a mesh_interface_scheme \<Rightarrow> 'a mesh_interface_scheme \<times> message option" where
  "Mesh_peekMessage s = Mesh_peek_loop 2 s"

definition Mesh_popFrontMessage :: "'a mesh_interface_scheme \<Rightarrow> 'a mesh_interface_scheme result" where
  "Mesh_popFrontMessage s =
     (if mi_buffer_selector s = 0
      then if mi_rx_request s = [] then Inl (Undefined ''MeshInterface: erase of an empty request buffer'')
        else Inr (s\<lparr>mi_rx_request := erase_at 0 (mi_rx_request s)\<rparr>)
      else if mi_buffer_selector s = 1
      then if mi_rx_data s = [] then Inl (Undefined ''MeshInterface: erase of an empty data buffer'')
        else Inr (s\<lparr>mi_rx_data := erase_at 0 (mi_rx_data s)\<rparr>)
      else Inr s)"

text \<open>
  A copy for each destination goes to the first link the route names; a destination without a link gets nothing.
\<close>

fun enqueue_copies ::
  "(int \<Rightarrow> int) \<Rightarrow> int list \<Rightarrow> message \<Rightarrow> u16 list \<Rightarrow> message list list \<Rightarrow> message list list" where
  "enqueue_copies route links m [] bufs = bufs"
| "enqueue_copies route links m (d # ds) bufs =
     enqueue_copies route links m ds
       (case first_index (\<lambda>l. l = route (uint d)) links of
          None \<Rightarrow> bufs
        | Some i \<Rightarrow> bufs[i := bufs ! i @ [m\<lparr>msg_to := [d]\<rparr>]])"

text \<open>
  The bound is compared with the number of transmit queues, one per link, not with what is in them.
\<close>

definition mesh_push ::
  "(int \<Rightarrow> int) \<Rightarrow> 'a mesh_interface_scheme \<Rightarrow> message \<Rightarrow> ('a mesh_interface_scheme \<times> bool) result" where
  "mesh_push route s m =
     (if msg_to m = [] then Inl (Exit ''Error missing to vector'')
      else if msg_data m = None \<and> int (length (mi_tx_request s)) < mi_buffer_max_size s
      then Inr (s\<lparr>mi_tx_request := enqueue_copies route (mi_link_ids s) m (msg_to m) (mi_tx_request s)\<rparr>, True)
      else if msg_data m \<noteq> None \<and> int (length (mi_tx_data s)) < mi_buffer_max_size s
      then Inr (s\<lparr>mi_tx_data := enqueue_copies route (mi_link_ids s) m (msg_to m) (mi_tx_data s)\<rparr>, True)
      else Inr (s, False))"

definition mesh_stamp :: "'a mesh_interface_scheme \<Rightarrow> message \<Rightarrow> u64 \<Rightarrow> message" where
  "mesh_stamp s m cyc = (if cyc \<noteq> 0 then m\<lparr>msg_cycle := cyc\<rparr> else m)\<lparr>msg_from := word_of_int (mi_id s)\<rparr>"

definition Mesh_pushMessage ::
  "'a mesh_interface_scheme \<Rightarrow> message \<Rightarrow> u64 \<Rightarrow> ('a mesh_interface_scheme \<times> bool) result" where
  "Mesh_pushMessage s m cyc = mesh_push id s (mesh_stamp s m cyc)"

definition Mesh_pushMessage2RX ::
  "'a mesh_interface_scheme \<Rightarrow> message \<Rightarrow> 'a mesh_interface_scheme \<times> bool" where
  "Mesh_pushMessage2RX s m =
     (if msg_data m = None \<and> int (length (mi_rx_request s)) < mi_buffer_max_size s
      then (s\<lparr>mi_rx_request := mi_rx_request s @ [m]\<rparr>, True)
      else if msg_data m \<noteq> None \<and> int (length (mi_rx_data s)) < mi_buffer_max_size s
      then (s\<lparr>mi_rx_data := mi_rx_data s @ [m]\<rparr>, True)
      else (s, False))"

text \<open>Nothing is ever rolled back on a mesh.\<close>

definition Mesh_rollback :: "u64 \<Rightarrow> u64 \<Rightarrow> 'a mesh_interface_scheme \<Rightarrow> 'a mesh_interface_scheme \<times> message option" where
  "Mesh_rollback a line_mask s = (s, None)"

section \<open>Links\<close>

datatype link_type = RequestLink | DataLink

text \<open>A pointer to a transmit queue: the interface and the link at it.\<close>

datatype mesh_tx = MeshTx link_type nat nat

fun mesh_deref :: "'a mesh_interface_scheme list \<Rightarrow> mesh_tx \<Rightarrow> message list" where
  "mesh_deref itfs (MeshTx RequestLink k i) = mi_tx_request (itfs ! k) ! i"
| "mesh_deref itfs (MeshTx DataLink k i) = mi_tx_data (itfs ! k) ! i"

fun mesh_assign :: "mesh_tx \<Rightarrow> message list \<Rightarrow> 'a mesh_interface_scheme list \<Rightarrow> 'a mesh_interface_scheme list" where
  "mesh_assign (MeshTx RequestLink k i) b itfs =
     itfs[k := (itfs ! k)\<lparr>mi_tx_request := (mi_tx_request (itfs ! k))[i := b]\<rparr>]"
| "mesh_assign (MeshTx DataLink k i) b itfs =
     itfs[k := (itfs ! k)\<lparr>mi_tx_data := (mi_tx_data (itfs ! k))[i := b]\<rparr>]"

record link =
  id_a :: int
  id_b :: int
  link_kind :: link_type
  link_latency :: int
  utilization_cycle :: u64
  link_arbiter :: arbiter
  link_buffers :: "mesh_tx list"
  link_msg :: message

text \<open>A link as its constructor makes it; the arbiter and the queues come later.\<close>

definition new_Link :: "int \<Rightarrow> int \<Rightarrow> link_type \<Rightarrow> int \<Rightarrow> link" where
  "new_Link a b ty lat =
     \<lparr> id_a = a, id_b = b, link_kind = ty, link_latency = lat, utilization_cycle = 0,
       link_arbiter = FCFSArbiter (new_arbiter_base [a, b] lat), link_buffers = [], link_msg = new_message 0 0 0 0 0 \<rparr>"

definition same_link :: "link \<Rightarrow> link \<Rightarrow> bool" where
  "same_link l l' \<longleftrightarrow>
     (id_a l = id_a l' \<and> id_b l = id_b l' \<and> link_kind l = link_kind l') \<or>
     (id_a l = id_b l' \<and> id_b l = id_a l' \<and> link_kind l = link_kind l')"

text \<open>The queues at the two ends, each the one that leads to the other end.\<close>

definition end_buffers :: "'a mesh_interface_scheme list \<Rightarrow> link_type \<Rightarrow> nat \<Rightarrow> nat \<Rightarrow> mesh_tx list" where
  "end_buffers itfs ty k other =
     (case first_index (\<lambda>l. l = mi_id (itfs ! other)) (mi_link_ids (itfs ! k)) of
        None \<Rightarrow> [] | Some i \<Rightarrow> [MeshTx ty k i])"

definition setInterfaceBuffers :: "'a mesh_interface_scheme list \<Rightarrow> link \<Rightarrow> link result" where
  "setInterfaceBuffers itfs l =
     (case filter (\<lambda>k. mi_id (itfs ! k) = id_a l \<or> mi_id (itfs ! k) = id_b l) [0..<length itfs] of
        [j, k] \<Rightarrow> Inr (l\<lparr>link_buffers := end_buffers itfs (link_kind l) j k @ end_buffers itfs (link_kind l) k j\<rparr>)
      | _ \<Rightarrow> Inl (Exit ''interfaces are more than 2''))"

definition add_link :: "link \<Rightarrow> link list \<Rightarrow> link list" where
  "add_link l ls = (if \<exists>l'\<in>set ls. same_link l' l then ls else ls @ [l])"

definition topology_links :: "int \<Rightarrow> int \<Rightarrow> (int \<times> int list) list \<Rightarrow> link list" where
  "topology_links req_lat data_lat topology =
     fold (\<lambda>(a, bs). fold (\<lambda>b ls. add_link (new_Link a b DataLink data_lat) (add_link (new_Link a b RequestLink req_lat) ls)) bs)
       topology []"

fun finish_links ::
  "string \<Rightarrow> int list \<Rightarrow> 'a mesh_interface_scheme list \<Rightarrow> link list \<Rightarrow> link list result" where
  "finish_links arbiter_type candidates itfs [] = Inr []"
| "finish_links arbiter_type candidates itfs (l # ls) =
     result_bind (new_arbiter arbiter_type (if arbiter_type = ''FCFSArbiter'' then [id_a l, id_b l] else candidates)
         (link_latency l)) (\<lambda>a.
     result_bind (setInterfaceBuffers itfs (l\<lparr>link_arbiter := a\<rparr>)) (\<lambda>l'.
     result_bind (finish_links arbiter_type candidates itfs ls) (\<lambda>ls'. Inr (l' # ls'))))"

definition initializeLinks ::
  "string \<Rightarrow> int \<Rightarrow> int \<Rightarrow> (int \<times> int list) list \<Rightarrow> 'a mesh_interface_scheme list \<Rightarrow> link list result" where
  "initializeLinks arbiter_type req_lat data_lat topology itfs =
     finish_links arbiter_type (map mi_id itfs) itfs (topology_links req_lat data_lat topology)"

definition link_isReady :: "u64 \<Rightarrow> link \<Rightarrow> bool" where
  "link_isReady t l \<longleftrightarrow> utilization_cycle l < t"

definition utilize :: "u64 \<Rightarrow> message \<Rightarrow> link \<Rightarrow> link" where
  "utilize t m l = l\<lparr>utilization_cycle := t + word_of_int (link_latency l) - 1, link_msg := m\<rparr>"

section \<open>The controller\<close>

definition deliver_to :: "string \<Rightarrow> message \<Rightarrow> int \<Rightarrow> 'a mesh_interface_scheme list \<Rightarrow> 'a mesh_interface_scheme list result" where
  "deliver_to name m d itfs =
     (case first_index (\<lambda>i. mi_id i = d) itfs of
        None \<Rightarrow> Inl (Exit (name @ '': Wrong destination''))
      | Some j \<Rightarrow>
          (case Mesh_pushMessage2RX (itfs ! j) m of
             (i', ok) \<Rightarrow> if ok then Inr (itfs[j := i']) else Inl (Exit (name @ '': full buffer''))))"

fun mesh_send_to :: "message \<Rightarrow> u16 list \<Rightarrow> 'a mesh_interface_scheme list \<Rightarrow> 'a mesh_interface_scheme list result" where
  "mesh_send_to m [] itfs = Inr itfs"
| "mesh_send_to m (d # ds) itfs = result_bind (deliver_to ''MeshController'' m (uint d) itfs) (mesh_send_to m ds)"

definition mesh_send :: "link \<Rightarrow> 'a mesh_interface_scheme list \<Rightarrow> 'a mesh_interface_scheme list result" where
  "mesh_send l itfs = mesh_send_to (link_msg l) (msg_to (link_msg l)) itfs"

definition link_elect :: "u64 \<Rightarrow> link \<Rightarrow> 'a mesh_interface_scheme list \<Rightarrow> (link \<times> 'a mesh_interface_scheme list) result" where
  "link_elect t l itfs =
     result_bind (arbiter_elect (link_arbiter l) t (map (mesh_deref itfs) (link_buffers l))) (\<lambda>(a, r).
       case r of
         None \<Rightarrow> Inr (l\<lparr>link_arbiter := a\<rparr>, itfs)
       | Some (m, bufs) \<Rightarrow>
           Inr (utilize t m (l\<lparr>link_arbiter := a\<rparr>), fold (\<lambda>(r, b). mesh_assign r b) (zip (link_buffers l) bufs) itfs))"

text \<open>One turn of the loop of \<open>step\<close>; \<open>send\<close> is how the class delivers the message of a link.\<close>

definition link_step ::
  "(link \<Rightarrow> 'a mesh_interface_scheme list \<Rightarrow> 'a mesh_interface_scheme list result) \<Rightarrow> u64 \<Rightarrow> link
   \<Rightarrow> 'a mesh_interface_scheme list \<Rightarrow> (link \<times> 'a mesh_interface_scheme list) result" where
  "link_step send t l itfs =
     (if link_isReady t l then link_elect t l itfs
      else if utilization_cycle l = t then result_bind (send l itfs) (\<lambda>itfs'. Inr (l, itfs'))
      else Inr (l, itfs))"

fun links_step ::
  "(link \<Rightarrow> 'a mesh_interface_scheme list \<Rightarrow> 'a mesh_interface_scheme list result) \<Rightarrow> u64 \<Rightarrow> link list
   \<Rightarrow> 'a mesh_interface_scheme list \<Rightarrow> (link list \<times> 'a mesh_interface_scheme list) result" where
  "links_step send t [] itfs = Inr ([], itfs)"
| "links_step send t (l # ls) itfs =
     result_bind (link_step send t l itfs) (\<lambda>(l', itfs1).
     result_bind (links_step send t ls itfs1) (\<lambda>(ls', itfs2). Inr (l' # ls', itfs2)))"

section \<open>The mesh\<close>

record 'i mesh_state =
  mesh_interfaces :: "'i list"
  mesh_links :: "link list"
  mesh_cycle :: u64
  mesh_cycle_edges :: u64

type_synonym mesh = "mesh_interface mesh_state"

text \<open>The row that starts with the number; past the last row the read is undefined.\<close>

fun row_of :: "int \<Rightarrow> int list list \<Rightarrow> int list result" where
  "row_of i [] = Inl (Undefined ''Mesh: connection_matrix out of range'')"
| "row_of i ([] # matrix) = Inl (Undefined ''Mesh: empty row of connection_matrix'')"
| "row_of i ((j # row) # matrix) = (if j = i then Inr row else row_of i matrix)"

fun rows_of :: "int list \<Rightarrow> int list list \<Rightarrow> int list list result" where
  "rows_of [] matrix = Inr []"
| "rows_of (i # is) matrix =
     result_bind (row_of i matrix) (\<lambda>r. result_bind (rows_of is matrix) (\<lambda>rs. Inr (r # rs)))"

text \<open>\<open>m_topology\<close>, a \<open>std::map\<close>: sorted by the interface's number.\<close>

definition topology_of :: "int list \<Rightarrow> int list list \<Rightarrow> (int \<times> int list) list" where
  "topology_of ids rows = sort_key fst (fold (\<lambda>(i, r). AList.update i r) (zip ids rows) [])"

definition new_Mesh :: "string \<Rightarrow> int \<Rightarrow> int \<Rightarrow> int \<Rightarrow> int list \<Rightarrow> int list list \<Rightarrow> mesh result" where
  "new_Mesh arbiter_type req_lat data_lat buffers_max_size component_ids matrix =
     result_bind (rows_of component_ids matrix) (\<lambda>rows.
       let itfs = map (\<lambda>(i, r). new_MeshInterface i buffers_max_size r) (zip component_ids rows) in
       result_bind (initializeLinks arbiter_type req_lat data_lat (topology_of component_ids rows) itfs) (\<lambda>ls.
         Inr \<lparr> mesh_interfaces = itfs, mesh_links = ls, mesh_cycle = 1, mesh_cycle_edges = 1 \<rparr>))"

definition Mesh_getInterfaceFor :: "int \<Rightarrow> ('a mesh_interface_scheme, 'b) mesh_state_scheme \<Rightarrow> nat option" where
  "Mesh_getInterfaceFor i s = first_index (\<lambda>itf. mi_id itf = i) (mesh_interfaces s)"

definition mesh_controllerStep ::
  "(link \<Rightarrow> 'a mesh_interface_scheme list \<Rightarrow> 'a mesh_interface_scheme list result)
   \<Rightarrow> ('a mesh_interface_scheme, 'b) mesh_state_scheme \<Rightarrow> ('a mesh_interface_scheme, 'b) mesh_state_scheme result" where
  "mesh_controllerStep send s =
     (if mesh_cycle_edges s mod 2 = 1
      then result_bind (links_step send (mesh_cycle s) (mesh_links s) (mesh_interfaces s)) (\<lambda>(ls, itfs).
        Inr (s\<lparr>mesh_links := ls, mesh_interfaces := itfs, mesh_cycle := mesh_cycle s + 1,
               mesh_cycle_edges := mesh_cycle_edges s + 1\<rparr>))
      else Inr (s\<lparr>mesh_cycle_edges := mesh_cycle_edges s + 1\<rparr>))"

definition Mesh_cycleProcess :: "mesh \<Rightarrow> mesh result" where
  "Mesh_cycleProcess s = mesh_controllerStep mesh_send s"

section \<open>The network on chip\<close>

text \<open>
  A \<open>NoC\<close> is a mesh some of whose interfaces belong to switches, which put what they receive on the link to its
  destination. A lookup in \<open>m_routing_table\<close> of a number that is not there yields 0 (and stores it, which changes
  no later lookup).
\<close>

record noc_interface = mesh_interface +
  m_routing_table :: "(int \<times> int) list"

text \<open>The inner loop: what a switch reaches, except the interface itself.\<close>

definition add_switch_routes :: "int \<Rightarrow> int \<Rightarrow> int list \<Rightarrow> (int \<times> int) list \<Rightarrow> (int \<times> int) list" where
  "add_switch_routes own sw row table =
     (if row \<noteq> [] \<and> hd row = sw
      then fold (\<lambda>i tab. if i = own then tab else AList.update i sw tab) (tl row) table else table)"

definition routing_table :: "int \<Rightarrow> int list \<Rightarrow> int list list \<Rightarrow> int list \<Rightarrow> (int \<times> int) list" where
  "routing_table own link_ids matrix switch_ids =
     fold (\<lambda>i tab.
         let tab' = AList.update i i tab in
         if i \<in> set switch_ids then fold (add_switch_routes own i) matrix tab' else tab') link_ids []"

definition new_NoCInterface :: "int \<Rightarrow> int \<Rightarrow> int list \<Rightarrow> int list list \<Rightarrow> int list \<Rightarrow> noc_interface" where
  "new_NoCInterface i buffer_max_size link_ids matrix switch_ids =
     mesh_interface.extend (new_MeshInterface i buffer_max_size link_ids)
       (noc_interface.fields (routing_table i link_ids matrix switch_ids))"

definition noc_route :: "noc_interface \<Rightarrow> int \<Rightarrow> int" where
  "noc_route s d = (case map_of (m_routing_table s) d of None \<Rightarrow> 0 | Some l \<Rightarrow> l)"

definition noc_pushMessage :: "noc_interface \<Rightarrow> message \<Rightarrow> (noc_interface \<times> bool) result" where
  "noc_pushMessage s m = mesh_push (noc_route s) s m"

definition NoC_pushMessage :: "noc_interface \<Rightarrow> message \<Rightarrow> u64 \<Rightarrow> (noc_interface \<times> bool) result" where
  "NoC_pushMessage s m cyc = noc_pushMessage s (mesh_stamp s m cyc)"

text \<open>\<open>NoCController::step\<close> sends to the end of the link that the message, by its sender, does not come from.\<close>

definition far_end :: "link \<Rightarrow> int" where
  "far_end l = (if uint (msg_from (link_msg l)) = id_a l then id_b l else id_a l)"

definition noc_send :: "link \<Rightarrow> noc_interface list \<Rightarrow> noc_interface list result" where
  "noc_send l itfs = deliver_to ''NoCController'' (link_msg l) (far_end l) itfs"

text \<open>The switches' numbers leave the candidates; arbiters that elect by candidate are made anew.\<close>

fun noc_arbiters :: "string \<Rightarrow> int list \<Rightarrow> link list \<Rightarrow> link list result" where
  "noc_arbiters arbiter_type candidates [] = Inr []"
| "noc_arbiters arbiter_type candidates (l # ls) =
     (if arbiter_type = ''FCFSArbiter'' then Inr (l # ls)
      else result_bind (new_arbiter arbiter_type candidates (link_latency l)) (\<lambda>a.
        result_bind (noc_arbiters arbiter_type candidates ls) (\<lambda>ls'. Inr (l\<lparr>link_arbiter := a\<rparr> # ls'))))"

definition noc_candidates :: "noc_interface list \<Rightarrow> int list \<Rightarrow> int list" where
  "noc_candidates itfs switch_ids = fold remove1 switch_ids (map mi_id itfs)"

record noc = "noc_interface mesh_state" +
  m_switches :: "int list"

definition new_NoC ::
  "string \<Rightarrow> int \<Rightarrow> int \<Rightarrow> int \<Rightarrow> int list \<Rightarrow> int list \<Rightarrow> int list list \<Rightarrow> noc result" where
  "new_NoC arbiter_type req_lat data_lat buffers_max_size component_ids switch_ids matrix =
     (let ids = component_ids @ switch_ids in
      result_bind (rows_of ids matrix) (\<lambda>rows.
        let itfs = map (\<lambda>(i, r). new_NoCInterface i buffers_max_size r matrix switch_ids) (zip ids rows) in
        result_bind (initializeLinks arbiter_type req_lat data_lat (topology_of ids rows) itfs) (\<lambda>ls.
        result_bind (noc_arbiters arbiter_type (noc_candidates itfs switch_ids) ls) (\<lambda>ls'.
          Inr \<lparr> mesh_interfaces = itfs, mesh_links = ls', mesh_cycle = 1, mesh_cycle_edges = 1,
                m_switches = switch_ids \<rparr>))))"

text \<open>The loop of a switch empties its receive queues; \<open>noc_pushMessage\<close> may refuse, which it ignores.\<close>

definition rx_count :: "'a mesh_interface_scheme \<Rightarrow> nat" where
  "rx_count s = length (mi_rx_request s) + length (mi_rx_data s)"

lemma Mesh_peek_rx:
  assumes "Mesh_peekMessage s = (s', r)"
  shows "mi_rx_request s' = mi_rx_request s" "mi_rx_data s' = mi_rx_data s" "mi_tx_request s' = mi_tx_request s"
    "mi_tx_data s' = mi_tx_data s" "mi_id s' = mi_id s" "mi_link_ids s' = mi_link_ids s"
    "mi_buffer_max_size s' = mi_buffer_max_size s"
  using assms by (auto simp: Mesh_peekMessage_def numeral_2_eq_2 split: if_splits)

lemma mesh_push_rx:
  assumes "mesh_push route s m = Inr (s', ok)"
  shows "mi_rx_request s' = mi_rx_request s" "mi_rx_data s' = mi_rx_data s" "mi_id s' = mi_id s"
    "mi_link_ids s' = mi_link_ids s" "mi_buffer_max_size s' = mi_buffer_max_size s"
  using assms by (auto simp: mesh_push_def split: if_splits)

lemma Mesh_pop_count:
  assumes "(s', Some m) = Mesh_peekMessage s" and "Mesh_popFrontMessage s' = Inr s''"
    and "mi_rx_request s3 = mi_rx_request s''" "mi_rx_data s3 = mi_rx_data s''"
  shows "rx_count s3 < rx_count s"
  using assms
  by (auto simp: Mesh_peekMessage_def Mesh_popFrontMessage_def numeral_2_eq_2 rx_count_def erase_at_def split: if_splits)

declare result_bind_cong [fundef_cong]

function switch_loop :: "noc_interface \<Rightarrow> noc_interface result" where
  "switch_loop s =
     (case Mesh_peekMessage s of
        (s1, None) \<Rightarrow> Inr s1
      | (s1, Some m) \<Rightarrow>
          result_bind (Mesh_popFrontMessage s1) (\<lambda>s2.
          result_bind (noc_pushMessage s2 m) (\<lambda>(s3, ok). switch_loop s3)))"
  by auto
termination
proof (relation "measure rx_count")
  fix s s1 r m s2 q s3 ok
  assume "(s1, r) = Mesh_peekMessage s" "r = Some m" "Mesh_popFrontMessage s1 = Inr s2"
    "noc_pushMessage s2 m = Inr q" "(s3, ok) = q"
  then show "(s3, s) \<in> measure rx_count"
    using mesh_push_rx(1,2) [of _ s2 m s3 ok] Mesh_pop_count [of s1 m s s2 s3] by (simp add: noc_pushMessage_def)
qed simp

declare switch_loop.simps [simp del]

fun switches_loop :: "int list \<Rightarrow> noc_interface list \<Rightarrow> noc_interface list result" where
  "switches_loop [] itfs = Inr itfs"
| "switches_loop (i # is) itfs =
     (case first_index (\<lambda>s. mi_id s = i) itfs of
        None \<Rightarrow> Inl (Undefined ''NoC: switch without an interface'')
      | Some k \<Rightarrow> result_bind (switch_loop (itfs ! k)) (\<lambda>s. switches_loop is (itfs[k := s])))"

definition NoC_cycleProcess :: "noc \<Rightarrow> noc result" where
  "NoC_cycleProcess s =
     result_bind (mesh_controllerStep noc_send s) (\<lambda>s1.
       if mesh_cycle_edges s1 mod 2 = 0
       then result_bind (switches_loop (m_switches s1) (mesh_interfaces s1)) (\<lambda>itfs. Inr (s1\<lparr>mesh_interfaces := itfs\<rparr>))
       else Inr s1)"

end
