(* ===== verification/Networks.thy ===== *)
theory Networks
  imports Mesh
begin

text \<open>
  The packet-switched interconnects lose and duplicate nothing that they queued, as long as links take two cycles or more
  and switches can pass on what they get; the last section shows what is lost otherwise. A network is seen as three
  multisets: what waits in the transmit queues, what travels on the links and what was delivered. The locale \<open>delivering\<close> says what the links
  need of the class's way to send, which the mesh and the NoC provide.
\<close>

section \<open>Where messages are\<close>

definition itf_tx :: "'a mesh_interface_scheme \<Rightarrow> message multiset" where
  "itf_tx s = mset (concat (mi_tx_request s)) + mset (concat (mi_tx_data s))"

definition itf_rx :: "'a mesh_interface_scheme \<Rightarrow> message multiset" where
  "itf_rx s = mset (mi_rx_request s) + mset (mi_rx_data s)"

definition net_tx :: "'a mesh_interface_scheme list \<Rightarrow> message multiset" where
  "net_tx itfs = sum_list (map itf_tx itfs)"

definition net_rx :: "'a mesh_interface_scheme list \<Rightarrow> message multiset" where
  "net_rx itfs = sum_list (map itf_rx itfs)"

text \<open>A link carries its message as long as it is not ready for the step at time \<open>t\<close>.\<close>

definition busy :: "u64 \<Rightarrow> link \<Rightarrow> message multiset" where
  "busy t l = (if link_isReady t l then {#} else {#link_msg l#})"

definition in_flight :: "u64 \<Rightarrow> link list \<Rightarrow> message multiset" where
  "in_flight t ls = sum_list (map (busy t) ls)"

lemma sum_list_update_mset:
  fixes f :: "'b \<Rightarrow> 'c multiset"
  shows "k < length xs \<Longrightarrow> sum_list (map f (xs[k := y])) + f (xs ! k) = sum_list (map f xs) + f y"
proof (induction xs arbitrary: k)
  case (Cons x xs)
  show ?case
  proof (cases k)
    case (Suc j)
    then have "sum_list (map f (xs[j := y])) + f (xs ! j) = sum_list (map f xs) + f y" using Cons by simp
    then show ?thesis unfolding Suc by (simp add: add.assoc)
  qed (simp add: ac_simps)
qed simp

lemma sum_list_member_sub:
  fixes f :: "'b \<Rightarrow> 'c multiset"
  shows "k < length xs \<Longrightarrow> f (xs ! k) \<subseteq># sum_list (map f xs)"
  by (induction xs arbitrary: k)
    (auto simp: nth_Cons split: nat.splits intro: subset_mset.order_trans [OF _ mset_subset_eq_add_right])

lemmas net_tx_update = sum_list_update_mset [where f = itf_tx, folded net_tx_def]
lemmas net_rx_update = sum_list_update_mset [where f = itf_rx, folded net_rx_def]

lemma net_rx_same:
  assumes "k < length itfs" and "itf_rx i = itf_rx (itfs ! k)"
  shows "net_rx (itfs[k := i]) = net_rx itfs"
  using net_rx_update [OF assms(1), of i] assms(2) by simp

lemma net_tx_same:
  assumes "k < length itfs" and "itf_tx i = itf_tx (itfs ! k)"
  shows "net_tx (itfs[k := i]) = net_tx itfs"
  using net_tx_update [OF assms(1), of i] assms(2) by simp

section \<open>Elections\<close>

text \<open>What an election does not change of an interface.\<close>

definition itf_frame :: "'a mesh_interface_scheme \<Rightarrow> int \<times> int list \<times> int \<times> nat \<times> nat \<times> 'a" where
  "itf_frame s = (mi_id s, mi_link_ids s, mi_buffer_max_size s, length (mi_tx_request s), length (mi_tx_data s),
     mesh_interface.more s)"

fun valid_tx :: "'a mesh_interface_scheme list \<Rightarrow> mesh_tx \<Rightarrow> bool" where
  "valid_tx itfs (MeshTx RequestLink k i) \<longleftrightarrow> k < length itfs \<and> i < length (mi_tx_request (itfs ! k))"
| "valid_tx itfs (MeshTx DataLink k i) \<longleftrightarrow> k < length itfs \<and> i < length (mi_tx_data (itfs ! k))"

lemma frame_nth:
  assumes "map itf_frame itfs' = map itf_frame itfs"
  shows "length itfs' = length itfs" "k < length itfs \<Longrightarrow> itf_frame (itfs' ! k) = itf_frame (itfs ! k)"
proof -
  show l: "length itfs' = length itfs" using arg_cong [OF assms, of length] by simp
  show "k < length itfs \<Longrightarrow> itf_frame (itfs' ! k) = itf_frame (itfs ! k)"
    using arg_cong [OF assms, of "\<lambda>xs. xs ! k"] l by simp
qed

lemma valid_tx_frame:
  assumes "map itf_frame itfs' = map itf_frame itfs"
  shows "valid_tx itfs' r = valid_tx itfs r"
  using frame_nth [OF assms] by (cases "(itfs, r)" rule: valid_tx.cases) (auto simp: itf_frame_def)

lemma concat_update_mset:
  assumes "i < length bufs"
  shows "mset (concat (bufs[i := b])) + mset (bufs ! i) = mset (concat bufs) + mset b"
  using sum_list_update_mset [OF assms, of mset b] by (simp add: mset_concat)

text \<open>Assigning a queue replaces one interface by one that differs in that queue only.\<close>

lemma mesh_assign_itf:
  assumes "valid_tx itfs (MeshTx ty k i)"
  obtains s where "mesh_assign (MeshTx ty k i) b itfs = itfs[k := s]" "k < length itfs"
    "itf_tx s + mset (mesh_deref itfs (MeshTx ty k i)) = itf_tx (itfs ! k) + mset b"
    "itf_rx s = itf_rx (itfs ! k)" "itf_frame s = itf_frame (itfs ! k)"
proof (cases ty)
  case RequestLink
  let ?s = "(itfs ! k)\<lparr>mi_tx_request := (mi_tx_request (itfs ! k))[i := b]\<rparr>"
  have "itf_tx ?s + mset (mi_tx_request (itfs ! k) ! i) = itf_tx (itfs ! k) + mset b"
    using concat_update_mset [of i "mi_tx_request (itfs ! k)" b] assms RequestLink by (simp add: itf_tx_def ac_simps)
  then show thesis using assms RequestLink by (intro that [of ?s]) (simp_all add: itf_rx_def itf_frame_def)
next
  case DataLink
  let ?s = "(itfs ! k)\<lparr>mi_tx_data := (mi_tx_data (itfs ! k))[i := b]\<rparr>"
  have "itf_tx ?s + mset (mi_tx_data (itfs ! k) ! i) = itf_tx (itfs ! k) + mset b"
    using concat_update_mset [of i "mi_tx_data (itfs ! k)" b] assms DataLink by (simp add: itf_tx_def ac_simps)
  then show thesis using assms DataLink by (intro that [of ?s]) (simp_all add: itf_rx_def itf_frame_def)
qed

lemma map_update_same: "f s = f (xs ! k) \<Longrightarrow> map f (xs[k := s]) = map f xs"
  by (metis list_update_id map_update)

lemma mesh_assign_facts:
  assumes "valid_tx itfs r"
  shows "net_tx (mesh_assign r b itfs) + mset (mesh_deref itfs r) = net_tx itfs + mset b"
    and "map itf_rx (mesh_assign r b itfs) = map itf_rx itfs"
    and "map itf_frame (mesh_assign r b itfs) = map itf_frame itfs"
proof -
  obtain ty k i where r: "r = MeshTx ty k i" by (cases r)
  obtain s where s: "mesh_assign r b itfs = itfs[k := s]" "k < length itfs"
    "itf_tx s + mset (mesh_deref itfs r) = itf_tx (itfs ! k) + mset b"
    "itf_rx s = itf_rx (itfs ! k)" "itf_frame s = itf_frame (itfs ! k)"
    using mesh_assign_itf [of itfs ty k i b] assms unfolding r by metis
  have "net_tx (itfs[k := s]) + mset (mesh_deref itfs r) + itf_tx (itfs ! k) = net_tx itfs + mset b + itf_tx (itfs ! k)"
    using net_tx_update [OF s(2), of s] s(3) by (metis (no_types, lifting) add.assoc add.commute)
  then show "net_tx (mesh_assign r b itfs) + mset (mesh_deref itfs r) = net_tx itfs + mset b"
    unfolding s(1) by (rule add_right_imp_eq)
  show "map itf_rx (mesh_assign r b itfs) = map itf_rx itfs" unfolding s(1) using s(4) by (rule map_update_same)
  show "map itf_frame (mesh_assign r b itfs) = map itf_frame itfs" unfolding s(1) using s(5) by (rule map_update_same)
qed

lemma mesh_assign_other:
  assumes "valid_tx itfs r" "r' \<noteq> r"
  shows "mesh_deref (mesh_assign r b itfs) r' = mesh_deref itfs r'"
  using assms by (cases r; cases r'; rename_tac ty k i ty' k' i'; case_tac ty; case_tac ty'; case_tac "k = k'") auto

lemma sum_swap:
  fixes n :: "'c multiset"
  assumes "n2 + d2 = n1 + b2" "n1 + d1 = n + b1"
  shows "n2 + (d1 + d2) = n + (b1 + b2)"
  using assms by (metis (no_types, lifting) add.assoc add.commute)

text \<open>Writing back all queues of a link after an election.\<close>

lemma write_back_facts:
  assumes "distinct refs" "list_all (valid_tx itfs) refs" "length bufs = length refs"
  shows "net_tx (fold (\<lambda>(r, b). mesh_assign r b) (zip refs bufs) itfs) + mset (concat (map (mesh_deref itfs) refs))
      = net_tx itfs + mset (concat bufs)
    \<and> map itf_rx (fold (\<lambda>(r, b). mesh_assign r b) (zip refs bufs) itfs) = map itf_rx itfs
    \<and> map itf_frame (fold (\<lambda>(r, b). mesh_assign r b) (zip refs bufs) itfs) = map itf_frame itfs"
  using assms
proof (induction refs arbitrary: bufs itfs)
  case (Cons r refs)
  obtain b bs where bufs: "bufs = b # bs" "length bs = length refs" using Cons.prems(3) by (cases bufs) auto
  have v: "valid_tx itfs r" using Cons.prems(2) by simp
  let ?itfs = "mesh_assign r b itfs"
  note one = mesh_assign_facts [OF v, where b = b]
  have "list_all (valid_tx ?itfs) refs" using Cons.prems(2) valid_tx_frame [OF one(3)] by (simp add: list_all_iff)
  then have ih: "net_tx (fold (\<lambda>(r, b). mesh_assign r b) (zip refs bs) ?itfs) + mset (concat (map (mesh_deref ?itfs) refs))
      = net_tx ?itfs + mset (concat bs)
    \<and> map itf_rx (fold (\<lambda>(r, b). mesh_assign r b) (zip refs bs) ?itfs) = map itf_rx ?itfs
    \<and> map itf_frame (fold (\<lambda>(r, b). mesh_assign r b) (zip refs bs) ?itfs) = map itf_frame ?itfs"
    using Cons.IH [of ?itfs bs] Cons.prems(1) bufs(2) by simp
  have same: "map (mesh_deref ?itfs) refs = map (mesh_deref itfs) refs"
    using Cons.prems(1) by (intro map_cong refl mesh_assign_other [OF v]) auto
  note tx = conjunct1 [OF ih, unfolded same]
  show ?case
    using sum_swap [OF tx one(1)] conjunct2 [OF ih] one(2,3) unfolding bufs by simp
qed simp

section \<open>Steps of the links\<close>

text \<open>
  A link is fit when a message stays on it for at least one step: the queues it takes from exist and its latency is
  at least 2 (a latency of 1 loses every message, see below).
\<close>

definition link_fit :: "'a mesh_interface_scheme list \<Rightarrow> link \<Rightarrow> bool" where
  "link_fit itfs l \<longleftrightarrow> distinct (link_buffers l) \<and> list_all (valid_tx itfs) (link_buffers l) \<and>
     2 \<le> link_latency l \<and> link_latency l < 2 ^ 62"

lemma link_fit_frame:
  assumes "map itf_frame itfs' = map itf_frame itfs"
  shows "link_fit itfs' l = link_fit itfs l"
  unfolding link_fit_def list_all_iff valid_tx_frame [OF assms] ..

lemma less_next:
  assumes "unat (t :: u64) < 2 ^ 63"
  shows "u < t + 1 \<longleftrightarrow> u \<le> t"
proof -
  have "unat t + 1 < 2 ^ 64" by (rule le_less_trans [OF _ power_strict_increasing [of 63 64 2]]) (use assms in simp_all)
  then have s: "unat (t + 1) = unat t + 1" by (rule unat_add1)
  show ?thesis unfolding word_less_nat_alt word_le_nat_alt s by (rule less_Suc_eq_le [unfolded Suc_eq_plus1])
qed

lemma latency_later:
  assumes "unat (t::u64) < 2 ^ 63" "2 \<le> L" "L < 2 ^ 62"
  shows "t < t + word_of_int L - 1"
proof -
  obtain n where n: "L = int n" using assms(2) by (metis nonneg_int_cases order_trans zero_le_numeral)
  have n2: "2 \<le> n" "n < 2 ^ 62" using assms(2,3) unfolding n by simp_all
  have "n - 1 < 2 ^ LENGTH(64)" using n2(2) by simp
  then have u: "unat (of_nat (n - 1) :: u64) = n - 1" unfolding unat_of_nat by (rule mod_less)
  have "unat t + unat (of_nat (n - 1) :: u64) < 2 ^ LENGTH(64)" unfolding u using assms(1) n2(2) by simp
  then have s: "unat (t + of_nat (n - 1)) = unat t + (n - 1)" by (metis unat_add_lem u)
  have "word_of_int L = (of_nat n :: u64)" unfolding n by simp
  then have e: "t + word_of_int L - 1 = t + of_nat (n - 1)" using n2(1) by (simp add: of_nat_diff)
  show ?thesis unfolding e word_less_nat_alt s using n2(1) by linarith
qed
lemma utilize_busy:
  assumes "unat t < 2 ^ 63" "2 \<le> link_latency l" "link_latency l < 2 ^ 62"
  shows "busy (t + 1) (utilize t m l) = {#m#}"
  using latency_later [OF assms] assms(1) by (simp add: busy_def link_isReady_def utilize_def less_next)

lemma not_ready_later:
  "utilization_cycle l \<noteq> t \<Longrightarrow> \<not> link_isReady t l \<Longrightarrow> unat t < 2 ^ 63 \<Longrightarrow> busy (t + 1) l = {#link_msg l#}"
  by (auto simp: busy_def link_isReady_def less_next)

lemma ready_later: "link_isReady t l \<or> utilization_cycle l = t \<Longrightarrow> unat t < 2 ^ 63 \<Longrightarrow> busy (t + 1) l = {#}"
  by (auto simp: busy_def link_isReady_def less_next)

lemma elect_conserves_net:
  assumes "link_elect t l itfs = Inr (l', itfs')" "link_fit itfs l" "link_isReady t l" "unat t < 2 ^ 63"
  shows "net_tx itfs = net_tx itfs' + busy (t + 1) l' \<and> net_rx itfs' = net_rx itfs \<and> map itf_rx itfs' = map itf_rx itfs \<and>
    map itf_frame itfs' = map itf_frame itfs \<and> link_fit itfs' l'"
proof -
  let ?bufs = "map (mesh_deref itfs) (link_buffers l)"
  obtain a r where e: "arbiter_elect (link_arbiter l) t ?bufs = Inr (a, r)"
    using assms(1) by (auto simp: link_elect_def result_bind_Inr_iff)
  show ?thesis
  proof (cases r)
    case None
    then have "l' = l\<lparr>link_arbiter := a\<rparr>" "itfs' = itfs" using assms(1) e by (simp_all add: link_elect_def)
    then show ?thesis
      using assms(2) ready_later [of t l'] assms(3,4) by (simp add: link_fit_def link_isReady_def)
  next
    case (Some mb)
    obtain m bufs where mb: "mb = (m, bufs)" by force
    have took: "takes_one ?bufs m bufs" using e Some mb by (auto intro: any_arbiter.elect_takes_one)
    let ?l = "l\<lparr>link_arbiter := a\<rparr>"
    have eqs: "l' = utilize t m ?l" "itfs' = fold (\<lambda>(r, b). mesh_assign r b) (zip (link_buffers l) bufs) itfs"
      using assms(1) e Some mb by (simp_all add: link_elect_def)
    have wb: "net_tx itfs' + mset (concat ?bufs) = net_tx itfs + mset (concat bufs)"
      "map itf_rx itfs' = map itf_rx itfs" "map itf_frame itfs' = map itf_frame itfs"
      using write_back_facts [of "link_buffers l" itfs bufs] assms(2) takes_one_length [OF took]
      unfolding eqs(2) by (simp_all add: link_fit_def)
    have "busy (t + 1) l' = {#m#}" using assms(2,4) utilize_busy [of t ?l m] unfolding eqs(1) by (simp add: link_fit_def)
    moreover have "net_tx itfs = net_tx itfs' + {#m#}"
      using wb(1) unfolding takes_one_mset [OF took, symmetric] by simp
    moreover have "link_fit itfs' l'"
      using assms(2) unfolding link_fit_frame [OF wb(3)] eqs(1) by (simp add: link_fit_def utilize_def)
    ultimately show ?thesis using wb(2,3) by (simp add: net_rx_def)
  qed
qed

text \<open>What the links need of \<open>send\<close>: a message that is well addressed is delivered once, and nothing else changes.\<close>

locale delivering =
  fixes send :: "link \<Rightarrow> 'a mesh_interface_scheme list \<Rightarrow> 'a mesh_interface_scheme list result"
    and addressed :: "message \<Rightarrow> bool"
  assumes send_delivers: "addressed (link_msg l) \<Longrightarrow> send l itfs = Inr itfs' \<Longrightarrow>
      net_rx itfs' = add_mset (link_msg l) (net_rx itfs) \<and> net_tx itfs' = net_tx itfs \<and>
      map itf_frame itfs' = map itf_frame itfs"
begin

lemma link_step_conserves:
  assumes "link_step send t l itfs = Inr (l', itfs')" "link_fit itfs l" "unat t < 2 ^ 63"
    and "\<forall>m\<in>#busy t l. addressed m"
  shows "net_tx itfs' + busy (t + 1) l' + net_rx itfs' = net_tx itfs + busy t l + net_rx itfs \<and>
    net_tx itfs' + busy (t + 1) l' \<subseteq># net_tx itfs + busy t l \<and>
    map itf_frame itfs' = map itf_frame itfs \<and> link_fit itfs' l'"
proof (cases "link_isReady t l")
  case True
  then have "link_elect t l itfs = Inr (l', itfs')" "busy t l = {#}" using assms(1) by (simp_all add: link_step_def busy_def)
  then show ?thesis using elect_conserves_net [OF _ assms(2) True assms(3)] by simp
next
  case False
  show ?thesis
  proof (cases "utilization_cycle l = t")
    case True
    then have sent: "send l itfs = Inr itfs'" "l' = l" using assms(1) False by (auto simp: link_step_def result_bind_Inr_iff)
    have b: "busy t l = {#link_msg l#}" using False by (simp add: busy_def)
    then have d: "net_rx itfs' = add_mset (link_msg l) (net_rx itfs) \<and> net_tx itfs' = net_tx itfs \<and>
        map itf_frame itfs' = map itf_frame itfs"
      using assms(4) by (intro send_delivers [OF _ sent(1)]) simp
    then show ?thesis using ready_later [of t l] True assms(2,3) b link_fit_frame [of itfs' itfs l] sent(2) by simp
  next
    case False
    then have "l' = l" "itfs' = itfs" using assms(1) \<open>\<not> link_isReady t l\<close> by (simp_all add: link_step_def)
    then show ?thesis using not_ready_later [OF False] assms(2,3) \<open>\<not> link_isReady t l\<close> by (simp add: busy_def)
  qed
qed

text \<open>All links of a step. Later links still carry what they carried; earlier ones are a step ahead.\<close>

lemma links_step_conserves:
  assumes "links_step send t ls itfs = Inr (ls', itfs')" "list_all (link_fit itfs) ls" "unat t < 2 ^ 63"
    and "\<forall>m\<in>#in_flight t ls. addressed m"
  shows "net_tx itfs' + in_flight (t + 1) ls' + net_rx itfs' = net_tx itfs + in_flight t ls + net_rx itfs \<and>
    net_tx itfs' + in_flight (t + 1) ls' \<subseteq># net_tx itfs + in_flight t ls \<and>
    map itf_frame itfs' = map itf_frame itfs \<and> list_all (link_fit itfs') ls'"
  using assms(1,2,4)
proof (induction ls arbitrary: itfs ls')
  case Nil
  then show ?case by (simp add: in_flight_def)
next
  case (Cons l ls)
  obtain l1 itfs1 ls2 where step: "link_step send t l itfs = Inr (l1, itfs1)"
    and rest: "links_step send t ls itfs1 = Inr (ls2, itfs')" and ls': "ls' = l1 # ls2"
    using Cons.prems(1) by (auto simp: result_bind_Inr_iff)
  have one: "net_tx itfs1 + busy (t + 1) l1 + net_rx itfs1 = net_tx itfs + busy t l + net_rx itfs"
    "net_tx itfs1 + busy (t + 1) l1 \<subseteq># net_tx itfs + busy t l" "map itf_frame itfs1 = map itf_frame itfs" "link_fit itfs1 l1"
    using link_step_conserves [OF step _ assms(3)] Cons.prems(2,3) by (auto simp: in_flight_def)
  have "list_all (link_fit itfs1) ls" using Cons.prems(2) link_fit_frame [OF one(3)] by (simp add: list_all_iff)
  then have more: "net_tx itfs' + in_flight (t + 1) ls2 + net_rx itfs' = net_tx itfs1 + in_flight t ls + net_rx itfs1"
    "net_tx itfs' + in_flight (t + 1) ls2 \<subseteq># net_tx itfs1 + in_flight t ls"
    "map itf_frame itfs' = map itf_frame itfs1" "list_all (link_fit itfs') ls2"
    using Cons.IH [OF rest] Cons.prems(3) by (auto simp: in_flight_def)
  have flight: "in_flight u (x # xs) = busy u x + in_flight u xs" for u x xs by (simp add: in_flight_def)
  have "net_tx itfs' + in_flight (t + 1) ls' + net_rx itfs' = (net_tx itfs1 + in_flight t ls + net_rx itfs1) + busy (t + 1) l1"
    unfolding ls' flight more(1) [symmetric] by simp
  also have "\<dots> = net_tx itfs + in_flight t (l # ls) + net_rx itfs"
    using one(1) unfolding flight by (metis (no_types, lifting) add.assoc add.commute)
  finally have total: "net_tx itfs' + in_flight (t + 1) ls' + net_rx itfs' = net_tx itfs + in_flight t (l # ls) + net_rx itfs" .
  have "net_tx itfs' + in_flight (t + 1) ls' \<subseteq># (net_tx itfs1 + busy (t + 1) l1) + in_flight t ls"
    unfolding ls' flight using subset_mset.add_right_mono [OF more(2), of "busy (t + 1) l1"] by (simp add: ac_simps)
  also have "\<dots> \<subseteq># net_tx itfs + in_flight t (l # ls)"
    unfolding flight using subset_mset.add_right_mono [OF one(2), of "in_flight t ls"] by (simp add: ac_simps)
  finally have "net_tx itfs' + in_flight (t + 1) ls' \<subseteq># net_tx itfs + in_flight t (l # ls)" .
  moreover have "link_fit itfs' l1" using one(4) link_fit_frame [OF more(3)] by simp
  ultimately show ?case using total one(3) more(3,4) unfolding ls' by simp
qed

end

section \<open>What a push and a read do\<close>

definition addressed_in :: "u16 set \<Rightarrow> message \<Rightarrow> bool" where
  "addressed_in D m \<longleftrightarrow> (\<exists>d\<in>D. msg_to m = [d])"

text \<open>The copies a push makes: one for each destination that has a link.\<close>

definition copies :: "(int \<Rightarrow> int) \<Rightarrow> int list \<Rightarrow> message \<Rightarrow> u16 list \<Rightarrow> message list" where
  "copies route links m ds = map (\<lambda>d. m\<lparr>msg_to := [d]\<rparr>) (filter (\<lambda>d. route (uint d) \<in> set links) ds)"

definition sent_copies :: "(int \<Rightarrow> int) \<Rightarrow> 'a mesh_interface_scheme \<Rightarrow> message \<Rightarrow> u64 \<Rightarrow> message list" where
  "sent_copies route i m cyc = copies route (mi_link_ids i) (mesh_stamp i m cyc) (msg_to m)"

lemma enqueue_copies_mset:
  assumes "length bufs = length links"
  shows "mset (concat (enqueue_copies route links m ds bufs)) = mset (concat bufs) + mset (copies route links m ds) \<and>
    length (enqueue_copies route links m ds bufs) = length bufs"
  using assms
proof (induction ds arbitrary: bufs)
  case (Cons d ds)
  show ?case
  proof (cases "first_index (\<lambda>l. l = route (uint d)) links")
    case None
    then have "route (uint d) \<notin> set links" by (auto simp: first_index_None_iff)
    then show ?thesis using Cons None by (simp add: copies_def)
  next
    case (Some i)
    then have i: "i < length links" "route (uint d) \<in> set links" using first_index_SomeD [OF Some] nth_mem by force+
    let ?bufs = "bufs[i := bufs ! i @ [m\<lparr>msg_to := [d]\<rparr>]]"
    have "mset (concat ?bufs) + mset (bufs ! i) = mset (concat bufs) + mset (bufs ! i @ [m\<lparr>msg_to := [d]\<rparr>])"
      using i(1) Cons.prems by (intro concat_update_mset) simp
    then have "mset (concat ?bufs) = add_mset (m\<lparr>msg_to := [d]\<rparr>) (mset (concat bufs))" by simp
    then show ?thesis using Cons.IH [of ?bufs] Cons.prems Some i(2) by (simp add: copies_def)
  qed
qed (simp add: copies_def)

definition itf_ok :: "'a mesh_interface_scheme \<Rightarrow> bool" where
  "itf_ok s \<longleftrightarrow> length (mi_tx_request s) = length (mi_link_ids s) \<and> length (mi_tx_data s) = length (mi_link_ids s)"

lemma itf_ok_frame: "itf_frame s' = itf_frame s \<Longrightarrow> itf_ok s' = itf_ok s"
  by (simp add: itf_frame_def itf_ok_def)

lemma mesh_push_facts:
  assumes "mesh_push route s m = Inr (s', ok)" "itf_ok s"
  shows "itf_tx s' = itf_tx s + (if ok then mset (copies route (mi_link_ids s) m (msg_to m)) else {#})"
    and "itf_rx s' = itf_rx s" and "itf_frame s' = itf_frame s"
  using assms enqueue_copies_mset [of "mi_tx_request s" "mi_link_ids s"] enqueue_copies_mset [of "mi_tx_data s" "mi_link_ids s"]
  by (auto simp: mesh_push_def itf_tx_def itf_rx_def itf_frame_def itf_ok_def ac_simps split: if_splits)

lemma mesh_push_accepts:
  assumes "msg_to m \<noteq> []" "itf_ok s" "int (length (mi_link_ids s)) < mi_buffer_max_size s"
  shows "\<exists>s'. mesh_push route s m = Inr (s', True)"
  using assms by (auto simp: mesh_push_def itf_ok_def)

lemma mesh_peek_facts:
  assumes "Mesh_peekMessage s = (s', r)"
  shows "itf_tx s' = itf_tx s" "itf_rx s' = itf_rx s" "itf_frame s' = itf_frame s"
  using assms by (auto simp: Mesh_peekMessage_def numeral_2_eq_2 itf_tx_def itf_rx_def itf_frame_def split: if_splits)

lemma mesh_pop_facts:
  assumes "Mesh_peekMessage s = (s1, Some m)" "Mesh_popFrontMessage s1 = Inr s2"
  shows "itf_tx s2 = itf_tx s \<and> itf_rx s = add_mset m (itf_rx s2) \<and> itf_frame s2 = itf_frame s"
  using assms
  by (auto simp: Mesh_peekMessage_def Mesh_popFrontMessage_def numeral_2_eq_2 itf_tx_def itf_rx_def itf_frame_def
      erase_at_0 mset_head_tl split: if_splits)

section \<open>Deliveries\<close>

lemma deliver_to_facts:
  assumes "deliver_to name m d itfs = Inr itfs'"
  shows "net_rx itfs' = add_mset m (net_rx itfs) \<and> net_tx itfs' = net_tx itfs \<and> map itf_frame itfs' = map itf_frame itfs"
proof -
  obtain j i' where j: "first_index (\<lambda>i. mi_id i = d) itfs = Some j" "Mesh_pushMessage2RX (itfs ! j) m = (i', True)"
    "itfs' = itfs[j := i']"
    using assms by (auto simp: deliver_to_def split: option.splits prod.splits if_splits)
  have k: "j < length itfs" using first_index_SomeD [OF j(1)] by simp
  have i': "itf_rx i' = add_mset m (itf_rx (itfs ! j))" "itf_tx i' = itf_tx (itfs ! j)" "itf_frame i' = itf_frame (itfs ! j)"
    using j(2) by (auto simp: Mesh_pushMessage2RX_def itf_rx_def itf_tx_def itf_frame_def split: if_splits)
  have "net_rx itfs' + itf_rx (itfs ! j) = add_mset m (net_rx itfs) + itf_rx (itfs ! j)"
    using net_rx_update [OF k, of i'] i'(1) unfolding j(3) by simp
  then have "net_rx itfs' = add_mset m (net_rx itfs)" by (rule add_right_imp_eq)
  then show ?thesis using net_tx_same [OF k i'(2)] map_update_same [of itf_frame, OF i'(3)] unfolding j(3) by simp
qed

interpretation mesh_links: delivering mesh_send "addressed_in D" for D
proof
  fix l and itfs itfs' :: "'a mesh_interface_scheme list"
  assume "addressed_in D (link_msg l)" "mesh_send l itfs = Inr itfs'"
  then obtain d :: u16 where "deliver_to ''MeshController'' (link_msg l) (uint d) itfs = Inr itfs'"
    by (auto simp: addressed_in_def mesh_send_def result_bind_Inr_iff)
  then show "net_rx itfs' = add_mset (link_msg l) (net_rx itfs) \<and> net_tx itfs' = net_tx itfs \<and>
      map itf_frame itfs' = map itf_frame itfs" by (rule deliver_to_facts)
qed

interpretation noc_links: delivering noc_send "addressed_in D" for D
  by unfold_locales (auto simp: noc_send_def dest: deliver_to_facts)

section \<open>Networks\<close>

text \<open>What a network has not delivered yet.\<close>

definition undelivered :: "('a mesh_interface_scheme, 'b) mesh_state_scheme \<Rightarrow> message multiset" where
  "undelivered s = net_tx (mesh_interfaces s) + in_flight (mesh_cycle s) (mesh_links s)"

definition delivered :: "('a mesh_interface_scheme, 'b) mesh_state_scheme \<Rightarrow> message multiset" where
  "delivered s = net_rx (mesh_interfaces s)"

text \<open>A switch accepts what it has to pass on, and has a link towards every destination.\<close>

definition switch_fit :: "('a mesh_interface_scheme \<Rightarrow> int \<Rightarrow> int) \<Rightarrow> u16 set \<Rightarrow> 'a mesh_interface_scheme \<Rightarrow> bool" where
  "switch_fit route D s \<longleftrightarrow>
     int (length (mi_link_ids s)) < mi_buffer_max_size s \<and> (\<forall>d\<in>D. route s (uint d) \<in> set (mi_link_ids s))"

definition net_ok ::
  "('a mesh_interface_scheme \<Rightarrow> int \<Rightarrow> int) \<Rightarrow> u16 set \<Rightarrow> int list \<Rightarrow> ('a mesh_interface_scheme, 'b) mesh_state_scheme \<Rightarrow> bool" where
  "net_ok route D switches s \<longleftrightarrow>
     list_all (link_fit (mesh_interfaces s)) (mesh_links s) \<and>
     (\<forall>i\<in>set (mesh_interfaces s). itf_ok i \<and> (mi_id i \<in> set switches \<longrightarrow> switch_fit route D i)) \<and>
     (\<forall>m\<in>#undelivered s + delivered s. addressed_in D m)"

text \<open>
  The runs of a network: components push messages for destinations in \<open>D\<close>, read, and the network is clocked. The
  lists are the copies that were sent and what was read.
\<close>

inductive net_run ::
  "('a mesh_interface_scheme \<Rightarrow> message \<Rightarrow> u64 \<Rightarrow> ('a mesh_interface_scheme \<times> bool) result)
   \<Rightarrow> ('a mesh_interface_scheme \<Rightarrow> int \<Rightarrow> int)
   \<Rightarrow> (('a mesh_interface_scheme, 'b) mesh_state_scheme \<Rightarrow> ('a mesh_interface_scheme, 'b) mesh_state_scheme result)
   \<Rightarrow> u16 set \<Rightarrow> ('a mesh_interface_scheme, 'b) mesh_state_scheme \<Rightarrow> message list \<Rightarrow> message list
   \<Rightarrow> ('a mesh_interface_scheme, 'b) mesh_state_scheme \<Rightarrow> bool"
  for push route cycle D s0 where
  start: "net_run push route cycle D s0 [] [] s0"
| pushed: "net_run push route cycle D s0 sent got s \<Longrightarrow> k < length (mesh_interfaces s) \<Longrightarrow> set (msg_to m) \<subseteq> D \<Longrightarrow>
    push (mesh_interfaces s ! k) m c = Inr (i, True) \<Longrightarrow>
    net_run push route cycle D s0 (sent @ sent_copies (route (mesh_interfaces s ! k)) (mesh_interfaces s ! k) m c) got
      (s\<lparr>mesh_interfaces := (mesh_interfaces s)[k := i]\<rparr>)"
| looked: "net_run push route cycle D s0 sent got s \<Longrightarrow> k < length (mesh_interfaces s) \<Longrightarrow>
    Mesh_peekMessage (mesh_interfaces s ! k) = (i, r) \<Longrightarrow>
    net_run push route cycle D s0 sent got (s\<lparr>mesh_interfaces := (mesh_interfaces s)[k := i]\<rparr>)"
| read: "net_run push route cycle D s0 sent got s \<Longrightarrow> k < length (mesh_interfaces s) \<Longrightarrow>
    Mesh_peekMessage (mesh_interfaces s ! k) = (i1, Some m) \<Longrightarrow> Mesh_popFrontMessage i1 = Inr i2 \<Longrightarrow>
    net_run push route cycle D s0 sent (got @ [m]) (s\<lparr>mesh_interfaces := (mesh_interfaces s)[k := i2]\<rparr>)"
| cycled: "net_run push route cycle D s0 sent got s \<Longrightarrow> unat (mesh_cycle s) < 2 ^ 63 \<Longrightarrow> cycle s = Inr s' \<Longrightarrow>
    net_run push route cycle D s0 sent got s'"

locale network =
  fixes push :: "'a mesh_interface_scheme \<Rightarrow> message \<Rightarrow> u64 \<Rightarrow> ('a mesh_interface_scheme \<times> bool) result"
    and route :: "'a mesh_interface_scheme \<Rightarrow> int \<Rightarrow> int"
    and cycle :: "('a mesh_interface_scheme, 'b) mesh_state_scheme \<Rightarrow> ('a mesh_interface_scheme, 'b) mesh_state_scheme result"
    and switches :: "('a mesh_interface_scheme, 'b) mesh_state_scheme \<Rightarrow> int list"
  assumes push_is: "push i m c = mesh_push (route i) i (mesh_stamp i m c)"
    and route_frame: "itf_frame i' = itf_frame i \<Longrightarrow> route i' = route i"
    and switches_keep: "switches (s\<lparr>mesh_interfaces := itfs\<rparr>) = switches s"
    and cycle_keeps: "cycle s = Inr s' \<Longrightarrow> unat (mesh_cycle s) < 2 ^ 63 \<Longrightarrow> net_ok route D (switches s) s \<Longrightarrow>
        undelivered s' + delivered s' = undelivered s + delivered s \<and> net_ok route D (switches s') s' \<and> switches s' = switches s"
begin

text \<open>One interface is replaced by one with the same frame.\<close>

lemma replace_itf:
  assumes "net_ok route D (switches s) s" "k < length (mesh_interfaces s)" "itf_frame i = itf_frame (mesh_interfaces s ! k)"
    and "\<forall>m\<in>#itf_tx i + itf_rx i. m \<in># itf_tx (mesh_interfaces s ! k) + itf_rx (mesh_interfaces s ! k) \<or> addressed_in D m"
  shows "net_ok route D (switches s) (s\<lparr>mesh_interfaces := (mesh_interfaces s)[k := i]\<rparr>)"
proof -
  let ?itfs = "mesh_interfaces s" and ?s = "s\<lparr>mesh_interfaces := (mesh_interfaces s)[k := i]\<rparr>"
  have frame: "map itf_frame (?itfs[k := i]) = map itf_frame ?itfs" using assms(3) by (rule map_update_same)
  have fit: "list_all (link_fit (?itfs[k := i])) (mesh_links s)"
    using assms(1) unfolding list_all_iff link_fit_frame [OF frame] by (simp add: net_ok_def list_all_iff)
  have "switch_fit route D i = switch_fit route D (?itfs ! k)"
    using assms(3) route_frame [OF assms(3)] by (simp add: switch_fit_def itf_frame_def)
  moreover have "mi_id i = mi_id (?itfs ! k)" using assms(3) by (simp add: itf_frame_def)
  ultimately have itfs: "itf_ok j \<and> (mi_id j \<in> set (switches s) \<longrightarrow> switch_fit route D j)" if "j \<in> set (?itfs[k := i])" for j
    using that assms(1,2) itf_ok_frame [OF assms(3)] set_update_subset_insert [of ?itfs k i] nth_mem [OF assms(2)]
    unfolding net_ok_def by auto
  have "m \<in># undelivered s + delivered s \<or> addressed_in D m" if "m \<in># undelivered ?s + delivered ?s" for m
  proof -
    have tx: "net_tx (?itfs[k := i]) + itf_tx (?itfs ! k) = net_tx ?itfs + itf_tx i" using assms(2) by (rule net_tx_update)
    have rx: "net_rx (?itfs[k := i]) + itf_rx (?itfs ! k) = net_rx ?itfs + itf_rx i" using assms(2) by (rule net_rx_update)
    have old: "itf_tx (?itfs ! k) \<subseteq># net_tx ?itfs" "itf_rx (?itfs ! k) \<subseteq># net_rx ?itfs"
      using assms(2) by (simp_all add: net_tx_def net_rx_def sum_list_member_sub)
    have "m \<in># net_tx ?itfs + itf_tx i + (net_rx ?itfs + itf_rx i) + in_flight (mesh_cycle s) (mesh_links s)"
      using that unfolding tx [symmetric] rx [symmetric] by (auto simp: undelivered_def delivered_def)
    then show ?thesis using assms(4) old by (auto simp: undelivered_def delivered_def dest: mset_subset_eqD)
  qed
  then show ?thesis using assms(1) fit itfs by (auto simp: net_ok_def)
qed

lemma run_conserves:
  assumes "net_run push route cycle D s0 sent got s" "net_ok route D (switches s0) s0"
  shows "undelivered s + delivered s + mset got = undelivered s0 + delivered s0 + mset sent \<and> net_ok route D (switches s) s"
  using assms
proof (induction rule: net_run.induct)
  case start
  then show ?case by simp
next
  case (pushed sent got s k m c i)
  let ?i = "mesh_interfaces s ! k" and ?s = "s\<lparr>mesh_interfaces := (mesh_interfaces s)[k := i]\<rparr>"
  let ?new = "sent_copies (route ?i) ?i m c"
  have ok: "net_ok route D (switches s) s" "undelivered s + delivered s + mset got = undelivered s0 + delivered s0 + mset sent"
    using pushed by simp_all
  have "itf_ok ?i" using ok(1) nth_mem [OF pushed.hyps(2)] by (simp add: net_ok_def)
  moreover have "msg_to (mesh_stamp ?i m c) = msg_to m" by (simp add: mesh_stamp_def)
  ultimately have f: "itf_tx i = itf_tx ?i + mset ?new" "itf_rx i = itf_rx ?i" "itf_frame i = itf_frame ?i"
    using mesh_push_facts [OF pushed.hyps(4) [unfolded push_is]] by (simp_all add: sent_copies_def)
  have "addressed_in D x" if "x \<in> set ?new" for x
    using that pushed.hyps(3) by (auto simp: sent_copies_def copies_def addressed_in_def)
  then have "net_ok route D (switches s) ?s" using f by (intro replace_itf [OF ok(1) pushed.hyps(2) f(3)]) auto
  moreover have "net_tx ((mesh_interfaces s)[k := i]) = net_tx (mesh_interfaces s) + mset ?new"
    using net_tx_update [OF pushed.hyps(2), of i] f(1) by simp
  then have "undelivered ?s + delivered ?s + mset got = undelivered s0 + delivered s0 + mset (sent @ ?new)"
    using ok(2) net_rx_same [OF pushed.hyps(2) f(2)] by (simp add: undelivered_def delivered_def ac_simps)
  ultimately show ?case by (simp add: switches_keep)
next
  case (looked sent got s k i r)
  have ok: "net_ok route D (switches s) s" using looked by simp
  note f = mesh_peek_facts [OF looked.hyps(3)]
  have "net_ok route D (switches s) (s\<lparr>mesh_interfaces := (mesh_interfaces s)[k := i]\<rparr>)"
    using f by (intro replace_itf [OF ok looked.hyps(2) f(3)]) simp
  then show ?case
    using looked net_rx_same [OF looked.hyps(2) f(2)] net_tx_same [OF looked.hyps(2) f(1)]
    by (simp add: switches_keep undelivered_def delivered_def)
next
  case (read sent got s k i1 m i2)
  let ?i = "mesh_interfaces s ! k" and ?s = "s\<lparr>mesh_interfaces := (mesh_interfaces s)[k := i2]\<rparr>"
  have ok: "net_ok route D (switches s) s" using read by simp
  have f: "itf_tx i2 = itf_tx ?i" "itf_rx ?i = add_mset m (itf_rx i2)" "itf_frame i2 = itf_frame ?i"
    using mesh_pop_facts [OF read.hyps(3,4)] by simp_all
  have "net_ok route D (switches s) ?s" using f by (intro replace_itf [OF ok read.hyps(2) f(3)]) auto
  moreover have "net_rx (mesh_interfaces s) = add_mset m (net_rx ((mesh_interfaces s)[k := i2]))"
    using net_rx_update [OF read.hyps(2), of i2] f(2) by simp
  then have "undelivered ?s + delivered ?s + mset (got @ [m]) = undelivered s0 + delivered s0 + mset sent"
    using read net_tx_same [OF read.hyps(2) f(1)] by (simp add: undelivered_def delivered_def ac_simps)
  ultimately show ?case by (simp add: switches_keep)
next
  case (cycled sent got s s')
  then show ?case using cycle_keeps [OF cycled.hyps(3,2)] by auto
qed

end

section \<open>The two networks\<close>

lemma in_flight_empty_initially: "\<forall>l\<in>set ls. utilization_cycle l = 0 \<Longrightarrow> in_flight 1 ls = {#}"
  by (induction ls) (auto simp: in_flight_def busy_def link_isReady_def)

context delivering
begin

text \<open>The clocked shell around the links.\<close>

lemma controllerStep_keeps:
  assumes "mesh_controllerStep send s = Inr s'" "unat (mesh_cycle s) < 2 ^ 63"
    and "list_all (link_fit (mesh_interfaces s)) (mesh_links s)" "\<forall>m\<in>#undelivered s + delivered s. addressed m"
  shows "undelivered s' + delivered s' = undelivered s + delivered s \<and>
    list_all (link_fit (mesh_interfaces s')) (mesh_links s') \<and>
    map itf_frame (mesh_interfaces s') = map itf_frame (mesh_interfaces s) \<and> mesh_state.more s' = mesh_state.more s"
proof (cases "mesh_cycle_edges s mod 2 = 1")
  case True
  then obtain ls itfs where r: "links_step send (mesh_cycle s) (mesh_links s) (mesh_interfaces s) = Inr (ls, itfs)"
    "s' = s\<lparr>mesh_links := ls, mesh_interfaces := itfs, mesh_cycle := mesh_cycle s + 1, mesh_cycle_edges := mesh_cycle_edges s + 1\<rparr>"
    using assms(1) by (auto simp: mesh_controllerStep_def result_bind_Inr_iff)
  have "\<forall>m\<in>#in_flight (mesh_cycle s) (mesh_links s). addressed m" using assms(4) by (simp add: undelivered_def)
  from links_step_conserves [OF r(1) assms(3,2) this] show ?thesis
    unfolding r(2) by (simp add: undelivered_def delivered_def)
next
  case False
  then have "s' = s\<lparr>mesh_cycle_edges := mesh_cycle_edges s + 1\<rparr>" using assms(1) by (simp add: mesh_controllerStep_def)
  then show ?thesis using assms(3) by (simp add: undelivered_def delivered_def)
qed

end

interpretation mesh_net: network Mesh_pushMessage "\<lambda>_. id" Mesh_cycleProcess "\<lambda>_. []"
proof
  fix s s' D
  assume c: "Mesh_cycleProcess s = Inr s'" "unat (mesh_cycle s) < 2 ^ 63" "net_ok (\<lambda>_. id) D [] s"
  have k: "undelivered s' + delivered s' = undelivered s + delivered s \<and>
    list_all (link_fit (mesh_interfaces s')) (mesh_links s') \<and>
    map itf_frame (mesh_interfaces s') = map itf_frame (mesh_interfaces s)"
    using mesh_links.controllerStep_keeps [OF c(1) [unfolded Mesh_cycleProcess_def] c(2), of D] c(3) by (auto simp: net_ok_def)
  have "\<forall>i\<in>set (mesh_interfaces s'). itf_ok i"
    using c(3) frame_nth [OF conjunct2 [OF conjunct2 [OF k]]] itf_ok_frame by (metis in_set_conv_nth net_ok_def)
  then show "undelivered s' + delivered s' = undelivered s + delivered s \<and> net_ok (\<lambda>_. id) D [] s' \<and> [] = []"
    using k c(3) by (simp add: net_ok_def)
qed (simp_all add: Mesh_pushMessage_def)

lemma noc_route_frame: "itf_frame i' = itf_frame i \<Longrightarrow> noc_route i' = noc_route i"
  by (cases i; cases i') (auto simp: itf_frame_def noc_route_def fun_eq_iff)

lemma switch_fit_frame:
  assumes "itf_frame i' = itf_frame i"
  shows "switch_fit noc_route D i' = switch_fit noc_route D i" "mi_id i' = mi_id i"
  using assms unfolding switch_fit_def noc_route_frame [OF assms] by (simp_all add: itf_frame_def)

lemma switch_loop_keeps:
  assumes "switch_loop s = Inr s'" "switch_fit noc_route D s" "itf_ok s" "\<forall>m\<in>#itf_rx s. addressed_in D m"
  shows "itf_tx s' + itf_rx s' = itf_tx s + itf_rx s \<and> itf_frame s' = itf_frame s"
  using assms
proof (induction s rule: switch_loop.induct)
  case (1 s)
  obtain s1 r where p: "Mesh_peekMessage s = (s1, r)" by force
  show ?case
  proof (cases r)
    case None
    then have "s' = s1" using 1(2) p unfolding switch_loop.simps [of s] by simp
    then show ?thesis using mesh_peek_facts [OF p] by simp
  next
    case (Some m)
    obtain s2 s3 ok where s2: "Mesh_popFrontMessage s1 = Inr s2" and s3: "noc_pushMessage s2 m = Inr (s3, ok)"
      and go: "switch_loop s3 = Inr s'"
      using 1(2) p Some unfolding switch_loop.simps [of s] by (auto simp: result_bind_Inr_iff)
    have f2: "itf_tx s2 = itf_tx s" "itf_rx s = add_mset m (itf_rx s2)" "itf_frame s2 = itf_frame s"
      using mesh_pop_facts [OF p [unfolded Some] s2] by simp_all
    have route: "noc_route s2 = noc_route s" using f2(3) by (rule noc_route_frame)
    have ok2: "itf_ok s2" "switch_fit noc_route D s2"
      using 1(3,4) itf_ok_frame [OF f2(3)] f2(3) by (simp_all add: switch_fit_def route itf_frame_def)
    obtain d where d: "d \<in> D" "msg_to m = [d]" using 1(5) f2(2) by (auto simp: addressed_in_def)
    have "ok" using mesh_push_accepts [of m s2 "noc_route s2"] ok2 d s3 by (auto simp: noc_pushMessage_def switch_fit_def)
    moreover have "copies (noc_route s2) (mi_link_ids s2) m (msg_to m) = [m]"
    proof -
      have "m\<lparr>msg_to := [d]\<rparr> = m" using d(2) by (cases m) simp
      then show ?thesis using d ok2(2) by (simp add: copies_def switch_fit_def)
    qed
    ultimately have f3: "itf_tx s3 = add_mset m (itf_tx s2)" "itf_rx s3 = itf_rx s2" "itf_frame s3 = itf_frame s2"
      using mesh_push_facts [OF s3 [unfolded noc_pushMessage_def] ok2(1)] by simp_all
    have route3: "noc_route s3 = noc_route s2" using f3(3) by (rule noc_route_frame)
    have "switch_fit noc_route D s3" "itf_ok s3"
      using ok2 itf_ok_frame [OF f3(3)] f3(3) by (simp_all add: switch_fit_def route3 itf_frame_def)
    then have "itf_tx s' + itf_rx s' = itf_tx s3 + itf_rx s3 \<and> itf_frame s' = itf_frame s3"
      using 1(1) [OF p [symmetric] Some s2 s3 refl go] 1(5) f2(2) f3(2) by simp
    then show ?thesis using f2 f3 by simp
  qed
qed

lemma switches_loop_keeps:
  assumes "switches_loop sws itfs = Inr itfs'"
    and "\<forall>i\<in>set itfs. itf_ok i \<and> (mi_id i \<in> set sws \<longrightarrow> switch_fit noc_route D i)"
    and "\<forall>m\<in>#net_tx itfs + net_rx itfs. addressed_in D m"
  shows "net_tx itfs' + net_rx itfs' = net_tx itfs + net_rx itfs \<and> map itf_frame itfs' = map itf_frame itfs"
  using assms
proof (induction sws arbitrary: itfs)
  case (Cons w sws)
  obtain k where k: "first_index (\<lambda>s. mi_id s = w) itfs = Some k" using Cons.prems(1) by (auto split: option.splits)
  then obtain s where s: "switch_loop (itfs ! k) = Inr s" and rest: "switches_loop sws (itfs[k := s]) = Inr itfs'"
    using Cons.prems(1) by (auto simp: result_bind_Inr_iff)
  have kl: "k < length itfs" "mi_id (itfs ! k) = w" using first_index_SomeD [OF k] by auto
  have sub: "itf_rx (itfs ! k) \<subseteq># net_rx itfs" using kl(1) by (simp add: net_rx_def sum_list_member_sub)
  have fit: "switch_fit noc_route D (itfs ! k)" "itf_ok (itfs ! k)" using Cons.prems(2) nth_mem [OF kl(1)] kl(2) by simp_all
  have one: "itf_tx s + itf_rx s = itf_tx (itfs ! k) + itf_rx (itfs ! k)" "itf_frame s = itf_frame (itfs ! k)"
    using switch_loop_keeps [OF s fit] Cons.prems(3) sub by (auto dest: mset_subset_eqD)
  have frame: "map itf_frame (itfs[k := s]) = map itf_frame itfs" using one(2) by (rule map_update_same)
  let ?a = "net_tx (itfs[k := s])" and ?b = "net_rx (itfs[k := s])"
  have "(?a + itf_tx (itfs ! k)) + (?b + itf_rx (itfs ! k)) = (net_tx itfs + itf_tx s) + (net_rx itfs + itf_rx s)"
    using net_tx_update [OF kl(1), of s] net_rx_update [OF kl(1), of s] by simp
  then have "(?a + ?b) + (itf_tx (itfs ! k) + itf_rx (itfs ! k)) = (net_tx itfs + net_rx itfs) + (itf_tx s + itf_rx s)"
    by (simp add: ac_simps)
  then have total: "?a + ?b = net_tx itfs + net_rx itfs" unfolding one(1) by (rule add_right_imp_eq)
  have "switch_fit noc_route D s" using fit(1) one(2) noc_route_frame [OF one(2)] by (simp add: switch_fit_def itf_frame_def)
  moreover have "itf_ok s" using fit(2) itf_ok_frame [OF one(2)] by simp
  ultimately have "\<forall>i\<in>set (itfs[k := s]). itf_ok i \<and> (mi_id i \<in> set sws \<longrightarrow> switch_fit noc_route D i)"
    using Cons.prems(2) set_update_subset_insert [of itfs k s] by auto
  moreover have "\<forall>m\<in>#?a + ?b. addressed_in D m" using Cons.prems(3) unfolding total .
  ultimately show ?case using Cons.IH [OF rest] total frame by simp
qed simp

interpretation noc_net: network NoC_pushMessage noc_route NoC_cycleProcess m_switches
proof
  fix s s' :: noc and D
  assume c: "NoC_cycleProcess s = Inr s'" "unat (mesh_cycle s) < 2 ^ 63" "net_ok noc_route D (m_switches s) s"
  obtain s1 where s1: "mesh_controllerStep noc_send s = Inr s1"
    and rest: "(if mesh_cycle_edges s1 mod 2 = 0
      then result_bind (switches_loop (m_switches s1) (mesh_interfaces s1)) (\<lambda>itfs. Inr (s1\<lparr>mesh_interfaces := itfs\<rparr>))
      else Inr s1) = Inr s'"
    using c(1) by (auto simp: NoC_cycleProcess_def result_bind_Inr_iff)
  have k: "undelivered s1 + delivered s1 = undelivered s + delivered s"
    "list_all (link_fit (mesh_interfaces s1)) (mesh_links s1)"
    "map itf_frame (mesh_interfaces s1) = map itf_frame (mesh_interfaces s)" "mesh_state.more s1 = mesh_state.more s"
    using noc_links.controllerStep_keeps [OF s1 c(2), of D] c(3) by (auto simp: net_ok_def)
  have sw: "m_switches s1 = m_switches s" using k(4) by (cases s; cases s1) simp
  have itfs: "itf_ok i \<and> (mi_id i \<in> set (m_switches s) \<longrightarrow> switch_fit noc_route D i)"
    if "i \<in> set xs" "map itf_frame xs = map itf_frame (mesh_interfaces s)" for i xs
  proof -
    obtain j where j: "j < length xs" "xs ! j = i" using \<open>i \<in> set xs\<close> by (metis in_set_conv_nth)
    then have f: "itf_frame i = itf_frame (mesh_interfaces s ! j)" "mesh_interfaces s ! j \<in> set (mesh_interfaces s)"
      using frame_nth [OF \<open>map itf_frame xs = _\<close>] by auto
    have "itf_ok (mesh_interfaces s ! j) \<and>
        (mi_id (mesh_interfaces s ! j) \<in> set (m_switches s) \<longrightarrow> switch_fit noc_route D (mesh_interfaces s ! j))"
      using c(3) f(2) unfolding net_ok_def by blast
    then show ?thesis
      using itf_ok_frame [OF f(1)] switch_fit_frame [OF f(1)] by simp
  qed
  have msgs1: "\<forall>m\<in>#undelivered s1 + delivered s1. addressed_in D m" unfolding k(1) using c(3) by (simp add: net_ok_def)
  show "undelivered s' + delivered s' = undelivered s + delivered s \<and> net_ok noc_route D (m_switches s') s' \<and>
      m_switches s' = m_switches s"
  proof (cases "mesh_cycle_edges s1 mod 2 = 0")
    case True
    then obtain itfs' where l: "switches_loop (m_switches s1) (mesh_interfaces s1) = Inr itfs'" "s' = s1\<lparr>mesh_interfaces := itfs'\<rparr>"
      using rest by (auto simp: result_bind_Inr_iff)
    have m1: "\<forall>m\<in>#net_tx (mesh_interfaces s1) + net_rx (mesh_interfaces s1). addressed_in D m"
      using msgs1 by (auto simp: undelivered_def delivered_def)
    have f: "net_tx itfs' + net_rx itfs' = net_tx (mesh_interfaces s1) + net_rx (mesh_interfaces s1)"
      "map itf_frame itfs' = map itf_frame (mesh_interfaces s1)"
      using switches_loop_keeps [OF l(1) _ m1] itfs [OF _ k(3)] sw by simp_all
    have total: "undelivered s' + delivered s' = undelivered s1 + delivered s1"
    proof -
      have "undelivered s' + delivered s' = (net_tx itfs' + net_rx itfs') + in_flight (mesh_cycle s1) (mesh_links s1)"
        unfolding l(2) by (simp add: undelivered_def delivered_def ac_simps)
      then show ?thesis unfolding f(1) by (simp add: undelivered_def delivered_def ac_simps)
    qed
    have "list_all (link_fit itfs') (mesh_links s1)" using k(2) unfolding list_all_iff link_fit_frame [OF f(2)] .
    then have "net_ok noc_route D (m_switches s') s'"
      using itfs [OF _ trans [OF f(2) k(3)]] msgs1 sw unfolding net_ok_def total by (simp add: l(2))
    then show ?thesis using total k(1) sw l(2) by simp
  next
    case False
    then have "s' = s1" using rest by simp
    then show ?thesis using k(1,2) itfs [OF _ k(3)] msgs1 sw by (simp add: net_ok_def)
  qed
qed (auto simp: NoC_pushMessage_def noc_pushMessage_def intro: noc_route_frame)

section \<open>New networks\<close>

lemma setInterfaceBuffers_fit:
  assumes "setInterfaceBuffers itfs l = Inr l'" "\<forall>i\<in>set itfs. itf_ok i"
  shows "distinct (link_buffers l') \<and> list_all (valid_tx itfs) (link_buffers l') \<and>
    link_latency l' = link_latency l \<and> utilization_cycle l' = utilization_cycle l"
proof -
  let ?ks = "filter (\<lambda>k. mi_id (itfs ! k) = id_a l \<or> mi_id (itfs ! k) = id_b l) [0..<length itfs]"
  obtain j k where jk: "?ks = [j, k]" and
    l': "l' = l\<lparr>link_buffers := end_buffers itfs (link_kind l) j k @ end_buffers itfs (link_kind l) k j\<rparr>"
    using assms(1) unfolding setInterfaceBuffers_def by (auto split: list.splits)
  have "distinct ?ks" by simp
  then have "j \<noteq> k" unfolding jk by simp
  have "set ?ks \<subseteq> {0..<length itfs}" by auto
  then have len: "j < length itfs" "k < length itfs" unfolding jk by auto
  have ends: "list_all (valid_tx itfs) (end_buffers itfs (link_kind l) a b) \<and> distinct (end_buffers itfs (link_kind l) a b) \<and>
      (\<forall>r\<in>set (end_buffers itfs (link_kind l) a b). \<exists>i. r = MeshTx (link_kind l) a i)" if "a < length itfs" for a b
  proof -
    have "itf_ok (itfs ! a)" using assms(2) that by simp
    then show ?thesis
      using that by (cases "link_kind l") (auto simp: end_buffers_def itf_ok_def split: option.splits dest: first_index_SomeD)
  qed
  have "distinct (link_buffers l')" using ends [OF len(1), of k] ends [OF len(2), of j] \<open>j \<noteq> k\<close> unfolding l' by auto
  then show ?thesis using ends [OF len(1), of k] ends [OF len(2), of j] unfolding l' by simp
qed

definition fresh_link :: "int \<Rightarrow> int \<Rightarrow> link \<Rightarrow> bool" where
  "fresh_link req_lat data_lat l \<longleftrightarrow> link_latency l \<in> {req_lat, data_lat} \<and> utilization_cycle l = 0"

lemma topology_links_fresh: "list_all (fresh_link req_lat data_lat) (topology_links req_lat data_lat topology)"
proof -
  have new: "fresh_link req_lat data_lat (new_Link a b RequestLink req_lat)" "fresh_link req_lat data_lat (new_Link a b DataLink data_lat)"
    for a b by (simp_all add: fresh_link_def new_Link_def)
  have add: "list_all (fresh_link req_lat data_lat) ls \<Longrightarrow> fresh_link req_lat data_lat l \<Longrightarrow>
      list_all (fresh_link req_lat data_lat) (add_link l ls)" for l ls by (simp add: add_link_def)
  show ?thesis
    unfolding topology_links_def
    by (rule fold_invariant [where Q = "\<lambda>_. True"]) (auto split: prod.splits
        intro!: fold_invariant [where Q = "\<lambda>_. True" and P = "list_all (fresh_link req_lat data_lat)"] add new)
qed

lemma finish_links_fit:
  assumes "finish_links ty cands itfs ls = Inr ls'" "list_all (fresh_link rl dl) ls" "\<forall>i\<in>set itfs. itf_ok i"
    and "2 \<le> rl" "rl < 2 ^ 62" "2 \<le> dl" "dl < 2 ^ 62"
  shows "list_all (link_fit itfs) ls' \<and> (\<forall>l\<in>set ls'. utilization_cycle l = 0)"
  using assms(1,2)
proof (induction ls arbitrary: ls')
  case (Cons l ls)
  obtain a l1 ls1 where s: "setInterfaceBuffers itfs (l\<lparr>link_arbiter := a\<rparr>) = Inr l1" "finish_links ty cands itfs ls = Inr ls1"
    "ls' = l1 # ls1"
    using Cons.prems(1) by (auto simp: result_bind_Inr_iff)
  have "link_fit itfs l1 \<and> utilization_cycle l1 = 0"
    using setInterfaceBuffers_fit [OF s(1) assms(3)] Cons.prems(2) assms(4-) by (auto simp: link_fit_def fresh_link_def)
  then show ?case using Cons.IH [OF s(2)] Cons.prems(2) s(3) by simp
qed simp

lemma noc_arbiters_fit:
  "noc_arbiters ty cands ls = Inr ls' \<Longrightarrow> list_all (link_fit itfs) ls \<Longrightarrow> \<forall>l\<in>set ls. utilization_cycle l = 0 \<Longrightarrow>
   list_all (link_fit itfs) ls' \<and> (\<forall>l\<in>set ls'. utilization_cycle l = 0)"
  by (induction ty cands ls arbitrary: ls' rule: noc_arbiters.induct)
    (auto simp: result_bind_Inr_iff link_fit_def split: if_splits)

lemma new_interface_empty:
  "itf_tx (new_MeshInterface i n ls) = {#}" "itf_rx (new_MeshInterface i n ls) = {#}" "itf_ok (new_MeshInterface i n ls)"
  "itf_tx (new_NoCInterface i n ls mat sws) = {#}" "itf_rx (new_NoCInterface i n ls mat sws) = {#}"
  "itf_ok (new_NoCInterface i n ls mat sws)"
  by (induction ls) (simp_all add: itf_tx_def itf_rx_def itf_ok_def new_MeshInterface_def new_NoCInterface_def mesh_interface.defs)

lemma net_empty:
  assumes "\<forall>i\<in>set itfs. itf_tx i = {#} \<and> itf_rx i = {#}"
  shows "net_tx itfs = {#}" "net_rx itfs = {#}"
  using assms by (induction itfs) (simp_all add: net_tx_def net_rx_def)

lemma new_Mesh_ok:
  assumes "new_Mesh ty rl dl n ids matrix = Inr s" "2 \<le> rl" "rl < 2 ^ 62" "2 \<le> dl" "dl < 2 ^ 62"
  shows "net_ok (\<lambda>_. id) D [] s \<and> undelivered s = {#} \<and> delivered s = {#} \<and> (\<forall>i\<in>set (mesh_interfaces s). itf_rx i = {#})"
proof -
  obtain rows ls where r: "initializeLinks ty rl dl (topology_of ids rows)
      (map (\<lambda>(i, r). new_MeshInterface i n r) (zip ids rows)) = Inr ls"
    "s = \<lparr> mesh_interfaces = map (\<lambda>(i, r). new_MeshInterface i n r) (zip ids rows), mesh_links = ls, mesh_cycle = 1,
       mesh_cycle_edges = 1 \<rparr>"
    using assms(1) by (auto simp: new_Mesh_def Let_def result_bind_Inr_iff)
  let ?itfs = "map (\<lambda>(i, r). new_MeshInterface i n r) (zip ids rows)"
  have e: "\<forall>i\<in>set ?itfs. itf_ok i" "\<forall>i\<in>set ?itfs. itf_tx i = {#} \<and> itf_rx i = {#}" by (auto simp: new_interface_empty)
  have "list_all (link_fit ?itfs) ls \<and> (\<forall>l\<in>set ls. utilization_cycle l = 0)"
    using finish_links_fit [OF r(1) [unfolded initializeLinks_def] topology_links_fresh e(1) assms(2-)] .
  then show ?thesis
    using e net_empty [OF e(2)] in_flight_empty_initially [of ls] unfolding r(2)
    by (simp add: net_ok_def undelivered_def delivered_def)
qed

lemma new_NoC_ok:
  assumes "new_NoC ty rl dl n ids sws matrix = Inr s" "2 \<le> rl" "rl < 2 ^ 62" "2 \<le> dl" "dl < 2 ^ 62"
    and "\<forall>i\<in>set (mesh_interfaces s). mi_id i \<in> set sws \<longrightarrow> switch_fit noc_route D i"
  shows "net_ok noc_route D (m_switches s) s \<and> undelivered s = {#} \<and> delivered s = {#}"
proof -
  let ?itfs = "\<lambda>rows. map (\<lambda>(i, r). new_NoCInterface i n r matrix sws) (zip (ids @ sws) rows)"
  obtain rows ls ls' where r: "initializeLinks ty rl dl (topology_of (ids @ sws) rows) (?itfs rows) = Inr ls"
    "noc_arbiters ty (noc_candidates (?itfs rows) sws) ls = Inr ls'"
    "s = \<lparr> mesh_interfaces = ?itfs rows, mesh_links = ls', mesh_cycle = 1, mesh_cycle_edges = 1, m_switches = sws \<rparr>"
    using assms(1) by (auto simp: new_NoC_def Let_def result_bind_Inr_iff)
  have e: "\<forall>i\<in>set (?itfs rows). itf_ok i" "\<forall>i\<in>set (?itfs rows). itf_tx i = {#} \<and> itf_rx i = {#}"
    by (auto simp: new_interface_empty)
  have "list_all (link_fit (?itfs rows)) ls \<and> (\<forall>l\<in>set ls. utilization_cycle l = 0)"
    using finish_links_fit [OF r(1) [unfolded initializeLinks_def] topology_links_fresh e(1) assms(2-5)] .
  then have "list_all (link_fit (?itfs rows)) ls' \<and> (\<forall>l\<in>set ls'. utilization_cycle l = 0)"
    using noc_arbiters_fit [OF r(2)] by blast
  then show ?thesis
    using e net_empty [OF e(2)] in_flight_empty_initially [of ls'] assms(6) unfolding r(3)
    by (simp add: net_ok_def undelivered_def delivered_def)
qed

section \<open>Destinations\<close>

text \<open>In a mesh every message that waits at an interface is for it.\<close>

definition at_destination :: "'a mesh_interface_scheme list \<Rightarrow> bool" where
  "at_destination itfs \<longleftrightarrow> (\<forall>i\<in>set itfs. \<forall>m\<in>#itf_rx i. map uint (msg_to m) = [mi_id i])"

lemma at_destination_update:
  assumes "at_destination itfs" "k < length itfs" "mi_id i = mi_id (itfs ! k)"
    and "\<forall>m\<in>#itf_rx i. m \<in># itf_rx (itfs ! k) \<or> map uint (msg_to m) = [mi_id i]"
  shows "at_destination (itfs[k := i])"
  using assms set_update_subset_insert [of itfs k i] nth_mem [OF assms(2)] unfolding at_destination_def
  by (metis (no_types, lifting) insert_iff subsetD)

lemma mesh_send_destination:
  assumes "mesh_send l itfs = Inr itfs'" "addressed_in D (link_msg l)" "at_destination itfs"
  shows "at_destination itfs'"
proof -
  obtain d :: u16 where d: "msg_to (link_msg l) = [d]" using assms(2) by (auto simp: addressed_in_def)
  then obtain j i' where j: "first_index (\<lambda>i. mi_id i = uint d) itfs = Some j"
    "Mesh_pushMessage2RX (itfs ! j) (link_msg l) = (i', True)" "itfs' = itfs[j := i']"
    using assms(1) by (auto simp: mesh_send_def deliver_to_def result_bind_Inr_iff split: option.splits prod.splits if_splits)
  have k: "j < length itfs" "mi_id (itfs ! j) = uint d" using first_index_SomeD [OF j(1)] by simp_all
  have "itf_rx i' = add_mset (link_msg l) (itf_rx (itfs ! j))" "mi_id i' = mi_id (itfs ! j)"
    using j(2) by (auto simp: Mesh_pushMessage2RX_def itf_rx_def split: if_splits)
  then show ?thesis
    unfolding j(3) using k d by (intro at_destination_update [OF assms(3) k(1)]) auto
qed

lemma at_destination_same:
  assumes "map itf_rx itfs' = map itf_rx itfs" "map itf_frame itfs' = map itf_frame itfs" "at_destination itfs"
  shows "at_destination itfs'"
  unfolding at_destination_def
proof
  fix i assume "i \<in> set itfs'"
  then obtain j where j: "j < length itfs'" "i = itfs' ! j" by (metis in_set_conv_nth)
  have l: "length itfs' = length itfs" using frame_nth(1) [OF assms(2)] .
  have "itf_rx i = itf_rx (itfs ! j)" using arg_cong [OF assms(1), of "\<lambda>xs. xs ! j"] j l by simp
  moreover have "mi_id i = mi_id (itfs ! j)" using frame_nth(2) [OF assms(2), of j] j l by (simp add: itf_frame_def)
  ultimately show "\<forall>m\<in>#itf_rx i. map uint (msg_to m) = [mi_id i]" using assms(3) j(1) l by (simp add: at_destination_def)
qed

lemma links_step_destination:
  assumes "links_step mesh_send t ls itfs = Inr (ls', itfs')" "list_all (link_fit itfs) ls" "unat t < 2 ^ 63"
    and "\<forall>m\<in>#in_flight t ls. addressed_in D m" "at_destination itfs"
  shows "at_destination itfs'"
  using assms(1,2,4,5)
proof (induction ls arbitrary: itfs ls')
  case (Cons l ls)
  obtain l1 itfs1 ls2 where step: "link_step mesh_send t l itfs = Inr (l1, itfs1)"
    and rest: "links_step mesh_send t ls itfs1 = Inr (ls2, itfs')"
    using Cons.prems(1) by (auto simp: result_bind_Inr_iff)
  have fit: "link_fit itfs l" and addr: "\<forall>m\<in>#busy t l. addressed_in D m" "\<forall>m\<in>#in_flight t ls. addressed_in D m"
    using Cons.prems(2,3) by (simp_all add: in_flight_def)
  have frame: "map itf_frame itfs1 = map itf_frame itfs"
    using mesh_links.link_step_conserves [OF step fit assms(3) addr(1)] by simp
  have "at_destination itfs1"
  proof (cases "link_isReady t l")
    case True
    then have "link_elect t l itfs = Inr (l1, itfs1)" using step by (simp add: link_step_def)
    then show ?thesis using elect_conserves_net [OF _ fit True assms(3)] at_destination_same [OF _ frame Cons.prems(4)] by simp
  next
    case False
    then have "addressed_in D (link_msg l)" using addr(1) by (simp add: busy_def)
    then show ?thesis
      using step False Cons.prems(4) mesh_send_destination [of l itfs _ D]
      by (auto simp: link_step_def result_bind_Inr_iff split: if_splits)
  qed
  moreover have "list_all (link_fit itfs1) ls" using Cons.prems(2) link_fit_frame [OF frame] by (simp add: list_all_iff)
  ultimately show ?case using Cons.IH [OF rest] addr(2) by simp
qed simp

lemma mesh_run_destination:
  assumes "net_run Mesh_pushMessage (\<lambda>_. id) Mesh_cycleProcess D s0 sent got s" "net_ok (\<lambda>_. id) D [] s0"
    and "at_destination (mesh_interfaces s0)"
  shows "at_destination (mesh_interfaces s)"
  using assms
proof (induction rule: net_run.induct)
  case (pushed sent got s k m c i)
  have "itf_ok (mesh_interfaces s ! k)"
    using mesh_net.run_conserves [OF pushed.hyps(1) pushed.prems(1)] pushed.hyps(2) by (simp add: net_ok_def)
  then have "itf_rx i = itf_rx (mesh_interfaces s ! k)" "mi_id i = mi_id (mesh_interfaces s ! k)"
    using mesh_push_facts [OF pushed.hyps(4) [unfolded Mesh_pushMessage_def]] by (simp_all add: itf_frame_def)
  then show ?case using pushed at_destination_update [of "mesh_interfaces s" k i] by simp
next
  case (looked sent got s k i r)
  then show ?case
    using mesh_peek_facts [OF looked.hyps(3)] at_destination_update [of "mesh_interfaces s" k i] by (simp add: itf_frame_def)
next
  case (read sent got s k i1 m i2)
  then show ?case
    using mesh_pop_facts [OF read.hyps(3,4)] at_destination_update [of "mesh_interfaces s" k i2] by (simp add: itf_frame_def)
next
  case (cycled sent got s s')
  have ok: "net_ok (\<lambda>_. id) D [] s" using mesh_net.run_conserves [OF cycled.hyps(1) cycled.prems(1)] by simp
  then have flight: "\<forall>m\<in>#in_flight (mesh_cycle s) (mesh_links s). addressed_in D m" "list_all (link_fit (mesh_interfaces s)) (mesh_links s)"
    by (auto simp: net_ok_def undelivered_def)
  have "at_destination (mesh_interfaces s)" using cycled by simp
  then show ?case
    using cycled.hyps(3) links_step_destination [OF _ flight(2) cycled.hyps(2) flight(1)]
    by (auto simp: Mesh_cycleProcess_def mesh_controllerStep_def result_bind_Inr_iff split: if_splits)
qed

section \<open>Runs to evaluate\<close>

fun cycles ::
  "(('a mesh_interface_scheme, 'b) mesh_state_scheme \<Rightarrow> ('a mesh_interface_scheme, 'b) mesh_state_scheme result)
   \<Rightarrow> nat \<Rightarrow> ('a mesh_interface_scheme, 'b) mesh_state_scheme \<Rightarrow> ('a mesh_interface_scheme, 'b) mesh_state_scheme result" where
  "cycles cycle 0 s = Inr s"
| "cycles cycle (Suc n) s =
     (if mesh_cycle s < 2 ^ 63 then result_bind (cycle s) (cycles cycle n) else Inl (Throw ''end of the run''))"

lemma net_run_cycles:
  "net_run push route cycle D s0 sent got s \<Longrightarrow> cycles cycle n s = Inr s' \<Longrightarrow> net_run push route cycle D s0 sent got s'"
proof (induction n arbitrary: s)
  case (Suc n)
  then obtain s1 where s1: "mesh_cycle s < 2 ^ 63" "cycle s = Inr s1" "cycles cycle n s1 = Inr s'"
    by (auto simp: result_bind_Inr_iff split: if_splits)
  have "unat (mesh_cycle s) < unat (2 ^ 63 :: u64)" using s1(1) by (simp only: word_less_nat_alt)
  then have "unat (mesh_cycle s) < 2 ^ 63" by simp
  then show ?case using Suc.IH [OF net_run.cycled [OF Suc.prems(1) _ s1(2)] s1(3)] by simp
qed simp

text \<open>One message is pushed at the first interface of a new network, which then runs.\<close>

definition push_and_run where
  "push_and_run new push cycle m n =
     result_bind new (\<lambda>s0.
     result_bind (push (mesh_interfaces s0 ! 0) m 0) (\<lambda>(i, ok).
     result_bind (cycles cycle n (s0\<lparr>mesh_interfaces := (mesh_interfaces s0)[0 := i]\<rparr>)) (\<lambda>s.
       Inr (s0, ok, s))))"

lemma push_and_run_run:
  assumes "push_and_run new push cycle m n = Inr (s0, True, s)" "mesh_interfaces s0 \<noteq> []" "set (msg_to m) \<subseteq> D"
  shows "new = Inr s0 \<and> net_run push route cycle D s0
     (sent_copies (route (mesh_interfaces s0 ! 0)) (mesh_interfaces s0 ! 0) m 0) [] s"
proof -
  obtain i where i: "new = Inr s0" "push (mesh_interfaces s0 ! 0) m 0 = Inr (i, True)"
    "cycles cycle n (s0\<lparr>mesh_interfaces := (mesh_interfaces s0)[0 := i]\<rparr>) = Inr s"
    using assms(1) by (auto simp: push_and_run_def result_bind_Inr_iff)
  have "net_run push route cycle D s0 ([] @ sent_copies (route (mesh_interfaces s0 ! 0)) (mesh_interfaces s0 ! 0) m 0) []
      (s0\<lparr>mesh_interfaces := (mesh_interfaces s0)[0 := i]\<rparr>)"
    using assms(2,3) i(2) by (intro net_run.pushed [OF net_run.start]) auto
  from net_run_cycles [OF this i(3)] show ?thesis using i(1) by simp
qed

definition request_to :: "u16 \<Rightarrow> message" where
  "request_to d = (new_message 7 64 1 0 0)\<lparr>msg_to := [d]\<rparr>"

definition rx_lengths :: "'a mesh_interface_scheme list \<Rightarrow> nat list" where
  "rx_lengths itfs = map (\<lambda>i. length (mi_rx_request i) + length (mi_rx_data i)) itfs"

definition tx_lengths :: "'a mesh_interface_scheme list \<Rightarrow> nat list" where
  "tx_lengths itfs = map (\<lambda>i. length (concat (mi_tx_request i)) + length (concat (mi_tx_data i))) itfs"

definition example_new_mesh :: "int \<Rightarrow> mesh result" where
  "example_new_mesh req_lat = new_Mesh ''FCFSArbiter'' req_lat 5 16 [0, 1] [[0, 1], [1, 0]]"

definition example_new_noc :: "int \<Rightarrow> int \<Rightarrow> noc result" where
  "example_new_noc component switch =
     new_NoC ''FCFSArbiter'' 2 5 16 [component, component + 1] [switch]
       [[component, switch], [component + 1, switch], [switch, component, component + 1]]"

section \<open>Properties\<close>

text \<open>
  C18. With link latencies of at least 2 (below \<open>2 ^ 62\<close>) a mesh loses, duplicates and misdelivers no copy that it
  queued. In every run, however pushes, reads and cycles interleave (up to cycle \<open>2 ^ 63\<close>): the copies of the accepted
  messages, one for each destination that has a link at the pushing interface (\<open>sent_copies\<close>, a count made here for
  the statement), are what was read, what waits to be read, what waits to be sent and what is on a link, each exactly
  once; and what waits at an interface is addressed to it and no other. A run ends where the code exits, on a message for
  a full receive queue.

  Not covered, because there the code does lose messages: links of latency 1 (\<open>latency_one_loses\<close> below), and
  destinations without a link, which \<open>pushMessage\<close> accepts and drops.
\<close>

theorem mesh_loses_nothing:
  assumes "new_Mesh arbiter_type req_lat data_lat n ids matrix = Inr s0"
    and "2 \<le> req_lat" "req_lat < 2 ^ 62" "2 \<le> data_lat" "data_lat < 2 ^ 62"
    and "net_run Mesh_pushMessage (\<lambda>_. id) Mesh_cycleProcess UNIV s0 sent got s"
  shows "mset sent = mset got + delivered s + undelivered s \<and>
    (\<forall>i\<in>set (mesh_interfaces s). \<forall>m\<in>#itf_rx i. map uint (msg_to m) = [mi_id i])"
proof -
  have ok: "net_ok (\<lambda>_. id) UNIV [] s0" "undelivered s0 = {#}" "delivered s0 = {#}" "at_destination (mesh_interfaces s0)"
    using new_Mesh_ok [OF assms(1-5)] by (simp_all add: at_destination_def)
  show ?thesis
    using mesh_net.run_conserves [OF assms(6) ok(1)] mesh_run_destination [OF assms(6) ok(1,4)] ok(2,3)
    by (simp add: ac_simps at_destination_def)
qed

text \<open>
  C19. A network on chip loses and duplicates no copy that it queued, its switches included, under three conditions:
  latencies of at least 2, messages for destinations in a set \<open>D\<close> only, and switches that have a route and a link
  towards every destination of \<open>D\<close> and fewer links than their buffer size (\<open>switch_fit\<close>). Then, in every run (up to
  cycle \<open>2 ^ 63\<close> and to the exit on a full receive queue), the copies of the accepted messages, one for each
  destination that the pushing interface has a route and a link for, are what was read and what is in the network, each
  exactly once.

  Outside the conditions the code does lose messages: with latency 1, for a destination that is not in the routing
  table, and in a switch with as many links as its buffer has places.
\<close>

theorem noc_loses_nothing:
  assumes "new_NoC arbiter_type req_lat data_lat n ids switch_ids matrix = Inr s0"
    and "2 \<le> req_lat" "req_lat < 2 ^ 62" "2 \<le> data_lat" "data_lat < 2 ^ 62"
    and "\<forall>i\<in>set (mesh_interfaces s0). mi_id i \<in> set switch_ids \<longrightarrow> switch_fit noc_route D i"
    and "net_run NoC_pushMessage noc_route NoC_cycleProcess D s0 sent got s"
  shows "mset sent = mset got + delivered s + undelivered s"
  using noc_net.run_conserves [OF assms(7)] new_NoC_ok [OF assms(1-6)] by (simp add: ac_simps)

section \<open>Witnesses\<close>

theorem mesh_loses_nothing_witness:
  "\<exists>s0 s. example_new_mesh 2 = Inr s0 \<and> net_run Mesh_pushMessage (\<lambda>_. id) Mesh_cycleProcess UNIV s0 [request_to 1] [] s \<and>
     rx_lengths (mesh_interfaces s) = [0, 1] \<and> {#request_to 1#} = delivered s + undelivered s"
proof -
  have run: "case push_and_run (example_new_mesh 2) Mesh_pushMessage Mesh_cycleProcess (request_to 1) 4 of Inl e \<Rightarrow> False
      | Inr r \<Rightarrow> (case r of (s0, ok, s) \<Rightarrow> ok \<and> mesh_interfaces s0 \<noteq> [] \<and> rx_lengths (mesh_interfaces s) = [0, 1] \<and>
          sent_copies id (mesh_interfaces s0 ! 0) (request_to 1) 0 = [request_to 1])" by code_simp
  then obtain s0 s where r: "push_and_run (example_new_mesh 2) Mesh_pushMessage Mesh_cycleProcess (request_to 1) 4 = Inr (s0, True, s)"
    "mesh_interfaces s0 \<noteq> []" "rx_lengths (mesh_interfaces s) = [0, 1]"
    "sent_copies id (mesh_interfaces s0 ! 0) (request_to 1) 0 = [request_to 1]"
    by (auto elim!: case_InrE)
  have n: "example_new_mesh 2 = Inr s0"
    "net_run Mesh_pushMessage (\<lambda>_. id) Mesh_cycleProcess UNIV s0 [request_to 1] [] s"
    using push_and_run_run [OF r(1,2), where route = "\<lambda>_. id" and D = UNIV] r(4) by simp_all
  show ?thesis
    using mesh_loses_nothing [OF n(1) [unfolded example_new_mesh_def] _ _ _ _ n(2)] n r(3) by auto
qed

theorem noc_loses_nothing_witness:
  "\<exists>s0 s. example_new_noc 0 5 = Inr s0 \<and> net_run NoC_pushMessage noc_route NoC_cycleProcess {0, 1} s0 [request_to 1] [] s \<and>
     rx_lengths (mesh_interfaces s) = [0, 1, 0] \<and> {#request_to 1#} = delivered s + undelivered s"
proof -
  have run: "case push_and_run (example_new_noc 0 5) NoC_pushMessage NoC_cycleProcess (request_to 1) 8 of Inl e \<Rightarrow> False
      | Inr r \<Rightarrow> (case r of (s0, ok, s) \<Rightarrow> ok \<and> mesh_interfaces s0 \<noteq> [] \<and> rx_lengths (mesh_interfaces s) = [0, 1, 0] \<and>
          sent_copies (noc_route (mesh_interfaces s0 ! 0)) (mesh_interfaces s0 ! 0) (request_to 1) 0 = [request_to 1] \<and>
          (\<forall>i\<in>set (mesh_interfaces s0). mi_id i \<in> set [5] \<longrightarrow> switch_fit noc_route {0, 1} i))" by code_simp
  then obtain s0 s where r: "push_and_run (example_new_noc 0 5) NoC_pushMessage NoC_cycleProcess (request_to 1) 8 = Inr (s0, True, s)"
    "mesh_interfaces s0 \<noteq> []" "rx_lengths (mesh_interfaces s) = [0, 1, 0]"
    "sent_copies (noc_route (mesh_interfaces s0 ! 0)) (mesh_interfaces s0 ! 0) (request_to 1) 0 = [request_to 1]"
    "\<forall>i\<in>set (mesh_interfaces s0). mi_id i \<in> set [5] \<longrightarrow> switch_fit noc_route {0, 1} i"
    by (auto elim!: case_InrE)
  have "set (msg_to (request_to 1)) \<subseteq> {0, 1}" by (simp add: request_to_def)
  then have n: "example_new_noc 0 5 = Inr s0"
    "net_run NoC_pushMessage noc_route NoC_cycleProcess {0, 1} s0 [request_to 1] [] s"
    using push_and_run_run [OF r(1,2), where route = noc_route and D = "{0, 1}"] r(4) by simp_all
  show ?thesis
    using noc_loses_nothing [OF n(1) [unfolded example_new_noc_def] _ _ _ _ r(5) n(2)] n r(3) by auto
qed

section \<open>Where messages are lost\<close>

text \<open>
  With a latency of 1 a link is ready again before the branch that sends is reached: the elected message is gone.
\<close>

lemma latency_one_loses:
  assumes "link_latency l = 1" "unat t < 2 ^ 63"
  shows "busy (t + 1) (utilize t m l) = {#}"
  using assms less_next [of t t] by (simp add: busy_def link_isReady_def utilize_def)

lemma latency_one_example:
  "case push_and_run (example_new_mesh 1) Mesh_pushMessage Mesh_cycleProcess (request_to 1) 12 of Inl e \<Rightarrow> False
   | Inr (s0, ok, s) \<Rightarrow> ok \<and> rx_lengths (mesh_interfaces s) = [0, 0] \<and> tx_lengths (mesh_interfaces s) = [0, 0] \<and>
       list_all (link_isReady (mesh_cycle s)) (mesh_links s)"
  by code_simp

text \<open>
  The end a link sends to is found from the sender of the message, which a switch does not change: when the switch
  has the smaller number, what it forwards comes back to it for ever.
\<close>

lemma low_switch_example:
  "case push_and_run (example_new_noc 1 0) NoC_pushMessage NoC_cycleProcess (request_to 2) 25 of Inl e \<Rightarrow> False
   | Inr (s0, ok, s) \<Rightarrow> ok \<and> rx_lengths (mesh_interfaces s) = [0, 0, 0] \<and> map mi_id (mesh_interfaces s) = [1, 2, 0]"
  by code_simp

text \<open>The bound on the transmit queues counts the links: it refuses always or never.\<close>

lemma transmit_bound_counts_links:
  assumes "itf_ok s" "msg_to m \<noteq> []"
  shows "\<exists>s'. mesh_push route s m = Inr (s', int (length (mi_link_ids s)) < mi_buffer_max_size s)"
  using assms by (auto simp: mesh_push_def itf_ok_def)

end
