(* ===== verification/Replacement.thy ===== *)
theory Replacement
  imports Messages
begin

text \<open>
  The replacement policies, header/ReplacementPolicies and src/ReplacementPolicies. The value
  \<open>rand()\<close> returns is an argument. Ways are at most 32 (the code shifts a 32-bit one by the way
  number). The locale \<open>victim_choice\<close> is what the cache relies on when it evicts.
\<close>

section \<open>Least recently used\<close>

text \<open>The key is the set, the value the vector of access cycles.\<close>

type_synonym lru = "u64 \<rightharpoonup> u64 list"

definition lru_stamps :: "lru \<Rightarrow> u64 \<Rightarrow> u64 list" where
  "lru_stamps l st = (case l st of None \<Rightarrow> [] | Some v \<Rightarrow> v)"

text \<open>\<open>last_access_cycle[set]\<close> creates a missing entry.\<close>

definition LRU_update :: "lru \<Rightarrow> u64 \<Rightarrow> int \<Rightarrow> u64 \<Rightarrow> lru" where
  "LRU_update l st way cyc =
     (if way < 0 then l
      else let v = lru_stamps l st in
        if way < int (length v) then l(st \<mapsto> v[nat way := cyc]) else l(st \<mapsto> v @ [cyc]))"

definition way_allowed :: "u32 \<Rightarrow> nat \<Rightarrow> bool" where
  "way_allowed allowed i \<longleftrightarrow> allowed AND push_bit i 1 \<noteq> 0"

text \<open>The loop over the ways from \<open>i\<close> on: \<open>best\<close> is \<open>*way\<close> with its stamp, \<open>None\<close> while it is -1.\<close>

fun lru_allowed_loop :: "u32 \<Rightarrow> u64 list \<Rightarrow> nat \<Rightarrow> nat \<Rightarrow> (nat \<times> u64) option \<Rightarrow> nat option" where
  "lru_allowed_loop allowed v 0 i best = map_option fst best"
| "lru_allowed_loop allowed v (Suc n) i best =
     (if \<not> way_allowed allowed i then lru_allowed_loop allowed v n (Suc i) best
      else let stamp = (if i < length v then v ! i else 0) in
        lru_allowed_loop allowed v n (Suc i)
          (case best of
             None \<Rightarrow> Some (i, stamp)
           | Some (w, b) \<Rightarrow> if stamp < b then Some (i, stamp) else best))"

fun lru_min_loop :: "u64 list \<Rightarrow> nat \<Rightarrow> nat \<Rightarrow> nat \<Rightarrow> nat" where
  "lru_min_loop v 0 i way = way"
| "lru_min_loop v (Suc n) i way = lru_min_loop v n (Suc i) (if v ! i < v ! way then i else way)"

definition LRU_getReplacementCandidate :: "u32 \<Rightarrow> lru \<Rightarrow> u64 \<Rightarrow> (lru \<times> int) result" where
  "LRU_getReplacementCandidate ways l st =
     (if l st = None \<and> ways = 0
      then Inl (Exit ''LeastRecentlyUsed: No record for set or it is not full'')
      else let v = lru_stamps l st in
        Inr (l(st \<mapsto> v), int (lru_min_loop v (length v - 1) 1 0)))"

definition LRU_getReplacementCandidate_allowed ::
  "u32 \<Rightarrow> lru \<Rightarrow> u64 \<Rightarrow> u32 \<Rightarrow> (lru \<times> int) result" where
  "LRU_getReplacementCandidate_allowed ways l st allowed =
     (let v = lru_stamps l st; l' = l(st \<mapsto> v) in
      case lru_allowed_loop allowed v (unat ways) 0 None of
        Some w \<Rightarrow> Inr (l', int w)
      | None \<Rightarrow> LRU_getReplacementCandidate ways l' st)"

section \<open>Random\<close>

definition Random_getReplacementCandidate :: "u32 \<Rightarrow> nat \<Rightarrow> int result" where
  "Random_getReplacementCandidate ways rand =
     (if ways = 0 then Inl (Undefined ''Random: modulo 0'') else Inr (int (rand mod unat ways)))"

definition allowed_ways :: "u32 \<Rightarrow> u32 \<Rightarrow> nat list" where
  "allowed_ways ways allowed = filter (way_allowed allowed) [0..<unat ways]"

definition Random_getReplacementCandidate_allowed :: "u32 \<Rightarrow> u32 \<Rightarrow> nat \<Rightarrow> int result" where
  "Random_getReplacementCandidate_allowed ways allowed rand =
     (let n = length (allowed_ways ways allowed) in
      if n = 0 then Random_getReplacementCandidate ways rand
      else Inr (int (allowed_ways ways allowed ! (rand mod n))))"

section \<open>The virtual calls\<close>

datatype replacement_policy = LeastRecentlyUsed lru | RandomPolicy

definition getReplacementPolicy :: "string \<Rightarrow> replacement_policy result" where
  "getReplacementPolicy policy_name =
     (if policy_name = ''RANDOM'' then Inr RandomPolicy
      else if policy_name = ''LRU'' then Inr (LeastRecentlyUsed (\<lambda>_. None))
      else Inl (Exit ''Error unvalid policy name''))"

fun policy_update :: "replacement_policy \<Rightarrow> u64 \<Rightarrow> int \<Rightarrow> u64 \<Rightarrow> replacement_policy" where
  "policy_update (LeastRecentlyUsed l) st way cyc = LeastRecentlyUsed (LRU_update l st way cyc)"
| "policy_update RandomPolicy st way cyc = RandomPolicy"

fun policy_candidate ::
  "u32 \<Rightarrow> replacement_policy \<Rightarrow> u64 \<Rightarrow> u32 \<Rightarrow> nat \<Rightarrow> (replacement_policy \<times> int) result" where
  "policy_candidate ways (LeastRecentlyUsed l) st allowed rand =
     result_bind (LRU_getReplacementCandidate_allowed ways l st allowed)
       (\<lambda>(l', w). Inr (LeastRecentlyUsed l', w))"
| "policy_candidate ways RandomPolicy st allowed rand =
     result_bind (Random_getReplacementCandidate_allowed ways allowed rand) (\<lambda>w. Inr (RandomPolicy, w))"

section \<open>The contract\<close>

locale victim_choice =
  fixes candidate :: "u32 \<Rightarrow> 'p \<Rightarrow> u64 \<Rightarrow> u32 \<Rightarrow> nat \<Rightarrow> ('p \<times> int) result"
  assumes candidate_allowed:
    "i < unat ways \<Longrightarrow> way_allowed allowed i \<Longrightarrow>
     \<exists>p' w. candidate ways p st allowed rand = Inr (p', int w) \<and> w < unat ways \<and> way_allowed allowed w"

text \<open>A way that was never touched counts as oldest.\<close>

definition stamp_of :: "u64 list \<Rightarrow> nat \<Rightarrow> u64" where
  "stamp_of v i = (if i < length v then v ! i else 0)"

lemma lru_allowed_loop_step:
  "lru_allowed_loop allowed v (Suc n) i best =
     lru_allowed_loop allowed v n (Suc i)
       (if \<not> way_allowed allowed i then best
        else case best of
             None \<Rightarrow> Some (i, stamp_of v i)
           | Some (w, b) \<Rightarrow> if stamp_of v i < b then Some (i, stamp_of v i) else best)"
  by (cases best) (auto simp: stamp_of_def Let_def)

lemma lru_allowed_loop_spec:
  assumes "case best of None \<Rightarrow> True | Some (w, b) \<Rightarrow> b = stamp_of v w"
  shows "case lru_allowed_loop allowed v n i best of
      None \<Rightarrow> best = None \<and> (\<forall>j. \<not> (i \<le> j \<and> j < i + n \<and> way_allowed allowed j))
    | Some w \<Rightarrow> (best = Some (w, stamp_of v w) \<or> i \<le> w \<and> w < i + n \<and> way_allowed allowed w) \<and>
        (\<forall>j. i \<le> j \<and> j < i + n \<and> way_allowed allowed j \<longrightarrow> stamp_of v w \<le> stamp_of v j) \<and>
        (\<forall>u b. best = Some (u, b) \<longrightarrow> stamp_of v w \<le> b)"
  using assms
proof (induction n arbitrary: i best)
  case 0
  then show ?case by (cases best) auto
next
  case (Suc n)
  show ?case
  proof (cases "way_allowed allowed i")
    case False
    have eq: "(i \<le> j \<and> j < i + Suc n \<and> way_allowed allowed j) \<longleftrightarrow>
        (Suc i \<le> j \<and> j < Suc i + n \<and> way_allowed allowed j)" for j
      using False by (cases "j = i") auto
    show ?thesis
      unfolding eq lru_allowed_loop_step using Suc.IH [OF Suc.prems, of "Suc i"] False by simp
  next
    case True
    let ?best = "case best of None \<Rightarrow> Some (i, stamp_of v i)
      | Some (w, b) \<Rightarrow> if stamp_of v i < b then Some (i, stamp_of v i) else best"
    have b: "case ?best of None \<Rightarrow> True | Some (w, b) \<Rightarrow> b = stamp_of v w"
      using Suc.prems by (auto split: option.splits)
    have step: "lru_allowed_loop allowed v (Suc n) i best = lru_allowed_loop allowed v n (Suc i) ?best"
      using True by (simp only: lru_allowed_loop_step if_not_P not_not)
    note IH = Suc.IH [OF b, of "Suc i"]
    have "?best \<noteq> None" by (auto split: option.splits)
    with IH obtain w where w: "lru_allowed_loop allowed v n (Suc i) ?best = Some w"
      by (cases "lru_allowed_loop allowed v n (Suc i) ?best") auto
    note W = IH [unfolded w option.case]
    have le_i: "stamp_of v w \<le> stamp_of v i" and le_best: "\<forall>u b. best = Some (u, b) \<longrightarrow> stamp_of v w \<le> b"
      using W by (cases best; force split: if_splits prod.splits)+
    have or: "best = Some (w, stamp_of v w) \<or> i \<le> w \<and> w < i + Suc n \<and> way_allowed allowed w"
      using W True by (cases best) (auto split: if_splits)
    have "stamp_of v w \<le> stamp_of v j" if j: "i \<le> j \<and> j < i + Suc n \<and> way_allowed allowed j" for j
      using j W le_i by (cases "j = i") auto
    with or le_best show ?thesis unfolding step w option.case by blast
  qed
qed

interpretation lru: victim_choice "\<lambda>ways l st allowed rand. LRU_getReplacementCandidate_allowed ways l st allowed"
proof
  fix i :: nat and ways allowed :: u32 and l st and rand :: nat
  assume i: "i < unat ways" "way_allowed allowed i"
  have "case lru_allowed_loop allowed (lru_stamps l st) (unat ways) 0 None of
      None \<Rightarrow> False | Some w \<Rightarrow> w < unat ways \<and> way_allowed allowed w"
    using lru_allowed_loop_spec [where best = None and v = "lru_stamps l st" and allowed = allowed and n = "unat ways" and i = 0] i
    by (auto split: option.splits)
  then show "\<exists>p' w. LRU_getReplacementCandidate_allowed ways l st allowed = Inr (p', int w) \<and>
      w < unat ways \<and> way_allowed allowed w"
    by (auto simp: LRU_getReplacementCandidate_allowed_def Let_def split: option.splits)
qed

lemma Random_allowed:
  assumes "i < unat ways" "way_allowed allowed i"
  shows "\<exists>w. Random_getReplacementCandidate_allowed ways allowed rand = Inr (int w) \<and>
    w < unat ways \<and> way_allowed allowed w"
proof -
  have "i \<in> set (allowed_ways ways allowed)" using assms by (simp add: allowed_ways_def)
  then have n: "0 < length (allowed_ways ways allowed)" by (cases "allowed_ways ways allowed") auto
  then have "allowed_ways ways allowed ! (rand mod length (allowed_ways ways allowed)) \<in> set (allowed_ways ways allowed)"
    by simp
  then show ?thesis using n
    by (auto simp: Random_getReplacementCandidate_allowed_def Let_def allowed_ways_def)
qed

interpretation random: victim_choice
  "\<lambda>ways (p :: unit) st allowed rand.
     result_bind (Random_getReplacementCandidate_allowed ways allowed rand) (\<lambda>w. Inr ((), w))"
proof
  fix i :: nat and ways allowed :: u32 and p :: unit and st :: u64 and rand :: nat
  assume "i < unat ways" "way_allowed allowed i"
  from Random_allowed [OF this, of rand]
  show "\<exists>p' w. result_bind (Random_getReplacementCandidate_allowed ways allowed rand) (\<lambda>w. Inr ((), w))
      = Inr (p', int w) \<and> w < unat ways \<and> way_allowed allowed w"
    by auto
qed

interpretation any_policy: victim_choice policy_candidate
proof
  fix i :: nat and ways allowed :: u32 and p st and rand :: nat
  assume i: "i < unat ways" "way_allowed allowed i"
  show "\<exists>p' w. policy_candidate ways p st allowed rand = Inr (p', int w) \<and> w < unat ways \<and> way_allowed allowed w"
  proof (cases p)
    case (LeastRecentlyUsed l)
    then show ?thesis using lru.candidate_allowed [OF i, where p = l and st = st] by auto
  next
    case RandomPolicy
    then show ?thesis using Random_allowed [OF i, of rand] by auto
  qed
qed

section \<open>Properties\<close>

text \<open>Accesses to one set, as (way, cycle) pairs, oldest first.\<close>

definition LRU_accesses :: "u64 \<Rightarrow> (nat \<times> u64) list \<Rightarrow> lru \<Rightarrow> lru" where
  "LRU_accesses st hs l = fold (\<lambda>(w, c) l. LRU_update l st (int w) c) hs l"

definition last_access :: "(nat \<times> u64) list \<Rightarrow> u64 \<Rightarrow> nat \<Rightarrow> u64" where
  "last_access hs s i = fold (\<lambda>(w, c) s. if w = i then c else s) hs s"

text \<open>
  Ways are first touched in the order 0, 1, 2, ...: the way of each access is among the first \<open>n\<close> or is way
  \<open>n\<close>, where \<open>n\<close> is the number of ways touched before.
\<close>

fun touched_in_order :: "nat \<Rightarrow> (nat \<times> u64) list \<Rightarrow> bool" where
  "touched_in_order n [] \<longleftrightarrow> True"
| "touched_in_order n ((w, c) # hs) \<longleftrightarrow> w \<le> n \<and> touched_in_order (max n (Suc w)) hs"

lemma LRU_accesses_stamps:
  assumes "touched_in_order (length (lru_stamps l st)) hs"
  shows "stamp_of (lru_stamps (LRU_accesses st hs l) st) i = last_access hs (stamp_of (lru_stamps l st) i) i"
  using assms
proof (induction hs arbitrary: l)
  case Nil
  then show ?case by (simp add: LRU_accesses_def last_access_def)
next
  case (Cons x hs)
  obtain w c where x: "x = (w, c)" by (cases x)
  let ?v = "lru_stamps l st" and ?l = "LRU_update l st (int w) c"
  have v: "lru_stamps ?l st = (if w < length ?v then ?v[w := c] else ?v @ [c])"
    by (simp add: LRU_update_def lru_stamps_def Let_def)
  have w: "w \<le> length ?v" using Cons.prems x by simp
  have "length (lru_stamps ?l st) = max (length ?v) (Suc w)" using v w by auto
  moreover have "stamp_of (lru_stamps ?l st) i = (if w = i then c else stamp_of ?v i)"
    using v w by (auto simp: stamp_of_def nth_append)
  ultimately show ?case
    using Cons.IH [of ?l] Cons.prems x by (simp add: LRU_accesses_def last_access_def)
qed

text \<open>
  When the ways of a set are first touched in ascending order, the least recently used policy evicts,
  among the ways the mask allows, one whose last access is the oldest (a way never touched counts as oldest).
\<close>

lemma LRU_evicts_least_recent:
  assumes "touched_in_order 0 hs" and "\<exists>i<unat ways. way_allowed allowed i"
  shows "\<exists>l' w. LRU_getReplacementCandidate_allowed ways (LRU_accesses st hs (\<lambda>_. None)) st allowed = Inr (l', int w) \<and>
     w < unat ways \<and> way_allowed allowed w \<and>
     (\<forall>j<unat ways. way_allowed allowed j \<longrightarrow> last_access hs 0 w \<le> last_access hs 0 j)"
proof -
  let ?v = "lru_stamps (LRU_accesses st hs (\<lambda>_. None)) st"
  have stamps: "stamp_of ?v i = last_access hs 0 i" for i
    using LRU_accesses_stamps [of "\<lambda>_. None" st hs i] assms(1) by (simp add: lru_stamps_def stamp_of_def)
  obtain w where w: "lru_allowed_loop allowed ?v (unat ways) 0 None = Some w"
    "w < unat ways" "way_allowed allowed w"
    "\<forall>j<unat ways. way_allowed allowed j \<longrightarrow> stamp_of ?v w \<le> stamp_of ?v j"
    using lru_allowed_loop_spec [where best = None and v = ?v and allowed = allowed and n = "unat ways" and i = 0]
      assms(2) by (auto split: option.splits)
  then show ?thesis
    unfolding stamps by (auto simp: LRU_getReplacementCandidate_allowed_def Let_def)
qed

lemma LRU_evicts_least_recent_witness:
  "\<exists>l' w. LRU_getReplacementCandidate_allowed 4
       (LRU_accesses 5 [(0, 10), (1, 20), (2, 30), (1, 40), (0, 50)] (\<lambda>_. None)) 5 7 = Inr (l', int w) \<and>
     last_access [(0, 10), (1, 20), (2, 30), (1, 40), (0, 50)] 0 w \<le> 30"
proof -
  let ?hs = "[(0, 10), (1, 20), (2, 30), (1, 40), (0, 50)] :: (nat \<times> u64) list"
  have two: "way_allowed 7 2" and l2: "last_access ?hs 0 2 = 30" and ord: "touched_in_order 0 ?hs"
    by code_simp+
  have four: "2 < unat (4 :: u32)" by simp
  then have "\<exists>i<unat (4 :: u32). way_allowed 7 i" using two by blast
  from LRU_evicts_least_recent [OF ord this, of 5] obtain l' w where
    e: "LRU_getReplacementCandidate_allowed 4 (LRU_accesses 5 ?hs (\<lambda>_. None)) 5 7 = Inr (l', int w)"
    and le: "\<forall>j<unat (4 :: u32). way_allowed 7 j \<longrightarrow> last_access ?hs 0 w \<le> last_access ?hs 0 j"
    by blast
  from le four two have "last_access ?hs 0 w \<le> last_access ?hs 0 2" by blast
  then have "last_access ?hs 0 w \<le> 30" unfolding l2 .
  with e show ?thesis by blast
qed

text \<open>
  Out of order, as when a way partition gives a core ways 2 and 3 of a set nobody filled before, a stamp is
  appended at the end and lands on another way: after fills of ways 2 and 3 and an access to way 3, way 3 is
  evicted although way 2 is the least recently used of the two.
\<close>

lemma LRU_wrong_victim:
  "case LRU_getReplacementCandidate_allowed 4
      (LRU_accesses 5 [(2, 10), (3, 20), (3, 30)] (\<lambda>_. None)) 5 12 of
     Inl e \<Rightarrow> False | Inr (l, w) \<Rightarrow> w = 3"
  by code_simp

text \<open>
  No policy picks a way the mask forbids: when some way is allowed, the victim is an allowed way of the
  set, whatever \<open>rand()\<close> returns and whatever was accessed before.
\<close>

lemma victim_is_allowed:
  assumes "i < unat ways" and "way_allowed allowed i"
  shows "\<exists>p' w. policy_candidate ways p st allowed rand = Inr (p', int w) \<and>
     w < unat ways \<and> way_allowed allowed w"
  using assms by (rule any_policy.candidate_allowed)

lemma victim_is_allowed_witness:
  "\<exists>p' w. policy_candidate 4 RandomPolicy 5 12 7 = Inr (p', int w) \<and> w < unat (4 :: u32) \<and> way_allowed 12 w"
  by (rule victim_is_allowed [of 3]) code_simp+

end
