(* ===== verification/CacheData.thy ===== *)
theory CacheData
  imports Replacement "HOL-Library.AList"
begin

text \<open>
  Cache lines and the data handler: src/GenericCacheLine.cpp, src/CacheDataHandler.cpp and
  src/CacheDataHandler_COTS.cpp. The array is a flat list of lines as in the code; the
  MSHR and write-back registers are association lists without duplicate keys. The class
  \<open>CacheDataHandler_COTS\<close> overrides several virtual calls of its base, so the base's operations
  are modelled as they run on such an object. A pointer to a line is a \<open>slot\<close>. Copies that would read or write
  past an allocation are \<open>Undefined\<close>.
\<close>

section \<open>Cache lines\<close>

record cache_line =
  valid :: bool
  insertCycle :: u64
  accessCycle :: u64
  accessCounter :: u64
  tag :: u64
  line_state :: int
  owner_id :: int
  line_block_size :: u32
  line_data :: "u8 list option"

text \<open>The tag is an \<open>int64_t\<close>; its bit pattern is kept.\<close>

definition new_line :: cache_line where
  "new_line = \<lparr> valid = False, insertCycle = 0, accessCycle = 0, accessCounter = 0, tag = - 1,
     line_state = 0, owner_id = - 1, line_block_size = 0, line_data = None \<rparr>"

definition new_line_with ::
  "int \<Rightarrow> bool \<Rightarrow> u64 \<Rightarrow> int \<Rightarrow> u8 list option \<Rightarrow> u32 \<Rightarrow> cache_line result" where
  "new_line_with st v tg own d block_size =
     (case d of
        None \<Rightarrow> Inr (new_line\<lparr>valid := v, tag := tg, line_state := st, owner_id := own,
                            line_block_size := block_size\<rparr>)
      | Some bytes \<Rightarrow>
          if unat (block_size div 8) \<le> length bytes
          then Inr (new_line\<lparr>valid := v, tag := tg, line_state := st, owner_id := own,
                      line_block_size := block_size, line_data := Some (take (unat (block_size div 8)) bytes)\<rparr>)
          else Inl (Undefined ''GenericCacheLine: copy past the source''))"

text \<open>\<open>copyBits\<close> does not copy the tag.\<close>

definition line_copyBits :: "cache_line \<Rightarrow> cache_line \<Rightarrow> cache_line" where
  "line_copyBits dst src =
     dst\<lparr>valid := valid src, insertCycle := insertCycle src, accessCycle := accessCycle src,
         accessCounter := accessCounter src, line_state := line_state src, owner_id := owner_id src,
         line_block_size := line_block_size src\<rparr>"

definition line_copyData :: "cache_line \<Rightarrow> u8 list \<Rightarrow> cache_line result" where
  "line_copyData dst d =
     (let n = unat (line_block_size dst) in
      if length d < n then Inl (Undefined ''GenericCacheLine: copy past the source'')
      else case line_data dst of
          None \<Rightarrow> Inr (dst\<lparr>line_data := Some (take n d)\<rparr>)
        | Some old \<Rightarrow>
            if length old < n then Inl (Undefined ''GenericCacheLine: copy past the line'')
            else Inr (dst\<lparr>line_data := Some (take n d @ drop n old)\<rparr>))"

definition line_copy :: "cache_line \<Rightarrow> cache_line \<Rightarrow> cache_line result" where
  "line_copy dst src =
     (let dst' = line_copyBits dst src in
      case line_data src of None \<Rightarrow> Inr dst' | Some d \<Rightarrow> line_copyData dst' d)"

definition line_modifyData :: "cache_line \<Rightarrow> u8 list \<Rightarrow> u16 \<Rightarrow> u16 \<Rightarrow> cache_line result" where
  "line_modifyData l d offset sz =
     (case line_data l of
        None \<Rightarrow> Inl (Exit ''GenericCacheLine: Error modifying unallocated line'')
      | Some old \<Rightarrow>
          if line_block_size l < ucast offset
          then Inl (Exit ''GenericCacheLine: Error out of boundary access'')
          else if length d < unat sz \<or> length old < unat offset + unat sz
          then Inl (Undefined ''GenericCacheLine: modification past the line'')
          else Inr (l\<lparr>line_data := Some (take (unat offset) old @ take (unat sz) d
                                        @ drop (unat offset + unat sz) old)\<rparr>))"

section \<open>State of the data handler\<close>

record cache =
  m_cache :: "cache_line list"
  m_block_size :: u32
  m_ways_count :: u32
  m_way_mask :: "(int \<times> u32) list"
  m_shared_mask :: u32
  m_all_mask :: u32
  m_requester :: int
  m_sets_count :: u32
  m_replacement_policy :: replacement_policy
  m_cycle :: u64
  m_data_access_latency :: u32
  m_ready_cycle :: u64
  m_data_array_pipelined :: bool
  m_data_array_ports :: u32
  m_mshr :: "(u64 \<times> cache_line) list"
  m_pwb :: "(u64 \<times> cache_line) list"
  m_pwb_size :: int
  m_pwb_pending_issue :: "u64 list"

text \<open>\<open>(int)log2(n)\<close> on positive numbers\<close>

fun floor_log2 :: "nat \<Rightarrow> nat" where
  "floor_log2 n = (if n < 2 then 0 else Suc (floor_log2 (n div 2)))"

declare floor_log2.simps [simp del]

definition block_bits :: "cache \<Rightarrow> nat" where
  "block_bits c = floor_log2 (unat (m_block_size c))"

definition set_bits :: "cache \<Rightarrow> nat" where
  "set_bits c = floor_log2 (unat (m_sets_count c))"

definition calculate_tag :: "cache \<Rightarrow> u64 \<Rightarrow> u64" where
  "calculate_tag c address = drop_bit (block_bits c + set_bits c) address"

definition calculate_set :: "cache \<Rightarrow> u64 \<Rightarrow> u64" where
  "calculate_set c address = drop_bit (block_bits c) address AND ucast (m_sets_count c - 1)"

definition calculate_address :: "cache \<Rightarrow> u64 \<Rightarrow> u64 \<Rightarrow> u64" where
  "calculate_address c tg st = push_bit (block_bits c + set_bits c) tg OR push_bit (block_bits c) st"

definition mask_offset :: "cache \<Rightarrow> u64 \<Rightarrow> u64" where
  "mask_offset c address = address AND NOT (ucast (m_block_size c) - 1)"

section \<open>Configuration\<close>

fun skip_blanks :: "string \<Rightarrow> string" where
  "skip_blanks [] = []"
| "skip_blanks (c # cs) = (if c \<in> set '' '' \<or> of_char c \<in> {9..13 :: nat} then skip_blanks cs else c # cs)"

fun digits_value :: "int \<Rightarrow> string \<Rightarrow> int" where
  "digits_value acc [] = acc"
| "digits_value acc (c # cs) =
     (if 48 \<le> (of_char c :: nat) \<and> (of_char c :: nat) \<le> 57
      then digits_value (10 * acc + int (of_char c) - 48) cs else acc)"

definition atoi :: "string \<Rightarrow> int" where
  "atoi s =
     (case skip_blanks s of
        [] \<Rightarrow> 0
      | c # cs \<Rightarrow> if c = CHR ''-'' then - digits_value 0 cs
                  else if c = CHR ''+'' then digits_value 0 cs
                  else digits_value 0 (c # cs))"

text \<open>The entries of a way partition, split at \<open>;\<close>.\<close>

function way_entries :: "string \<Rightarrow> string list" where
  "way_entries s =
     (if s = [] then []
      else takeWhile (\<lambda>c. c \<noteq> CHR '';'') s
           # way_entries (drop (Suc (length (takeWhile (\<lambda>c. c \<noteq> CHR '';'') s))) s))"
  by auto
termination
  by (relation "measure length") auto

declare way_entries.simps [simp del]

text \<open>The lambda \<open>range\<close>: \<open>a\<close> or \<open>a-b\<close>\<close>

definition way_range :: "string \<Rightarrow> int \<times> int" where
  "way_range s =
     (case first_index (\<lambda>c. c = CHR ''-'') s of
        None \<Rightarrow> (atoi s, atoi s)
      | Some d \<Rightarrow> (atoi s, atoi (drop (Suc d) s)))"

definition ways_mask :: "u32 \<Rightarrow> int \<Rightarrow> int \<Rightarrow> u32" where
  "ways_mask ways w0 w1 =
     fold (\<lambda>w mask. mask OR push_bit (nat w) 1) (filter (\<lambda>w. w < uint ways) [w0..w1]) 0"

definition way_entry ::
  "u32 \<Rightarrow> string \<Rightarrow> (int \<times> u32) list \<times> u32 \<Rightarrow> ((int \<times> u32) list \<times> u32) result" where
  "way_entry ways entry acc =
     (case first_index (\<lambda>c. c = CHR '':'') entry of
        None \<Rightarrow> Inr acc
      | Some k \<Rightarrow>
          (case (way_range (take k entry), way_range (drop (Suc k) entry)) of
             ((c0, c1), (w0, w1)) \<Rightarrow>
               if w0 < 0 \<and> w0 \<le> w1 then Inl (Undefined ''shift by a negative way'')
               else let mask = ways_mask ways w0 w1 in
                 Inr (fold (\<lambda>core m. AList.update core mask m) [c0..c1] (fst acc),
                      snd acc AND NOT mask)))"

definition way_partition_masks ::
  "u32 \<Rightarrow> u32 \<Rightarrow> string \<Rightarrow> ((int \<times> u32) list \<times> u32) result" where
  "way_partition_masks ways all_mask spec =
     result_bind (fold (\<lambda>e r. result_bind r (way_entry ways e)) (way_entries spec) (Inr ([], all_mask)))
       (\<lambda>(m, shared). Inr (m, if m \<noteq> [] \<and> shared = 0 then all_mask else shared))"

definition DEFAULT_PWB_SIZE :: int where "DEFAULT_PWB_SIZE = 8"

definition new_CacheDataHandler_COTS ::
  "int \<Rightarrow> int \<Rightarrow> int \<Rightarrow> int \<Rightarrow> int option \<Rightarrow> int option \<Rightarrow> string \<Rightarrow> string option \<Rightarrow> int option
   \<Rightarrow> cache result" where
  "new_CacheDataHandler_COTS cache_size block_size ways_count latency pipelined ports policy_name
     way_partition pwb_size =
     (let bs = word_of_int block_size :: u32; ways = word_of_int ways_count :: u32;
          all_mask = (if 32 \<le> ways then 0xffffffff else push_bit (unat ways) 1 - 1) :: u32 in
      result_bind (getReplacementPolicy policy_name) (\<lambda>policy.
      if bs = 0 \<or> ways = 0 then Inl (Undefined ''division by 0'')
      else let lines_count = (word_of_int cache_size :: u32) div bs in
      result_bind (case way_partition of
                     None \<Rightarrow> Inr ([], all_mask)
                   | Some spec \<Rightarrow> way_partition_masks ways all_mask spec) (\<lambda>(way_mask, shared).
      Inr \<lparr> m_cache = replicate (unat lines_count) new_line, m_block_size = bs, m_ways_count = ways,
            m_way_mask = way_mask, m_shared_mask = shared, m_all_mask = all_mask, m_requester = - 1,
            m_sets_count = lines_count div ways, m_replacement_policy = policy, m_cycle = 0,
            m_data_access_latency = word_of_int latency, m_ready_cycle = 0,
            m_data_array_pipelined = (case pipelined of None \<Rightarrow> False | Some p \<Rightarrow> p \<noteq> 0),
            m_data_array_ports = (let p = (case ports of None \<Rightarrow> 1 | Some p \<Rightarrow> word_of_int p)
                                  in if p = 0 then 1 else p),
            m_mshr = [], m_pwb = [],
            m_pwb_size = (case pwb_size of None \<Rightarrow> DEFAULT_PWB_SIZE | Some s \<Rightarrow> s),
            m_pwb_pending_issue = [] \<rparr>)))"

section \<open>Lines\<close>

datatype slot = ArraySlot nat | MshrSlot u64 | PwbSlot u64

definition checkMSHR :: "cache \<Rightarrow> u64 \<Rightarrow> bool" where
  "checkMSHR c address \<longleftrightarrow> map_of (m_mshr c) address \<noteq> None"

definition checkPWB :: "cache \<Rightarrow> u64 \<Rightarrow> bool" where
  "checkPWB c address \<longleftrightarrow> map_of (m_pwb c) address \<noteq> None"

definition array_index :: "cache \<Rightarrow> u64 \<Rightarrow> nat \<Rightarrow> nat" where
  "array_index c st way = unat (st * ucast (m_ways_count c) + of_nat way)"

text \<open>\<open>getLine\<close>: the null pointer is \<open>None\<close>.\<close>

definition getLine :: "cache \<Rightarrow> u64 \<Rightarrow> int \<Rightarrow> slot option" where
  "getLine c st way =
     (if 0 \<le> way then Some (ArraySlot (array_index c st (nat way)))
      else if checkMSHR c st then Some (MshrSlot st)
      else if checkPWB c st then Some (PwbSlot st)
      else None)"

fun read_slot :: "cache \<Rightarrow> slot \<Rightarrow> cache_line result" where
  "read_slot c (ArraySlot i) =
     (if i < length (m_cache c) then Inr (m_cache c ! i) else Inl (Undefined ''cache array bounds''))"
| "read_slot c (MshrSlot a) =
     (case map_of (m_mshr c) a of Some l \<Rightarrow> Inr l | None \<Rightarrow> Inl (Undefined ''null line''))"
| "read_slot c (PwbSlot a) =
     (case map_of (m_pwb c) a of Some l \<Rightarrow> Inr l | None \<Rightarrow> Inl (Undefined ''null line''))"

fun write_slot :: "slot \<Rightarrow> cache_line \<Rightarrow> cache \<Rightarrow> cache" where
  "write_slot (ArraySlot i) l c = c\<lparr>m_cache := (m_cache c)[i := l]\<rparr>"
| "write_slot (MshrSlot a) l c = c\<lparr>m_mshr := AList.update a l (m_mshr c)\<rparr>"
| "write_slot (PwbSlot a) l c = c\<lparr>m_pwb := AList.update a l (m_pwb c)\<rparr>"

definition line_at :: "cache \<Rightarrow> u64 \<Rightarrow> int \<Rightarrow> (slot \<times> cache_line) result" where
  "line_at c st way =
     (case getLine c st way of
        None \<Rightarrow> Inl (Undefined ''null line'')
      | Some s \<Rightarrow> result_bind (read_slot c s) (\<lambda>l. Inr (s, l)))"

text \<open>The search of the base class through the ways of the set.\<close>

fun find_way :: "cache \<Rightarrow> u64 \<Rightarrow> u64 \<Rightarrow> nat \<Rightarrow> nat \<Rightarrow> nat option" where
  "find_way c st tg 0 i = None"
| "find_way c st tg (Suc n) i =
     (let l = m_cache c ! array_index c st i in
      if valid l \<and> tag l = tg then Some i else find_way c st tg n (Suc i))"

definition base_findline :: "cache \<Rightarrow> u64 \<Rightarrow> (u64 \<times> nat) option" where
  "base_findline c address =
     map_option (Pair (calculate_set c address))
       (find_way c (calculate_set c address) (calculate_tag c address) (unat (m_ways_count c)) 0)"

definition findline :: "cache \<Rightarrow> u64 \<Rightarrow> (u64 \<times> int) option" where
  "findline c address =
     (case base_findline c address of
        Some (st, way) \<Rightarrow> Some (st, int way)
      | None \<Rightarrow>
          if checkMSHR c (mask_offset c address) \<or> checkPWB c (mask_offset c address)
          then Some (mask_offset c address, - 1) else None)"

definition isAddressTracked :: "cache \<Rightarrow> u64 \<Rightarrow> bool" where
  "isAddressTracked c address \<longleftrightarrow> findline c address \<noteq> None"

datatype line_location = NONE | ARRAY | MSHR | PWB

definition lineLocation :: "cache \<Rightarrow> u64 \<Rightarrow> line_location" where
  "lineLocation c address =
     (if base_findline c address \<noteq> None then ARRAY
      else if checkMSHR c (mask_offset c address) then MSHR
      else if checkPWB c (mask_offset c address) then PWB
      else NONE)"

definition base_isReady :: "cache \<Rightarrow> bool" where
  "base_isReady c \<longleftrightarrow> m_data_array_pipelined c \<or> m_ready_cycle c \<le> m_cycle c"

definition isReady :: "cache \<Rightarrow> u64 \<Rightarrow> bool" where
  "isReady c address \<longleftrightarrow>
     checkMSHR c (mask_offset c address) \<or> checkPWB c (mask_offset c address) \<or> base_isReady c"

definition updateCycle :: "u64 \<Rightarrow> cache \<Rightarrow> cache" where
  "updateCycle cyc c = c\<lparr>m_cycle := cyc\<rparr>"

definition setRequester :: "int \<Rightarrow> cache \<Rightarrow> cache" where
  "setRequester core c = c\<lparr>m_requester := core\<rparr>"

definition allowedWays :: "cache \<Rightarrow> u32" where
  "allowedWays c =
     (if m_requester c < 0 \<or> m_way_mask c = [] then m_all_mask c
      else case map_of (m_way_mask c) (m_requester c) of Some m \<Rightarrow> m | None \<Rightarrow> m_shared_mask c)"

fun empty_way_loop :: "cache \<Rightarrow> u64 \<Rightarrow> nat \<Rightarrow> nat \<Rightarrow> nat option" where
  "empty_way_loop c st 0 i = None"
| "empty_way_loop c st (Suc n) i =
     (if way_allowed (allowedWays c) i \<and> \<not> valid (m_cache c ! array_index c st i) then Some i
      else empty_way_loop c st n (Suc i))"

text \<open>\<open>None\<close> is -1.\<close>

definition findEmptyWay :: "cache \<Rightarrow> u64 \<Rightarrow> nat option" where
  "findEmptyWay c address = empty_way_loop c (calculate_set c address) (unat (m_ways_count c)) 0"

definition initializeCacheStates :: "int \<Rightarrow> cache \<Rightarrow> cache" where
  "initializeCacheStates st c =
     c\<lparr>m_cache := map (\<lambda>(i, l). if i < unat (m_sets_count c) * unat (m_ways_count c)
                               then l\<lparr>line_state := st, valid := False, line_block_size := m_block_size c\<rparr>
                               else l) (enumerate 0 (m_cache c))\<rparr>"

definition initializeCacheLine :: "cache \<Rightarrow> cache_line \<Rightarrow> cache_line" where
  "initializeCacheLine c l =
     (line_copyBits l new_line)\<lparr>line_block_size := m_block_size c,
        line_data := Some (replicate (unat (m_block_size c)) 0)\<rparr>"

section \<open>Reading and writing lines\<close>

definition touch_array :: "cache \<Rightarrow> cache" where
  "touch_array c =
     (if m_data_array_pipelined c then c
      else c\<lparr>m_ready_cycle := m_cycle c + ucast (m_data_access_latency c)\<rparr>)"

definition policy_touch :: "u64 \<Rightarrow> int \<Rightarrow> cache \<Rightarrow> cache" where
  "policy_touch st way c =
     c\<lparr>m_replacement_policy := policy_update (m_replacement_policy c) st way (m_cycle c)\<rparr>"

definition writeCacheLine_bypassLatency ::
  "u64 \<Rightarrow> cache_line \<Rightarrow> bool \<Rightarrow> cache \<Rightarrow> (cache \<times> bool) result" where
  "writeCacheLine_bypassLatency address line soft_write c =
     (let st = calculate_set c address in
      case findEmptyWay c address of
        None \<Rightarrow> Inr (c, False)
      | Some way \<Rightarrow>
          result_bind (line_at c st (int way)) (\<lambda>(s, l).
          result_bind (line_copy l line) (\<lambda>l'.
            let c' = write_slot s (l'\<lparr>tag := calculate_tag c address\<rparr>) c
            in Inr (if soft_write then c' else policy_touch st (int way) c', True))))"

definition writeCacheLine :: "u64 \<Rightarrow> cache_line \<Rightarrow> cache \<Rightarrow> (cache \<times> bool) result" where
  "writeCacheLine address line c =
     (if \<not> isReady c address then Inr (c, False)
      else writeCacheLine_bypassLatency address line False
             (if line_data line \<noteq> None then touch_array c else c))"

definition base_updateLineBits :: "u64 \<Rightarrow> cache_line \<Rightarrow> cache \<Rightarrow> (cache \<times> bool) result" where
  "base_updateLineBits address line c =
     (case findline c address of
        None \<Rightarrow> Inr (c, False)
      | Some (st, way) \<Rightarrow>
          result_bind (line_at c st way) (\<lambda>(s, l).
            Inr (write_slot s ((line_copyBits l line)\<lparr>line_block_size := m_block_size c\<rparr>) c, True)))"

definition updateLineBits :: "u64 \<Rightarrow> cache_line \<Rightarrow> cache \<Rightarrow> (cache \<times> bool) result" where
  "updateLineBits address line c =
     result_bind (base_updateLineBits address line c) (\<lambda>(c', ok).
       Inr (case findline c' address of
              None \<Rightarrow> c'
            | Some (st, way) \<Rightarrow>
                if way < 0 \<and> \<not> valid line
                then (if checkMSHR c' st then c'\<lparr>m_mshr := AList.delete st (m_mshr c')\<rparr>
                      else if checkPWB c' st then c'\<lparr>m_pwb := AList.delete st (m_pwb c')\<rparr>
                      else c')
                else c', ok))"

definition base_updateLineData :: "u64 \<Rightarrow> u8 list \<Rightarrow> cache \<Rightarrow> (cache \<times> bool) result" where
  "base_updateLineData address d c =
     (case findline c address of
        None \<Rightarrow> Inr (c, False)
      | Some (st, way) \<Rightarrow>
          if isReady c address
          then result_bind (line_at c st way) (\<lambda>(s, l).
               result_bind (line_copyData l d) (\<lambda>l'.
                 Inr (policy_touch st way (touch_array (write_slot s l' c)), True)))
          else Inr (c, False))"

definition modifyData :: "u64 \<Rightarrow> u8 list \<Rightarrow> u16 \<Rightarrow> bool \<Rightarrow> cache \<Rightarrow> (cache \<times> bool) result" where
  "modifyData address d sz soft_write c =
     (case findline c address of
        None \<Rightarrow> Inr (c, False)
      | Some (st, way) \<Rightarrow>
          if isReady c address \<or> soft_write
          then result_bind (line_at c st way) (\<lambda>(s, l).
               result_bind (line_modifyData l d (ucast (address AND ucast (m_block_size c - 1))) sz) (\<lambda>l'.
                 let c' = touch_array (write_slot s l' c)
                 in Inr (if soft_write then c' else policy_touch st way c', True)))
          else Inr (c, False))"

text \<open>\<open>out\<close> is the caller's line, \<open>None\<close> for the null pointer.\<close>

definition readCacheLine ::
  "u64 \<Rightarrow> cache_line option \<Rightarrow> bool \<Rightarrow> cache \<Rightarrow> (cache \<times> cache_line option \<times> bool) result" where
  "readCacheLine address out soft_read c =
     (case findline c address of
        None \<Rightarrow> Inr (c, out, False)
      | Some (st, way) \<Rightarrow>
          if isReady c address
          then result_bind (case out of
                 None \<Rightarrow> Inr (c, None)
               | Some ol \<Rightarrow> result_bind (line_at c st way) (\<lambda>(s, l).
                   result_bind (line_copy ol l) (\<lambda>ol'. Inr (touch_array c, Some ol'))))
               (\<lambda>(c', out'). Inr (if soft_read then c' else policy_touch st way c', out', True))
          else Inr (c, out, False))"

definition readLineBits :: "u64 \<Rightarrow> cache_line \<Rightarrow> cache \<Rightarrow> (cache_line \<times> bool) result" where
  "readLineBits address out c =
     (case findline c address of
        None \<Rightarrow> Inr (out, False)
      | Some (st, way) \<Rightarrow> result_bind (line_at c st way) (\<lambda>(s, l). Inr (line_copyBits out l, True)))"

section \<open>MSHR and write-back registers\<close>

definition writeLine2MSHR :: "u64 \<Rightarrow> cache_line \<Rightarrow> cache \<Rightarrow> cache result" where
  "writeLine2MSHR address line c =
     (if \<not> valid line then Inr c
      else let a = mask_offset c address;
               old = (case map_of (m_mshr c) a of Some l \<Rightarrow> l | None \<Rightarrow> new_line) in
        result_bind (line_copy old line) (\<lambda>l.
          Inr (c\<lparr>m_mshr := AList.update a (l\<lparr>line_block_size := m_block_size c\<rparr>) (m_mshr c)\<rparr>)))"

definition moveLine2WB :: "u64 \<Rightarrow> int \<Rightarrow> cache \<Rightarrow> cache result" where
  "moveLine2WB st way c =
     result_bind (line_at c st way) (\<lambda>(s, l).
       let wb_address = calculate_address c (tag l) st;
           old = (case map_of (m_pwb c) wb_address of Some o' \<Rightarrow> o' | None \<Rightarrow> new_line) in
       result_bind (line_copy old l) (\<lambda>p.
         let c1 = c\<lparr>m_pwb := AList.update wb_address p (m_pwb c)\<rparr>;
             c2 = write_slot s (l\<lparr>valid := False\<rparr>) c1
         in Inr (c2\<lparr>m_pwb_pending_issue := m_pwb_pending_issue c2 @ [wb_address]\<rparr>)))"

definition chooseEvictionWay :: "nat \<Rightarrow> u64 \<Rightarrow> cache \<Rightarrow> (cache \<times> int) result" where
  "chooseEvictionWay rand st c =
     result_bind (policy_candidate (m_ways_count c) (m_replacement_policy c) st (allowedWays c) rand)
       (\<lambda>(p, w). Inr (c\<lparr>m_replacement_policy := p\<rparr>, w))"

text \<open>The eviction that makes room for a fill, when the set has no free way.\<close>

definition make_room :: "nat \<Rightarrow> u64 \<Rightarrow> cache \<Rightarrow> cache result" where
  "make_room rand address c =
     (if findEmptyWay c address = None
      then result_bind (chooseEvictionWay rand (calculate_set c address) c)
             (\<lambda>(c', way). moveLine2WB (calculate_set c address) way c')
      else Inr c)"

definition updateLineData :: "nat \<Rightarrow> u64 \<Rightarrow> u8 list \<Rightarrow> cache \<Rightarrow> (cache \<times> bool) result" where
  "updateLineData rand address d c =
     (if base_findline c address \<noteq> None then base_updateLineData address d c
      else let a = mask_offset c address in
      case map_of (m_mshr c) a of
        Some e \<Rightarrow>
          result_bind (line_copyData e d) (\<lambda>e'.
          result_bind (make_room rand address (c\<lparr>m_mshr := AList.update a e' (m_mshr c)\<rparr>)) (\<lambda>c1.
          result_bind (writeCacheLine address e' c1) (\<lambda>(c2, ok).
            Inr (if ok then c2\<lparr>m_mshr := AList.delete a (m_mshr c2)\<rparr> else c2, ok))))
      | None \<Rightarrow>
          (case map_of (m_pwb c) a of
             Some p \<Rightarrow> result_bind (line_copyData p d)
                         (\<lambda>p'. Inr (c\<lparr>m_pwb := AList.update a p' (m_pwb c)\<rparr>, True))
           | None \<Rightarrow> Inr (c, False)))"

text \<open>The front of the queue and, with \<open>clear_flag\<close>, the state without it.\<close>

definition addressOfLinePendingWB :: "bool \<Rightarrow> cache \<Rightarrow> cache \<times> u64 option" where
  "addressOfLinePendingWB clear_flag c =
     (case m_pwb_pending_issue c of
        [] \<Rightarrow> (c, None)
      | a # as \<Rightarrow> (if clear_flag then c\<lparr>m_pwb_pending_issue := as\<rparr> else c, Some a))"

definition mshrCount :: "cache \<Rightarrow> int" where
  "mshrCount c = int (length (m_mshr c))"

definition pwbHasSpace :: "cache \<Rightarrow> bool" where
  "pwbHasSpace c \<longleftrightarrow> m_pwb_size c < 0 \<or> int (length (m_pwb c)) < m_pwb_size c"

definition fillWouldOverflowPwb :: "cache \<Rightarrow> u64 \<Rightarrow> bool" where
  "fillWouldOverflowPwb c address \<longleftrightarrow>
     \<not> pwbHasSpace c \<and> checkMSHR c (mask_offset c address) \<and>
     base_findline c address = None \<and> findEmptyWay c address = None"

section \<open>Geometry\<close>

definition geometry :: "cache \<Rightarrow> nat \<Rightarrow> nat \<Rightarrow> bool" where
  "geometry c b s \<longleftrightarrow>
     unat (m_block_size c) = 2 ^ b \<and> unat (m_sets_count c) = 2 ^ s \<and> 0 < m_ways_count c \<and>
     2 ^ s * unat (m_ways_count c) \<le> length (m_cache c)"

lemma floor_log2_power: "floor_log2 (2 ^ k) = k"
proof (induction k)
  case 0
  then show ?case by (simp add: floor_log2.simps)
next
  case (Suc k)
  then show ?case by (subst floor_log2.simps) (auto simp: not_less numeral_2_eq_2 [symmetric])
qed

lemma power_two_less: "unat (x :: u32) = 2 ^ k \<Longrightarrow> k < 32"
proof -
  assume "unat x = 2 ^ k"
  then have "(2 :: nat) ^ k < 2 ^ LENGTH(32)"
    using unsigned_less [of x, where ?'a = nat] by (simp only: )
  then show ?thesis by (metis len_of_numeral_defs(2,3) len_num1 power_less_imp_less_exp one_less_numeral_iff
        semiring_norm(76) numeral_Bit0 mult_2 len_of_numeral_defs(1) numeral_One mult.commute)
qed

lemma geometry_bits:
  assumes "geometry c b s"
  shows "block_bits c = b" "set_bits c = s" "b < 32" "s < 32"
proof -
  show "block_bits c = b" "set_bits c = s"
    using assms by (simp_all add: geometry_def block_bits_def set_bits_def floor_log2_power)
  show "b < 32" "s < 32" using assms power_two_less by (auto simp: geometry_def)
qed

lemma ucast_power_minus_1:
  assumes "unat (x :: u32) = 2 ^ k"
  shows "ucast (x - 1) = (mask k :: u64)" "(ucast x :: u64) - 1 = mask k"
proof -
  have k: "k < 32" using assms by (rule power_two_less)
  have "x = of_nat (unat x)" by simp
  then have x: "x = 2 ^ k" unfolding assms by simp
  have "ucast (mask k :: u32) = (mask k :: u64)" using k
    by (intro bit_eqI) (auto simp: bit_simps)
  moreover have "x - 1 = mask k" unfolding x by (simp add: mask_eq_exp_minus_1)
  ultimately show "ucast (x - 1) = (mask k :: u64)" by simp
  have "ucast x = (2 ^ k :: u64)" unfolding x using k
    by (intro bit_eqI) (auto simp: bit_simps)
  then show "(ucast x :: u64) - 1 = mask k" by (simp add: mask_eq_exp_minus_1)
qed


lemma calculate_set_eq:
  assumes "geometry c b s"
  shows "calculate_set c a = take_bit s (drop_bit b a)"
  using geometry_bits [OF assms] ucast_power_minus_1(1) [of "m_sets_count c" s] assms
  by (simp add: calculate_set_def geometry_def take_bit_eq_mask)

lemma calculate_tag_eq: "geometry c b s \<Longrightarrow> calculate_tag c a = drop_bit (b + s) a"
  by (simp add: calculate_tag_def geometry_bits)

lemma mask_offset_eq:
  assumes "geometry c b s"
  shows "mask_offset c a = push_bit b (drop_bit b a)"
proof -
  have "mask_offset c a = a AND NOT (mask b)"
    using ucast_power_minus_1(2) [of "m_block_size c" b] assms by (simp add: mask_offset_def geometry_def)
  also have "\<dots> = push_bit b (drop_bit b a)"
    by (rule bit_eqI) (auto simp: bit_simps)
  finally show ?thesis .
qed

lemma calculate_address_inverse:
  assumes "geometry c b s"
  shows "calculate_address c (calculate_tag c a) (calculate_set c a) = mask_offset c a"
proof -
  have "push_bit (b + s) (drop_bit (b + s) a) OR push_bit b (take_bit s (drop_bit b a)) = push_bit b (drop_bit b a)"
  proof (rule bit_eqI)
    fix n
    have "b + s + (n - (b + s)) = n" if "b \<le> n" "\<not> n - b < s" using that by linarith
    then show "bit (push_bit (b + s) (drop_bit (b + s) a) OR push_bit b (take_bit s (drop_bit b a))) n =
        bit (push_bit b (drop_bit b a)) n"
      by (cases "b \<le> n"; cases "n - b < s") (auto simp: bit_simps)
  qed
  then show ?thesis
    unfolding calculate_address_def calculate_set_eq [OF assms] calculate_tag_eq [OF assms] mask_offset_eq [OF assms]
    by (simp add: geometry_bits [OF assms])
qed

lemma drop_push_drop_bit: "drop_bit b (push_bit b (drop_bit b x)) = drop_bit b (x :: u64)"
  by (rule bit_eqI) (auto simp: bit_simps dest: bit_imp_le_length)

text \<open>Set and tag determine the block and are determined by it.\<close>

lemma block_eq_iff:
  assumes "geometry c b s"
  shows "mask_offset c x = mask_offset c y \<longleftrightarrow>
    calculate_set c x = calculate_set c y \<and> calculate_tag c x = calculate_tag c y"
proof
  assume "mask_offset c x = mask_offset c y"
  then have eq: "drop_bit b x = drop_bit b y"
    unfolding mask_offset_eq [OF assms] using drop_push_drop_bit by metis
  moreover have "drop_bit (b + s) x = drop_bit (b + s) y"
    using arg_cong [OF eq, of "drop_bit s"] by (simp add: add.commute)
  ultimately show "calculate_set c x = calculate_set c y \<and> calculate_tag c x = calculate_tag c y"
    by (simp add: calculate_set_eq [OF assms] calculate_tag_eq [OF assms])
next
  assume "calculate_set c x = calculate_set c y \<and> calculate_tag c x = calculate_tag c y"
  then show "mask_offset c x = mask_offset c y"
    using calculate_address_inverse [OF assms] by metis
qed

lemma calculate_set_less:
  assumes "geometry c b s"
  shows "unat (calculate_set c a) < 2 ^ s"
proof -
  have "unat (take_bit s (drop_bit b a)) = take_bit s (unat (drop_bit b a))"
    by (simp add: unsigned_take_bit_eq)
  then show ?thesis by (simp add: calculate_set_eq [OF assms] take_bit_nat_less_exp)
qed

lemma len64: "LENGTH(64) = 64" by simp

lemma array_index_eq:
  assumes g: "geometry c b s" and st: "unat st < 2 ^ s" and w: "w < unat (m_ways_count c)"
  shows "array_index c st w = unat st * unat (m_ways_count c) + w"
    and "array_index c st w < length (m_cache c)"
proof -
  let ?W = "unat (m_ways_count c)"
  have "unat st * ?W + w < (unat st + 1) * ?W" using w by (simp add: algebra_simps)
  also have "\<dots> \<le> 2 ^ s * ?W" using st by (intro mult_right_mono) auto
  finally have lt: "unat st * ?W + w < 2 ^ s * ?W" .
  have "(2::nat) ^ s \<le> 2 ^ 31" using geometry_bits(4) [OF g] by (intro power_increasing) auto
  moreover have "?W \<le> 2 ^ 32" using unsigned_less [of "m_ways_count c", where ?'a = nat] by simp
  ultimately have "2 ^ s * ?W \<le> 2 ^ 31 * 2 ^ 32" by (rule mult_mono) auto
  then have small: "unat st * ?W + w < 2 ^ 64" using lt by simp
  have up: "ucast (m_ways_count c) = (of_nat ?W :: u64)" by simp
  have "st * ucast (m_ways_count c) + of_nat w = of_nat (unat st) * of_nat ?W + (of_nat w :: u64)"
    unfolding up by simp
  then have "st * ucast (m_ways_count c) + of_nat w = of_nat (unat st * ?W + w)"
    by (simp only: of_nat_add of_nat_mult)
  then have "array_index c st w = (unat st * ?W + w) mod 2 ^ 64"
    unfolding array_index_def by (simp only: unat_of_nat len64)
  then show "array_index c st w = unat st * ?W + w" using small by simp
  then show "array_index c st w < length (m_cache c)" using lt g by (simp add: geometry_def)
qed

lemma array_index_inj:
  assumes g: "geometry c b s" and "unat st < 2 ^ s" "unat st' < 2 ^ s"
    and "w < unat (m_ways_count c)" "w' < unat (m_ways_count c)"
    and "array_index c st w = array_index c st' w'"
  shows "st = st' \<and> w = w'"
proof -
  let ?W = "unat (m_ways_count c)"
  have eq: "unat st * ?W + w = unat st' * ?W + w'"
    using assms by (simp add: array_index_eq(1) [OF g])
  have "unat st = (unat st * ?W + w) div ?W" "unat st' = (unat st' * ?W + w') div ?W"
    "w = (unat st * ?W + w) mod ?W" "w' = (unat st' * ?W + w') mod ?W"
    using assms(4,5) by simp_all
  then show ?thesis unfolding eq by (metis word_unat_eq_iff)
qed

section \<open>Shape\<close>

text \<open>The fields that no operation but \<open>setRequester\<close> changes after construction.\<close>

definition same_shape :: "cache \<Rightarrow> cache \<Rightarrow> bool" where
  "same_shape c c' \<longleftrightarrow> length (m_cache c) = length (m_cache c') \<and> m_block_size c = m_block_size c' \<and>
     m_ways_count c = m_ways_count c' \<and> m_sets_count c = m_sets_count c' \<and>
     m_way_mask c = m_way_mask c' \<and> m_shared_mask c = m_shared_mask c' \<and> m_all_mask c = m_all_mask c' \<and>
     m_requester c = m_requester c'"

lemma same_shape_eqs:
  assumes "same_shape c c'"
  shows "calculate_set c = calculate_set c'" "calculate_tag c = calculate_tag c'"
    "calculate_address c = calculate_address c'" "mask_offset c = mask_offset c'"
    "array_index c = array_index c'" "allowedWays c = allowedWays c'" "m_ways_count c = m_ways_count c'"
    "geometry c = geometry c'"
  using assms
  by (auto simp: same_shape_def fun_eq_iff calculate_set_def calculate_tag_def calculate_address_def
      mask_offset_def array_index_def allowedWays_def block_bits_def set_bits_def geometry_def cong: option.case_cong)

lemma same_shape_trans [trans]: "same_shape c c' \<Longrightarrow> same_shape c' c'' \<Longrightarrow> same_shape c c''"
  by (simp add: same_shape_def)

lemma empty_way_loop_same:
  assumes "same_shape c c'" "m_cache c = m_cache c'"
  shows "empty_way_loop c st n i = empty_way_loop c' st n i"
  by (induction n arbitrary: i) (simp_all add: same_shape_eqs [OF assms(1)] assms(2))

lemma findEmptyWay_same:
  "same_shape c c' \<Longrightarrow> m_cache c = m_cache c' \<Longrightarrow> findEmptyWay c a = findEmptyWay c' a"
  using empty_way_loop_same [of c c'] by (simp add: findEmptyWay_def same_shape_eqs [of c c'])

section \<open>Searches\<close>

lemma find_way_SomeD:
  "find_way c st tg n i = Some w \<Longrightarrow>
     i \<le> w \<and> w < i + n \<and> valid (m_cache c ! array_index c st w) \<and> tag (m_cache c ! array_index c st w) = tg"
proof (induction n arbitrary: i)
  case (Suc n)
  show ?case using Suc.prems Suc.IH [of "Suc i"] by (auto simp: Let_def split: if_splits)
qed simp

lemma find_way_None_iff:
  "find_way c st tg n i = None \<longleftrightarrow>
     (\<forall>w. i \<le> w \<and> w < i + n \<longrightarrow> \<not> (valid (m_cache c ! array_index c st w) \<and> tag (m_cache c ! array_index c st w) = tg))"
proof (induction n arbitrary: i)
  case 0
  then show ?case by auto
next
  case (Suc n)
  have split: "(\<forall>w. i \<le> w \<and> w < i + Suc n \<longrightarrow> Q w) \<longleftrightarrow> Q i \<and> (\<forall>w. Suc i \<le> w \<and> w < Suc i + n \<longrightarrow> Q w)"
    for Q by (metis Suc_leD Suc_leI add_Suc add_Suc_right le_add1 le_neq_implies_less less_Suc_eq_le order_refl)
  show ?case unfolding split by (simp add: Let_def Suc.IH)
qed

lemma empty_way_loop_Some:
  "empty_way_loop c st n i = Some w \<Longrightarrow>
     i \<le> w \<and> w < i + n \<and> way_allowed (allowedWays c) w \<and> \<not> valid (m_cache c ! array_index c st w)"
proof (induction n arbitrary: i)
  case (Suc n)
  show ?case using Suc.prems Suc.IH [of "Suc i"] by (auto split: if_splits)
qed simp

lemma empty_way_loop_None:
  "empty_way_loop c st n i = None \<Longrightarrow> i \<le> w \<Longrightarrow> w < i + n \<Longrightarrow> way_allowed (allowedWays c) w \<Longrightarrow>
     valid (m_cache c ! array_index c st w)"
proof (induction n arbitrary: i)
  case 0
  then show ?case by simp
next
  case (Suc n)
  show ?case
  proof (cases "w = i")
    case True
    then show ?thesis using Suc.prems by (auto split: if_splits)
  next
    case False
    then show ?thesis using Suc.prems Suc.IH [of "Suc i"] by (auto split: if_splits)
  qed
qed

lemma findEmptyWay_Some:
  "findEmptyWay c a = Some w \<Longrightarrow> w < unat (m_ways_count c) \<and> way_allowed (allowedWays c) w \<and>
     \<not> valid (m_cache c ! array_index c (calculate_set c a) w)"
  unfolding findEmptyWay_def by (drule empty_way_loop_Some) auto

lemma findEmptyWay_exists:
  assumes "w < unat (m_ways_count c)" "way_allowed (allowedWays c) w"
    and "\<not> valid (m_cache c ! array_index c (calculate_set c a) w)"
  obtains v where "findEmptyWay c a = Some v"
  using assms empty_way_loop_None [of c "calculate_set c a" "unat (m_ways_count c)" 0 w]
  unfolding findEmptyWay_def by (cases "empty_way_loop c (calculate_set c a) (unat (m_ways_count c)) 0") auto

definition array_hit :: "cache \<Rightarrow> u64 \<Rightarrow> nat \<Rightarrow> bool" where
  "array_hit c a w \<longleftrightarrow> w < unat (m_ways_count c) \<and>
     valid (m_cache c ! array_index c (calculate_set c a) w) \<and>
     tag (m_cache c ! array_index c (calculate_set c a) w) = calculate_tag c a"

lemma base_findline_None_iff: "base_findline c a = None \<longleftrightarrow> (\<forall>w. \<not> array_hit c a w)"
  by (auto simp: base_findline_def find_way_None_iff array_hit_def)

lemma isAddressTracked_iff:
  "isAddressTracked c a \<longleftrightarrow>
     (\<exists>w. array_hit c a w) \<or> checkMSHR c (mask_offset c a) \<or> checkPWB c (mask_offset c a)"
proof (cases "base_findline c a")
  case None
  then have "\<forall>w. \<not> array_hit c a w" by (simp add: base_findline_None_iff)
  with None show ?thesis by (simp add: isAddressTracked_def findline_def)
next
  case (Some p)
  then show ?thesis
    using base_findline_None_iff [of c a] by (auto simp: isAddressTracked_def findline_def split: prod.splits)
qed

lemma findline_unique_hit:
  assumes "array_hit c a w" "\<And>v. array_hit c a v \<Longrightarrow> v = w"
  shows "findline c a = Some (calculate_set c a, int w)"
proof -
  let ?f = "find_way c (calculate_set c a) (calculate_tag c a) (unat (m_ways_count c)) 0"
  have "base_findline c a \<noteq> None" using assms(1) base_findline_None_iff [of c a] by blast
  then obtain v where v: "?f = Some v" by (auto simp: base_findline_def)
  then have "array_hit c a v" using find_way_SomeD [OF v] by (simp add: array_hit_def)
  then have "?f = Some w" using v assms(2) by simp
  then show ?thesis by (simp add: findline_def base_findline_def)
qed

section \<open>Line sizes\<close>

text \<open>Every line has the block size of the cache and, once allocated, that many bytes.\<close>

definition line_ok :: "u32 \<Rightarrow> cache_line \<Rightarrow> bool" where
  "line_ok bs l \<longleftrightarrow> line_block_size l = bs \<and>
     (case line_data l of None \<Rightarrow> True | Some d \<Rightarrow> length d = unat bs)"

definition lines_ok :: "cache \<Rightarrow> bool" where
  "lines_ok c \<longleftrightarrow> list_all (line_ok (m_block_size c)) (m_cache c) \<and>
     list_all (line_ok (m_block_size c) \<circ> snd) (m_mshr c) \<and>
     list_all (line_ok (m_block_size c) \<circ> snd) (m_pwb c)"

lemma lines_ok_lookup:
  assumes "lines_ok c"
  shows "i < length (m_cache c) \<Longrightarrow> line_ok (m_block_size c) (m_cache c ! i)"
    and "map_of (m_mshr c) a = Some l \<Longrightarrow> line_ok (m_block_size c) l"
    and "map_of (m_pwb c) a = Some l \<Longrightarrow> line_ok (m_block_size c) l"
  using assms by (force simp: lines_ok_def list_all_iff dest: map_of_SomeD)+

lemma line_copyData_ok:
  assumes "line_ok bs l" "unat bs \<le> length d"
  shows "line_copyData l d = Inr (l\<lparr>line_data := Some (take (unat bs) d)\<rparr>)"
  using assms by (auto simp: line_copyData_def line_ok_def Let_def split: option.splits)

lemma line_copy_ok:
  assumes "line_ok bs l" "line_data dst = None \<or> line_ok bs dst"
  obtains l' where "line_copy dst l = Inr l'" "line_ok bs l' \<or> line_data l = None"
    "valid l' = valid l" "line_state l' = line_state l" "owner_id l' = owner_id l" "tag l' = tag dst"
    "line_data l' = (if line_data l = None then line_data dst else line_data l)" "line_ok bs l'"
proof (cases "line_data l")
  case None
  then show ?thesis
    using assms that [of "line_copyBits dst l"]
    by (auto simp: line_copy_def line_copyBits_def line_ok_def split: option.splits)
next
  case (Some d)
  have "line_copyData (line_copyBits dst l) d = Inr ((line_copyBits dst l)\<lparr>line_data := Some d\<rparr>)"
    using assms Some by (auto simp: line_copyData_def line_copyBits_def line_ok_def Let_def split: option.splits)
  then show ?thesis
    using assms Some that [of "(line_copyBits dst l)\<lparr>line_data := Some d\<rparr>"]
    by (auto simp: line_copy_def line_copyBits_def line_ok_def)
qed

lemma list_all_snd_update:
  "list_all (P \<circ> snd) xs \<Longrightarrow> P v \<Longrightarrow> list_all (P \<circ> snd) (AList.update k v xs)"
  by (induction xs) auto

lemma list_all_snd_delete: "list_all (P \<circ> snd) xs \<Longrightarrow> list_all (P \<circ> snd) (AList.delete k xs)"
  by (induction xs) auto

lemma list_all_list_update: "list_all P xs \<Longrightarrow> P v \<Longrightarrow> list_all P (xs[i := v])"
  by (auto simp: list_all_iff dest: set_update_subset_insert [THEN subsetD])

lemmas lines_ok_intros = list_all_snd_update list_all_snd_delete list_all_list_update

section \<open>Fills\<close>

lemma write_room:
  assumes g: "geometry c b s" and ok: "lines_ok c" and l: "line_ok (m_block_size c) l"
    and w: "findEmptyWay c a = Some w" and ready: "isReady c a"
  obtains l' r where
    "writeCacheLine a l c =
       Inr (r\<lparr>m_cache := (m_cache c)[array_index c (calculate_set c a) w := l'\<lparr>tag := calculate_tag c a\<rparr>]\<rparr>, True)"
    "\<exists>p rc. r = c\<lparr>m_ready_cycle := rc, m_replacement_policy := p\<rparr>" 
    "line_ok (m_block_size c) l'" "valid l' = valid l" "line_state l' = line_state l" "owner_id l' = owner_id l"
    "line_data l \<noteq> None \<longrightarrow> line_data l' = line_data l"
proof -
  let ?i = "array_index c (calculate_set c a) w"
  let ?c = "if line_data l \<noteq> None then touch_array c else c"
  have w': "w < unat (m_ways_count c)" using findEmptyWay_Some [OF w] by simp
  have i: "?i < length (m_cache c)" using array_index_eq(2) [OF g calculate_set_less [OF g] w'] .
  obtain l' where cp: "line_copy (m_cache c ! ?i) l = Inr l'" "valid l' = valid l"
    "line_state l' = line_state l" "owner_id l' = owner_id l" "line_ok (m_block_size c) l'"
    "line_data l' = (if line_data l = None then line_data (m_cache c ! ?i) else line_data l)"
    using line_copy_ok [OF l, of "m_cache c ! ?i"] lines_ok_lookup(1) [OF ok i] by blast
  have t: "\<exists>rc. ?c = c\<lparr>m_ready_cycle := rc\<rparr>"
    by (auto simp: touch_array_def intro: exI [of _ "m_ready_cycle c"])
  then obtain rc where rc: "?c = c\<lparr>m_ready_cycle := rc\<rparr>" by blast
  have same: "same_shape (c\<lparr>m_ready_cycle := rc\<rparr>) c" by (simp add: same_shape_def)
  note shape = same_shape_eqs [OF same]
  have e: "findEmptyWay (c\<lparr>m_ready_cycle := rc\<rparr>) a = Some w"
    using w findEmptyWay_same [OF same] by simp
  have "writeCacheLine a l c = writeCacheLine_bypassLatency a l False (c\<lparr>m_ready_cycle := rc\<rparr>)"
    using ready rc by (simp add: writeCacheLine_def)
  also have "\<dots> = Inr (policy_touch (calculate_set c a) (int w)
      (c\<lparr>m_ready_cycle := rc, m_cache := (m_cache c)[?i := l'\<lparr>tag := calculate_tag c a\<rparr>]\<rparr>), True)"
    by (simp add: writeCacheLine_bypassLatency_def e shape line_at_def getLine_def i cp Let_def)
  finally have *: "writeCacheLine a l c = Inr (policy_touch (calculate_set c a) (int w)
      (c\<lparr>m_ready_cycle := rc, m_cache := (m_cache c)[?i := l'\<lparr>tag := calculate_tag c a\<rparr>]\<rparr>), True)" .
  show ?thesis
    by (rule that [of l' "policy_touch (calculate_set c a) (int w) (c\<lparr>m_ready_cycle := rc\<rparr>)"])
      (use * cp in \<open>auto simp: policy_touch_def intro!: exI\<close>)
qed

text \<open>What an eviction leaves: the victim's slot invalid and its block in the write-back register.\<close>

lemma make_room_spec:
  assumes g: "geometry c b s" and ok: "lines_ok c"
    and v: "v < unat (m_ways_count c)" "way_allowed (allowedWays c) v"
  obtains (free) w where "make_room rand a c = Inr c" "findEmptyWay c a = Some w"
  | (evicted) w l p q k where
    "findEmptyWay c a = None" "w < unat (m_ways_count c)" "way_allowed (allowedWays c) w"
    "l = m_cache c ! array_index c (calculate_set c a) w" "valid l" "line_ok (m_block_size c) q"
    "k = calculate_address c (tag l) (calculate_set c a)"
    "line_data l \<noteq> None \<longrightarrow> line_data q = line_data l" "line_state q = line_state l"
    "make_room rand a c = Inr (c\<lparr>m_replacement_policy := p, m_pwb := AList.update k q (m_pwb c),
       m_cache := (m_cache c)[array_index c (calculate_set c a) w := l\<lparr>valid := False\<rparr>],
       m_pwb_pending_issue := m_pwb_pending_issue c @ [k]\<rparr>)"
proof (cases "findEmptyWay c a")
  case (Some w)
  then show ?thesis using free by (simp add: make_room_def)
next
  case None
  let ?S = "calculate_set c a"
  obtain p w where cand: "policy_candidate (m_ways_count c) (m_replacement_policy c) ?S (allowedWays c) rand = Inr (p, int w)"
    and w: "w < unat (m_ways_count c)" "way_allowed (allowedWays c) w"
    using any_policy.candidate_allowed [OF v, where p = "m_replacement_policy c" and st = ?S and rand = rand] by blast
  let ?i = "array_index c ?S w"
  let ?l = "m_cache c ! ?i" and ?c = "c\<lparr>m_replacement_policy := p\<rparr>"
  have i: "?i < length (m_cache c)" using array_index_eq(2) [OF g calculate_set_less [OF g] w(1)] .
  have valid: "valid ?l"
    using None empty_way_loop_None [of c ?S "unat (m_ways_count c)" 0 w] w by (simp add: findEmptyWay_def)
  let ?k = "calculate_address c (tag ?l) ?S"
  let ?old = "case map_of (m_pwb c) ?k of Some o' \<Rightarrow> o' | None \<Rightarrow> new_line"
  have "line_data ?old = None \<or> line_ok (m_block_size c) ?old"
    using lines_ok_lookup(3) [OF ok] by (auto simp: new_line_def split: option.splits)
  then obtain q where q: "line_copy ?old ?l = Inr q" "line_ok (m_block_size c) q" "line_state q = line_state ?l"
    "line_data q = (if line_data ?l = None then line_data ?old else line_data ?l)"
    using line_copy_ok [OF lines_ok_lookup(1) [OF ok i], of ?old] by blast
  have "same_shape ?c c" by (simp add: same_shape_def)
  note shape = same_shape_eqs [OF this]
  have room: "make_room rand a c = moveLine2WB ?S (int w) ?c"
    using None cand by (simp add: make_room_def chooseEvictionWay_def)
  also have "\<dots> = Inr (c\<lparr>m_replacement_policy := p, m_pwb := AList.update ?k q (m_pwb c),
       m_cache := (m_cache c)[?i := ?l\<lparr>valid := False\<rparr>],
       m_pwb_pending_issue := m_pwb_pending_issue c @ [?k]\<rparr>)"
    using i q(1) by (simp add: moveLine2WB_def line_at_def getLine_def shape Let_def)
  finally show ?thesis
    using None w valid q(2,3,4) by (intro evicted [of w ?l q ?k p]) auto
qed

text \<open>The way a fill takes is free, or is the one way the eviction freed.\<close>

lemma evicted_way_taken:
  assumes g: "geometry c b s" and full: "findEmptyWay c a = None"
    and w: "w < unat (m_ways_count c)" "way_allowed (allowedWays c) w"
    and same: "same_shape c1 c"
    and upd: "m_cache c1 = (m_cache c)[array_index c (calculate_set c a) w := l\<lparr>valid := False\<rparr>]"
  shows "findEmptyWay c1 a = Some w"
proof -
  let ?S = "calculate_set c a"
  note shape = same_shape_eqs [OF same]
  have idx: "array_index c ?S v < length (m_cache c)" if "v < unat (m_ways_count c)" for v
    using array_index_eq(2) [OF g calculate_set_less [OF g] that] .
  have "\<not> valid (m_cache c1 ! array_index c1 (calculate_set c1 a) w)"
    using upd idx [OF w(1)] by (simp add: shape)
  then obtain v where v: "findEmptyWay c1 a = Some v"
    using findEmptyWay_exists [of w c1 a] w by (auto simp: shape)
  have v': "v < unat (m_ways_count c)" "way_allowed (allowedWays c) v"
    "\<not> valid (m_cache c1 ! array_index c ?S v)"
    using findEmptyWay_Some [OF v] by (auto simp: shape)
  have "valid (m_cache c ! array_index c ?S v)"
    using full empty_way_loop_None [of c ?S "unat (m_ways_count c)" 0 v] v' by (simp add: findEmptyWay_def)
  then have "array_index c ?S v = array_index c ?S w"
    using v'(3) upd idx [OF v'(1)] by (metis nth_list_update_neq)
  then have "v = w"
    using array_index_inj [OF g calculate_set_less [OF g] calculate_set_less [OF g] v'(1) w(1)] by simp
  then show ?thesis using v by simp
qed

definition filled :: "cache \<Rightarrow> u64 \<Rightarrow> u8 list \<Rightarrow> cache_line \<Rightarrow> nat \<Rightarrow> cache_line \<Rightarrow> cache \<Rightarrow> bool" where
  "filled c a d e w l' c' \<longleftrightarrow>
     (let i = array_index c (calculate_set c a) w; l = m_cache c ! i;
          k = calculate_address c (tag l) (calculate_set c a) in
      w < unat (m_ways_count c) \<and> way_allowed (allowedWays c) w \<and> same_shape c' c \<and>
      m_cache c' = (m_cache c)[i := l'] \<and> valid l' = valid e \<and> tag l' = calculate_tag c a \<and>
      line_state l' = line_state e \<and> owner_id l' = owner_id e \<and>
      line_data l' = Some (take (unat (m_block_size c)) d) \<and>
      map_of (m_mshr c') = (map_of (m_mshr c)) (mask_offset c a := None) \<and>
      (\<not> valid l \<and> m_pwb c' = m_pwb c \<and> m_pwb_pending_issue c' = m_pwb_pending_issue c \<or>
       valid l \<and> (\<exists>q. m_pwb c' = AList.update k q (m_pwb c) \<and> line_state q = line_state l \<and>
           (line_data l \<noteq> None \<longrightarrow> line_data q = line_data l)) \<and>
         m_pwb_pending_issue c' = m_pwb_pending_issue c @ [k]) \<and>
      lines_ok c')"

lemma fill_after_room:
  fixes c :: cache and a :: u64 and d :: "u8 list" and e :: cache_line
  defines "e' \<equiv> e\<lparr>line_data := Some (take (unat (m_block_size c)) d)\<rparr>"
  defines "m \<equiv> AList.update (mask_offset c a) e' (m_mshr c)"
  assumes g: "geometry c b s" and none: "base_findline c a = None"
    and e: "map_of (m_mshr c) (mask_offset c a) = Some e"
    and e': "line_copyData e d = Inr e'" "line_ok (m_block_size c) e'"
    and room: "make_room rand a (c\<lparr>m_mshr := m\<rparr>) = Inr c1" and same: "same_shape c1 c" and ok1: "lines_ok c1"
    and m1: "m_mshr c1 = m" and w: "findEmptyWay c1 a = Some w"
    and pwb: "m_cache c1 = m_cache c \<and> m_pwb c1 = m_pwb c \<and> m_pwb_pending_issue c1 = m_pwb_pending_issue c \<or>
        (\<exists>q. let l = m_cache c ! array_index c (calculate_set c a) w; k = calculate_address c (tag l) (calculate_set c a) in
          valid l \<and> m_cache c1 = (m_cache c)[array_index c (calculate_set c a) w := l\<lparr>valid := False\<rparr>] \<and>
          m_pwb c1 = AList.update k q (m_pwb c) \<and> line_state q = line_state l \<and>
          (line_data l \<noteq> None \<longrightarrow> line_data q = line_data l) \<and>
          m_pwb_pending_issue c1 = m_pwb_pending_issue c @ [k])"
  obtains c' l' where "updateLineData rand a d c = Inr (c', True)" "filled c a d e w l' c'"
proof -
  note shape = same_shape_eqs [OF same]
  let ?a = "mask_offset c a" and ?i = "array_index c (calculate_set c a) w"
  have g1: "geometry c1 b s" using g by (simp add: shape)
  have e1: "line_ok (m_block_size c1) e'" using e'(2) same by (simp add: same_shape_def)
  have ready: "isReady c1 a" by (simp add: isReady_def checkMSHR_def shape m1 m_def update_conv')
  obtain l' r where wr: "writeCacheLine a e' c1 =
      Inr (r\<lparr>m_cache := (m_cache c1)[array_index c1 (calculate_set c1 a) w := l'\<lparr>tag := calculate_tag c1 a\<rparr>]\<rparr>, True)"
    and r: "\<exists>p rc. r = c1\<lparr>m_ready_cycle := rc, m_replacement_policy := p\<rparr>"
    and l': "line_ok (m_block_size c1) l'" "valid l' = valid e'" "line_state l' = line_state e'"
      "owner_id l' = owner_id e'" "line_data e' \<noteq> None \<longrightarrow> line_data l' = line_data e'"
    by (rule write_room [OF g1 ok1 e1 w ready])
  let ?l = "l'\<lparr>tag := calculate_tag c a\<rparr>"
  let ?c' = "r\<lparr>m_cache := (m_cache c1)[?i := ?l], m_mshr := AList.delete ?a m\<rparr>"
  obtain p rc where r': "r = c1\<lparr>m_ready_cycle := rc, m_replacement_policy := p\<rparr>" using r by blast
  have upd: "updateLineData rand a d c = Inr (?c', True)"
    using none e e'(1) room wr by (simp add: updateLineData_def Let_def shape m1 r' m_def)
  have "same_shape ?c' c" using same by (simp add: same_shape_def r')
  moreover have "(m_cache c1)[?i := ?l] = (m_cache c)[?i := ?l]" using pwb by (auto simp: Let_def)
  moreover have "lines_ok ?c'"
    using ok1 l'(1) m1 by (auto simp: lines_ok_def r' line_ok_def intro!: lines_ok_intros split: option.splits)
  moreover have "map_of (AList.delete ?a m) = (map_of (m_mshr c))(?a := None)"
    by (simp add: delete_conv' update_conv' m_def)
  moreover have "\<not> valid (m_cache c ! ?i)" if "m_cache c1 = m_cache c"
    using findEmptyWay_Some [OF w] that by (simp add: shape)
  moreover have "w < unat (m_ways_count c) \<and> way_allowed (allowedWays c) w"
    using findEmptyWay_Some [OF w] by (simp add: shape)
  moreover have "m_pwb ?c' = m_pwb c1" "m_pwb_pending_issue ?c' = m_pwb_pending_issue c1"
    "m_mshr ?c' = AList.delete ?a m" "m_cache ?c' = (m_cache c1)[?i := ?l]" by (simp_all add: r')
  moreover note l'(2-5) pwb
  ultimately have "filled c a d e w ?l ?c'"
    unfolding filled_def Let_def e'_def by simp blast
  with upd show thesis by (rule that)
qed

lemma fill_spec:
  assumes g: "geometry c b s" and ok: "lines_ok c" and none: "base_findline c a = None"
    and e: "map_of (m_mshr c) (mask_offset c a) = Some e" and d: "unat (m_block_size c) \<le> length d"
    and v: "v < unat (m_ways_count c)" "way_allowed (allowedWays c) v"
  obtains c' w l' where "updateLineData rand a d c = Inr (c', True)" "filled c a d e w l' c'"
proof -
  let ?e = "e\<lparr>line_data := Some (take (unat (m_block_size c)) d)\<rparr>" and ?S = "calculate_set c a"
  let ?c0 = "c\<lparr>m_mshr := AList.update (mask_offset c a) ?e (m_mshr c)\<rparr>"
  have eok: "line_ok (m_block_size c) e" using lines_ok_lookup(2) [OF ok e] .
  have e': "line_copyData e d = Inr ?e" using line_copyData_ok [OF eok d] .
  have e'ok: "line_ok (m_block_size c) ?e" using eok d by (simp add: line_ok_def)
  have ok0: "lines_ok ?c0" using ok e'ok by (auto simp: lines_ok_def intro: lines_ok_intros)
  have same0: "same_shape ?c0 c" by (simp add: same_shape_def)
  note shape0 = same_shape_eqs [OF same0] and finish = fill_after_room [OF g none e e' e'ok]
  have g0: "geometry ?c0 b s" using g by (simp add: shape0)
  have v0: "v < unat (m_ways_count ?c0)" "way_allowed (allowedWays ?c0) v" using v by (simp_all add: shape0)
  show thesis
  proof (rule make_room_spec [OF g0 ok0 v0, where a = a and rand = rand], goal_cases free evicted)
    case (free w)
    then show thesis using finish [of rand ?c0 w] same0 ok0 that by auto
  next
    case (evicted w l p q k)
    let ?c1 = "?c0\<lparr>m_replacement_policy := p, m_pwb := AList.update k q (m_pwb c),
       m_cache := (m_cache c)[array_index c ?S w := l\<lparr>valid := False\<rparr>],
       m_pwb_pending_issue := m_pwb_pending_issue c @ [k]\<rparr>"
    have same: "same_shape ?c1 ?c0" by (simp add: same_shape_def)
    have w: "findEmptyWay ?c1 a = Some w"
      using evicted_way_taken [OF g0 evicted(1-3) same] by (simp add: shape0)
    have "line_ok (m_block_size c) l"
      using lines_ok_lookup(1) [OF ok array_index_eq(2) [OF g calculate_set_less [OF g]]] evicted by (simp add: shape0)
    then have "line_ok (m_block_size c) (l\<lparr>valid := False\<rparr>)" by (simp add: line_ok_def)
    then have ok1: "lines_ok ?c1" using ok0 evicted(6) by (auto simp: lines_ok_def intro!: lines_ok_intros)
    have "make_room rand a ?c0 = Inr ?c1" using evicted(10) by (simp add: shape0)
    from finish [OF this same_shape_trans [OF same same0] ok1 _ w] evicted that
    show thesis by (auto simp: shape0 Let_def)
  qed
qed

section \<open>Properties of the cache\<close>

text \<open>A cache of two sets of two ways and blocks of four bytes, with set 0 full and a miss on block 16 pending.\<close>

definition example_line :: "u64 \<Rightarrow> bool \<Rightarrow> cache_line" where
  "example_line tg v = new_line\<lparr>valid := v, tag := tg, line_state := 2, line_block_size := 4,
     line_data := Some [1, 2, 3, 4]\<rparr>"

definition example_cache :: cache where
  "example_cache = \<lparr> m_cache = [example_line 0 True, example_line 1 True, example_line 0 False, example_line 0 False],
     m_block_size = 4, m_ways_count = 2, m_way_mask = [(0, 1), (1, 2)], m_shared_mask = 3, m_all_mask = 3,
     m_requester = 1, m_sets_count = 2, m_replacement_policy = LeastRecentlyUsed (\<lambda>_. None), m_cycle = 7,
     m_data_access_latency = 2, m_ready_cycle = 0, m_data_array_pipelined = False, m_data_array_ports = 1,
     m_mshr = [(16, example_line 0 True)], m_pwb = [], m_pwb_size = 8, m_pwb_pending_issue = [] \<rparr>"

lemma example_geometry: "geometry example_cache 2 1"
  by code_simp

lemma example_fill_hyps:
  "lines_ok example_cache" "base_findline example_cache 18 = None"
  "map_of (m_mshr example_cache) (mask_offset example_cache 18) = Some (example_line 0 True)"
  "unat (m_block_size example_cache) \<le> length ([9, 8, 7, 6] :: u8 list)" "valid (example_line 0 True)"
  "\<exists>v<unat (m_ways_count example_cache). way_allowed (allowedWays example_cache) v"
  by code_simp+

text \<open>
  Splitting an address into tag and set and composing it again gives the address of its block, the set is
  below the number of sets, two addresses have the same set and tag exactly when they are in the same block,
  and two ways of two sets never share an entry of the array.
\<close>

lemma address_split_is_exact:
  assumes "geometry c b s"
  shows "calculate_address c (calculate_tag c x) (calculate_set c x) = mask_offset c x \<and>
    unat (calculate_set c x) < unat (m_sets_count c) \<and>
    (mask_offset c x = mask_offset c y \<longleftrightarrow>
       calculate_set c x = calculate_set c y \<and> calculate_tag c x = calculate_tag c y) \<and>
    (\<forall>v w. v < unat (m_ways_count c) \<and> w < unat (m_ways_count c) \<and>
       array_index c (calculate_set c x) v = array_index c (calculate_set c y) w \<longrightarrow>
       calculate_set c x = calculate_set c y \<and> v = w)"
  using calculate_address_inverse [OF assms] block_eq_iff [OF assms, of x y] calculate_set_less [OF assms, of x]
    array_index_inj [OF assms calculate_set_less [OF assms, of x] calculate_set_less [OF assms, of y]] assms
  by (auto simp: geometry_def)

lemma address_split_is_exact_witness:
  "calculate_address example_cache (calculate_tag example_cache 0x12345) (calculate_set example_cache 0x12345)
     = mask_offset example_cache 0x12345"
  using address_split_is_exact [OF example_geometry, of "0x12345"] by blast

lemma filled_array:
  assumes g: "geometry c b s" and f: "filled c a d e w l' c'"
    and st: "unat st < 2 ^ s" and v: "v < unat (m_ways_count c)"
  shows "m_cache c' ! array_index c st v =
    (if st = calculate_set c a \<and> v = w then l' else m_cache c ! array_index c st v)"
proof -
  let ?i = "array_index c (calculate_set c a) w"
  have w: "w < unat (m_ways_count c)" and m: "m_cache c' = (m_cache c)[?i := l']"
    using f by (simp_all add: filled_def Let_def)
  have "?i < length (m_cache c)" using array_index_eq(2) [OF g calculate_set_less [OF g] w] .
  moreover have "array_index c st v = ?i \<longrightarrow> st = calculate_set c a \<and> v = w"
    using array_index_inj [OF g st calculate_set_less [OF g] v w] by blast
  ultimately show ?thesis unfolding m by (auto simp: nth_list_update)
qed

lemma filled_hit:
  assumes g: "geometry c b s" and f: "filled c a d e w l' c'" and x: "v < unat (m_ways_count c)"
  shows "array_hit c' x v \<longleftrightarrow>
    (if calculate_set c x = calculate_set c a \<and> v = w
     then valid e \<and> calculate_tag c x = calculate_tag c a else array_hit c x v)"
proof -
  have same: "same_shape c' c" and l': "valid l' = valid e" "tag l' = calculate_tag c a"
    using f by (simp_all add: filled_def Let_def)
  show ?thesis
    using filled_array [OF g f calculate_set_less [OF g] x] l' x
    by (auto simp: array_hit_def same_shape_eqs [OF same])
qed

text \<open>
  C21. The data of a pending miss is installed: the fill succeeds without error, the line is found in an allowed way
  of its set with the state of the miss entry and the bytes of the message, the miss entry is gone, and at most one
  line was sent to the write-back registers, where its state and bytes are kept and its write-back is queued.
\<close>

theorem fill_installs_line:
  assumes "geometry c b s" and "lines_ok c" and "base_findline c a = None"
    and "map_of (m_mshr c) (mask_offset c a) = Some e" and "unat (m_block_size c) \<le> length d" and "valid e"
    and "\<exists>v<unat (m_ways_count c). way_allowed (allowedWays c) v"
  shows "\<exists>c' w. updateLineData rand a d c = Inr (c', True) \<and> way_allowed (allowedWays c) w \<and>
     findline c' a = Some (calculate_set c a, int w) \<and>
     (\<exists>l. m_cache c' ! array_index c (calculate_set c a) w = l \<and> line_state l = line_state e \<and>
        line_data l = Some (take (unat (m_block_size c)) d)) \<and>
     \<not> checkMSHR c' (mask_offset c a) \<and>
     (m_pwb_pending_issue c' = m_pwb_pending_issue c \<and> m_pwb c' = m_pwb c \<or>
      (\<exists>k q l. l = m_cache c ! array_index c (calculate_set c a) w \<and> valid l \<and>
         m_pwb_pending_issue c' = m_pwb_pending_issue c @ [k] \<and> m_pwb c' = AList.update k q (m_pwb c) \<and>
         line_state q = line_state l \<and> (line_data l \<noteq> None \<longrightarrow> line_data q = line_data l)))"
proof -
  obtain v where v: "v < unat (m_ways_count c)" "way_allowed (allowedWays c) v" using assms(7) by blast
  obtain c' w l' where upd: "updateLineData rand a d c = Inr (c', True)" and f: "filled c a d e w l' c'"
    by (rule fill_spec [OF assms(1-5) v])
  have w: "w < unat (m_ways_count c)" using f by (simp add: filled_def Let_def)
  have same: "same_shape c' c" using f by (simp add: filled_def Let_def)
  have "array_hit c' a w" using filled_hit [OF assms(1) f w, of a] assms(6) by simp
  moreover have "x = w" if "array_hit c' a x" for x
  proof -
    have "x < unat (m_ways_count c)" using that same by (simp add: array_hit_def same_shape_def)
    from filled_hit [OF assms(1) f this, of a] that assms(3) show ?thesis
      by (auto simp: base_findline_None_iff split: if_splits)
  qed
  ultimately have "findline c' a = Some (calculate_set c' a, int w)" by (rule findline_unique_hit)
  moreover have "m_cache c' ! array_index c (calculate_set c a) w = l'"
    using filled_array [OF assms(1) f calculate_set_less [OF assms(1)] w] by simp
  ultimately show ?thesis
    using upd f same_shape_eqs [OF same]
    by (intro exI [of _ c'] exI [of _ w]) (auto simp: filled_def Let_def checkMSHR_def)
qed

theorem fill_installs_line_witness:
  "\<exists>c' w. updateLineData 0 18 [9, 8, 7, 6] example_cache = Inr (c', True) \<and>
     way_allowed (allowedWays example_cache) w \<and> findline c' 18 = Some (calculate_set example_cache 18, int w)"
  using fill_installs_line [OF example_geometry example_fill_hyps, of 0] by blast

text \<open>
  C23. A fill never touches a way outside the requester's partition: whatever line it evicts, the lines of the ways
  the requester's mask forbids keep every field, in every set.
\<close>

theorem fill_confined_to_partition:
  assumes "geometry c b s" and "lines_ok c" and "base_findline c a = None"
    and "map_of (m_mshr c) (mask_offset c a) = Some e" and "unat (m_block_size c) \<le> length d"
    and "\<exists>v<unat (m_ways_count c). way_allowed (allowedWays c) v"
  shows "\<exists>c'. updateLineData rand a d c = Inr (c', True) \<and>
     (\<forall>x w. w < unat (m_ways_count c) \<and> \<not> way_allowed (allowedWays c) w \<longrightarrow>
        m_cache c' ! array_index c (calculate_set c x) w = m_cache c ! array_index c (calculate_set c x) w)"
proof -
  obtain v where v: "v < unat (m_ways_count c)" "way_allowed (allowedWays c) v" using assms(6) by blast
  obtain c' w l' where upd: "updateLineData rand a d c = Inr (c', True)" and f: "filled c a d e w l' c'"
    by (rule fill_spec [OF assms(1-5) v])
  have "way_allowed (allowedWays c) w" using f by (simp add: filled_def Let_def)
  then show ?thesis
    using upd filled_array [OF assms(1) f calculate_set_less [OF assms(1)]] by (intro exI [of _ c']) auto
qed

theorem fill_confined_to_partition_witness:
  "\<exists>c'. updateLineData 0 18 [9, 8, 7, 6] example_cache = Inr (c', True) \<and>
     m_cache c' ! array_index example_cache (calculate_set example_cache 0) 0 = m_cache example_cache ! 0"
proof -
  have "(0 :: nat) < unat (m_ways_count example_cache)" "\<not> way_allowed (allowedWays example_cache) 0"
    "array_index example_cache (calculate_set example_cache 0) 0 = 0"
    by code_simp+
  with fill_confined_to_partition [OF example_geometry example_fill_hyps(1-4,6), of 0] show ?thesis by metis
qed

text \<open>
  C22. A fill loses no block: every block the cache tracked before, in the array, as a pending miss or as a pending
  write-back, is tracked after it; a victim moves to the write-back registers in the same step.
\<close>

theorem fill_keeps_every_block:
  assumes "geometry c b s" and "lines_ok c" and "base_findline c a = None"
    and "map_of (m_mshr c) (mask_offset c a) = Some e" and "unat (m_block_size c) \<le> length d" and "valid e"
    and "\<exists>v<unat (m_ways_count c). way_allowed (allowedWays c) v"
  shows "\<exists>c'. updateLineData rand a d c = Inr (c', True) \<and> (\<forall>x. isAddressTracked c x \<longrightarrow> isAddressTracked c' x)"
proof -
  note g = assms(1)
  obtain v where v: "v < unat (m_ways_count c)" "way_allowed (allowedWays c) v" using assms(7) by blast
  obtain c' w l' where upd: "updateLineData rand a d c = Inr (c', True)" and f: "filled c a d e w l' c'"
    by (rule fill_spec [OF assms(1-5) v])
  let ?l = "m_cache c ! array_index c (calculate_set c a) w"
  have w: "w < unat (m_ways_count c)" and same: "same_shape c' c" using f by (simp_all add: filled_def Let_def)
  note shape = same_shape_eqs [OF same]
  have pwb: "checkPWB c k \<longrightarrow> checkPWB c' k" for k
    using f by (auto simp: filled_def Let_def checkPWB_def update_conv')
  have victim: "valid ?l \<longrightarrow> checkPWB c' (calculate_address c (tag ?l) (calculate_set c a))"
    using f by (auto simp: filled_def Let_def checkPWB_def update_conv')
  have hit_a: "array_hit c' a w" using filled_hit [OF g f w, of a] assms(6) by simp
  have "isAddressTracked c' x" if "isAddressTracked c x" for x
  proof (cases "\<exists>u. array_hit c x u")
    case True
    then obtain u where u: "array_hit c x u" by blast
    then have lt: "u < unat (m_ways_count c)" by (simp add: array_hit_def)
    show ?thesis
    proof (cases "calculate_set c x = calculate_set c a \<and> u = w")
      case True
      then have "valid ?l" "calculate_address c (tag ?l) (calculate_set c a) = mask_offset c x"
        using u calculate_address_inverse [OF g, of x] by (auto simp: array_hit_def)
      then show ?thesis using victim by (simp add: isAddressTracked_iff shape)
    next
      case False
      then show ?thesis using filled_hit [OF g f lt, of x] u by (auto simp: isAddressTracked_iff)
    qed
  next
    case False
    show ?thesis
    proof (cases "mask_offset c x = mask_offset c a")
      case True
      then have "array_hit c' x w" using hit_a block_eq_iff [OF g, of x a] by (simp add: array_hit_def shape)
      then show ?thesis by (auto simp: isAddressTracked_iff)
    next
      case neq: False
      have "checkMSHR c (mask_offset c x) \<longrightarrow> checkMSHR c' (mask_offset c x)"
        using f neq by (simp add: filled_def Let_def checkMSHR_def)
      then show ?thesis using False that pwb by (auto simp: isAddressTracked_iff shape)
    qed
  qed
  then show ?thesis using upd by blast
qed

theorem fill_keeps_every_block_witness:
  "\<exists>c'. updateLineData 0 18 [9, 8, 7, 6] example_cache = Inr (c', True) \<and> isAddressTracked c' 8"
proof -
  have "isAddressTracked example_cache 8" by code_simp
  then show ?thesis using fill_keeps_every_block [OF example_geometry example_fill_hyps, of 0] by blast
qed

text \<open>
  The bound on the write-back registers is not enforced: with one register, in use, the fill evicts all the same.
\<close>

lemma fill_ignores_pwb_bound:
  "let c = example_cache\<lparr>m_pwb_size := 1, m_pwb := [(24, example_line 3 True)]\<rparr> in
   \<not> pwbHasSpace c \<and> fillWouldOverflowPwb c 18 \<and>
   (case updateLineData 0 18 [9, 8, 7, 6] c of
      Inl err \<Rightarrow> False | Inr (c', ok) \<Rightarrow> ok \<and> length (m_pwb c') = 2)"
  by code_simp

end
