(* ===== verification/FSM.thy ===== *)
theory FSM
  imports CacheData
begin

text \<open>
  The reader of the coherence tables, src/FSMReader.cpp: the CSV parser, the state machine it builds, and the
  look-ups the protocols make. A text stream is its unread characters and its end-of-file flag, which is what
  decides what \<open>std::getline\<close> does. Maps are association lists without duplicate keys.
\<close>

section \<open>Text\<close>

type_synonym istream = "string \<times> bool"

text \<open>
  \<open>getline\<close>: a stream at its end leaves the string alone; otherwise the string is the text up to the
  delimiter, and the call fails when nothing at all was left to read.
\<close>

definition getline :: "char \<Rightarrow> istream \<Rightarrow> string \<Rightarrow> istream \<times> string \<times> bool" where
  "getline delim is s =
     (case is of (rest, eof) \<Rightarrow>
        if eof then (is, s, False)
        else let f = takeWhile (\<lambda>c. c \<noteq> delim) rest in
          (case drop (length f) rest of
             [] \<Rightarrow> (([], True), f, rest \<noteq> [])
           | _ # rest' \<Rightarrow> ((rest', False), f, True)))"

fun istream_size :: "istream \<Rightarrow> nat" where
  "istream_size (rest, eof) = (if eof then 0 else Suc (length rest))"

lemma getline_less: "getline delim is s = (is', f, True) \<Longrightarrow> istream_size is' < istream_size is"
  by (cases "is")
    (auto simp: getline_def Let_def split: if_splits list.splits dest: arg_cong [of _ _ length])

text \<open>\<open>while (getline(stream, field, delim))\<close>\<close>

function stream_fields :: "char \<Rightarrow> istream \<Rightarrow> string list" where
  "stream_fields delim is =
     (case getline delim is [] of (is', f, ok) \<Rightarrow> if ok then f # stream_fields delim is' else [])"
  by auto
termination
  by (relation "measure (\<lambda>(_, is). istream_size is)") (auto dest: getline_less [OF sym] simp del: istream_size.simps)

declare stream_fields.simps [simp del]

definition is_blank :: "char \<Rightarrow> bool" where
  "is_blank c \<longleftrightarrow> c = CHR '' '' \<or> c = CHR 0x09 \<or> c = CHR 0x0D \<or> c = CHR 0x0A"

definition trim :: "string \<Rightarrow> string" where
  "trim s = rev (dropWhile is_blank (rev (dropWhile is_blank s)))"

fun starts_with :: "string \<Rightarrow> string \<Rightarrow> bool" where
  "starts_with [] s \<longleftrightarrow> True"
| "starts_with (p # ps) [] \<longleftrightarrow> False"
| "starts_with (p # ps) (c # cs) \<longleftrightarrow> p = c \<and> starts_with ps cs"

text \<open>\<open>line.find(pattern) < npos\<close>\<close>

fun contains :: "string \<Rightarrow> string \<Rightarrow> bool" where
  "contains p [] \<longleftrightarrow> p = []"
| "contains p (c # cs) \<longleftrightarrow> starts_with p (c # cs) \<or> contains p cs"

text \<open>\<open>field.find_last_of(c)\<close>\<close>

definition find_last :: "char \<Rightarrow> string \<Rightarrow> nat option" where
  "find_last c s = map_option (\<lambda>i. length s - Suc i) (first_index (\<lambda>x. x = c) (rev s))"

section \<open>The state machine\<close>

type_synonym ids = "(string \<times> int) list"

record fsm_state =
  is_data_valid :: bool
  stable :: bool
  transitions :: "(int \<times> int) list"
  fsm_actions :: "(int \<times> int list) list"
  m_own_state :: int

record fsm_reader =
  m_eventIds :: ids
  m_actionIds :: ids
  m_stateIds :: ids
  m_states :: "fsm_state list"

definition ids_at :: "ids \<Rightarrow> string \<Rightarrow> int result" where
  "ids_at m name = (case map_of m name of Some i \<Rightarrow> Inr i | None \<Rightarrow> Inl (Throw ''out_of_range''))"

text \<open>
  The action names of a cell, with the loop test on the read position: \<open>len\<close> is the length of the cell and
  \<open>last_pos\<close> the position of its last slash. Every read stops at a slash, so the position is known.
\<close>

function action_loop :: "ids \<Rightarrow> nat \<Rightarrow> nat \<Rightarrow> istream \<Rightarrow> int list result" where
  "action_loop actionIds len last_pos is =
     (case getline (CHR ''/'') is [] of (is', name, ok) \<Rightarrow>
        result_bind (ids_at actionIds (trim name)) (\<lambda>a.
          if ok \<and> len - length (fst is') < last_pos
          then result_bind (action_loop actionIds len last_pos is') (\<lambda>as. Inr (a # as))
          else Inr [a]))"
  by auto
termination
  by (relation "measure (\<lambda>(_, _, _, is). istream_size is)") (auto dest: getline_less [OF sym] simp del: istream_size.simps)

declare action_loop.simps [simp del]

definition parse_cell :: "ids \<Rightarrow> ids \<Rightarrow> string \<Rightarrow> int \<Rightarrow> string \<Rightarrow> fsm_state \<Rightarrow> fsm_state result" where
  "parse_cell actionIds stateIds state_name ev field0 s =
     (let field = trim field0 in
      if field = []
      then result_bind (ids_at stateIds state_name) (\<lambda>t. Inr (s\<lparr>transitions := AList.update ev t (transitions s)\<rparr>))
      else case find_last (CHR ''/'') field of
          None \<Rightarrow> result_bind (ids_at stateIds field) (\<lambda>t. Inr (s\<lparr>transitions := AList.update ev t (transitions s)\<rparr>))
        | Some last_pos \<Rightarrow>
            let next_state = trim (drop (Suc last_pos) field) in
            result_bind (ids_at stateIds (if next_state = [] then state_name else next_state)) (\<lambda>t.
            result_bind (action_loop actionIds (length field) last_pos (field, False)) (\<lambda>as.
              Inr (s\<lparr>transitions := AList.update ev t (transitions s),
                     fsm_actions := AList.update ev as (fsm_actions s)\<rparr>))))"

fun parse_cells :: "ids \<Rightarrow> ids \<Rightarrow> string \<Rightarrow> int \<Rightarrow> string list \<Rightarrow> fsm_state \<Rightarrow> fsm_state result" where
  "parse_cells actionIds stateIds state_name ev [] s = Inr s"
| "parse_cells actionIds stateIds state_name ev (f # fs) s =
     result_bind (parse_cell actionIds stateIds state_name ev f s)
       (parse_cells actionIds stateIds state_name (ev + 1) fs)"

definition new_FSMState :: "ids \<Rightarrow> ids \<Rightarrow> string \<Rightarrow> fsm_state result" where
  "new_FSMState actionIds stateIds line =
     (case getline (CHR '','') (line, False) [] of (is1, name, _) \<Rightarrow>
      case getline (CHR '','') is1 [] of (is2, f2, _) \<Rightarrow>
      case getline (CHR '','') is2 f2 of (is3, f3, _) \<Rightarrow>
        let state_name = trim name in
        result_bind (ids_at stateIds state_name) (\<lambda>own.
          parse_cells actionIds stateIds state_name 0 (stream_fields (CHR '','') is3)
            \<lparr> is_data_valid = (atoi f3 = 1), stable = (atoi f2 = 1), transitions = [], fsm_actions = [],
              m_own_state = own \<rparr>))"

definition getNextState :: "fsm_state \<Rightarrow> int \<Rightarrow> int" where
  "getNextState s ev = (case map_of (transitions s) ev of Some t \<Rightarrow> t | None \<Rightarrow> m_own_state s)"

definition getActions :: "fsm_state \<Rightarrow> int \<Rightarrow> int list" where
  "getActions s ev = (case map_of (fsm_actions s) ev of Some as \<Rightarrow> as | None \<Rightarrow> [])"

section \<open>Files\<close>

text \<open>A list of names: up to a line whose second field is empty, which is consumed. The rest is returned.\<close>

fun parse_ids :: "string list \<Rightarrow> ids \<Rightarrow> ids \<times> string list" where
  "parse_ids [] m = (m, [])"
| "parse_ids (line # ls) m =
     (case getline (CHR '','') (line, False) [] of (is1, val, _) \<Rightarrow>
      case getline (CHR '','') is1 [] of (is2, index, _) \<Rightarrow>
        if trim index = [] then (m, ls) else parse_ids ls (AList.update (trim index) (atoi (trim val)) m))"

lemma parse_ids_length: "parse_ids ls m = (m', ls') \<Longrightarrow> length ls' \<le> length ls"
  by (induction ls m rule: parse_ids.induct) (fastforce split: prod.splits if_splits)+

text \<open>The table: every line that is left is a state, in the order of the file.\<close>

fun parse_states :: "ids \<Rightarrow> ids \<Rightarrow> string list \<Rightarrow> fsm_state list result" where
  "parse_states actionIds stateIds [] = Inr []"
| "parse_states actionIds stateIds (line # ls) =
     result_bind (new_FSMState actionIds stateIds line) (\<lambda>s.
     result_bind (parse_states actionIds stateIds ls) (\<lambda>ss. Inr (s # ss)))"

function parse_sections :: "string list \<Rightarrow> fsm_reader \<Rightarrow> fsm_reader result" where
  "parse_sections [] r = Inr r"
| "parse_sections (line # ls) r =
     (if contains ''EventNum'' line
      then case parse_ids ls (m_eventIds r) of (m, ls') \<Rightarrow> parse_sections ls' (r\<lparr>m_eventIds := m\<rparr>)
      else if contains ''ActionNum'' line
      then case parse_ids ls (m_actionIds r) of (m, ls') \<Rightarrow> parse_sections ls' (r\<lparr>m_actionIds := m\<rparr>)
      else if contains ''StateNum'' line
      then case parse_ids ls (m_stateIds r) of (m, ls') \<Rightarrow> parse_sections ls' (r\<lparr>m_stateIds := m\<rparr>)
      else if contains ''State'' line
      then result_bind (parse_states (m_actionIds r) (m_stateIds r) ls)
             (\<lambda>ss. Inr (r\<lparr>m_states := m_states r @ ss\<rparr>))
      else parse_sections ls r)"
  by pat_completeness auto
termination
  by (relation "measure (\<lambda>(ls, _). length ls)") (auto dest: parse_ids_length [OF sym] simp: le_imp_less_Suc)

declare parse_sections.simps [simp del]

text \<open>The file is its content, \<open>None\<close> when it cannot be opened.\<close>

definition new_FSMReader :: "string option \<Rightarrow> fsm_reader result" where
  "new_FSMReader fsmFile =
     (case fsmFile of
        None \<Rightarrow> Inl (Exit ''ERROR: Cant open FSM CSV file'')
      | Some content \<Rightarrow> parse_sections (stream_fields (CHR 0x0A) (content, False))
          \<lparr> m_eventIds = [], m_actionIds = [], m_stateIds = [], m_states = [] \<rparr>)"

section \<open>Look-ups\<close>

text \<open>\<open>m[name]\<close> inserts 0 for a missing name.\<close>

definition ids_index :: "string \<Rightarrow> ids \<Rightarrow> ids \<times> int" where
  "ids_index name m = (case map_of m name of Some i \<Rightarrow> (m, i) | None \<Rightarrow> (AList.update name 0 m, 0))"

definition getState :: "string \<Rightarrow> fsm_reader \<Rightarrow> fsm_reader \<times> int" where
  "getState name r = (case ids_index name (m_stateIds r) of (m, i) \<Rightarrow> (r\<lparr>m_stateIds := m\<rparr>, i))"

definition state_row :: "fsm_reader \<Rightarrow> int \<Rightarrow> fsm_state result" where
  "state_row r st =
     (if 0 \<le> st \<and> nat st < length (m_states r) then Inr (m_states r ! nat st)
      else Inl (Undefined ''m_states index''))"

definition getTransition :: "fsm_reader \<Rightarrow> int \<Rightarrow> int \<Rightarrow> (int \<times> int list) result" where
  "getTransition r st ev = result_bind (state_row r st) (\<lambda>s. Inr (getNextState s ev, getActions s ev))"

definition isValidState :: "fsm_reader \<Rightarrow> int \<Rightarrow> bool result" where
  "isValidState r st = result_bind (state_row r st) (\<lambda>s. Inr (is_data_valid s))"

definition isStable :: "fsm_reader \<Rightarrow> int \<Rightarrow> bool result" where
  "isStable r st = result_bind (state_row r st) (\<lambda>s. Inr (stable s))"

definition isHit :: "int \<Rightarrow> int \<Rightarrow> fsm_reader \<Rightarrow> (fsm_reader \<times> bool) result" where
  "isHit st ev r =
     result_bind (state_row r st) (\<lambda>s.
       case ids_index ''Hit'' (m_actionIds r) of (m, hit_id) \<Rightarrow>
         Inr (r\<lparr>m_actionIds := m\<rparr>, hit_id \<in> set (getActions s ev)))"

definition isStall :: "int \<Rightarrow> int \<Rightarrow> fsm_reader \<Rightarrow> (fsm_reader \<times> bool) result" where
  "isStall st ev r =
     result_bind (state_row r st) (\<lambda>s.
       case ids_index ''Stall'' (m_actionIds r) of (m, stall_id) \<Rightarrow>
         Inr (r\<lparr>m_actionIds := m\<rparr>, stall_id \<in> set (getActions s ev)))"

definition hasAction :: "fsm_reader \<Rightarrow> int \<Rightarrow> int \<Rightarrow> string \<Rightarrow> bool result" where
  "hasAction r st ev name =
     (case map_of (m_actionIds r) name of
        None \<Rightarrow> Inr False
      | Some i \<Rightarrow> result_bind (state_row r st) (\<lambda>s. Inr (i \<in> set (getActions s ev))))"

definition CoherenceProtocolHandler_initializeCacheStates :: "fsm_reader \<Rightarrow> cache \<Rightarrow> fsm_reader \<times> cache" where
  "CoherenceProtocolHandler_initializeCacheStates r c =
     (case getState ''I'' r of (r', st) \<Rightarrow> (r', initializeCacheStates st c))"


section \<open>Text files as lines\<close>

definition csv_text :: "string list \<Rightarrow> string" where
  "csv_text ls = concat (map (\<lambda>l. l @ [CHR 0x0A]) (butlast ls)) @ last ls"

lemma takeWhile_stop: "d \<notin> set l \<Longrightarrow> takeWhile (\<lambda>c. c \<noteq> d) (l @ d # r) = l"
  by (induction l) auto

lemma takeWhile_all: "d \<notin> set l \<Longrightarrow> takeWhile (\<lambda>c. c \<noteq> d) l = l"
  by (induction l) auto

lemma getline_field:
  "d \<notin> set l \<Longrightarrow> getline d (l @ d # r, False) s = ((r, False), l, True)"
  "d \<notin> set l \<Longrightarrow> getline d (l, False) s = (([], True), l, l \<noteq> [])"
  by (simp_all add: getline_def takeWhile_stop takeWhile_all Let_def)

lemma stream_fields_split:
  "d \<notin> set l \<Longrightarrow> stream_fields d (l @ d # r, False) = l # stream_fields d (r, False)"
  "d \<notin> set l \<Longrightarrow> l \<noteq> [] \<Longrightarrow> stream_fields d (l, False) = [l]"
  by (simp_all add: stream_fields.simps [of d "(l @ d # r, False)"] stream_fields.simps [of d "(l, False)"]
      stream_fields.simps [of d "([], True)"] getline_field) (simp add: getline_def)

text \<open>A file whose last line is not empty is read back as its lines.\<close>

lemma stream_fields_csv_text:
  assumes "\<forall>l \<in> set ls. CHR 0x0A \<notin> set l" and "ls \<noteq> []" and "last ls \<noteq> []"
  shows "stream_fields (CHR 0x0A) (csv_text ls, False) = ls"
  using assms
proof (induction ls)
  case Nil
  then show ?case by simp
next
  case (Cons l ls)
  show ?case
  proof (cases ls)
    case Nil
    then show ?thesis using Cons.prems by (simp add: csv_text_def stream_fields_split)
  next
    case (Cons l' ls')
    then have "csv_text (l # ls) = l @ CHR 0x0A # csv_text ls" by (simp add: csv_text_def)
    then show ?thesis using Cons.IH Cons.prems Cons by (simp add: stream_fields_split)
  qed
qed

section \<open>What a row means\<close>

fun result_map :: "('a \<Rightarrow> 'b result) \<Rightarrow> 'a list \<Rightarrow> 'b list result" where
  "result_map f [] = Inr []"
| "result_map f (x # xs) = result_bind (f x) (\<lambda>y. result_bind (result_map f xs) (\<lambda>ys. Inr (y # ys)))"

text \<open>The loop over the action names splits the part of the cell before its last slash at the slashes.\<close>

lemma action_loop_eq:
  assumes "CHR ''/'' \<notin> set post" and "pre \<noteq> []"
    and "len = k + length pre + 1 + length post" and "lp = k + length pre"
  shows "action_loop A len lp (pre @ CHR ''/'' # post, False)
    = result_map (ids_at A \<circ> trim) (stream_fields (CHR ''/'') (pre, False))"
  using assms(2-)
proof (induction "length pre" arbitrary: pre k rule: less_induct)
  case less
  show ?case
  proof (cases "CHR ''/'' \<in> set pre")
    case True
    obtain x pre2 where pre: "pre = x @ CHR ''/'' # pre2" and x: "CHR ''/'' \<notin> set x"
      using split_list_first [OF True] by blast
    have g: "getline (CHR ''/'') (pre @ CHR ''/'' # post, False) [] = ((pre2 @ CHR ''/'' # post, False), x, True)"
      unfolding pre using getline_field(1) [OF x, of "pre2 @ CHR ''/'' # post" "[]"] by simp
    have pos: "len - length (pre2 @ CHR ''/'' # post) < lp \<longleftrightarrow> pre2 \<noteq> []"
      using less.prems pre by (cases pre2) auto
    have split: "stream_fields (CHR ''/'') (pre, False) = x # stream_fields (CHR ''/'') (pre2, False)"
      unfolding pre using x by (rule stream_fields_split)
    show ?thesis
    proof (cases "pre2 = []")
      case True
      have "stream_fields (CHR ''/'') ([], False) = []"
        by (simp add: stream_fields.simps [of _ "([], False)"] getline_def)
      then show ?thesis
        unfolding action_loop.simps [of A len lp "(pre @ CHR ''/'' # post, False)"] g split using pos True
        by (simp add: comp_def)
    next
      case False
      have "length pre2 < length pre" "len = (k + length x + 1) + length pre2 + 1 + length post"
        "lp = (k + length x + 1) + length pre2"
        using less.prems pre by simp_all
      from less.hyps [OF this(1) False this(2,3)] show ?thesis
        unfolding action_loop.simps [of A len lp "(pre @ CHR ''/'' # post, False)"] g split using pos False
        by (simp add: comp_def)
    qed
  next
    case False
    have g: "getline (CHR ''/'') (pre @ CHR ''/'' # post, False) [] = ((post, False), pre, True)"
      using getline_field(1) [OF False] by simp
    have "\<not> len - length post < lp" using less.prems by simp
    then show ?thesis
      unfolding action_loop.simps [of A len lp "(pre @ CHR ''/'' # post, False)"] g
      using stream_fields_split(2) [OF False] less.prems by (simp add: comp_def)
  qed
qed

text \<open>
  The meaning of a trimmed cell: empty, the next state alone, or action names, each followed by a slash, and the
  next state, which defaults to the row's own.
\<close>

definition cell_means :: "ids \<Rightarrow> ids \<Rightarrow> string \<Rightarrow> int \<Rightarrow> string \<Rightarrow> int \<Rightarrow> int list \<Rightarrow> bool" where
  "cell_means A S name own cell nxt actions \<longleftrightarrow>
     (if cell = [] then nxt = own \<and> actions = []
      else if CHR ''/'' \<notin> set cell then map_of S cell = Some nxt \<and> actions = []
      else \<exists>pre post. cell = pre @ CHR ''/'' # post \<and> CHR ''/'' \<notin> set post \<and>
        map_of S (if trim post = [] then name else trim post) = Some nxt \<and>
        (pre \<noteq> [] \<longrightarrow>
           result_map (ids_at A \<circ> trim) (stream_fields (CHR ''/'') (pre, False)) = Inr actions))"

lemma find_last_split:
  assumes "find_last d s = Some i"
  obtains pre post where "s = pre @ d # post" "d \<notin> set post" "i = length pre"
proof -
  obtain j where j: "first_index (\<lambda>x. x = d) (rev s) = Some j" and i: "i = length s - Suc j"
    using assms by (auto simp: find_last_def)
  have jl: "j < length s" and at: "rev s ! j = d" and before: "\<And>k. k < j \<Longrightarrow> rev s ! k \<noteq> d"
    using first_index_SomeD [OF j] by auto
  have si: "s ! i = d" using at jl i by (simp add: rev_nth)
  have il: "i < length s" using jl i by simp
  have post: "d \<notin> set (drop (Suc i) s)"
  proof
    assume "d \<in> set (drop (Suc i) s)"
    then obtain k where k: "k < length s - Suc i" "s ! (Suc i + k) = d" by (auto simp: in_set_conv_nth)
    have "rev s ! (length s - Suc (Suc i + k)) = d" using k by (simp add: rev_nth)
    moreover have "length s - Suc (Suc i + k) < j" using k i jl by simp
    ultimately show False using before by blast
  qed
  have "s = take i s @ s ! i # drop (Suc i) s" using il by (rule id_take_nth_drop)
  then show ?thesis by (rule that [OF _ post, unfolded si [symmetric]]) (use il in simp)
qed

lemma find_last_None: "find_last d s = None \<longleftrightarrow> d \<notin> set s"
  by (auto simp: find_last_def first_index_None_iff)

lemma ids_at_Inr [simp]: "ids_at m n = Inr i \<longleftrightarrow> map_of m n = Some i"
  by (auto simp: ids_at_def split: option.splits)

lemma parse_cell_means:
  assumes p: "parse_cell A S name ev field s = Inr s'" and own: "map_of S name = Some own"
    and fresh: "map_of (transitions s) ev = None" "map_of (fsm_actions s) ev = None"
  shows "cell_means A S name own (trim field) (getNextState s' ev) (getActions s' ev) \<and>
    (\<forall>e. e \<noteq> ev \<longrightarrow> map_of (transitions s') e = map_of (transitions s) e \<and>
                   map_of (fsm_actions s') e = map_of (fsm_actions s) e) \<and>
    m_own_state s' = m_own_state s \<and> stable s' = stable s \<and> is_data_valid s' = is_data_valid s"
proof (cases "trim field = [] \<or> CHR ''/'' \<notin> set (trim field)")
  case True
  then have "find_last (CHR ''/'') (trim field) = None" by (auto simp: find_last_None)
  then show ?thesis
    using p own fresh True
    by (auto simp: parse_cell_def Let_def cell_means_def getNextState_def getActions_def update_conv'
        result_bind_Inr_iff split: if_splits)
next
  case False
  obtain i where i: "find_last (CHR ''/'') (trim field) = Some i"
    using False find_last_None [of "CHR ''/''" "trim field"] by (cases "find_last (CHR ''/'') (trim field)") auto
  obtain pre post where split: "trim field = pre @ CHR ''/'' # post" "CHR ''/'' \<notin> set post" and il: "i = length pre"
    by (rule find_last_split [OF i])
  obtain t as where t: "map_of S (if trim post = [] then name else trim post) = Some t"
    and as: "action_loop A (length pre + Suc (length post)) (length pre) (pre @ CHR ''/'' # post, False) = Inr as"
    and s': "s' = s\<lparr>transitions := AList.update ev t (transitions s), fsm_actions := AList.update ev as (fsm_actions s)\<rparr>"
    using p i by (auto simp: parse_cell_def Let_def result_bind_Inr_iff split(1) il)
  have "pre \<noteq> [] \<longrightarrow> result_map (ids_at A \<circ> trim) (stream_fields (CHR ''/'') (pre, False)) = Inr as"
    using action_loop_eq [OF split(2), of pre "length pre + Suc (length post)" 0 "length pre" A] as by simp
  moreover have "getNextState s' ev = t" "getActions s' ev = as"
    using s' by (simp_all add: getNextState_def getActions_def update_conv')
  ultimately have "\<exists>p q. trim field = p @ CHR ''/'' # q \<and> CHR ''/'' \<notin> set q \<and>
      map_of S (if trim q = [] then name else trim q) = Some (getNextState s' ev) \<and>
      (p \<noteq> [] \<longrightarrow> result_map (ids_at A \<circ> trim) (stream_fields (CHR ''/'') (p, False)) = Inr (getActions s' ev))"
    using split t by (intro exI [of _ pre] exI [of _ post] conjI) simp_all
  moreover have "trim field \<noteq> []" "\<not> CHR ''/'' \<notin> set (trim field)" using False by auto
  ultimately have "cell_means A S name own (trim field) (getNextState s' ev) (getActions s' ev)"
    by (simp only: cell_means_def if_False)
  then show ?thesis using s' by (simp add: update_conv')
qed


lemma parse_cells_mean:
  assumes "parse_cells A S name ev cells s = Inr s'" and own: "map_of S name = Some own"
    and "\<forall>e \<ge> ev. map_of (transitions s) e = None \<and> map_of (fsm_actions s) e = None"
  shows "(\<forall>i < length cells. cell_means A S name own (trim (cells ! i))
       (getNextState s' (ev + int i)) (getActions s' (ev + int i))) \<and>
    (\<forall>e. e < ev \<or> ev + int (length cells) \<le> e \<longrightarrow>
       map_of (transitions s') e = map_of (transitions s) e \<and> map_of (fsm_actions s') e = map_of (fsm_actions s) e) \<and>
    m_own_state s' = m_own_state s \<and> stable s' = stable s \<and> is_data_valid s' = is_data_valid s"
  using assms(1,3)
proof (induction cells arbitrary: ev s)
  case Nil
  then show ?case by simp
next
  case (Cons c cells)
  obtain s1 where s1: "parse_cell A S name ev c s = Inr s1" and rest: "parse_cells A S name (ev + 1) cells s1 = Inr s'"
    using Cons.prems(1) by auto
  note c1 = parse_cell_means [OF s1 own]
  have fresh: "map_of (transitions s) ev = None" "map_of (fsm_actions s) ev = None" using Cons.prems(2) by simp_all
  note c2 = c1 [OF fresh]
  have "\<forall>e \<ge> ev + 1. map_of (transitions s1) e = None \<and> map_of (fsm_actions s1) e = None"
    using c2 Cons.prems(2) by auto
  note IH = Cons.IH [OF rest this]
  have ev_kept: "getNextState s' ev = getNextState s1 ev" "getActions s' ev = getActions s1 ev"
    using IH by (auto simp: getNextState_def getActions_def split: option.splits)
  have "cell_means A S name own (trim ((c # cells) ! i)) (getNextState s' (ev + int i)) (getActions s' (ev + int i))"
    if "i < length (c # cells)" for i
  proof (cases i)
    case 0
    then show ?thesis using c2 ev_kept by simp
  next
    case (Suc j)
    then show ?thesis using IH that by (simp add: algebra_simps)
  qed
  then show ?case using IH c2 by auto
qed

lemma stream_fields_Cons:
  assumes "stream_fields d is = x # xs"
  obtains is' where "\<And>s. getline d is s = (is', x, True)" "stream_fields d is' = xs"
proof -
  obtain is' f ok where g: "getline d is [] = (is', f, ok)" by (cases "getline d is []")
  then have "ok" "f = x" "stream_fields d is' = xs"
    using assms by (simp_all add: stream_fields.simps [of d "is"] split: if_splits)
  moreover have "getline d is s = getline d is []" for s
    using g \<open>ok\<close> by (cases "is") (auto simp: getline_def Let_def split: if_splits list.splits)
  ultimately show ?thesis using that [of is'] g by auto
qed

text \<open>
  A row of a table is read cell by cell: the state's own number, whether it is stable and whether its data is
  valid come from the first three fields, the entry of event \<open>e\<close> means what the \<open>e\<close>-th cell
  after them says, and an event with no cell (a trailing empty cell is dropped by the reader) stays in the state
  without actions.
\<close>

lemma row_is_read_cellwise:
  assumes "new_FSMState A S line = Inr s"
    and "stream_fields (CHR '','') (line, False) = name # f2 # f3 # cells"
  shows "map_of S (trim name) = Some (m_own_state s) \<and> stable s = (atoi f2 = 1) \<and> is_data_valid s = (atoi f3 = 1) \<and>
    (\<forall>i < length cells. cell_means A S (trim name) (m_own_state s) (trim (cells ! i))
       (getNextState s (int i)) (getActions s (int i))) \<and>
    (\<forall>e. e < 0 \<or> int (length cells) \<le> e \<longrightarrow> getNextState s e = m_own_state s \<and> getActions s e = [])"
proof -
  obtain is1 where g1: "\<And>s. getline (CHR '','') (line, False) s = (is1, name, True)"
    and r1: "stream_fields (CHR '','') is1 = f2 # f3 # cells"
    using stream_fields_Cons [OF assms(2)] by blast
  obtain is2 where g2: "\<And>s. getline (CHR '','') is1 s = (is2, f2, True)"
    and r2: "stream_fields (CHR '','') is2 = f3 # cells"
    using stream_fields_Cons [OF r1] by blast
  obtain is3 where g3: "\<And>s. getline (CHR '','') is2 s = (is3, f3, True)"
    and r3: "stream_fields (CHR '','') is3 = cells"
    using stream_fields_Cons [OF r2] by blast
  obtain own where own: "map_of S (trim name) = Some own"
    and cells: "parse_cells A S (trim name) 0 cells
      \<lparr> is_data_valid = (atoi f3 = 1), stable = (atoi f2 = 1), transitions = [], fsm_actions = [], m_own_state = own \<rparr> = Inr s"
    using assms(1) by (auto simp: new_FSMState_def g1 g2 g3 r3 Let_def result_bind_Inr_iff)
  note m = parse_cells_mean [OF cells own]
  have "m_own_state s = own" "stable s = (atoi f2 = 1)" "is_data_valid s = (atoi f3 = 1)" using m by simp_all
  moreover have "getNextState s e = own \<and> getActions s e = []" if "e < 0 \<or> int (length cells) \<le> e" for e
    using m that by (auto simp: getNextState_def getActions_def)
  ultimately show ?thesis using m own by simp
qed

definition example_actions :: ids where
  "example_actions = [(''Stall'', 0), (''Hit'', 1), (''Data2Both'', 6)]"

definition example_states :: ids where
  "example_states = [(''I'', 0), (''IM_dS'', 9), (''S'', 11)]"

lemma row_is_read_cellwise_witness:
  "\<exists>s. new_FSMState example_actions example_states ''IM_dS, 0, 1, Stall/, , Hit/Data2Both/S,'' = Inr s \<and>
     m_own_state s = 9 \<and> getNextState s 7 = 9 \<and> getActions s 7 = []"
proof -
  have f: "stream_fields (CHR '','') (''IM_dS, 0, 1, Stall/, , Hit/Data2Both/S,'', False)
      = [''IM_dS'', '' 0'', '' 1'', '' Stall/'', '' '', '' Hit/Data2Both/S'']"
    by code_simp
  have "case new_FSMState example_actions example_states ''IM_dS, 0, 1, Stall/, , Hit/Data2Both/S,'' of
      Inl e \<Rightarrow> False | Inr s \<Rightarrow> True" by code_simp
  then obtain s where s: "new_FSMState example_actions example_states ''IM_dS, 0, 1, Stall/, , Hit/Data2Both/S,'' = Inr s"
    by (rule case_InrE)
  have "map_of example_states (trim ''IM_dS'') = Some 9" by code_simp
  with row_is_read_cellwise [OF s f] s show ?thesis by auto
qed

end
