(* ===== verification/ProcessingQueue.thy ===== *)
theory ProcessingQueue
  imports Arbiters
begin

text \<open>
  The processing queue of the controllers, header/FRFCFS_Buffer.h (first ready, first come first serve), on
  messages, which is what all its users store. The owner's check-state callback and the hold function are
  arguments: the callback gets the queued message by reference and may return it changed. The
  locale \<open>line_fifo\<close> states what the per-line order gives a controller.
\<close>

section \<open>State and operations\<close>

datatype FRFCFS_State = Ready | NonReady | NeedsAction | Waiting

record element =
  item :: message
  el_state :: FRFCFS_State

record frfcfs =
  m_buffer :: "element list"
  m_max_size :: int
  m_line_mask :: u64
  m_readiness_state_only :: bool
  m_dirty :: bool

definition new_FRFCFS :: "int \<Rightarrow> u64 \<Rightarrow> bool \<Rightarrow> frfcfs" where
  "new_FRFCFS max_size line_mask readiness_state_only =
     \<lparr> m_buffer = [], m_max_size = max_size, m_line_mask = line_mask,
       m_readiness_state_only = readiness_state_only, m_dirty = True \<rparr>"

definition new_element :: "message \<Rightarrow> FRFCFS_State \<Rightarrow> element" where
  "new_element m st = \<lparr> item = m, el_state = st \<rparr>"

definition pushBack :: "message \<Rightarrow> FRFCFS_State \<Rightarrow> bool \<Rightarrow> frfcfs \<Rightarrow> frfcfs \<times> bool" where
  "pushBack m st force q =
     (if \<not> force \<and> st \<noteq> Ready \<and> m_max_size q \<noteq> - 1 \<and> m_max_size q \<le> int (length (m_buffer q))
      then (q, False)
      else (q\<lparr>m_buffer := m_buffer q @ [new_element m st], m_dirty := True\<rparr>, True))"

text \<open>One past the last element from the same side, 0 when there is none.\<close>

definition ordered_position :: "message \<Rightarrow> element list \<Rightarrow> nat" where
  "ordered_position m es =
     (case first_index (\<lambda>e. msg_source (item e) = msg_source m) (rev es) of
        None \<Rightarrow> 0 | Some k \<Rightarrow> length es - k)"

definition pushFrontOrdered :: "message \<Rightarrow> frfcfs \<Rightarrow> frfcfs \<times> bool" where
  "pushFrontOrdered m q =
     (q\<lparr>m_buffer := insert_at (ordered_position m (m_buffer q)) (new_element m Ready) (m_buffer q),
        m_dirty := True\<rparr>, True)"

definition pushFront :: "message \<Rightarrow> frfcfs \<Rightarrow> frfcfs \<times> bool" where
  "pushFront m q = (q\<lparr>m_buffer := insert_at 0 (new_element m Ready) (m_buffer q), m_dirty := True\<rparr>, True)"

text \<open>Messages under per-line order.\<close>

definition line_ordered :: "message \<Rightarrow> bool" where
  "line_ordered m \<longleftrightarrow> isDemandRequest m \<or> isInvalidation m"

definition blocked_by_older :: "u64 \<Rightarrow> element list \<Rightarrow> message \<Rightarrow> bool" where
  "blocked_by_older line_mask older m \<longleftrightarrow>
     line_mask \<noteq> 0 \<and> line_ordered m \<and>
     (\<exists>e\<in>set older. line_ordered (item e) \<and> (addr (item e) XOR addr m) AND line_mask = 0)"

type_synonym check_state = "message \<Rightarrow> FRFCFS_State \<Rightarrow> (message \<times> FRFCFS_State) result"

text \<open>
  The scan of \<open>getFirstReady\<close>: \<open>older\<close> are the elements before index \<open>i\<close>, already with their
  new states.
\<close>

fun scan_ready ::
  "check_state \<Rightarrow> (message \<Rightarrow> bool) option \<Rightarrow> u64 \<Rightarrow> element list \<Rightarrow> element list
   \<Rightarrow> (message option \<times> element list) result" where
  "scan_ready check hold line_mask older [] = Inr (None, older)"
| "scan_ready check hold line_mask older (e # es) =
     (if (case hold of None \<Rightarrow> False | Some h \<Rightarrow> h (item e))
      then scan_ready check hold line_mask (older @ [e]) es
      else if blocked_by_older line_mask older (item e)
      then scan_ready check hold line_mask (older @ [e]) es
      else result_bind (if el_state e = Ready then Inr (item e, Ready) else check (item e) (el_state e))
        (\<lambda>(m, st).
           if st = Ready then Inr (Some m, older @ es)
           else if st = NeedsAction then Inr (Some m, older @ \<lparr>item = m, el_state = Waiting\<rparr> # es)
           else scan_ready check hold line_mask (older @ [\<lparr>item = m, el_state = st\<rparr>]) es))"

definition getFirstReady ::
  "check_state \<Rightarrow> (message \<Rightarrow> bool) option \<Rightarrow> frfcfs \<Rightarrow> (frfcfs \<times> message option) result" where
  "getFirstReady check hold q =
     (if m_readiness_state_only q \<and> \<not> m_dirty q then Inr (q, None)
      else if m_buffer q = [] then Inr (q\<lparr>m_dirty := False\<rparr>, None)
      else result_bind (scan_ready check hold (m_line_mask q) [] (m_buffer q))
        (\<lambda>(r, es). Inr (case r of
            Some m \<Rightarrow> (q\<lparr>m_buffer := es\<rparr>, Some m)
          | None \<Rightarrow> (q\<lparr>m_buffer := es, m_dirty := False\<rparr>, None))))"

definition markDirty :: "frfcfs \<Rightarrow> frfcfs" where
  "markDirty q = q\<lparr>m_dirty := True\<rparr>"

definition queue_size :: "frfcfs \<Rightarrow> int" where
  "queue_size q = int (length (m_buffer q))"

definition countIf :: "(message \<Rightarrow> bool) \<Rightarrow> frfcfs \<Rightarrow> int" where
  "countIf P q = int (length (filter (\<lambda>e. P (item e)) (m_buffer q)))"

section \<open>The scan\<close>

text \<open>
  The coherence protocols' callback: ready or not, as a function of the line's state and the message; the
  message is returned as it is.
\<close>

definition pure_check :: "(message \<Rightarrow> bool) \<Rightarrow> check_state" where
  "pure_check ready m st = Inr (m, if ready m then Ready else NonReady)"

lemma blocked_by_older_items:
  "blocked_by_older w older m \<longleftrightarrow>
   w \<noteq> 0 \<and> line_ordered m \<and> (\<exists>x\<in>set (map item older). line_ordered x \<and> (addr x XOR addr m) AND w = 0)"
  by (auto simp: blocked_by_older_def)

lemma blocked_by_older_cong:
  "map item older = map item older' \<Longrightarrow> blocked_by_older w older m = blocked_by_older w older' m"
  unfolding blocked_by_older_items by (simp only:)

lemma scan_ready_spec:
  assumes "scan_ready (pure_check ready) hold w older es = Inr (r, es')"
  shows "case r of
      None \<Rightarrow> map item es' = map item (older @ es)
    | Some m \<Rightarrow> \<exists>ys e zs. es = ys @ e # zs \<and> item e = m \<and>
        map item es' = map item (older @ ys @ zs) \<and> \<not> blocked_by_older w (older @ ys) m"
  using assms
proof (induction es arbitrary: older)
  case Nil
  then show ?case by auto
next
  case (Cons e es)
  have pc: "pure_check ready (item e) st = Inr (item e, if ready (item e) then Ready else NonReady)" for st
    by (simp add: pure_check_def)
  have skip: ?case
    if s: "scan_ready (pure_check ready) hold w (older @ [e']) es = Inr (r, es')" and e': "item e' = item e" for e'
  proof (cases r)
    case None
    then show ?thesis using Cons.IH [OF s] e' by simp
  next
    case (Some m)
    with Cons.IH [OF s] obtain ys x zs where x: "es = ys @ x # zs" "item x = m"
      "map item es' = map item ((older @ [e']) @ ys @ zs)" "\<not> blocked_by_older w ((older @ [e']) @ ys) m"
      by auto
    have "\<not> blocked_by_older w (older @ e # ys) m"
      using x(4) blocked_by_older_cong [of "(older @ [e']) @ ys" "older @ e # ys" w m] e' by simp
    then show ?thesis
      unfolding Some option.case
      by (intro exI [of _ "e # ys"] exI [of _ x] exI [of _ zs] conjI) (use x e' in simp_all)
  qed
  let ?held = "case hold of None \<Rightarrow> False | Some h \<Rightarrow> h (item e)"
  consider (held) ?held | (blocked) "\<not> ?held" "blocked_by_older w older (item e)"
    | (check) "\<not> ?held" "\<not> blocked_by_older w older (item e)" by blast
  then show ?case
  proof cases
    case held
    then have "scan_ready (pure_check ready) hold w (older @ [e]) es = Inr (r, es')"
      using Cons.prems by simp
    then show ?thesis by (rule skip) simp
  next
    case blocked
    then have "scan_ready (pure_check ready) hold w (older @ [e]) es = Inr (r, es')"
      using Cons.prems by simp
    then show ?thesis by (rule skip) simp
  next
    case check
    show ?thesis
    proof (cases "el_state e = Ready \<or> ready (item e)")
      case True
      then have "r = Some (item e)" "es' = older @ es"
        using check Cons.prems by (auto simp: pc split: if_splits)
      then show ?thesis
        using check by simp (rule exI [of _ "[]"], rule exI [of _ e], rule exI [of _ es], simp)
    next
      case False
      then have "scan_ready (pure_check ready) hold w (older @ [\<lparr>item = item e, el_state = NonReady\<rparr>]) es = Inr (r, es')"
        using check Cons.prems by (simp add: pc)
      then show ?thesis by (rule skip) simp
    qed
  qed
qed

lemma scan_ready_total: "\<exists>r. scan_ready (pure_check ready) hold w older es = Inr r"
  by (induction es arbitrary: older) (auto simp: pure_check_def)

text \<open>A fruitless scan changes nothing that a second scan would look at.\<close>

lemma scan_ready_fruitless:
  assumes "scan_ready (pure_check ready) hold w older es = Inr (None, es')"
    and "map item older = map item older2"
  shows "\<exists>es2. es' = older @ es2 \<and> map item es2 = map item es \<and>
    scan_ready (pure_check ready) hold w older2 es2 = Inr (None, older2 @ es2)"
  using assms
proof (induction es arbitrary: older older2)
  case Nil
  then show ?case by simp
next
  case (Cons e es)
  let ?e = "\<lparr>item = item e, el_state = NonReady\<rparr>"
  let ?held = "case hold of None \<Rightarrow> False | Some h \<Rightarrow> h (item e)"
  note block = blocked_by_older_cong [OF Cons.prems(2), of w "item e"]
  consider (wait) "?held \<or> blocked_by_older w older (item e)"
    | (check) "\<not> ?held" "\<not> blocked_by_older w older (item e)" by blast
  then show ?case
  proof cases
    case wait
    then have "scan_ready (pure_check ready) hold w (older @ [e]) es = Inr (None, es')"
      using Cons.prems(1) by (auto split: if_splits)
    from Cons.IH [OF this, of "older2 @ [e]"] Cons.prems(2) obtain es2 where
      "es' = (older @ [e]) @ es2" "map item es2 = map item es"
      "scan_ready (pure_check ready) hold w (older2 @ [e]) es2 = Inr (None, (older2 @ [e]) @ es2)"
      by auto
    then show ?thesis using wait block by (intro exI [of _ "e # es2"]) auto
  next
    case check
    have pc: "pure_check ready (item e) st = Inr (item e, if ready (item e) then Ready else NonReady)" for st
      by (simp add: pure_check_def)
    have nr: "el_state e \<noteq> Ready" "\<not> ready (item e)"
      using Cons.prems(1) check by (auto simp: pc split: if_splits)
    then have "scan_ready (pure_check ready) hold w (older @ [?e]) es = Inr (None, es')"
      using check Cons.prems(1) by (simp add: pc)
    from Cons.IH [OF this, of "older2 @ [?e]"] Cons.prems(2) obtain es2 where
      "es' = (older @ [?e]) @ es2" "map item es2 = map item es"
      "scan_ready (pure_check ready) hold w (older2 @ [?e]) es2 = Inr (None, (older2 @ [?e]) @ es2)"
      by auto
    then show ?thesis
      using check nr block by (intro exI [of _ "?e # es2"]) (auto simp: pc)
  qed
qed

section \<open>Per-line order\<close>

lemma same_line_iff: "(x XOR y) AND w = (0 :: u64) \<longleftrightarrow> x AND w = y AND w"
  by (auto simp: bit_eq_iff bit_simps)

lemma ordered_position_le: "ordered_position m es \<le> length es"
  by (simp add: ordered_position_def split: option.splits)

lemma ordered_position_last:
  "e \<in> set (drop (ordered_position m es) es) \<Longrightarrow> msg_source (item e) \<noteq> msg_source m"
proof -
  assume e: "e \<in> set (drop (ordered_position m es) es)"
  show ?thesis
  proof (cases "first_index (\<lambda>e. msg_source (item e) = msg_source m) (rev es)")
    case None
    then have "\<forall>x\<in>set es. msg_source (item x) \<noteq> msg_source m"
      by (simp add: first_index_None_iff)
    then show ?thesis using e in_set_dropD by fast
  next
    case (Some k)
    then have k: "k < length es" "\<And>j. j < k \<Longrightarrow> msg_source (item (rev es ! j)) \<noteq> msg_source m"
      using first_index_SomeD [OF Some] by auto
    have "drop (length es - k) es = rev (take k (rev es))"
      by (simp add: rev_take)
    then have "e \<in> set (take k (rev es))" using e Some by (simp add: ordered_position_def)
    then obtain j where "j < k" "e = rev es ! j"
      using k(1) by (auto simp: in_set_conv_nth)
    then show ?thesis using k(2) by simp
  qed
qed

text \<open>
  \<open>pushFrontOrdered\<close> keeps the order of each side: the new message is the last one of its own side,
  and the messages of the other sides keep their order and none of them is lost.
\<close>

lemma pushFrontOrdered_keeps_side_order:
  "filter (\<lambda>x. msg_source x = s) (map item (m_buffer (fst (pushFrontOrdered m q))))
   = filter (\<lambda>x. msg_source x = s) (map item (m_buffer q)) @ (if msg_source m = s then [m] else [])"
proof -
  let ?p = "ordered_position m (m_buffer q)"
  have split: "map item (m_buffer q) = map item (take ?p (m_buffer q)) @ map item (drop ?p (m_buffer q))"
    by (simp flip: map_append)
  have "filter (\<lambda>x. msg_source x = msg_source m) (map item (drop ?p (m_buffer q))) = []"
    using ordered_position_last [of _ m "m_buffer q"] by (auto simp: filter_empty_conv)
  then show ?thesis
    unfolding split
    by (auto simp: pushFrontOrdered_def insert_at_def new_element_def)
qed

text \<open>
  What a queue promises to each of its clients: \<open>view q\<close> is the sequence of one client's messages inside the
  queue, \<open>in_view\<close> tells which messages belong to it. A push names its message (\<open>pushed\<close>) and may be
  refused.
\<close>

locale line_fifo =
  fixes get :: "'e \<Rightarrow> 'q \<Rightarrow> ('q \<times> message option) result"
    and push :: "'p \<Rightarrow> 'q \<Rightarrow> 'q \<times> bool"
    and pushed :: "'p \<Rightarrow> message"
    and wf :: "'q \<Rightarrow> bool"
    and in_view :: "message \<Rightarrow> bool"
    and view :: "'q \<Rightarrow> message list"
  assumes get_total: "\<exists>r. get e q = Inr r"
    and get_view: "wf q \<Longrightarrow> get e q = Inr (q', r) \<Longrightarrow> wf q' \<and>
          view q = (case r of Some m \<Rightarrow> if in_view m then [m] else [] | None \<Rightarrow> []) @ view q'"
    and push_view: "wf q \<Longrightarrow> push p q = (q', ok) \<Longrightarrow> wf q' \<and>
          view q' = view q @ (if ok \<and> in_view (pushed p) then [pushed p] else [])"

datatype ('p, 'e) line_op = LinePush 'p | LineGet 'e

text \<open>The messages that were accepted, those that came out, and the queue at the end.\<close>

fun line_run ::
  "('e \<Rightarrow> 'q \<Rightarrow> ('q \<times> message option) result) \<Rightarrow> ('p \<Rightarrow> 'q \<Rightarrow> 'q \<times> bool) \<Rightarrow> ('p \<Rightarrow> message) \<Rightarrow>
   ('p, 'e) line_op list \<Rightarrow> 'q \<Rightarrow> (message list \<times> message list \<times> 'q) result" where
  "line_run gt ps pm [] q = Inr ([], [], q)"
| "line_run gt ps pm (LinePush p # ops) q =
     (case ps p q of (q1, ok) \<Rightarrow>
        result_bind (line_run gt ps pm ops q1)
          (\<lambda>(ins, outs, q'). Inr (if ok then pm p # ins else ins, outs, q')))"
| "line_run gt ps pm (LineGet e # ops) q =
     result_bind (gt e q)
       (\<lambda>(q1, r). result_bind (line_run gt ps pm ops q1)
         (\<lambda>(ins, outs, q'). Inr (ins, (case r of None \<Rightarrow> outs | Some m \<Rightarrow> m # outs), q')))"

context line_fifo
begin

lemma run_fifo:
  "wf q \<Longrightarrow> \<exists>ins outs q'. line_run get push pushed ops q = Inr (ins, outs, q') \<and> wf q' \<and>
     filter in_view outs @ view q' = view q @ filter in_view ins"
proof (induction ops arbitrary: q)
  case (Cons op ops)
  show ?case
  proof (cases op)
    case (LinePush p)
    obtain q1 ok where q1: "push p q = (q1, ok)" by (cases "push p q")
    note P = push_view [OF Cons.prems q1]
    with Cons.IH obtain ins outs q' where "line_run get push pushed ops q1 = Inr (ins, outs, q')" "wf q'"
      "filter in_view outs @ view q' = view q1 @ filter in_view ins" by blast
    with P q1 LinePush show ?thesis by (cases ok) auto
  next
    case (LineGet e)
    obtain q1 r where g: "get e q = Inr (q1, r)" using get_total [of e q] by auto
    note G = get_view [OF Cons.prems g]
    with Cons.IH obtain ins outs q' where "line_run get push pushed ops q1 = Inr (ins, outs, q')" "wf q'"
      "filter in_view outs @ view q' = view q1 @ filter in_view ins" by blast
    with g G LineGet show ?thesis by (cases r) auto
  qed
qed simp

end

definition in_cache_line :: "u64 \<Rightarrow> u64 \<Rightarrow> message \<Rightarrow> bool" where
  "in_cache_line w a m \<longleftrightarrow> line_ordered m \<and> addr m AND w = a AND w"

definition line_view :: "u64 \<Rightarrow> frfcfs \<Rightarrow> message list" where
  "line_view a q = filter (in_cache_line (m_line_mask q) a) (map item (m_buffer q))"

lemma getFirstReady_pure_cases:
  obtains r q' where "getFirstReady (pure_check ready) hold q = Inr (q', r)"
    "m_line_mask q' = m_line_mask q" "m_max_size q' = m_max_size q"
    "case r of
       None \<Rightarrow> map item (m_buffer q') = map item (m_buffer q)
     | Some m \<Rightarrow> \<exists>ys e zs. m_buffer q = ys @ e # zs \<and> item e = m \<and>
         map item (m_buffer q') = map item (ys @ zs) \<and> \<not> blocked_by_older (m_line_mask q) ys m"
proof (cases "m_readiness_state_only q \<and> \<not> m_dirty q \<or> m_buffer q = []")
  case True
  then show thesis
    by (cases "m_readiness_state_only q \<and> \<not> m_dirty q")
      (rule that [of q None] that [of "q\<lparr>m_dirty := False\<rparr>" None]; simp add: getFirstReady_def)+
next
  case False
  obtain r es where s: "scan_ready (pure_check ready) hold (m_line_mask q) [] (m_buffer q) = Inr (r, es)"
    using scan_ready_total by (metis surj_pair)
  show thesis
  proof (rule that [of "case r of None \<Rightarrow> q\<lparr>m_buffer := es, m_dirty := False\<rparr> | Some m \<Rightarrow> q\<lparr>m_buffer := es\<rparr>" r])
    show "getFirstReady (pure_check ready) hold q = Inr
        (case r of None \<Rightarrow> q\<lparr>m_buffer := es, m_dirty := False\<rparr> | Some m \<Rightarrow> q\<lparr>m_buffer := es\<rparr>, r)"
      using s False by (cases r) (auto simp: getFirstReady_def)
  qed (use scan_ready_spec [OF s] in \<open>auto split: option.splits\<close>)
qed

text \<open>The message that leaves is the first one of its line that waits, whichever side it came from.\<close>

lemma taken_is_first_of_line:
  assumes "getFirstReady (pure_check ready) hold q = Inr (q', r)" and "m_line_mask q \<noteq> 0"
  shows "m_line_mask q' = m_line_mask q \<and>
    line_view a q = (case r of Some m \<Rightarrow> if in_cache_line (m_line_mask q) a m then [m] else [] | None \<Rightarrow> []) @ line_view a q'"
proof -
  have mask: "m_line_mask q' = m_line_mask q"
    and R: "case r of
       None \<Rightarrow> map item (m_buffer q') = map item (m_buffer q)
     | Some m \<Rightarrow> \<exists>ys e zs. m_buffer q = ys @ e # zs \<and> item e = m \<and>
         map item (m_buffer q') = map item (ys @ zs) \<and> \<not> blocked_by_older (m_line_mask q) ys m"
    by (rule getFirstReady_pure_cases [of ready hold q]; use assms(1) in simp)+
  show ?thesis
  proof (cases r)
    case None
    then show ?thesis using R mask by (simp add: line_view_def)
  next
    case (Some m)
    with R obtain ys x zs where x: "m_buffer q = ys @ x # zs" "item x = m"
      "map item (m_buffer q') = map item (ys @ zs)" "\<not> blocked_by_older (m_line_mask q) ys m" by auto
    have "filter (in_cache_line (m_line_mask q) a) (map item ys) = []" if "in_cache_line (m_line_mask q) a m"
      using x(4) that assms(2) by (auto simp: filter_empty_conv in_cache_line_def blocked_by_older_def same_line_iff)
    then show ?thesis using Some x mask by (auto simp: line_view_def)
  qed
qed

text \<open>
  The pushes of the controllers: a bus message goes in with \<open>pushFrontOrdered\<close>, everything else with
  \<open>pushBack\<close> (a demand request of the lower side with \<open>force\<close> off, so that a full queue refuses it; a
  stalled or unadmitted message goes back in the same way); the directory controller puts a message with data, and
  no other, in front with \<open>pushFront\<close> (CacheControllerDirectory.cpp:43).
\<close>

datatype queue_push = FrontOrdered message | Back message FRFCFS_State bool | DataFront message

fun push_step :: "queue_push \<Rightarrow> frfcfs \<Rightarrow> frfcfs \<times> bool" where
  "push_step (FrontOrdered m) q = pushFrontOrdered m q"
| "push_step (Back m st force) q = pushBack m st force q"
| "push_step (DataFront m) q = (if msg_data m \<noteq> None then pushFront m q else (q, False))"

fun pushed_message :: "queue_push \<Rightarrow> message" where
  "pushed_message (FrontOrdered m) = m"
| "pushed_message (Back m st force) = m"
| "pushed_message (DataFront m) = m"

text \<open>The messages of one line and one side, in the order they stand in the queue.\<close>

definition side_of_line :: "u64 \<Rightarrow> u64 \<Rightarrow> message_source \<Rightarrow> message \<Rightarrow> bool" where
  "side_of_line w a src m \<longleftrightarrow> in_cache_line w a m \<and> msg_source m = src"

definition side_view :: "u64 \<Rightarrow> message_source \<Rightarrow> frfcfs \<Rightarrow> message list" where
  "side_view a src q = filter (side_of_line (m_line_mask q) a src) (map item (m_buffer q))"

lemma side_of_line_eq: "side_of_line w a src = (\<lambda>m. msg_source m = src \<and> in_cache_line w a m)"
  by (auto simp: fun_eq_iff side_of_line_def)

lemma side_view_line_view: "side_view a src q = filter (\<lambda>m. msg_source m = src) (line_view a q)"
  by (simp add: side_view_def line_view_def side_of_line_eq conj_commute)

lemma side_view_sides:
  "side_view a src q = filter (in_cache_line (m_line_mask q) a) (filter (\<lambda>m. msg_source m = src) (map item (m_buffer q)))"
  by (simp add: side_view_def side_of_line_eq conj_commute)

interpretation frfcfs_line: line_fifo "\<lambda>(ready, hold) q. getFirstReady (pure_check ready) hold q"
    push_step pushed_message "\<lambda>q :: frfcfs. m_line_mask q = w \<and> w \<noteq> 0" "side_of_line w a src" "side_view a src" for w a src
proof
  fix e :: "(message \<Rightarrow> bool) \<times> (message \<Rightarrow> bool) option" and q :: frfcfs
  show "\<exists>r. (\<lambda>(ready, hold) q. getFirstReady (pure_check ready) hold q) e q = Inr r"
    by (cases e) (rule getFirstReady_pure_cases [of "fst e" "snd e" q], simp)
next
  fix e :: "(message \<Rightarrow> bool) \<times> (message \<Rightarrow> bool) option" and q q' :: frfcfs and r
  assume wf: "m_line_mask q = w \<and> w \<noteq> 0"
    and g: "(\<lambda>(ready, hold) q. getFirstReady (pure_check ready) hold q) e q = Inr (q', r)"
  then have "getFirstReady (pure_check (fst e)) (snd e) q = Inr (q', r)" by (simp add: case_prod_beta)
  from taken_is_first_of_line [OF this] wf
  show "(m_line_mask q' = w \<and> w \<noteq> 0) \<and>
      side_view a src q = (case r of Some m \<Rightarrow> if side_of_line w a src m then [m] else [] | None \<Rightarrow> []) @ side_view a src q'"
    by (auto simp: side_view_line_view side_of_line_def split: option.splits)
next
  fix q q' :: frfcfs and p ok
  assume "m_line_mask q = w \<and> w \<noteq> 0" and "push_step p q = (q', ok)"
  then show "(m_line_mask q' = w \<and> w \<noteq> 0) \<and>
      side_view a src q' = side_view a src q @ (if ok \<and> side_of_line w a src (pushed_message p) then [pushed_message p] else [])"
  proof (cases p)
    case (FrontOrdered m)
    then have q': "q' = fst (pushFrontOrdered m q)" "ok" "m_line_mask q' = m_line_mask q"
      using \<open>push_step p q = (q', ok)\<close> by (auto simp: pushFrontOrdered_def)
    show ?thesis
      using FrontOrdered q' \<open>m_line_mask q = w \<and> w \<noteq> 0\<close> pushFrontOrdered_keeps_side_order [of src m q]
      by (simp add: side_view_sides side_of_line_def)
  next
    case (Back m st force)
    then show ?thesis
      using \<open>m_line_mask q = w \<and> w \<noteq> 0\<close> \<open>push_step p q = (q', ok)\<close>
      by (auto simp: pushBack_def side_view_def new_element_def split: if_splits)
  next
    case (DataFront m)
    have "\<not> side_of_line w a src m" if "msg_data m \<noteq> None"
      using data_message_exempt [OF that] by (simp add: side_of_line_def in_cache_line_def line_ordered_def)
    then show ?thesis
      using DataFront \<open>m_line_mask q = w \<and> w \<noteq> 0\<close> \<open>push_step p q = (q', ok)\<close>
      by (auto simp: pushFront_def insert_at_def side_view_def new_element_def split: if_splits)
  qed
qed

section \<open>The rescan-skip optimisation\<close>

text \<open>
  The owner's state is \<open>'e\<close>. It changes when a returned message is processed (\<open>QGet\<close> carries the state
  after that) or elsewhere, and then the owner marks the queue dirty (\<open>QChange\<close>).
\<close>

datatype 'e queue_op =
    QPushBack message FRFCFS_State bool
  | QPushFrontOrdered message
  | QPushFront message
  | QChange 'e
  | QGet 'e

fun queue_run ::
  "('e \<Rightarrow> message \<Rightarrow> bool) \<Rightarrow> ('e \<Rightarrow> (message \<Rightarrow> bool) option) \<Rightarrow> 'e queue_op list \<Rightarrow> 'e \<Rightarrow> frfcfs
   \<Rightarrow> (message option list \<times> frfcfs) result" where
  "queue_run rd hld [] e q = Inr ([], q)"
| "queue_run rd hld (QPushBack m st force # ops) e q = queue_run rd hld ops e (fst (pushBack m st force q))"
| "queue_run rd hld (QPushFrontOrdered m # ops) e q = queue_run rd hld ops e (fst (pushFrontOrdered m q))"
| "queue_run rd hld (QPushFront m # ops) e q = queue_run rd hld ops e (fst (pushFront m q))"
| "queue_run rd hld (QChange e' # ops) e q = queue_run rd hld ops e' (markDirty q)"
| "queue_run rd hld (QGet e' # ops) e q =
     result_bind (getFirstReady (pure_check (rd e)) (hld e) q)
       (\<lambda>(q', r). result_bind (queue_run rd hld ops (if r = None then e else e') q')
         (\<lambda>(rs, q''). Inr (r # rs, q'')))"

text \<open>A clean queue is one whose scan finds nothing.\<close>

definition skip_inv :: "(message \<Rightarrow> bool) \<Rightarrow> (message \<Rightarrow> bool) option \<Rightarrow> frfcfs \<Rightarrow> frfcfs \<Rightarrow> bool" where
  "skip_inv ready hold q1 q2 \<longleftrightarrow>
     m_readiness_state_only q1 \<and> \<not> m_readiness_state_only q2 \<and>
     m_buffer q1 = m_buffer q2 \<and> m_line_mask q1 = m_line_mask q2 \<and> m_max_size q1 = m_max_size q2 \<and>
     (\<not> m_dirty q1 \<longrightarrow>
        scan_ready (pure_check ready) hold (m_line_mask q1) [] (m_buffer q1) = Inr (None, m_buffer q1))"

lemma skip_inv_get:
  assumes "skip_inv ready hold q1 q2"
  obtains r q1' q2' where "getFirstReady (pure_check ready) hold q1 = Inr (q1', r)"
    "getFirstReady (pure_check ready) hold q2 = Inr (q2', r)" "m_buffer q1' = m_buffer q2'"
    "r \<noteq> None \<Longrightarrow> skip_inv ready' hold' q1' q2'" "r = None \<Longrightarrow> skip_inv ready hold q1' q2'"
proof (cases "m_dirty q1")
  case False
  then have s: "scan_ready (pure_check ready) hold (m_line_mask q2) [] (m_buffer q2) = Inr (None, m_buffer q2)"
    using assms by (metis skip_inv_def)
  show thesis
    by (rule that [of q1 None "q2\<lparr>m_dirty := False\<rparr>"])
      (use False s assms in \<open>auto simp: getFirstReady_def skip_inv_def\<close>)
next
  case True
  show thesis
  proof (cases "m_buffer q1 = []")
    case empty: True
    show thesis
      by (rule that [of "q1\<lparr>m_dirty := False\<rparr>" None "q2\<lparr>m_dirty := False\<rparr>"])
        (use True empty assms in \<open>auto simp: getFirstReady_def skip_inv_def\<close>)
  next
    case False
    obtain r es where s: "scan_ready (pure_check ready) hold (m_line_mask q1) [] (m_buffer q1) = Inr (r, es)"
      using scan_ready_total by (metis surj_pair)
    show thesis
    proof (cases r)
      case None
      have "scan_ready (pure_check ready) hold (m_line_mask q1) [] es = Inr (None, es)"
        using scan_ready_fruitless [OF s [unfolded None], of "[]"] by auto
      then show thesis
        using True False s None assms
        by (intro that [of "q1\<lparr>m_buffer := es, m_dirty := False\<rparr>" None "q2\<lparr>m_buffer := es, m_dirty := False\<rparr>"])
          (auto simp: getFirstReady_def skip_inv_def)
    next
      case (Some m)
      then show thesis
        using True False s assms
        by (intro that [of "q1\<lparr>m_buffer := es\<rparr>" r "q2\<lparr>m_buffer := es\<rparr>"])
          (auto simp: getFirstReady_def skip_inv_def)
    qed
  qed
qed

lemma queue_run_skip:
  assumes "skip_inv (rd e) (hld e) q1 q2"
  shows "map_sum id (\<lambda>(rs, q). (rs, m_buffer q)) (queue_run rd hld ops e q1)
       = map_sum id (\<lambda>(rs, q). (rs, m_buffer q)) (queue_run rd hld ops e q2)"
  using assms
proof (induction rd hld ops e q1 arbitrary: q2 rule: queue_run.induct)
  case (1 rd hld e q)
  then show ?case by (simp add: skip_inv_def)
next
  case (2 rd hld m st force ops e q)
  have "skip_inv (rd e) (hld e) (fst (pushBack m st force q)) (fst (pushBack m st force q2))"
    using 2(2) by (auto simp: skip_inv_def pushBack_def)
  then show ?case using 2(1) by simp
next
  case (3 rd hld m ops e q)
  have "skip_inv (rd e) (hld e) (fst (pushFrontOrdered m q)) (fst (pushFrontOrdered m q2))"
    using 3(2) by (auto simp: skip_inv_def pushFrontOrdered_def)
  then show ?case using 3(1) by simp
next
  case (4 rd hld m ops e q)
  have "skip_inv (rd e) (hld e) (fst (pushFront m q)) (fst (pushFront m q2))"
    using 4(2) by (auto simp: skip_inv_def pushFront_def)
  then show ?case using 4(1) by simp
next
  case (5 rd hld e' ops e q)
  have "skip_inv (rd e') (hld e') (markDirty q) (markDirty q2)"
    using 5(2) by (auto simp: skip_inv_def markDirty_def)
  then show ?case using 5(1) by simp
next
  case (6 rd hld e' ops e q)
  obtain r q1' q2' where g: "getFirstReady (pure_check (rd e)) (hld e) q = Inr (q1', r)"
    "getFirstReady (pure_check (rd e)) (hld e) q2 = Inr (q2', r)"
    "r \<noteq> None \<Longrightarrow> skip_inv (rd e') (hld e') q1' q2'" "r = None \<Longrightarrow> skip_inv (rd e) (hld e) q1' q2'"
    by (rule skip_inv_get [OF 6(2), where ready' = "rd e'" and hold' = "hld e'"]) blast
  let ?e = "if r = None then e else e'"
  have "skip_inv (rd ?e) (hld ?e) q1' q2'" using g(3,4) by simp
  from 6(1) [OF this]
  show ?case
    using g(1,2)
    by (cases "queue_run rd hld ops ?e q1'"; cases "queue_run rd hld ops ?e q2'") auto
qed

section \<open>Properties\<close>

text \<open>
  C24. The messages under per-line order (demand requests and invalidations) of one cache line that came from the same
  side leave the processing queue in the order in which they were queued, whatever becomes ready when and whatever is
  held, and none is lost or duplicated: in any run of the controllers' pushes (\<open>pushFrontOrdered\<close> for a bus message,
  \<open>pushBack\<close>, forced or not, for the others, \<open>pushFront\<close> for the directory's data) and \<open>getFirstReady\<close> calls on a queue with a line mask, those of the
  side that came out followed by those still queued are those queued at the start followed by those accepted, in this
  order. The readiness test may be any that answers and leaves the message as it is (those of the protocols change no
  other messages than exclusive data, which is not under line order). Between the sides there is no such order: a bus
  message is put ahead of the core's waiting requests. A request that is taken and put back, because it stalls or is not
  admitted, is queued anew, behind the others.
\<close>

theorem line_requests_leave_in_order:
  assumes "m_line_mask q \<noteq> 0"
  shows "\<exists>ins outs q'.
     line_run (\<lambda>(ready, hold) q. getFirstReady (pure_check ready) hold q) push_step pushed_message ops q
       = Inr (ins, outs, q') \<and>
     filter (side_of_line (m_line_mask q) a src) outs @ side_view a src q'
     = side_view a src q @ filter (side_of_line (m_line_mask q) a src) ins"
  using frfcfs_line.run_fifo [of q "m_line_mask q" ops a src] assms by blast

text \<open>
  Two demands of line 0, of which only the second is ready, which waits for the first; an invalidation of the line from
  the bus; a third demand, which the full queue refuses. The invalidation leaves before both demands.
\<close>

definition example_line_ops :: "(queue_push, (message \<Rightarrow> bool) \<times> (message \<Rightarrow> bool) option) line_op list" where
  "example_line_ops =
     [LinePush (Back (example_message 1 3 0) NonReady False), LinePush (Back (example_message 2 4 1) NonReady False),
      LineGet (\<lambda>m. msg_id m = 2, None),
      LinePush (FrontOrdered ((example_message 3 5 1)\<lparr>msg_source := UPPER_INTERCONNECT, complementary_value := 10\<rparr>)),
      LinePush (Back (example_message 4 6 0) NonReady False),
      LineGet (\<lambda>m. True, None), LineGet (\<lambda>m. True, None)]"

theorem line_requests_leave_in_order_witness:
  "\<exists>ins outs q'.
     line_run (\<lambda>(ready, hold) q. getFirstReady (pure_check ready) hold q) push_step pushed_message
       example_line_ops (new_FRFCFS 2 (NOT 63) True) = Inr (ins, outs, q') \<and>
     map msg_id ins = [1, 2, 3] \<and> map msg_id outs = [3, 1] \<and>
     filter (side_of_line (NOT 63) 0 LOWER_INTERCONNECT) outs @ side_view 0 LOWER_INTERCONNECT q'
     = filter (side_of_line (NOT 63) 0 LOWER_INTERCONNECT) ins"
proof -
  let ?run = "line_run (\<lambda>(ready, hold) q. getFirstReady (pure_check ready) hold q) push_step pushed_message
       example_line_ops (new_FRFCFS 2 (NOT 63) True)"
  have ids: "case ?run of Inl e \<Rightarrow> False
      | Inr x \<Rightarrow> map msg_id (fst x) = [1, 2, 3] \<and> map msg_id (fst (snd x)) = [3, 1]" by code_simp
  show ?thesis
    using line_requests_leave_in_order [of "new_FRFCFS 2 (NOT 63) True" example_line_ops 0 LOWER_INTERCONNECT] ids
    by (auto simp: new_FRFCFS_def side_view_def split: sum.splits)
qed

text \<open>
  C25. The rescan skip is sound: when readiness depends on the owner's state only, and the owner marks the
  queue dirty whenever it changes that state other than by processing a returned message, the queue with
  the optimisation returns the same messages at the same calls as the queue without it, and ends with the
  same contents.
\<close>

theorem rescan_skip_is_sound:
  shows "map_sum id (\<lambda>(rs, q). (rs, m_buffer q)) (queue_run rd hld ops e (new_FRFCFS max_size w True))
       = map_sum id (\<lambda>(rs, q). (rs, m_buffer q)) (queue_run rd hld ops e (new_FRFCFS max_size w False))"
  by (rule queue_run_skip) (simp add: skip_inv_def new_FRFCFS_def)

end
