(* ===== verification/SnoopProtocols.thy ===== *)
theory SnoopProtocols
  imports FSM ProcessingQueue
begin

text \<open>
  The snooping coherence protocols, src/Protocols: how a message becomes an event of the table
  (\<open>readEvent\<close>), whether it may run now (\<open>getRequestState\<close>), and the controller actions the table's
  row asks for (\<open>handleAction\<close>). A class that overrides a virtual call has a definition of its own; the
  dispatch of the virtual calls is by \<open>protocol_kind\<close>. The data handler is an argument.
\<close>

section \<open>Controller actions\<close>

datatype action_type =
    REMOVE_PENDING | HIT_Action | ADD_PENDING | SEND_BUS_MSG | WRITE_BACK | UPDATE_CACHE_LINE
  | WRITE_CACHE_LINE_DATA | MODIFY_DATA | SAVE_REQ_FOR_WRITE_BACK | NO_ACTION | REMOVE_SAVED_REQ
  | TIMER_ACTION | ADD_SHARER | REMOVE_SHARER | SEND_INV_MSG | STALL | ADD_DATA2MSG | SET_ACK_NUMBER
  | DECREMENT_ACK | INCREMENT_SHARERS | DECREMENT_SHARERS | SET_SHARERS | CLEAR_SHARERS
  | SEND_FWD_MESSAGE | REMOVE_PENDING_NORESPONSE

text \<open>
  \<open>data\<close> points to a message, followed by a line for \<open>UPDATE_CACHE_LINE\<close>; it is not set for
  \<open>NO_ACTION\<close>. A copied message is the message (its array has \<open>data_size\<close> bytes).
\<close>

record controller_action =
  ca_type :: action_type
  ca_msg :: "message option"
  ca_line :: "cache_line option"

definition action_on :: "action_type \<Rightarrow> message \<Rightarrow> controller_action" where
  "action_on t m = \<lparr> ca_type = t, ca_msg = Some m, ca_line = None \<rparr>"

definition no_action :: controller_action where
  "no_action = \<lparr> ca_type = NO_ACTION, ca_msg = None, ca_line = None \<rparr>"

section \<open>Private caches: MSI\<close>

datatype protocol_kind =
    SNOOP_MSI | SNOOP_MESI | SNOOP_MOESI | SNOOP_PMSI | SNOOP_PMESI | SNOOP_PMSI_ASTERISK
  | SNOOP_PMESI_ASTERISK | SNOOP_LLC_MSI | SNOOP_LLC_MESI | SNOOP_LLC_PMSI | SNOOP_LLC_PMESI

record protocol =
  p_kind :: protocol_kind
  m_id :: int
  m_shared_memory_id :: int
  m_fsm :: fsm_reader

datatype msi_event =
    Load | Store | Replacement | Own_GetS | Own_GetM | Own_PutM | Other_GetS | Other_GetM | Other_PutM
  | OwnData | Invalidation

fun event_num :: "msi_event \<Rightarrow> int" where
  "event_num Load = 0"
| "event_num Store = 1"
| "event_num Replacement = 2"
| "event_num Own_GetS = 3"
| "event_num Own_GetM = 4"
| "event_num Own_PutM = 5"
| "event_num Other_GetS = 6"
| "event_num Other_GetM = 7"
| "event_num Other_PutM = 8"
| "event_num OwnData = 9"
| "event_num Invalidation = 10"

datatype msi_action = Stall | Hit | GetS | GetM | PutM | Data2Req | Data2Both | SaveReq | Fault

text \<open>\<open>static_cast<ActionId>\<close>; \<open>None\<close> for a number no case of the switch has.\<close>

definition msi_action_of :: "int \<Rightarrow> msi_action option" where
  "msi_action_of a =
     (if 0 \<le> a \<and> a < 9
      then Some ([Stall, Hit, GetS, GetM, PutM, Data2Req, Data2Both, SaveReq, Fault] ! nat a) else None)"

definition MSI_readEvent :: "protocol \<Rightarrow> message \<Rightarrow> msi_event result" where
  "MSI_readEvent p msg =
     (case msg_source msg of
        LOWER_INTERCONNECT \<Rightarrow> Inr (if complementary_value msg = 0 then Load else Store)
      | SELF \<Rightarrow> if uint (owner msg) = m_id p then Inr Replacement
                else Inl (Exit ''LLCMSIDirectory: Invalid Transaction'')
      | UPPER_INTERCONNECT \<Rightarrow>
          if msg_data msg \<noteq> None then Inr OwnData
          else let own = (uint (owner msg) = m_id p) in
            if complementary_value msg = REQUEST_TYPE_GETS then Inr (if own then Own_GetS else Other_GetS)
            else if complementary_value msg = REQUEST_TYPE_GETM then Inr (if own then Own_GetM else Other_GetM)
            else if complementary_value msg = REQUEST_TYPE_PUTM then Inr (if own then Own_PutM else Other_PutM)
            else if complementary_value msg = REQUEST_TYPE_INV then Inr Invalidation
            else Inl (Exit ''MSIProtocol: Invalid Transaction detected on the Bus''))"

definition bus_message :: "protocol \<Rightarrow> message \<Rightarrow> u64 \<Rightarrow> message_kind \<Rightarrow> message" where
  "bus_message p msg cv k =
     (new_message (msg_id msg) (addr msg) 0 cv (word_of_int (m_id p)))
       \<lparr>msg_to := [word_of_int (m_shared_memory_id p)], msg_kind := k\<rparr>"

text \<open>The kind of a supply, from the message that triggers it.\<close>

definition supply_kind :: "message \<Rightarrow> message_kind" where
  "supply_kind msg =
     (if msg_data msg \<noteq> None then K_SUPPLY_DEFERRED
      else if complementary_value msg = REQUEST_TYPE_PUTM then K_WB_DATA
      else if complementary_value msg = REQUEST_TYPE_INV then K_WB_INV else K_SUPPLY)"

text \<open>One turn of the loop over the actions.\<close>

definition MSI_action_step ::
  "protocol \<Rightarrow> message \<Rightarrow> int \<Rightarrow> controller_action list \<Rightarrow> controller_action list result" where
  "MSI_action_step p msg a acc =
     (case msi_action_of a of
        None \<Rightarrow> Inl (Undefined ''uninitialised controller action'')
      | Some Stall \<Rightarrow> Inr (acc @ [action_on STALL msg])
      | Some Hit \<Rightarrow>
          Inr (acc @ [action_on (if msg_source msg = LOWER_INTERCONNECT then HIT_Action else REMOVE_PENDING) msg,
                      action_on MODIFY_DATA msg])
      | Some GetS \<Rightarrow>
          Inr (acc @ [action_on ADD_PENDING msg, action_on SEND_BUS_MSG (bus_message p msg REQUEST_TYPE_GETS K_GETS)])
      | Some GetM \<Rightarrow>
          Inr (acc @ [action_on ADD_PENDING msg, action_on SEND_BUS_MSG (bus_message p msg REQUEST_TYPE_GETM K_GETM)])
      | Some PutM \<Rightarrow> Inr (acc @ [action_on SEND_BUS_MSG (bus_message p msg REQUEST_TYPE_PUTM K_PUTM)])
      | Some Data2Req \<Rightarrow>
          Inr (action_on WRITE_BACK (msg\<lparr>msg_kind := supply_kind msg, msg_to := []\<rparr>) # acc)
      | Some Data2Both \<Rightarrow>
          Inr (action_on WRITE_BACK (msg\<lparr>msg_kind := supply_kind msg,
                                        msg_to := [word_of_int (m_shared_memory_id p)]\<rparr>) # acc)
      | Some SaveReq \<Rightarrow>
          Inr (acc @ [action_on SAVE_REQ_FOR_WRITE_BACK
                        (new_message (msg_id msg) (addr msg) 0 (complementary_value msg) (owner msg))])
      | Some Fault \<Rightarrow> Inl (Exit ''MSIProtocol: Fault Transaction is detected''))"

fun MSI_action_loop ::
  "protocol \<Rightarrow> message \<Rightarrow> int list \<Rightarrow> controller_action list \<Rightarrow> controller_action list result" where
  "MSI_action_loop p msg [] acc = Inr acc"
| "MSI_action_loop p msg (a # as) acc = result_bind (MSI_action_step p msg a acc) (MSI_action_loop p msg as)"

definition update_line_action :: "protocol \<Rightarrow> message \<Rightarrow> cache_line \<Rightarrow> int \<Rightarrow> controller_action result" where
  "update_line_action p msg line next_state =
     result_bind (isValidState (m_fsm p) next_state) (\<lambda>v.
       Inr \<lparr> ca_type = UPDATE_CACHE_LINE, ca_msg = Some msg,
             ca_line = Some (line\<lparr>valid := v, line_state := next_state\<rparr>) \<rparr>)"

definition MSI_handleAction ::
  "protocol \<Rightarrow> int list \<Rightarrow> message \<Rightarrow> cache_line \<Rightarrow> int \<Rightarrow> controller_action list result" where
  "MSI_handleAction p actions msg line next_state =
     result_bind (if actions \<noteq> [] \<and> actions ! 0 = 0 then Inr []
                  else result_bind (update_line_action p msg line next_state) (\<lambda>u. Inr [u]))
       (MSI_action_loop p msg actions)"

definition MSI_statesRequireWriteBack :: "fsm_reader \<Rightarrow> fsm_reader \<times> int list" where
  "MSI_statesRequireWriteBack r = (case getState ''M'' r of (r', i) \<Rightarrow> (r', [i]))"

section \<open>MESI, MOESI and the predictable variants\<close>

text \<open>Exclusive data clears the flag of the caller's message.\<close>

definition MESI_readEvent :: "protocol \<Rightarrow> message \<Rightarrow> (message \<times> int) result" where
  "MESI_readEvent p msg =
     result_bind (MSI_readEvent p msg) (\<lambda>e.
       if e = OwnData \<and> complementary_value msg = 2 then Inr (msg\<lparr>complementary_value := 0\<rparr>, 11)
       else Inr (msg, event_num e))"

definition msg_to_first :: "message \<Rightarrow> u16 result" where
  "msg_to_first msg = (case msg_to msg of [] \<Rightarrow> Inl (Undefined ''to[0]'') | t # _ \<Rightarrow> Inr t)"

definition PMSIAsterisk_readEvent :: "protocol \<Rightarrow> message \<Rightarrow> (message \<times> int) result" where
  "PMSIAsterisk_readEvent p msg =
     result_bind (MSI_readEvent p msg) (\<lambda>e.
       if e = OwnData
       then result_bind (msg_to_first msg) (\<lambda>t. Inr (msg, if uint t = m_shared_memory_id p then 9 else 10))
       else Inr (msg, event_num e))"

definition PMESIAsterisk_readEvent :: "protocol \<Rightarrow> message \<Rightarrow> (message \<times> int) result" where
  "PMESIAsterisk_readEvent p msg =
     result_bind (MESI_readEvent p msg) (\<lambda>(msg', e).
       if e = 9
       then result_bind (msg_to_first msg') (\<lambda>t. Inr (msg', if uint t = m_shared_memory_id p then 9 else 11))
       else if e = 11 then Inr (msg', 10)
       else Inr (msg', e))"

definition MESI_handleAction ::
  "protocol \<Rightarrow> int list \<Rightarrow> message \<Rightarrow> cache_line \<Rightarrow> int \<Rightarrow> controller_action list result" where
  "MESI_handleAction p actions msg line next_state =
     result_bind (MSI_handleAction p (remove1 9 actions) msg line next_state) (\<lambda>cas.
       Inr (if 9 \<in> set actions then cas @ [action_on REMOVE_SAVED_REQ msg] else cas))"

definition MESI_statesRequireWriteBack :: "fsm_reader \<Rightarrow> fsm_reader \<times> int list" where
  "MESI_statesRequireWriteBack r =
     (case MSI_statesRequireWriteBack r of (r', is) \<Rightarrow> case getState ''E'' r' of (r'', i) \<Rightarrow> (r'', is @ [i]))"

definition MOESI_statesRequireWriteBack :: "fsm_reader \<Rightarrow> fsm_reader \<times> int list" where
  "MOESI_statesRequireWriteBack r =
     (case MESI_statesRequireWriteBack r of (r', is) \<Rightarrow> case getState ''O'' r' of (r'', i) \<Rightarrow> (r'', is @ [i]))"

text \<open>PMSI and, with the same text, PMESI: \<open>PutM_nonDem\<close> is action 9.\<close>

definition PMSI_handleAction ::
  "protocol \<Rightarrow> int list \<Rightarrow> message \<Rightarrow> cache_line \<Rightarrow> int \<Rightarrow> controller_action list result" where
  "PMSI_handleAction p actions msg line next_state =
     result_bind (MSI_handleAction p (remove1 9 actions) msg line next_state) (\<lambda>cas.
       Inr (if 9 \<in> set actions then cas @ [action_on SEND_BUS_MSG (bus_message p msg 9 K_UNKNOWN)] else cas))"

definition PMESI_handleAction ::
  "protocol \<Rightarrow> int list \<Rightarrow> message \<Rightarrow> cache_line \<Rightarrow> int \<Rightarrow> controller_action list result" where
  "PMESI_handleAction p actions msg line next_state =
     result_bind (MSI_handleAction p (remove1 9 actions) msg line next_state) (\<lambda>cas.
       Inr (if 9 \<in> set actions then cas @ [action_on SEND_BUS_MSG (bus_message p msg 9 K_UNKNOWN)] else cas))"

section \<open>Shared cache\<close>

datatype llc_event =
    LLC_GetS | LLC_GetM | LLC_Replacement | PutM_fromOwner | PutM_fromNonOwner
  | Data_fromLowerInterface | Data_fromUpperInterface | Own_Invalidation

fun llc_event_num :: "llc_event \<Rightarrow> int" where
  "llc_event_num LLC_GetS = 0"
| "llc_event_num LLC_GetM = 1"
| "llc_event_num LLC_Replacement = 2"
| "llc_event_num PutM_fromOwner = 3"
| "llc_event_num PutM_fromNonOwner = 4"
| "llc_event_num Data_fromLowerInterface = 5"
| "llc_event_num Data_fromUpperInterface = 6"
| "llc_event_num Own_Invalidation = 7"

datatype llc_action =
    LLC_Stall | GetData | SendData | SaveData | SetOwner | ClearOwner | IssueInv | WriteBack | LLC_Fault

definition llc_action_of :: "int \<Rightarrow> llc_action option" where
  "llc_action_of a =
     (if 0 \<le> a \<and> a < 9
      then Some ([LLC_Stall, GetData, SendData, SaveData, SetOwner, ClearOwner, IssueInv, WriteBack, LLC_Fault] ! nat a)
      else None)"

text \<open>Several branches leave the event unset.\<close>

definition LLCMSI_readEvent :: "protocol \<Rightarrow> message \<Rightarrow> cache_line \<Rightarrow> llc_event result" where
  "LLCMSI_readEvent p msg line =
     (case msg_source msg of
        SELF \<Rightarrow> if uint (owner msg) = m_id p then Inr LLC_Replacement
                else Inl (Undefined ''LLCMSIProtocol: event not set'')
      | UPPER_INTERCONNECT \<Rightarrow> if msg_data msg \<noteq> None then Inr Data_fromUpperInterface
                             else Inl (Undefined ''LLCMSIProtocol: event not set'')
      | LOWER_INTERCONNECT \<Rightarrow>
          if msg_data msg \<noteq> None then Inr Data_fromLowerInterface
          else if complementary_value msg = REQUEST_TYPE_GETS then Inr LLC_GetS
          else if complementary_value msg = REQUEST_TYPE_GETM then Inr LLC_GetM
          else if complementary_value msg = REQUEST_TYPE_PUTM
          then Inr (if uint (owner msg) = m_id p then LLC_Replacement
                    else if uint (owner msg) = owner_id line then PutM_fromOwner else PutM_fromNonOwner)
          else if complementary_value msg = REQUEST_TYPE_INV
          then (if uint (owner msg) = m_id p then Inr Own_Invalidation
                else Inl (Undefined ''LLCMSIProtocol: event not set''))
          else Inl (Exit ''LLCMSIProtocol: Invalid Transaction detected on the Bus''))"

definition LLCMSI_action_step ::
  "protocol \<Rightarrow> message \<Rightarrow> int \<Rightarrow> cache_line \<times> controller_action list
   \<Rightarrow> (cache_line \<times> controller_action list) result" where
  "LLCMSI_action_step p msg a s =
     (case s of (line, acc) \<Rightarrow>
      case llc_action_of a of
        None \<Rightarrow> Inl (Undefined ''uninitialised controller action'')
      | Some LLC_Stall \<Rightarrow> Inl (Exit ''LLCMSIProtocol: Stall Transaction is detected'')
      | Some SendData \<Rightarrow>
          Inr (line, acc @ [action_on (if msg_source msg = LOWER_INTERCONNECT then HIT_Action else REMOVE_PENDING)
                              (msg\<lparr>msg_to := [owner msg], msg_kind := K_RESP\<rparr>)])
      | Some GetData \<Rightarrow>
          Inr (line, acc @ [action_on ADD_PENDING msg,
                            action_on SEND_BUS_MSG ((new_message (msg_id msg) (addr msg) 0 (word_of_int a) (owner msg))
                              \<lparr>msg_to := [word_of_int (m_shared_memory_id p)], msg_kind := K_MEM_READ\<rparr>)])
      | Some SetOwner \<Rightarrow> Inr (line\<lparr>owner_id := uint (owner msg)\<rparr>, acc @ [no_action])
      | Some ClearOwner \<Rightarrow> Inr (line\<lparr>owner_id := - 1\<rparr>, acc @ [no_action])
      | Some SaveData \<Rightarrow> Inr (line, acc @ [no_action])
      | Some IssueInv \<Rightarrow>
          Inr (line, acc @ [action_on SEND_INV_MSG
                              ((new_message (msg_id msg) (addr msg) 0 REQUEST_TYPE_INV (word_of_int (m_id p)))
                                 \<lparr>msg_to := [word_of_int (m_id p)], msg_kind := K_INV\<rparr>)])
      | Some WriteBack \<Rightarrow>
          (let m = new_message (msg_id msg) (addr msg) 0 0 (owner msg) in
           result_bind (case msg_data msg of None \<Rightarrow> Inr m | Some d \<Rightarrow> message_copy_data m d 64) (\<lambda>m'.
             Inr (line, acc @ [action_on WRITE_BACK (m'\<lparr>msg_kind := K_MEM_WRITE\<rparr>)])))
      | Some LLC_Fault \<Rightarrow> Inl (Exit ''LLCMSIProtocol: Fault Transaction is detected''))"

fun LLCMSI_action_loop ::
  "protocol \<Rightarrow> message \<Rightarrow> int list \<Rightarrow> cache_line \<times> controller_action list
   \<Rightarrow> (cache_line \<times> controller_action list) result" where
  "LLCMSI_action_loop p msg [] s = Inr s"
| "LLCMSI_action_loop p msg (a # as) s =
     result_bind (LLCMSI_action_step p msg a s) (LLCMSI_action_loop p msg as)"

definition LLCMSI_handleAction ::
  "protocol \<Rightarrow> int list \<Rightarrow> message \<Rightarrow> cache_line \<Rightarrow> int \<Rightarrow> controller_action list result" where
  "LLCMSI_handleAction p actions msg line next_state =
     result_bind (LLCMSI_action_loop p msg actions (line, [])) (\<lambda>(line', acc).
     result_bind (update_line_action p msg line' next_state) (\<lambda>u. Inr (acc @ [u])))"

definition exclusive_data :: "message \<Rightarrow> controller_action" where
  "exclusive_data msg =
     action_on (if msg_source msg = LOWER_INTERCONNECT then HIT_Action else REMOVE_PENDING)
       (msg\<lparr>msg_to := [owner msg], complementary_value := 2\<rparr>)"

definition LLCMESI_handleAction ::
  "protocol \<Rightarrow> int list \<Rightarrow> message \<Rightarrow> cache_line \<Rightarrow> int \<Rightarrow> controller_action list result" where
  "LLCMESI_handleAction p actions msg line next_state =
     result_bind (LLCMSI_handleAction p (remove1 9 actions) msg line next_state) (\<lambda>cas.
       Inr (if 9 \<in> set actions then cas @ [exclusive_data msg] else cas))"

definition LLCPMSI_handleAction ::
  "protocol \<Rightarrow> int list \<Rightarrow> message \<Rightarrow> cache_line \<Rightarrow> int \<Rightarrow> controller_action list result" where
  "LLCPMSI_handleAction p actions msg line next_state =
     result_bind (LLCMSI_handleAction p (remove1 9 actions) msg line next_state) (\<lambda>cas.
       Inr (if 9 \<in> set actions then cas @ [action_on ADD_PENDING msg] else cas))"

definition LLCPMESI_handleAction ::
  "protocol \<Rightarrow> int list \<Rightarrow> message \<Rightarrow> cache_line \<Rightarrow> int \<Rightarrow> controller_action list result" where
  "LLCPMESI_handleAction p actions msg line next_state =
     result_bind (LLCMSI_handleAction p (remove1 10 (remove1 9 actions)) msg line next_state) (\<lambda>cas.
       Inr (cas @ (if 9 \<in> set actions then [action_on ADD_PENDING msg] else [])
                @ (if 10 \<in> set (remove1 9 actions)
                   then [action_on REMOVE_PENDING (msg\<lparr>complementary_value := 2\<rparr>)] else [])))"

section \<open>The virtual calls\<close>

fun readEvent :: "protocol \<Rightarrow> message \<Rightarrow> cache_line \<Rightarrow> (message \<times> int) result" where
  "readEvent p msg line =
     (case p_kind p of
        SNOOP_MSI \<Rightarrow> result_bind (MSI_readEvent p msg) (\<lambda>e. Inr (msg, event_num e))
      | SNOOP_PMSI \<Rightarrow> result_bind (MSI_readEvent p msg) (\<lambda>e. Inr (msg, event_num e))
      | SNOOP_MESI \<Rightarrow> MESI_readEvent p msg
      | SNOOP_MOESI \<Rightarrow> MESI_readEvent p msg
      | SNOOP_PMESI \<Rightarrow> MESI_readEvent p msg
      | SNOOP_PMSI_ASTERISK \<Rightarrow> PMSIAsterisk_readEvent p msg
      | SNOOP_PMESI_ASTERISK \<Rightarrow> PMESIAsterisk_readEvent p msg
      | _ \<Rightarrow> result_bind (LLCMSI_readEvent p msg line) (\<lambda>e. Inr (msg, llc_event_num e)))"

fun handleAction ::
  "protocol \<Rightarrow> int list \<Rightarrow> message \<Rightarrow> cache_line \<Rightarrow> int \<Rightarrow> controller_action list result" where
  "handleAction p actions msg line next_state =
     (case p_kind p of
        SNOOP_MSI \<Rightarrow> MSI_handleAction p actions msg line next_state
      | SNOOP_PMSI_ASTERISK \<Rightarrow> MSI_handleAction p actions msg line next_state
      | SNOOP_MESI \<Rightarrow> MESI_handleAction p actions msg line next_state
      | SNOOP_MOESI \<Rightarrow> MESI_handleAction p actions msg line next_state
      | SNOOP_PMESI_ASTERISK \<Rightarrow> MESI_handleAction p actions msg line next_state
      | SNOOP_PMSI \<Rightarrow> PMSI_handleAction p actions msg line next_state
      | SNOOP_PMESI \<Rightarrow> PMESI_handleAction p actions msg line next_state
      | SNOOP_LLC_MSI \<Rightarrow> LLCMSI_handleAction p actions msg line next_state
      | SNOOP_LLC_MESI \<Rightarrow> LLCMESI_handleAction p actions msg line next_state
      | SNOOP_LLC_PMSI \<Rightarrow> LLCPMSI_handleAction p actions msg line next_state
      | SNOOP_LLC_PMESI \<Rightarrow> LLCPMESI_handleAction p actions msg line next_state)"

definition is_llc :: "protocol_kind \<Rightarrow> bool" where
  "is_llc k \<longleftrightarrow> k \<in> {SNOOP_LLC_MSI, SNOOP_LLC_MESI, SNOOP_LLC_PMSI, SNOOP_LLC_PMESI}"

text \<open>
  \<open>processRequest\<close> of the private caches and of the shared cache have the same text. The message is
  returned because the event decoder may change it.
\<close>

definition processRequest ::
  "protocol \<Rightarrow> cache \<Rightarrow> message \<Rightarrow> (message \<times> controller_action list) result" where
  "processRequest p c msg =
     result_bind (readLineBits (addr msg) new_line c) (\<lambda>(line, _).
     result_bind (readEvent p msg line) (\<lambda>(msg', ev).
     result_bind (getTransition (m_fsm p) (line_state line) ev) (\<lambda>(next_state, actions).
     result_bind (handleAction p actions msg' line next_state) (\<lambda>cas. Inr (msg', cas)))))"

text \<open>A table look-up that may add a name to the reader's map.\<close>

definition stall_check :: "protocol \<Rightarrow> int \<Rightarrow> int \<Rightarrow> (protocol \<times> bool) result" where
  "stall_check p st ev =
     result_bind (isStall st ev (m_fsm p)) (\<lambda>(r, stall). Inr (p\<lparr>m_fsm := r\<rparr>, stall))"

definition getRequestState ::
  "protocol \<Rightarrow> cache \<Rightarrow> message \<Rightarrow> (protocol \<times> message \<times> FRFCFS_State) result" where
  "getRequestState p c msg =
     result_bind (readLineBits (addr msg) new_line c) (\<lambda>(line, _).
     result_bind (readEvent p msg line) (\<lambda>(msg', ev).
       if is_llc (p_kind p) \<and> msg_data msg' \<noteq> None then Inr (p, msg', Ready)
       else result_bind (stall_check p (line_state line) ev) (\<lambda>(p', stall).
         Inr (p', msg', if stall then NonReady else Ready))))"

text \<open>The three names are tried in order, stopping at the first the row has.\<close>

fun has_any_action :: "fsm_reader \<Rightarrow> int \<Rightarrow> int \<Rightarrow> string list \<Rightarrow> bool result" where
  "has_any_action r st ev [] = Inr False"
| "has_any_action r st ev (n # ns) =
     result_bind (hasAction r st ev n) (\<lambda>b. if b then Inr True else has_any_action r st ev ns)"

definition needsDataArray :: "protocol \<Rightarrow> cache \<Rightarrow> message \<Rightarrow> bool result" where
  "needsDataArray p c msg =
     result_bind (readLineBits (addr msg) new_line c) (\<lambda>(line, _).
     result_bind (readEvent p msg line) (\<lambda>(_, ev).
       has_any_action (m_fsm p) (line_state line) ev
         (if is_llc (p_kind p) then [''SendData'', ''SendExeclusiveData'', ''SaveData'']
          else [''Hit'', ''Data2Req'', ''Data2Both''])))"

definition isReadableState :: "protocol \<Rightarrow> int \<Rightarrow> (protocol \<times> bool) result" where
  "isReadableState p st =
     (if is_llc (p_kind p) then Inr (p, False)
      else result_bind (isHit st (event_num Load) (m_fsm p)) (\<lambda>(r, b). Inr (p\<lparr>m_fsm := r\<rparr>, b)))"

text \<open>\<open>createDefaultCacheLine\<close>: empty for the private caches.\<close>

definition createDefaultCacheLine :: "protocol \<Rightarrow> cache \<Rightarrow> cache_line \<Rightarrow> protocol \<times> cache_line" where
  "createDefaultCacheLine p c line =
     (if \<not> is_llc (p_kind p) then (p, line)
      else case getState (if p_kind p \<in> {SNOOP_LLC_MSI, SNOOP_LLC_PMSI} then ''IorS'' else ''I'') (m_fsm p) of
        (r, st) \<Rightarrow> (p\<lparr>m_fsm := r\<rparr>, (initializeCacheLine c line)\<lparr>line_state := st, valid := True\<rparr>))"

text \<open>\<open>getNewProtocol\<close> for the snooping names; the directory protocols are another family.\<close>

definition snoop_protocol_named :: "string \<Rightarrow> protocol_kind option" where
  "snoop_protocol_named name =
     (if name = ''SNOOP_MSI'' then Some SNOOP_MSI
      else if name = ''SNOOP_LLC_MSI'' \<or> name = ''SNOOP_LLC_PMSI_ASTERISK'' then Some SNOOP_LLC_MSI
      else if name = ''SNOOP_MESI'' then Some SNOOP_MESI
      else if name = ''SNOOP_MOESI'' then Some SNOOP_MOESI
      else if name \<in> {''SNOOP_LLC_MESI'', ''SNOOP_LLC_MOESI'', ''SNOOP_LLC_PMESI_ASTERISK''} then Some SNOOP_LLC_MESI
      else if name = ''SNOOP_PMSI'' then Some SNOOP_PMSI
      else if name = ''SNOOP_LLC_PMSI'' then Some SNOOP_LLC_PMSI
      else if name = ''SNOOP_PMESI'' then Some SNOOP_PMESI
      else if name = ''SNOOP_LLC_PMESI'' then Some SNOOP_LLC_PMESI
      else if name = ''SNOOP_PMSI_ASTERISK'' then Some SNOOP_PMSI_ASTERISK
      else if name = ''SNOOP_PMESI_ASTERISK'' then Some SNOOP_PMESI_ASTERISK
      else None)"

definition new_protocol :: "protocol_kind \<Rightarrow> string option \<Rightarrow> int \<Rightarrow> int \<Rightarrow> protocol result" where
  "new_protocol k fsmFile cache_id shared_mem_id =
     result_bind (new_FSMReader fsmFile) (\<lambda>r.
       Inr \<lparr> p_kind = k, m_id = cache_id, m_shared_memory_id = shared_mem_id, m_fsm = r \<rparr>)"

end
