(* ===== verification/Coherence.thy ===== *)
theory Coherence
  imports SnoopProtocols
begin

text \<open>
  Coherence of the snooping protocols on the tables the simulator ships. A cache's copy of one line is run over any
  sequence of messages (\<open>protocol_run\<close>, the protocol's part of \<open>processRequest\<close>); the order of the
  requests on the bus gives every cache a permission; a table respects the permissions when a finite check of its
  rows succeeds, and then caches that saw the same order never hold conflicting stable states. The text of
  Protocols\_FSM/MSI\_splitBus\_snooping.csv is included and read with the model of the reader.
\<close>

section \<open>One line of one cache\<close>

text \<open>The line after the controller has run the \<open>UPDATE_CACHE_LINE\<close> action, if there is one.\<close>

definition updated_line :: "controller_action list \<Rightarrow> cache_line \<Rightarrow> cache_line" where
  "updated_line cas line =
     (case filter (\<lambda>a. ca_type a = UPDATE_CACHE_LINE) cas of
        [] \<Rightarrow> line
      | a # _ \<Rightarrow> (case ca_line a of None \<Rightarrow> line | Some l \<Rightarrow> l))"

definition line_step :: "protocol \<Rightarrow> message \<Rightarrow> cache_line \<Rightarrow> cache_line result" where
  "line_step p msg line =
     result_bind (readEvent p msg line) (\<lambda>(msg', ev).
     result_bind (getTransition (m_fsm p) (line_state line) ev) (\<lambda>(next_state, actions).
     result_bind (handleAction p actions msg' line next_state) (\<lambda>cas. Inr (updated_line cas line))))"

fun protocol_run :: "protocol \<Rightarrow> message list \<Rightarrow> cache_line \<Rightarrow> cache_line result" where
  "protocol_run p [] line = Inr line"
| "protocol_run p (m # ms) line = result_bind (line_step p m line) (protocol_run p ms)"

lemma protocol_run_append:
  "protocol_run p (ms @ ns) line = result_bind (protocol_run p ms line) (protocol_run p ns)"
  by (induction ms arbitrary: line) (auto simp: result_bind_def split: sum.splits)

text \<open>This is what \<open>processRequest\<close> does to the line the data handler holds.\<close>

lemma processRequest_line_step:
  assumes "readLineBits (addr msg) new_line c = Inr (line, b)" and "processRequest p c msg = Inr (msg', cas)"
  shows "line_step p msg line = Inr (updated_line cas line)"
  using assms by (auto simp: processRequest_def line_step_def result_bind_def split: sum.splits prod.splits)

text \<open>\<open>is_stalled\<close> is the test \<open>handleAction\<close> makes before it updates the line.\<close>

definition is_stalled :: "int list \<Rightarrow> bool" where
  "is_stalled actions \<longleftrightarrow> actions \<noteq> [] \<and> actions ! 0 = 0"

lemma MSI_action_step_updates:
  "MSI_action_step p msg a acc = Inr acc' \<Longrightarrow>
     filter (\<lambda>a. ca_type a = UPDATE_CACHE_LINE) acc' = filter (\<lambda>a. ca_type a = UPDATE_CACHE_LINE) acc \<and> a \<noteq> 8"
  by (auto simp: MSI_action_step_def action_on_def msi_action_of_def split: option.splits msi_action.splits if_splits)

lemma MSI_action_loop_updates:
  "MSI_action_loop p msg as acc = Inr acc' \<Longrightarrow>
     filter (\<lambda>a. ca_type a = UPDATE_CACHE_LINE) acc' = filter (\<lambda>a. ca_type a = UPDATE_CACHE_LINE) acc \<and> 8 \<notin> set as"
proof (induction as arbitrary: acc)
  case Nil
  then show ?case by simp
next
  case (Cons a as)
  obtain acc1 where "MSI_action_step p msg a acc = Inr acc1" "MSI_action_loop p msg as acc1 = Inr acc'"
    using Cons.prems by auto
  then show ?case using Cons.IH [of acc1] MSI_action_step_updates [of p msg a acc acc1] by auto
qed

lemma MSI_handleAction_line:
  assumes "MSI_handleAction p actions msg line next_state = Inr cas"
  shows "line_state (updated_line cas line) = (if is_stalled actions then line_state line else next_state) \<and> 8 \<notin> set actions"
proof -
  obtain acc where acc: "(if actions \<noteq> [] \<and> actions ! 0 = 0 then Inr []
                  else result_bind (update_line_action p msg line next_state) (\<lambda>u. Inr [u])) = Inr acc"
    and loop: "MSI_action_loop p msg actions acc = Inr cas"
    using assms unfolding MSI_handleAction_def by (auto simp: result_bind_Inr_iff)
  show ?thesis
    using acc MSI_action_loop_updates [OF loop]
    by (auto simp: updated_line_def is_stalled_def update_line_action_def result_bind_Inr_iff split: if_splits)
qed

section \<open>Permissions on the bus order\<close>

text \<open>
  What the order of the requests on the bus allows a cache: 0 nothing, 1 to read, 2 to write. A core's own
  request grants, the requests of others and the back-invalidation take away.
\<close>

definition grant :: "bool \<Rightarrow> u64 \<Rightarrow> nat \<Rightarrow> nat" where
  "grant own req k =
     (if req = REQUEST_TYPE_GETS then (if own then max k 1 else min k 1)
      else if req = REQUEST_TYPE_GETM then (if own then 2 else 0)
      else if req = REQUEST_TYPE_PUTM then (if own then 0 else k)
      else 0)"

definition permission :: "int \<Rightarrow> (u16 \<times> u64) list \<Rightarrow> nat" where
  "permission i order = fold (\<lambda>(k, req). grant (uint k = i) req) order 0"

lemma permission_snoc [simp]:
  "permission i [] = 0"
  "permission i (order @ [(k, req)]) = grant (uint k = i) req (permission i order)"
  by (simp_all add: permission_def)

text \<open>The order itself never lets one cache write while another may read.\<close>

lemma permission_exclusive:
  assumes "i \<noteq> j"
  shows "\<not> (permission i order = 2 \<and> 1 \<le> permission j order) \<and> permission i order \<le> 2 \<and>
    \<not> (permission j order = 2 \<and> 1 \<le> permission i order) \<and> permission j order \<le> 2"
proof (induction order rule: rev_induct)
  case Nil
  then show ?case by simp
next
  case (snoc x order)
  obtain k req where x: "x = (k, req)" by (cases x)
  show ?case
    using snoc.IH assms unfolding x
    by (auto simp: grant_def request_type_defs)
qed

definition bus_request :: "message \<Rightarrow> bool" where
  "bus_request m \<longleftrightarrow> msg_source m = UPPER_INTERCONNECT \<and> msg_data m = None"

definition bus_order :: "message list \<Rightarrow> (u16 \<times> u64) list" where
  "bus_order ms = map (\<lambda>m. (owner m, complementary_value m)) (filter bus_request ms)"

lemma bus_order_simps [simp]:
  "bus_order [] = []"
  "bus_order (ms @ ns) = bus_order ms @ bus_order ns"
  "bus_order (m # ms) = (if bus_request m then (owner m, complementary_value m) # bus_order ms else bus_order ms)"
  by (simp_all add: bus_order_def)

section \<open>Tables that respect the permissions\<close>

fun event_grant :: "msi_event \<Rightarrow> nat \<Rightarrow> nat" where
  "event_grant Own_GetS k = grant True REQUEST_TYPE_GETS k"
| "event_grant Own_GetM k = grant True REQUEST_TYPE_GETM k"
| "event_grant Own_PutM k = grant True REQUEST_TYPE_PUTM k"
| "event_grant Other_GetS k = grant False REQUEST_TYPE_GETS k"
| "event_grant Other_GetM k = grant False REQUEST_TYPE_GETM k"
| "event_grant Other_PutM k = grant False REQUEST_TYPE_PUTM k"
| "event_grant Invalidation k = grant False REQUEST_TYPE_INV k"
| "event_grant _ k = k"

lemma grant_mono: "j \<le> k \<Longrightarrow> grant own req j \<le> grant own req k"
  by (auto simp: grant_def)

lemma event_grant_mono: "j \<le> k \<Longrightarrow> event_grant e j \<le> event_grant e k"
  by (cases e) (auto simp: grant_mono)

text \<open>A stable state in which the core's load, or store, hits.\<close>

definition stable_hit :: "fsm_reader \<Rightarrow> int \<Rightarrow> msi_event \<Rightarrow> bool" where
  "stable_hit r st e \<longleftrightarrow> isStable r st = Inr True \<and>
     (case isHit st (event_num e) r of Inl err \<Rightarrow> False | Inr (r', b) \<Rightarrow> b)"

locale permission_table =
  fixes fsm :: fsm_reader and perm :: "int \<Rightarrow> nat"
  assumes perm_init: "perm 0 = 0"
    and perm_step: "getTransition fsm st (event_num e) = Inr (nxt, actions) \<Longrightarrow> 8 \<notin> set actions \<Longrightarrow>
      perm (if is_stalled actions then st else nxt) \<le> event_grant e (perm st)"
    and perm_read: "stable_hit fsm st Load \<Longrightarrow> 1 \<le> perm st"
    and perm_write: "stable_hit fsm st Store \<Longrightarrow> perm st = 2"
begin

lemma step_permission:
  assumes p: "p_kind p = SNOOP_MSI" "m_fsm p = fsm" and step: "line_step p m line = Inr line'"
    and le: "perm (line_state line) \<le> permission (m_id p) order"
  shows "perm (line_state line') \<le> permission (m_id p) (order @ bus_order [m])"
proof -
  obtain e nxt actions cas where ev: "MSI_readEvent p m = Inr e"
    and tr: "getTransition fsm (line_state line) (event_num e) = Inr (nxt, actions)"
    and h: "MSI_handleAction p actions m line nxt = Inr cas" and l': "line' = updated_line cas line"
    using step p by (auto simp: line_step_def result_bind_Inr_iff split: prod.splits)
  have "perm (line_state line') \<le> event_grant e (perm (line_state line))"
    using perm_step [OF tr] MSI_handleAction_line [OF h] l' by simp
  also have "\<dots> \<le> event_grant e (permission (m_id p) order)" using le by (rule event_grant_mono)
  also have "\<dots> = permission (m_id p) (order @ bus_order [m])"
    using ev by (auto simp: MSI_readEvent_def bus_request_def Let_def request_type_defs grant_def
        split: message_source.splits if_splits)
  finally show ?thesis .
qed

lemma run_permission:
  assumes p: "p_kind p = SNOOP_MSI" "m_fsm p = fsm" and run: "protocol_run p ms line = Inr line'"
    and le: "perm (line_state line) \<le> permission (m_id p) order"
  shows "perm (line_state line') \<le> permission (m_id p) (order @ bus_order ms)"
  using run le
proof (induction ms arbitrary: line order)
  case Nil
  then show ?case by simp
next
  case (Cons m ms)
  obtain line1 where l1: "line_step p m line = Inr line1" "protocol_run p ms line1 = Inr line'"
    using Cons.prems(1) by auto
  from Cons.IH [OF l1(2) step_permission [OF p l1(1) Cons.prems(2)]]
  show ?case by (auto split: if_splits)
qed

lemma single_writer:
  assumes "p_kind p = SNOOP_MSI" "m_fsm p = fsm" "p_kind q = SNOOP_MSI" "m_fsm q = fsm" "m_id p \<noteq> m_id q"
    and "protocol_run p ms new_line = Inr l" "protocol_run q ns new_line = Inr l'" "bus_order ms = bus_order ns"
  shows "\<not> (stable_hit fsm (line_state l) Store \<and> stable_hit fsm (line_state l') Load)"
proof -
  have init: "perm (line_state new_line) \<le> permission i []" for i by (simp add: new_line_def perm_init)
  have "perm (line_state l) \<le> permission (m_id p) (bus_order ms)"
    "perm (line_state l') \<le> permission (m_id q) (bus_order ms)"
    using run_permission [OF assms(1,2,6) init] run_permission [OF assms(3,4,7) init] assms(8) by simp_all
  then show ?thesis
    using permission_exclusive [OF assms(5), of "bus_order ms"] perm_write [of "line_state l"] perm_read [of "line_state l'"]
    by auto
qed

end

text \<open>A finite check of a table gives the contract.\<close>

definition perm_of :: "nat list \<Rightarrow> int \<Rightarrow> nat" where
  "perm_of ks st = (if 0 \<le> st \<and> nat st < length ks then ks ! nat st else 0)"

definition all_events :: "msi_event list" where
  "all_events = [Load, Store, Replacement, Own_GetS, Own_GetM, Own_PutM, Other_GetS, Other_GetM, Other_PutM,
     OwnData, Invalidation]"

lemma all_events: "e \<in> set all_events"
  by (cases e) (simp_all add: all_events_def)

definition row_respects :: "fsm_reader \<Rightarrow> nat list \<Rightarrow> int \<Rightarrow> bool" where
  "row_respects r ks st \<longleftrightarrow>
     list_all (\<lambda>e. case getTransition r st (event_num e) of
                     Inl err \<Rightarrow> False
                   | Inr (nxt, actions) \<Rightarrow> 8 \<in> set actions \<or>
                       perm_of ks (if is_stalled actions then st else nxt) \<le> event_grant e (perm_of ks st)) all_events \<and>
     (stable_hit r st Load \<longrightarrow> 1 \<le> perm_of ks st) \<and> (stable_hit r st Store \<longrightarrow> perm_of ks st = 2)"

definition table_respects :: "fsm_reader \<Rightarrow> nat list \<Rightarrow> bool" where
  "table_respects r ks \<longleftrightarrow> perm_of ks 0 = 0 \<and> list_all (row_respects r ks) (map int [0..<length (m_states r)])"

lemma state_row_range: "state_row r st = Inr s \<Longrightarrow> st \<in> set (map int [0..<length (m_states r)])"
  by (auto simp: state_row_def image_iff split: if_splits intro!: bexI [of _ "nat st"])

lemma permission_table_check:
  assumes "table_respects r ks"
  shows "permission_table r (perm_of ks)"
proof
  have row: "row_respects r ks st" if "state_row r st = Inr s" for st s
    using assms state_row_range [OF that] by (auto simp: table_respects_def list_all_iff)
  show "perm_of ks 0 = 0" using assms by (simp add: table_respects_def)
  show "perm_of ks (if is_stalled actions then st else nxt) \<le> event_grant e (perm_of ks st)"
    if tr: "getTransition r st (event_num e) = Inr (nxt, actions)" and nf: "8 \<notin> set actions" for st e nxt actions
  proof -
    obtain s where "state_row r st = Inr s" using tr by (auto simp: getTransition_def result_bind_Inr_iff)
    from row [OF this] all_events [of e] tr nf show ?thesis
      by (auto simp: row_respects_def list_all_iff split: prod.splits sum.splits)
  qed
  show "1 \<le> perm_of ks st" if h: "stable_hit r st Load" for st
  proof -
    obtain s where "state_row r st = Inr s" using h by (auto simp: stable_hit_def isStable_def result_bind_Inr_iff)
    from row [OF this] h show ?thesis by (simp add: row_respects_def)
  qed
  show "perm_of ks st = 2" if h: "stable_hit r st Store" for st
  proof -
    obtain s where "state_row r st = Inr s" using h by (auto simp: stable_hit_def isStable_def result_bind_Inr_iff)
    from row [OF this] h show ?thesis by (simp add: row_respects_def)
  qed
qed

section \<open>The table of Protocols\_FSM/MSI\_splitBus\_snooping.csv\<close>

definition MSI_lines :: "string list" where
  "MSI_lines = 
    [[CHR 0xEF] @ [CHR 0xBB] @ [CHR 0xBF] @ [CHR 0xEF] @ [CHR 0xBB] @ [CHR 0xBF] @ ''EventNum,Event,,,,,,,,,,,,'' @ [CHR 0x0D],
     ''0,Load,,,,,,,,,,,,'' @ [CHR 0x0D],
     ''1,Store,,,,,,,,,,,,'' @ [CHR 0x0D],
     ''2,Replacement,,,,,,,,,,,,'' @ [CHR 0x0D],
     ''3,Own_GetS,,,,,,,,,,,,'' @ [CHR 0x0D],
     ''4,Own_GetM,,,,,,,,,,,,'' @ [CHR 0x0D],
     ''5,Own_PutM,,,,,,,,,,,,'' @ [CHR 0x0D],
     ''6,Other_GetS,,,,,,,,,,,,'' @ [CHR 0x0D],
     ''7,Other_GetM,,,,,,,,,,,,'' @ [CHR 0x0D],
     ''8,Other_PutM,,,,,,,,,,,,'' @ [CHR 0x0D],
     ''9,OwnData,,,,,,,,,,,,'' @ [CHR 0x0D],
     ''10,Invalidation,,,,,,,,,,,,'' @ [CHR 0x0D],
     '',,,,,,,,,,,,,'' @ [CHR 0x0D],
     ''ActionNum,Action,,,,,,,,,,,,'' @ [CHR 0x0D],
     ''0,Stall,,,,,,,,,,,,'' @ [CHR 0x0D],
     ''1,Hit,,,,,,,,,,,,'' @ [CHR 0x0D],
     ''2,GetS,,,,,,,,,,,,'' @ [CHR 0x0D],
     ''3,GetM,,,,,,,,,,,,'' @ [CHR 0x0D],
     ''4,PutM,,,,,,,,,,,,'' @ [CHR 0x0D],
     ''5,Data2Req,,,,,,,,,,,,'' @ [CHR 0x0D],
     ''6,Data2Both,,,,,,,,,,,,'' @ [CHR 0x0D],
     ''7,SaveReq,,,,,,,,,,,,'' @ [CHR 0x0D],
     ''8,Fault,,,,,,,,,,,,'' @ [CHR 0x0D],
     '',,,,,,,,,,,,,'' @ [CHR 0x0D],
     ''StateNum,State,,,,,,,,,,,,'' @ [CHR 0x0D],
     ''0,I,,,,,,,,,,,,'' @ [CHR 0x0D],
     ''1,IS_ad,,,,,,,,,,,,'' @ [CHR 0x0D],
     ''2,IS_d,,,,,,,,,,,,'' @ [CHR 0x0D],
     ''3,IS_a,,,,,,,,,,,,'' @ [CHR 0x0D],
     ''4,IS_dI,,,,,,,,,,,,'' @ [CHR 0x0D],
     ''5,IM_ad,,,,,,,,,,,,'' @ [CHR 0x0D],
     ''6,IM_d,,,,,,,,,,,,'' @ [CHR 0x0D],
     ''7,IM_a,,,,,,,,,,,,'' @ [CHR 0x0D],
     ''8,IM_dI,,,,,,,,,,,,'' @ [CHR 0x0D],
     ''9,IM_dS,,,,,,,,,,,,'' @ [CHR 0x0D],
     ''10,IM_dSI,,,,,,,,,,,,'' @ [CHR 0x0D],
     ''11,S,,,,,,,,,,,,'' @ [CHR 0x0D],
     ''12,SM_ad,,,,,,,,,,,,'' @ [CHR 0x0D],
     ''13,SM_d,,,,,,,,,,,,'' @ [CHR 0x0D],
     ''14,SM_a,,,,,,,,,,,,'' @ [CHR 0x0D],
     ''15,SM_dI,,,,,,,,,,,,'' @ [CHR 0x0D],
     ''16,SM_dS,,,,,,,,,,,,'' @ [CHR 0x0D],
     ''17,SM_dSI,,,,,,,,,,,,'' @ [CHR 0x0D],
     ''18,M,,,,,,,,,,,,'' @ [CHR 0x0D],
     ''19,MI_a,,,,,,,,,,,,'' @ [CHR 0x0D],
     ''20,MII_a,,,,,,,,,,,,'' @ [CHR 0x0D],
     ''21,II_a,,,,,,,,,,,,'' @ [CHR 0x0D],
     '',,,,,,,,,,,,,'' @ [CHR 0x0D],
     ''State,stable,isDataValid,Load,Store,Replacement,Own_GetS,Own_GetM,Own_PutM,Other_GetS,Other_GetM,Other_PutM,OwnData,Invalidation'' @ [CHR 0x0D],
     ''I,1,0,GetS/IS_ad,GetM/IM_ad,,Fault/,Fault/,Fault/,,,,Fault/,'' @ [CHR 0x0D],
     ''IS_ad,0,1,Stall/,Stall/,Stall/,IS_d,Fault/,Fault/,,,,IS_a,'' @ [CHR 0x0D],
     ''IS_d,0,1,Stall/,Stall/,Stall/,Fault/,Fault/,Fault/,,IS_dI,,Hit/S,IS_dI'' @ [CHR 0x0D],
     ''IS_a,0,1,Stall/,Stall/,Stall/,Hit/S,Fault/,Fault/,,,Fault/,Fault/,IS_ad'' @ [CHR 0x0D],
     ''IS_dI,0,1,Stall/,Stall/,Stall/,Fault/,Fault/,Fault/,,,,Hit/I,'' @ [CHR 0x0D],
     ''IM_ad,0,1,Stall/,Stall/,Stall/,Fault/,IM_d,Fault/,,,,IM_a,'' @ [CHR 0x0D],
     ''IM_d,0,1,Stall/,Stall/,Stall/,Fault/,Fault/,Fault/,SaveReq/IM_dS,SaveReq/IM_dI,,Hit/M,SaveReq/IM_dI'' @ [CHR 0x0D],
     ''IM_a,0,1,Stall/,Stall/,Stall/,Fault/,Hit/M,Fault/,,,,Fault/,IM_ad'' @ [CHR 0x0D],
     ''IM_dI,0,1,Stall/,Stall/,Stall/,Fault/,Fault/,Fault/,,,,Hit/Data2Req/I,'' @ [CHR 0x0D],
     ''IM_dS,0,1,Stall/,Stall/,Stall/,Fault/,Fault/,Fault/,,IM_dSI,,Hit/Data2Both/S,IM_dSI'' @ [CHR 0x0D],
     ''IM_dSI,0,1,Stall/,Stall/,Stall/,Fault/,Fault/,Fault/,,,,Hit/Data2Both/I,'' @ [CHR 0x0D],
     ''S,1,1,Hit/,GetM/SM_ad,I,Fault/,Fault/,Fault/,,I,,Fault/,I'' @ [CHR 0x0D],
     ''SM_ad,0,1,Hit/,Stall/,Stall/,Fault/,SM_d,Fault/,,IM_ad,,SM_a,IM_ad'' @ [CHR 0x0D],
     ''SM_d,0,1,Hit/,Stall/,Stall/,Fault/,Fault/,Fault/,SaveReq/SM_dS,SaveReq/SM_dI,,Hit/M,SaveReq/IM_dI'' @ [CHR 0x0D],
     ''SM_a,0,1,Hit/,Stall/,Stall/,Fault/,Hit/M,Fault/,,IM_a,Fault/,Fault/,IM_a'' @ [CHR 0x0D],
     ''SM_dI,0,1,Hit/,Stall/,Stall/,Fault/,Fault/,Fault/,,,,Hit/Data2Req/I,'' @ [CHR 0x0D],
     ''SM_dS,0,1,Hit/,Stall/,Stall/,Fault/,Fault/,Fault/,,SM_dSI,,Hit/Data2Both/S,SM_dSI'' @ [CHR 0x0D],
     ''SM_dSI,0,1,Hit/,Stall/,Stall/,Fault/,Fault/,Fault/,,,,Hit/Data2Both/I,'' @ [CHR 0x0D],
     ''M,1,1,Hit/,Hit/,PutM/MI_a,Fault/,Fault/,Fault/,Data2Both/S,Data2Req/I,,Fault/,Data2Req/I'' @ [CHR 0x0D],
     ''MI_a,0,1,Hit/,Hit/,Stall/,Fault/,Fault/,Data2Req/I,Data2Both/II_a,Data2Req/II_a,,Fault/,MII_a'' @ [CHR 0x0D],
     ''MII_a,0,1,Hit/,Hit/,Stall/,Fault/,Fault/,Data2Req/I,,,,Fault/,'' @ [CHR 0x0D],
     ''II_a,0,1,Stall/,Stall/,Stall/,Fault/,Fault/,I,,,,Fault/,'']"

definition MSI_csv :: string where
  "MSI_csv = csv_text MSI_lines"

definition empty_reader :: fsm_reader where
  "empty_reader = \<lparr> m_eventIds = [], m_actionIds = [], m_stateIds = [], m_states = [] \<rparr>"

lemma MSI_csv_lines: "new_FSMReader (Some MSI_csv) = parse_sections MSI_lines empty_reader"
proof -
  have lines: "\<forall>l \<in> set MSI_lines. CHR 0x0A \<notin> set l" "MSI_lines \<noteq> []" "last MSI_lines \<noteq> []" by code_simp+
  show ?thesis by (simp add: new_FSMReader_def MSI_csv_def stream_fields_csv_text [OF lines] empty_reader_def)
qed

text \<open>The permission of each state, in the order of the table.\<close>

definition MSI_perms :: "nat list" where
  "MSI_perms = [0, 0, 1, 0, 0, 0, 2, 0, 0, 1, 0, 1, 1, 2, 1, 0, 1, 0, 2, 2, 0, 0]"

definition example_cpu :: "u64 \<Rightarrow> message" where
  "example_cpu cv = new_message 1 64 0 cv 0"

definition example_bus :: "u64 \<Rightarrow> u16 \<Rightarrow> message" where
  "example_bus cv own = (new_message 2 64 0 cv own)\<lparr>msg_source := UPPER_INTERCONNECT\<rparr>"

definition example_data :: message where
  "example_data = (new_message 2 64 0 0 0)\<lparr>msg_source := UPPER_INTERCONNECT, msg_data := Some [1, 2], data_size := 2\<rparr>"

definition msi_cache :: "fsm_reader \<Rightarrow> int \<Rightarrow> protocol" where
  "msi_cache r i = \<lparr> p_kind = SNOOP_MSI, m_id = i, m_shared_memory_id = 10, m_fsm = r \<rparr>"

lemma MSI_table_facts:
  "case parse_sections MSI_lines empty_reader of
     Inl err \<Rightarrow> False
   | Inr r \<Rightarrow> table_respects r MSI_perms \<and>
       (case protocol_run (msi_cache r 0) [example_cpu 1, example_bus 1 0, example_data] new_line of
          Inl err \<Rightarrow> False | Inr l \<Rightarrow> line_state l = 18) \<and> stable_hit r 18 Store \<and>
       (case protocol_run (msi_cache r 1) [example_cpu 0, example_bus 1 0] new_line of
          Inl err \<Rightarrow> False | Inr l \<Rightarrow> line_state l = 1)"
  by code_simp

definition MSI_fsm :: fsm_reader where
  "MSI_fsm = (case parse_sections MSI_lines empty_reader of Inl err \<Rightarrow> empty_reader | Inr r \<Rightarrow> r)"

lemma MSI_csv_parses: "new_FSMReader (Some MSI_csv) = Inr MSI_fsm"
  using MSI_table_facts by (auto simp: MSI_csv_lines MSI_fsm_def split: sum.splits)

interpretation msi: permission_table MSI_fsm "perm_of MSI_perms"
  using MSI_table_facts by (intro permission_table_check) (auto simp: MSI_fsm_def split: sum.splits)

text \<open>
  C15. Single writer, multiple readers, on the table the simulator ships: two private caches of an MSI system that
  have seen the same sequence of requests on the bus, whatever loads, stores, evictions and data each of them had in
  between and in whatever order, are never at the same time one in a stable state where a store hits and the other
  in a stable state where a load hits.
\<close>

theorem MSI_single_writer:
  assumes "new_protocol SNOOP_MSI (Some MSI_csv) i mem = Inr p" and "new_protocol SNOOP_MSI (Some MSI_csv) j mem = Inr q"
    and "i \<noteq> j" and "protocol_run p ms new_line = Inr l" and "protocol_run q ns new_line = Inr l'"
    and "bus_order ms = bus_order ns"
  shows "\<not> (stable_hit (m_fsm p) (line_state l) Store \<and> stable_hit (m_fsm q) (line_state l') Load)"
proof -
  have "p_kind p = SNOOP_MSI" "m_fsm p = MSI_fsm" "m_id p = i" "p_kind q = SNOOP_MSI" "m_fsm q = MSI_fsm" "m_id q = j"
    using assms(1,2) by (auto simp: new_protocol_def MSI_csv_parses)
  then show ?thesis using msi.single_writer [of p q ms l ns l'] assms(3-6) by simp
qed

theorem MSI_single_writer_witness:
  "\<exists>l l'. protocol_run (msi_cache MSI_fsm 0) [example_cpu 1, example_bus 1 0, example_data] new_line = Inr l \<and>
     protocol_run (msi_cache MSI_fsm 1) [example_cpu 0, example_bus 1 0] new_line = Inr l' \<and>
     stable_hit MSI_fsm (line_state l) Store \<and> \<not> stable_hit MSI_fsm (line_state l') Load"
proof -
  have new: "new_protocol SNOOP_MSI (Some MSI_csv) i 10 = Inr (msi_cache MSI_fsm i)" for i
    by (simp add: new_protocol_def MSI_csv_parses msi_cache_def)
  have order: "bus_order [example_cpu 1, example_bus 1 0, example_data] = bus_order [example_cpu 0, example_bus 1 0]"
    by code_simp
  obtain l l' where
    run: "protocol_run (msi_cache MSI_fsm 0) [example_cpu 1, example_bus 1 0, example_data] new_line = Inr l"
    "protocol_run (msi_cache MSI_fsm 1) [example_cpu 0, example_bus 1 0] new_line = Inr l'"
    and "line_state l = 18" "stable_hit MSI_fsm 18 Store"
    using MSI_table_facts unfolding MSI_fsm_def by (auto split: sum.splits)
  then show ?thesis
    using MSI_single_writer [OF new new _ run(1) run(2) order] by (auto simp: msi_cache_def simp del: protocol_run.simps)
qed

section \<open>Orderly traffic\<close>

text \<open>
  The outstanding transaction of a cache: none, a request not yet seen on the bus, or data expected. The bus shows a
  cache its own request once, after it was sent, and the data of a request comes once, after the request was seen.
\<close>

datatype outstanding = Idle | Unordered u64 | AwaitData

definition in_protocol :: "protocol \<Rightarrow> outstanding \<Rightarrow> message \<Rightarrow> bool" where
  "in_protocol p env m \<longleftrightarrow>
     (case msg_source m of
        LOWER_INTERCONNECT \<Rightarrow> True
      | SELF \<Rightarrow> uint (owner m) = m_id p
      | UPPER_INTERCONNECT \<Rightarrow>
          if msg_data m \<noteq> None then env = AwaitData
          else complementary_value m = REQUEST_TYPE_INV \<or>
               complementary_value m \<in> {REQUEST_TYPE_GETS, REQUEST_TYPE_GETM, REQUEST_TYPE_PUTM} \<and>
               (uint (owner m) = m_id p \<longrightarrow> env = Unordered (complementary_value m)))"

fun sent_request :: "controller_action list \<Rightarrow> u64 option" where
  "sent_request [] = None"
| "sent_request (a # as) =
     (case ca_msg a of
        Some m \<Rightarrow> if ca_type a = SEND_BUS_MSG then Some (complementary_value m) else sent_request as
      | None \<Rightarrow> sent_request as)"

definition next_outstanding :: "protocol \<Rightarrow> message \<Rightarrow> controller_action list \<Rightarrow> outstanding \<Rightarrow> outstanding" where
  "next_outstanding p m cas env =
     (case sent_request cas of
        Some req \<Rightarrow> Unordered req
      | None \<Rightarrow>
          if msg_source m \<noteq> UPPER_INTERCONNECT then env
          else if msg_data m \<noteq> None then Idle
          else if complementary_value m \<noteq> REQUEST_TYPE_INV \<and> uint (owner m) = m_id p
          then (if complementary_value m = REQUEST_TYPE_PUTM then Idle else AwaitData)
          else env)"

fun orderly :: "protocol \<Rightarrow> message list \<Rightarrow> cache_line \<Rightarrow> outstanding \<Rightarrow> bool" where
  "orderly p [] line env \<longleftrightarrow> True"
| "orderly p (m # ms) line env \<longleftrightarrow> in_protocol p env m \<and>
     (case readEvent p m line of
        Inl err \<Rightarrow> True
      | Inr (m', ev) \<Rightarrow>
     (case getTransition (m_fsm p) (line_state line) ev of
        Inl err \<Rightarrow> True
      | Inr (nxt, actions) \<Rightarrow>
     (case handleAction p actions m' line nxt of
        Inl err \<Rightarrow> True
      | Inr cas \<Rightarrow> orderly p ms (updated_line cas line) (next_outstanding p m cas env))))"

fun event_allowed :: "outstanding \<Rightarrow> msi_event \<Rightarrow> bool" where
  "event_allowed env Own_GetS \<longleftrightarrow> env = Unordered REQUEST_TYPE_GETS"
| "event_allowed env Own_GetM \<longleftrightarrow> env = Unordered REQUEST_TYPE_GETM"
| "event_allowed env Own_PutM \<longleftrightarrow> env = Unordered REQUEST_TYPE_PUTM"
| "event_allowed env OwnData \<longleftrightarrow> env = AwaitData"
| "event_allowed env _ \<longleftrightarrow> True"

text \<open>The request the actions of a row send, and the transaction after it.\<close>

fun row_request :: "int list \<Rightarrow> u64 option" where
  "row_request [] = None"
| "row_request (a # as) =
     (if a = 2 then Some REQUEST_TYPE_GETS else if a = 3 then Some REQUEST_TYPE_GETM
      else if a = 4 then Some REQUEST_TYPE_PUTM else row_request as)"

fun event_outstanding :: "msi_event \<Rightarrow> outstanding \<Rightarrow> outstanding" where
  "event_outstanding Own_GetS env = AwaitData"
| "event_outstanding Own_GetM env = AwaitData"
| "event_outstanding Own_PutM env = Idle"
| "event_outstanding OwnData env = Idle"
| "event_outstanding _ env = env"

text \<open>\<open>live\<close> are the states that orderly traffic reaches.\<close>

definition row_orderly :: "fsm_reader \<Rightarrow> (int \<Rightarrow> outstanding) \<Rightarrow> int list \<Rightarrow> int \<Rightarrow> bool" where
  "row_orderly r env live st \<longleftrightarrow>
     list_all (\<lambda>e. event_allowed (env st) e \<longrightarrow>
       (case getTransition r st (event_num e) of
          Inl err \<Rightarrow> False
        | Inr (nxt, actions) \<Rightarrow> list_all (\<lambda>a. 0 \<le> a \<and> a < 8) actions \<and>
            nxt \<in> set live \<and> 0 \<le> nxt \<and> nat nxt < length (m_states r) \<and>
            env (if is_stalled actions then st else nxt) =
              (case row_request actions of Some req \<Rightarrow> Unordered req | None \<Rightarrow> event_outstanding e (env st)))) all_events"

definition env_of :: "outstanding list \<Rightarrow> int \<Rightarrow> outstanding" where
  "env_of es st = (if 0 \<le> st \<and> nat st < length es then es ! nat st else Idle)"

definition MSI_outstanding :: "outstanding list" where
  "MSI_outstanding = [Idle, Unordered 0, AwaitData, Idle, AwaitData, Unordered 1, AwaitData, Idle, AwaitData, AwaitData,
     AwaitData, Idle, Unordered 1, AwaitData, Idle, AwaitData, AwaitData, AwaitData, Idle, Unordered 2, Unordered 2,
     Unordered 2]"

text \<open>All states but \<open>IS_a\<close>, \<open>IM_a\<close> and \<open>SM_a\<close>.\<close>

definition MSI_live :: "int list" where
  "MSI_live = [0, 1, 2, 4, 5, 6, 8, 9, 10, 11, 12, 13, 15, 16, 17, 18, 19, 20, 21]"

lemma MSI_orderly_facts:
  "case parse_sections MSI_lines empty_reader of
     Inl err \<Rightarrow> False
   | Inr r \<Rightarrow> list_all (row_orderly r (env_of MSI_outstanding) MSI_live) MSI_live"
  by code_simp

locale orderly_table =
  fixes fsm :: fsm_reader and env :: "int \<Rightarrow> outstanding" and live :: "int list"
  assumes env_init: "env 0 = Idle" and live_init: "0 \<in> set live"
    and rows: "st \<in> set live \<Longrightarrow> row_orderly fsm env live st"
begin

lemma row:
  assumes "st \<in> set live" "event_allowed (env st) e"
  obtains nxt actions where "getTransition fsm st (event_num e) = Inr (nxt, actions)"
    "list_all (\<lambda>a. 0 \<le> a \<and> a < 8) actions" "nxt \<in> set live" "state_row fsm nxt = Inr (m_states fsm ! nat nxt)"
    "env (if is_stalled actions then st else nxt) =
       (case row_request actions of Some req \<Rightarrow> Unordered req | None \<Rightarrow> event_outstanding e (env st))"
proof -
  have "case getTransition fsm st (event_num e) of
          Inl err \<Rightarrow> False
        | Inr (nxt, actions) \<Rightarrow> list_all (\<lambda>a. 0 \<le> a \<and> a < 8) actions \<and>
            nxt \<in> set live \<and> 0 \<le> nxt \<and> nat nxt < length (m_states fsm) \<and>
            env (if is_stalled actions then st else nxt) =
              (case row_request actions of Some req \<Rightarrow> Unordered req | None \<Rightarrow> event_outstanding e (env st))"
    using rows [OF assms(1)] all_events [of e] assms(2) unfolding row_orderly_def list_all_iff by blast
  then show ?thesis
    by (cases "getTransition fsm st (event_num e)") (auto simp: state_row_def intro: that)
qed

end

lemma sent_request_append:
  "sent_request (xs @ ys) = (case sent_request xs of None \<Rightarrow> sent_request ys | Some r \<Rightarrow> Some r)"
  by (induction xs) (auto split: option.splits)

lemma MSI_action_step_defined:
  assumes "0 \<le> a" "a < 8"
  shows "\<exists>acc'. MSI_action_step p msg a acc = Inr acc' \<and>
    sent_request acc' = (case sent_request acc of None \<Rightarrow> row_request [a] | Some r \<Rightarrow> Some r)"
proof -
  from assms have "a = 0 \<or> a = 1 \<or> a = 2 \<or> a = 3 \<or> a = 4 \<or> a = 5 \<or> a = 6 \<or> a = 7" by presburger
  then show ?thesis
    by (elim disjE)
      (simp_all add: MSI_action_step_def msi_action_of_def action_on_def sent_request_append bus_message_def
        new_message_def nat_eq_iff split: option.splits)
qed

lemma MSI_action_loop_defined:
  assumes "list_all (\<lambda>a. 0 \<le> a \<and> a < 8) as"
  shows "\<exists>acc'. MSI_action_loop p msg as acc = Inr acc' \<and>
    sent_request acc' = (case sent_request acc of None \<Rightarrow> row_request as | Some r \<Rightarrow> Some r)"
  using assms
proof (induction as arbitrary: acc)
  case Nil
  then show ?case by (simp split: option.splits)
next
  case (Cons a as)
  obtain acc1 where a1: "MSI_action_step p msg a acc = Inr acc1"
    "sent_request acc1 = (case sent_request acc of None \<Rightarrow> row_request [a] | Some r \<Rightarrow> Some r)"
    using MSI_action_step_defined [of a p msg acc] Cons.prems by auto
  obtain acc2 where "MSI_action_loop p msg as acc1 = Inr acc2"
    "sent_request acc2 = (case sent_request acc1 of None \<Rightarrow> row_request as | Some r \<Rightarrow> Some r)"
    using Cons.IH [of acc1] Cons.prems by auto
  then show ?case using a1 by (auto split: option.splits)
qed

lemma MSI_handleAction_defined:
  assumes "list_all (\<lambda>a. 0 \<le> a \<and> a < 8) actions" and "state_row (m_fsm p) nxt = Inr s"
  shows "\<exists>cas. MSI_handleAction p actions msg line nxt = Inr cas \<and> sent_request cas = row_request actions"
proof -
  obtain acc where acc: "(if actions \<noteq> [] \<and> actions ! 0 = 0 then Inr []
                  else result_bind (update_line_action p msg line nxt) (\<lambda>u. Inr [u])) = Inr acc"
    and "sent_request acc = None"
    using assms(2)
    by (cases "actions \<noteq> [] \<and> actions ! 0 = 0") (auto simp: update_line_action_def isValidState_def)
  then show ?thesis
    using MSI_action_loop_defined [OF assms(1), of p msg acc] unfolding MSI_handleAction_def acc by simp
qed

context orderly_table
begin

lemma step:
  assumes p: "p_kind p = SNOOP_MSI" "m_fsm p = fsm" and live: "line_state line \<in> set live"
    and msg: "in_protocol p (env (line_state line)) m"
  obtains e nxt actions cas where "readEvent p m line = Inr (m, event_num e)"
    "getTransition fsm (line_state line) (event_num e) = Inr (nxt, actions)"
    "handleAction p actions m line nxt = Inr cas" "line_state (updated_line cas line) \<in> set live"
    "env (line_state (updated_line cas line)) = next_outstanding p m cas (env (line_state line))"
proof -
  obtain e where e: "MSI_readEvent p m = Inr e" and allowed: "event_allowed (env (line_state line)) e"
    and out: "event_outstanding e x = next_outstanding p m [] x" for x
  proof -
    have "\<exists>e. MSI_readEvent p m = Inr e \<and> event_allowed (env (line_state line)) e \<and>
        (\<forall>x. event_outstanding e x = next_outstanding p m [] x)"
      using msg by (auto simp: in_protocol_def MSI_readEvent_def next_outstanding_def Let_def request_type_defs
          split: message_source.splits if_splits)
    then show thesis using that by blast
  qed
  obtain nxt actions where tr: "getTransition fsm (line_state line) (event_num e) = Inr (nxt, actions)"
    and acts: "list_all (\<lambda>a. 0 \<le> a \<and> a < 8) actions" and nxt: "nxt \<in> set live" "state_row fsm nxt = Inr (m_states fsm ! nat nxt)"
    and env': "env (if is_stalled actions then line_state line else nxt) =
       (case row_request actions of Some req \<Rightarrow> Unordered req | None \<Rightarrow> event_outstanding e (env (line_state line)))"
    by (rule row [OF live allowed])
  obtain cas where cas: "MSI_handleAction p actions m line nxt = Inr cas" "sent_request cas = row_request actions"
    using MSI_handleAction_defined [OF acts, of p nxt "m_states fsm ! nat nxt" m line] nxt(2) p(2) by blast
  have st: "line_state (updated_line cas line) = (if is_stalled actions then line_state line else nxt)"
    using MSI_handleAction_line [OF cas(1)] by simp
  have "env (line_state (updated_line cas line)) = next_outstanding p m cas (env (line_state line))"
    using env' st cas(2) out by (auto simp: next_outstanding_def split: option.splits)
  then show thesis using that [OF _ tr _ _] e p cas(1) st live nxt(1) by auto
qed

lemma never_faults:
  assumes p: "p_kind p = SNOOP_MSI" "m_fsm p = fsm" and live: "line_state line \<in> set live"
    and ms: "orderly p ms line (env (line_state line))"
  shows "\<exists>line'. protocol_run p ms line = Inr line'"
  using live ms
proof (induction ms arbitrary: line)
  case Nil
  then show ?case by simp
next
  case (Cons m ms)
  have "in_protocol p (env (line_state line)) m" using Cons.prems(2) by simp
  then obtain e nxt actions cas where *: "readEvent p m line = Inr (m, event_num e)"
    "getTransition fsm (line_state line) (event_num e) = Inr (nxt, actions)"
    "handleAction p actions m line nxt = Inr cas" "line_state (updated_line cas line) \<in> set live"
    "env (line_state (updated_line cas line)) = next_outstanding p m cas (env (line_state line))"
    by (rule step [OF p Cons.prems(1)])
  have "orderly p ms (updated_line cas line) (env (line_state (updated_line cas line)))"
    using Cons.prems(2) *(1-3,5) p(2) by (simp del: readEvent.simps handleAction.simps)
  moreover have "line_step p m line = Inr (updated_line cas line)"
    using *(1-3) p(2) by (simp add: line_step_def del: readEvent.simps handleAction.simps)
  ultimately show ?case using Cons.IH [OF *(4)] by simp
qed

end

interpretation msi_orderly: orderly_table MSI_fsm "env_of MSI_outstanding" MSI_live
proof
  show "env_of MSI_outstanding 0 = Idle" "0 \<in> set MSI_live" by code_simp+
  show "row_orderly MSI_fsm (env_of MSI_outstanding) MSI_live st" if "st \<in> set MSI_live" for st
    using MSI_orderly_facts that by (auto simp: MSI_fsm_def list_all_iff split: sum.splits)
qed

text \<open>
  C20. The shipped MSI table never faults on orderly traffic: a private cache that sees its own request on the bus once
  and after it sent it, gets the data of a request once and after that, and otherwise receives any loads, stores,
  evictions, requests of other cores and back-invalidations in any order, handles every one of these messages without
  reaching a \<open>Fault\<close> entry or leaving the table.
\<close>

theorem MSI_never_faults:
  assumes "new_protocol SNOOP_MSI (Some MSI_csv) i mem = Inr p" and "orderly p ms new_line Idle"
  shows "\<exists>line. protocol_run p ms new_line = Inr line"
proof -
  have "p_kind p = SNOOP_MSI" "m_fsm p = MSI_fsm"
    using assms(1) by (auto simp: new_protocol_def MSI_csv_parses)
  then show ?thesis
    using msi_orderly.never_faults [of p new_line ms] assms(2) msi_orderly.live_init msi_orderly.env_init
    by (simp add: new_line_def)
qed

lemma MSI_orderly_example:
  "case parse_sections MSI_lines empty_reader of
     Inl err \<Rightarrow> False
   | Inr r \<Rightarrow> orderly (msi_cache r 0) [example_cpu 1, example_bus 0 1, example_bus 1 0, example_bus 0 2, example_bus 10 9,
                 example_cpu 0, example_data, example_cpu 0] new_line Idle"
  by code_simp

theorem MSI_never_faults_witness:
  "\<exists>line. protocol_run (msi_cache MSI_fsm 0) [example_cpu 1, example_bus 0 1, example_bus 1 0, example_bus 0 2, example_bus 10 9,
     example_cpu 0, example_data, example_cpu 0] new_line = Inr line"
proof -
  have "new_protocol SNOOP_MSI (Some MSI_csv) 0 10 = Inr (msi_cache MSI_fsm 0)"
    by (simp add: new_protocol_def MSI_csv_parses msi_cache_def)
  then show ?thesis
    using MSI_orderly_example unfolding MSI_csv_lines [symmetric] MSI_csv_parses sum.case
    by (rule MSI_never_faults)
qed

section \<open>Requests nobody understands\<close>

text \<open>
  C40. The predictable protocols answer a snooped request with a \<open>PutM_nonDem\<close> that no receiver accepts:
  whenever a row of a PMSI or PMESI table asks for it, the message sent carries request type 9, on which every
  private cache and every shared cache of these protocols stops the simulation.
\<close>

theorem PutM_nonDem_is_rejected:
  assumes "p_kind p = SNOOP_PMSI \<or> p_kind p = SNOOP_PMESI" and "9 \<in> set actions"
    and "handleAction p actions msg line next_state = Inr cas"
  shows "\<exists>m. action_on SEND_BUS_MSG m \<in> set cas \<and> complementary_value m = 9 \<and>
     (\<forall>q. MSI_readEvent q (m\<lparr>msg_source := UPPER_INTERCONNECT\<rparr>)
            = Inl (Exit ''MSIProtocol: Invalid Transaction detected on the Bus'')) \<and>
     (\<forall>q l. LLCMSI_readEvent q (m\<lparr>msg_source := LOWER_INTERCONNECT\<rparr>) l
            = Inl (Exit ''LLCMSIProtocol: Invalid Transaction detected on the Bus''))"
proof -
  let ?m = "bus_message p msg 9 K_UNKNOWN"
  have "action_on SEND_BUS_MSG ?m \<in> set cas"
    using assms by (auto simp: PMSI_handleAction_def PMESI_handleAction_def result_bind_Inr_iff)
  moreover have "complementary_value ?m = 9" "msg_data ?m = None"
    by (simp_all add: bus_message_def new_message_def)
  ultimately show ?thesis
    by (intro exI [of _ ?m]) (simp add: MSI_readEvent_def LLCMSI_readEvent_def request_type_defs Let_def)
qed

text \<open>One state, one event, with the row \<open>PutM_nonDem/\<close>.\<close>

definition example_pmsi :: protocol where
  "example_pmsi = \<lparr> p_kind = SNOOP_PMSI, m_id = 0, m_shared_memory_id = 10,
     m_fsm = \<lparr> m_eventIds = [], m_actionIds = [(''PutM_nonDem'', 9)], m_stateIds = [(''M'', 0)],
       m_states = [\<lparr> is_data_valid = True, stable = True, transitions = [], fsm_actions = [(6, [9])],
                     m_own_state = 0 \<rparr>] \<rparr> \<rparr>"

theorem PutM_nonDem_is_rejected_witness:
  "\<exists>cas m. handleAction example_pmsi [9] (example_bus 0 1) new_line 0 = Inr cas \<and>
     action_on SEND_BUS_MSG m \<in> set cas \<and>
     MSI_readEvent example_pmsi (m\<lparr>msg_source := UPPER_INTERCONNECT\<rparr>)
       = Inl (Exit ''MSIProtocol: Invalid Transaction detected on the Bus'')"
proof -
  have "\<exists>cas. handleAction example_pmsi [9] (example_bus 0 1) new_line 0 = Inr cas"
    by (simp add: example_pmsi_def PMSI_handleAction_def MSI_handleAction_def update_line_action_def
        isValidState_def state_row_def)
  then obtain cas where cas: "handleAction example_pmsi [9] (example_bus 0 1) new_line 0 = Inr cas" by blast
  show ?thesis
    using PutM_nonDem_is_rejected [OF _ _ cas] cas by (auto simp: example_pmsi_def simp del: handleAction.simps)
qed

section \<open>Exclusive data\<close>

text \<open>
  Asking a MESI cache whether exclusive data may be processed turns it into plain data: the message a call of
  \<open>getRequestState\<close> leaves behind is decoded as \<open>OwnData\<close>, although it was \<open>OwnData_Execlusive\<close>
  before the call.
\<close>

lemma getRequestState_drops_exclusive:
  assumes "p_kind p = SNOOP_MESI \<or> p_kind p = SNOOP_MOESI" and "msg_source msg = UPPER_INTERCONNECT"
    and "msg_data msg \<noteq> None" and "complementary_value msg = 2"
    and "getRequestState p c msg = Inr (p', msg', s)"
  shows "(\<exists>m. readEvent p msg line = Inr (m, 11)) \<and> readEvent p' msg' line = Inr (msg', event_num OwnData)"
proof -
  have ev: "MSI_readEvent p msg = Inr OwnData" using assms(2,3) by (simp add: MSI_readEvent_def)
  have re: "readEvent p msg l = Inr (msg\<lparr>complementary_value := 0\<rparr>, 11)" for l
    using assms(1,4) ev by (auto simp: MESI_readEvent_def)
  have msg': "msg' = msg\<lparr>complementary_value := 0\<rparr>" and p': "p_kind p' = p_kind p"
    using assms(5) assms(1) re
    by (auto simp: getRequestState_def stall_check_def is_llc_def result_bind_Inr_iff simp del: readEvent.simps)
  then have "readEvent p' msg' line = Inr (msg', event_num OwnData)"
    using assms(1-3) by (auto simp: MESI_readEvent_def MSI_readEvent_def)
  then show ?thesis using re by blast
qed

definition example_mesi :: protocol where
  "example_mesi = \<lparr> p_kind = SNOOP_MESI, m_id = 0, m_shared_memory_id = 10,
     m_fsm = \<lparr> m_eventIds = [], m_actionIds = [(''Stall'', 0)], m_stateIds = [(''I'', 0)],
       m_states = [\<lparr> is_data_valid = True, stable = True, transitions = [], fsm_actions = [], m_own_state = 0 \<rparr>] \<rparr> \<rparr>"

lemma getRequestState_drops_exclusive_witness:
  "\<exists>p' m' s. getRequestState example_mesi example_cache (example_data\<lparr>complementary_value := 2\<rparr>) = Inr (p', m', s) \<and>
     (\<exists>m. readEvent example_mesi (example_data\<lparr>complementary_value := 2\<rparr>) new_line = Inr (m, 11)) \<and>
     readEvent p' m' new_line = Inr (m', event_num OwnData)"
proof -
  have "case getRequestState example_mesi example_cache (example_data\<lparr>complementary_value := 2\<rparr>) of
      Inl e \<Rightarrow> False | Inr x \<Rightarrow> True" by code_simp
  then obtain x where "getRequestState example_mesi example_cache (example_data\<lparr>complementary_value := 2\<rparr>) = Inr x"
    by (rule case_InrE)
  moreover obtain p' m' s where "x = (p', m', s)" by (cases x)
  ultimately have g: "getRequestState example_mesi example_cache (example_data\<lparr>complementary_value := 2\<rparr>) = Inr (p', m', s)"
    by simp
  then show ?thesis
    using getRequestState_drops_exclusive [OF _ _ _ _ g, of new_line]
    by (auto simp: example_mesi_def example_data_def simp del: readEvent.simps)
qed

end
