(* ===== verification/DirectoryProtocols.thy ===== *)
theory DirectoryProtocols
  imports SnoopProtocols
begin

text \<open>
  The directory coherence protocols, src/Protocols/*Directory.cpp. The home controller keeps, per line, the
  list of sharers, and a requester counts the invalidation acknowledgements it still waits for; both maps
  belong to the controller and the protocol only reads them, so they are one argument here.
\<close>

section \<open>State\<close>

text \<open>
  A counter is an \<open>int64_t\<close> that the code adds to a \<open>uint64_t\<close>: its bit pattern is kept. A
  sharer is a \<open>uint64_t\<close>.
\<close>

record directory =
  m_sharers :: "(u64 \<times> u64 list) list"
  m_ack_counters :: "(u64 \<times> u64) list"

datatype directory_kind =
    DIRECTORY_MSI | DIRECTORY_MESI | DIRECTORY_MOESI | DIRECTORY_LLC_MSI | DIRECTORY_LLC_MESI
  | DIRECTORY_LLC_MOESI

record directory_protocol =
  d_kind :: directory_kind
  d_id :: int
  d_shared_memory_id :: int
  d_fsm :: fsm_reader

text \<open>The request and response numbers of the directory protocols differ from the snooping ones.\<close>

definition DIR_GETS :: u64 where "DIR_GETS = 0"

definition DIR_GETM :: u64 where "DIR_GETM = 1"

definition DIR_PUTS :: u64 where "DIR_PUTS = 2"

definition DIR_PUTM :: u64 where "DIR_PUTM = 3"

definition DIR_INV :: u64 where "DIR_INV = 4"

definition DIR_PUT_ACK :: u64 where "DIR_PUT_ACK = 5"

definition DIR_INV_ACK :: u64 where "DIR_INV_ACK = 6"

definition DIR_PUTE :: u64 where "DIR_PUTE = 7"

definition DIR_PUTO :: u64 where "DIR_PUTO = 8"

definition DIR_INVM :: u64 where "DIR_INVM = 10"

definition RESPONSE_TYPE_EXECLUSIVE_DATA :: u64 where "RESPONSE_TYPE_EXECLUSIVE_DATA = 0xFFFFFFFF"

definition RESPONSE_TYPE_ACKCOUNT :: u64 where "RESPONSE_TYPE_ACKCOUNT = 9"

lemmas directory_request_defs =
  DIR_GETS_def DIR_GETM_def DIR_PUTS_def DIR_PUTM_def DIR_INV_def DIR_PUT_ACK_def DIR_INV_ACK_def
  DIR_PUTE_def DIR_PUTO_def DIR_INVM_def RESPONSE_TYPE_EXECLUSIVE_DATA_def RESPONSE_TYPE_ACKCOUNT_def

text \<open>\<open>addr & ~uint64_t(getBlockSize() - 1)\<close>: the subtraction is in 32 bits.\<close>

definition addr_key :: "cache \<Rightarrow> u64 \<Rightarrow> u64" where
  "addr_key c a = a AND NOT (ucast (m_block_size c - 1))"

section \<open>Private caches\<close>

datatype directory_event =
    D_Load | D_Store | D_Replacement | Fwd_GetS | Fwd_GetM | Inv | Put_Ack | Data_zeroAck | Data_nonZeroAck
  | DataFromOwner | InvAck | lastInvAck

fun directory_event_num :: "directory_event \<Rightarrow> int" where
  "directory_event_num D_Load = 0"
| "directory_event_num D_Store = 1"
| "directory_event_num D_Replacement = 2"
| "directory_event_num Fwd_GetS = 3"
| "directory_event_num Fwd_GetM = 4"
| "directory_event_num Inv = 5"
| "directory_event_num Put_Ack = 6"
| "directory_event_num Data_zeroAck = 7"
| "directory_event_num Data_nonZeroAck = 8"
| "directory_event_num DataFromOwner = 9"
| "directory_event_num InvAck = 10"
| "directory_event_num lastInvAck = 11"

text \<open>The acknowledgements of the line that are due when \<open>n\<close> more are added: none, when the entry exists and
  the sum is 0.\<close>

definition acks_settled :: "cache \<Rightarrow> directory \<Rightarrow> message \<Rightarrow> bool" where
  "acks_settled c d msg \<longleftrightarrow>
     (case map_of (m_ack_counters d) (addr_key c (addr msg)) of
        None \<Rightarrow> False | Some n \<Rightarrow> n + complementary_value msg = 0)"

definition MSIDirectory_readEvent ::
  "directory_protocol \<Rightarrow> cache \<Rightarrow> directory \<Rightarrow> message \<Rightarrow> directory_event result" where
  "MSIDirectory_readEvent p c d msg =
     (case msg_source msg of
        LOWER_INTERCONNECT \<Rightarrow> Inr (if complementary_value msg = 0 then D_Load else D_Store)
      | SELF \<Rightarrow> if uint (owner msg) = d_id p then Inr D_Replacement
                else Inl (Exit ''LLCMSIDirectory: Invalid Transaction'')
      | UPPER_INTERCONNECT \<Rightarrow>
          if msg_data msg \<noteq> None
          then Inr (if uint (msg_from msg) \<noteq> d_shared_memory_id p then DataFromOwner
                    else if complementary_value msg = 0 then Data_zeroAck
                    else if acks_settled c d msg then Data_zeroAck else Data_nonZeroAck)
          else if complementary_value msg = DIR_GETS then Inr Fwd_GetS
          else if complementary_value msg = DIR_GETM then Inr Fwd_GetM
          else if complementary_value msg = DIR_PUT_ACK then Inr Put_Ack
          else if complementary_value msg = DIR_INV then Inr Inv
          else if complementary_value msg = DIR_INV_ACK
          then Inr (case map_of (m_ack_counters d) (addr_key c (addr msg)) of
                      None \<Rightarrow> InvAck | Some n \<Rightarrow> if n - 1 = 0 then lastInvAck else InvAck)
          else Inl (Exit ''MSIDirectory: Invalid Transaction detected''))"

text \<open>The derived classes number their further events after the ones of \<open>MSIDirectory\<close>.\<close>

definition MESIDirectory_readEvent ::
  "directory_protocol \<Rightarrow> cache \<Rightarrow> directory \<Rightarrow> message \<Rightarrow> int result" where
  "MESIDirectory_readEvent p c d msg =
     (if msg_source msg = UPPER_INTERCONNECT \<and> msg_data msg \<noteq> None \<and>
         complementary_value msg = RESPONSE_TYPE_EXECLUSIVE_DATA
      then Inr 12
      else result_bind (MSIDirectory_readEvent p c d msg) (\<lambda>e. Inr (directory_event_num e)))"

definition MOESIDirectory_readEvent ::
  "directory_protocol \<Rightarrow> cache \<Rightarrow> directory \<Rightarrow> message \<Rightarrow> int result" where
  "MOESIDirectory_readEvent p c d msg =
     (if msg_source msg = UPPER_INTERCONNECT \<and> complementary_value2 msg = RESPONSE_TYPE_ACKCOUNT
      then Inr (if complementary_value msg = 0 then 14 else 13)
      else if msg_source msg = UPPER_INTERCONNECT \<and> msg_data msg \<noteq> None
      then (if uint (msg_from msg) \<noteq> d_shared_memory_id p \<and> complementary_value msg \<noteq> 0 \<and>
               \<not> acks_settled c d msg
            then Inr 15 else MESIDirectory_readEvent p c d msg)
      else if msg_source msg = UPPER_INTERCONNECT \<and> complementary_value msg = DIR_INVM
      then Inr 16
      else MESIDirectory_readEvent p c d msg)"

datatype directory_action =
    DStall | DHit | DGetS | DGetM | DPutS | PutM_Data | DData2Both | DData2Req | InvAck2Req | InvAck_Data
  | Ack_dec | AckNum_set | DSaveReq | DFault

definition directory_action_of :: "int \<Rightarrow> directory_action option" where
  "directory_action_of a =
     (if 0 \<le> a \<and> a < 14
      then Some ([DStall, DHit, DGetS, DGetM, DPutS, PutM_Data, DData2Both, DData2Req, InvAck2Req, InvAck_Data,
                  Ack_dec, AckNum_set, DSaveReq, DFault] ! nat a)
      else None)"

definition directory_message ::
  "directory_protocol \<Rightarrow> message \<Rightarrow> u64 \<Rightarrow> u16 list \<Rightarrow> message_kind \<Rightarrow> message" where
  "directory_message p msg cv dest k =
     (new_message (msg_id msg) (addr msg) 0 cv (word_of_int (d_id p)))\<lparr>msg_to := dest, msg_kind := k\<rparr>"

definition directory_hit :: "cache \<Rightarrow> directory \<Rightarrow> message \<Rightarrow> controller_action list" where
  "directory_hit c d msg =
     (if msg_source msg = LOWER_INTERCONNECT \<or> msg_data msg = None
      then (if msg_source msg = UPPER_INTERCONNECT then [action_on REMOVE_PENDING_NORESPONSE msg] else [])
           @ [action_on HIT_Action msg]
      else [action_on REMOVE_PENDING msg])
     @ (if msg_source msg = UPPER_INTERCONNECT \<and> acks_settled c d msg
        then [action_on SET_ACK_NUMBER msg] else [])
     @ [action_on MODIFY_DATA msg]"

definition MSIDirectory_action_step ::
  "directory_protocol \<Rightarrow> cache \<Rightarrow> directory \<Rightarrow> message \<Rightarrow> int \<Rightarrow> controller_action list
   \<Rightarrow> controller_action list result" where
  "MSIDirectory_action_step p c d msg a acc =
     (let home = [word_of_int (d_shared_memory_id p)] in
      case directory_action_of a of
        None \<Rightarrow> Inl (Undefined ''uninitialised controller action'')
      | Some DStall \<Rightarrow> Inr (acc @ [action_on STALL msg])
      | Some DHit \<Rightarrow> Inr (acc @ directory_hit c d msg)
      | Some DGetS \<Rightarrow>
          Inr (acc @ [action_on ADD_PENDING msg, action_on SEND_BUS_MSG (directory_message p msg DIR_GETS home K_GETS)])
      | Some DGetM \<Rightarrow>
          Inr (acc @ [action_on ADD_PENDING msg, action_on SEND_BUS_MSG (directory_message p msg DIR_GETM home K_GETM)])
      | Some DPutS \<Rightarrow> Inr (acc @ [action_on SEND_BUS_MSG (directory_message p msg DIR_PUTS home K_PUTS)])
      | Some PutM_Data \<Rightarrow> Inr (action_on WRITE_BACK (directory_message p msg DIR_PUTM [] K_PUTM) # acc)
      | Some DData2Req \<Rightarrow>
          Inr (action_on WRITE_BACK (msg\<lparr>complementary_value := 0, msg_to := [], msg_kind := K_SUPPLY\<rparr>) # acc)
      | Some DData2Both \<Rightarrow>
          Inr (action_on WRITE_BACK (msg\<lparr>complementary_value := 0, msg_to := home, msg_kind := K_SUPPLY\<rparr>) # acc)
      | Some InvAck2Req \<Rightarrow>
          Inr (acc @ [action_on SEND_BUS_MSG (directory_message p msg DIR_INV_ACK [owner msg] K_ACK)])
      | Some InvAck_Data \<Rightarrow> Inr (action_on WRITE_BACK (directory_message p msg DIR_INV_ACK [] K_ACK) # acc)
      | Some Ack_dec \<Rightarrow> Inr (acc @ [action_on DECREMENT_ACK msg])
      | Some AckNum_set \<Rightarrow> Inr (acc @ [action_on SET_ACK_NUMBER msg])
      | Some DSaveReq \<Rightarrow>
          Inr (acc @ [action_on SAVE_REQ_FOR_WRITE_BACK (new_message (msg_id msg) (addr msg) 0 0 (owner msg))])
      | Some DFault \<Rightarrow> Inl (Exit ''MSIDirectory: Fault Transaction is detected''))"

fun MSIDirectory_action_loop ::
  "directory_protocol \<Rightarrow> cache \<Rightarrow> directory \<Rightarrow> message \<Rightarrow> int list \<Rightarrow> controller_action list
   \<Rightarrow> controller_action list result" where
  "MSIDirectory_action_loop p c d msg [] acc = Inr acc"
| "MSIDirectory_action_loop p c d msg (a # as) acc =
     result_bind (MSIDirectory_action_step p c d msg a acc) (MSIDirectory_action_loop p c d msg as)"

definition directory_line_action ::
  "directory_protocol \<Rightarrow> message \<Rightarrow> cache_line \<Rightarrow> int \<Rightarrow> controller_action result" where
  "directory_line_action p msg line next_state =
     result_bind (isValidState (d_fsm p) next_state) (\<lambda>v.
       Inr \<lparr> ca_type = UPDATE_CACHE_LINE, ca_msg = Some msg,
             ca_line = Some (line\<lparr>valid := v, line_state := next_state\<rparr>) \<rparr>)"

definition MSIDirectory_handleAction ::
  "directory_protocol \<Rightarrow> cache \<Rightarrow> directory \<Rightarrow> int list \<Rightarrow> message \<Rightarrow> cache_line \<Rightarrow> int
   \<Rightarrow> controller_action list result" where
  "MSIDirectory_handleAction p c d actions msg line next_state =
     result_bind (if actions \<noteq> [] \<and> actions ! 0 = 0 then Inr []
                  else result_bind (directory_line_action p msg line next_state) (\<lambda>u. Inr [u]))
       (MSIDirectory_action_loop p c d msg actions)"

definition MESIDirectory_handleAction ::
  "directory_protocol \<Rightarrow> cache \<Rightarrow> directory \<Rightarrow> int list \<Rightarrow> message \<Rightarrow> cache_line \<Rightarrow> int
   \<Rightarrow> controller_action list result" where
  "MESIDirectory_handleAction p c d actions msg line next_state =
     result_bind (MSIDirectory_handleAction p c d (remove1 14 actions) msg line next_state) (\<lambda>cas.
       Inr (if 14 \<in> set actions
            then cas @ [action_on SEND_BUS_MSG (directory_message p msg DIR_PUTE
                                                  [word_of_int (d_shared_memory_id p)] K_UNKNOWN)]
            else cas))"

text \<open>\<open>Data2Req\<close> of \<open>MOESIDirectory\<close> carries the acknowledgement count the home put in the
  forwarded request.\<close>

definition MOESIDirectory_handleAction ::
  "directory_protocol \<Rightarrow> cache \<Rightarrow> directory \<Rightarrow> int list \<Rightarrow> message \<Rightarrow> cache_line \<Rightarrow> int
   \<Rightarrow> controller_action list result" where
  "MOESIDirectory_handleAction p c d actions msg line next_state =
     result_bind (MESIDirectory_handleAction p c d (filter (\<lambda>a. a \<notin> {15, 16, 7}) actions) msg line next_state)
       (\<lambda>cas.
          let cas1 = (if 15 \<in> set actions
                      then action_on WRITE_BACK (directory_message p msg DIR_PUTO [] K_UNKNOWN) # cas else cas);
              cas2 = (if 16 \<in> set actions then cas1 @ [action_on SET_ACK_NUMBER msg] else cas1)
          in Inr (if 7 \<in> set actions
                  then action_on WRITE_BACK
                         (msg\<lparr>complementary_value := complementary_value2 msg, msg_to := []\<rparr>) # cas2
                  else cas2))"

section \<open>Home\<close>

datatype home_event =
    H_GetS | H_GetM | H_Replacement | H_PutS | H_last_PutS | H_InvAck | H_last_InvAck | PutM_Data_fromOwner
  | PutM_Data_fromNonOwner | H_Data_fromLowerInterface | H_Data_fromUpperInterface

fun home_event_num :: "home_event \<Rightarrow> int" where
  "home_event_num H_GetS = 0"
| "home_event_num H_GetM = 1"
| "home_event_num H_Replacement = 2"
| "home_event_num H_PutS = 3"
| "home_event_num H_last_PutS = 4"
| "home_event_num H_InvAck = 5"
| "home_event_num H_last_InvAck = 6"
| "home_event_num PutM_Data_fromOwner = 7"
| "home_event_num PutM_Data_fromNonOwner = 8"
| "home_event_num H_Data_fromLowerInterface = 9"
| "home_event_num H_Data_fromUpperInterface = 10"

definition sharers_of :: "cache \<Rightarrow> directory \<Rightarrow> message \<Rightarrow> u64 list option" where
  "sharers_of c d msg = map_of (m_sharers d) (addr_key c (addr msg))"

text \<open>The entry of the line exists and has one sharer.\<close>

definition one_sharer :: "cache \<Rightarrow> directory \<Rightarrow> message \<Rightarrow> bool" where
  "one_sharer c d msg \<longleftrightarrow> (case sharers_of c d msg of None \<Rightarrow> False | Some xs \<Rightarrow> length xs = 1)"

definition LLCMSIDirectory_readEvent ::
  "directory_protocol \<Rightarrow> cache \<Rightarrow> directory \<Rightarrow> message \<Rightarrow> cache_line \<Rightarrow> home_event result" where
  "LLCMSIDirectory_readEvent p c d msg line =
     (case msg_source msg of
        UPPER_INTERCONNECT \<Rightarrow>
          if msg_data msg \<noteq> None then Inr H_Data_fromUpperInterface
          else Inl (Exit ''LLCMSIDirectory: Invalid Transaction'')
      | SELF \<Rightarrow> if uint (owner msg) = d_id p then Inr H_Replacement
                else Inl (Exit ''LLCMSIDirectory: Invalid Transaction'')
      | LOWER_INTERCONNECT \<Rightarrow>
          if msg_data msg \<noteq> None
          then Inr (if complementary_value msg = DIR_PUTM
                    then (if uint (owner msg) = owner_id line then PutM_Data_fromOwner else PutM_Data_fromNonOwner)
                    else H_Data_fromLowerInterface)
          else if complementary_value msg = DIR_GETS then Inr H_GetS
          else if complementary_value msg = DIR_GETM then Inr H_GetM
          else if complementary_value msg = DIR_PUTS
          then Inr (case sharers_of c d msg of
                      None \<Rightarrow> H_PutS
                    | Some xs \<Rightarrow> if xs = [ucast (owner msg)] then H_last_PutS else H_PutS)
          else if complementary_value msg = DIR_INV_ACK
          then Inr (if one_sharer c d msg then H_last_InvAck else H_InvAck)
          else Inl (Exit ''LLCMSIDirectory: Invalid Transaction''))"

definition LLCMESIDirectory_readEvent ::
  "directory_protocol \<Rightarrow> cache \<Rightarrow> directory \<Rightarrow> message \<Rightarrow> cache_line \<Rightarrow> int result" where
  "LLCMESIDirectory_readEvent p c d msg line =
     (if msg_source msg = LOWER_INTERCONNECT \<and> complementary_value msg = DIR_PUTE
      then Inr (if uint (owner msg) = owner_id line then 11 else 12)
      else result_bind (LLCMSIDirectory_readEvent p c d msg line) (\<lambda>e. Inr (home_event_num e)))"

definition LLCMOESIDirectory_readEvent ::
  "directory_protocol \<Rightarrow> cache \<Rightarrow> directory \<Rightarrow> message \<Rightarrow> cache_line \<Rightarrow> int result" where
  "LLCMOESIDirectory_readEvent p c d msg line =
     (let lower = (msg_source msg = LOWER_INTERCONNECT);
          from_owner = (uint (owner msg) = owner_id line) in
      if lower \<and> msg_data msg \<noteq> None \<and> complementary_value msg = DIR_PUTO
      then Inr (if from_owner then (if one_sharer c d msg then 16 else 14) else 15)
      else if lower \<and> msg_data msg \<noteq> None \<and> complementary_value msg = DIR_INV_ACK \<and> one_sharer c d msg
      then Inr 17
      else if lower \<and> msg_data msg = None \<and> complementary_value msg = DIR_GETM \<and> from_owner
      then Inr 13
      else LLCMESIDirectory_readEvent p c d msg line)"

datatype home_action =
    HStall | HGetData | HSendData | HSaveData | HSetOwner | HClearOwner | SendInv | HWriteBack | FwdGetS | FwdGetM
  | PutAck | IncSharers | DecSharers | HFault

definition home_action_of :: "int \<Rightarrow> home_action option" where
  "home_action_of a =
     (if 0 \<le> a \<and> a < 14
      then Some ([HStall, HGetData, HSendData, HSaveData, HSetOwner, HClearOwner, SendInv, HWriteBack, FwdGetS,
                  FwdGetM, PutAck, IncSharers, DecSharers, HFault] ! nat a)
      else None)"

text \<open>The sharers of the line without the requester.\<close>

definition other_sharers :: "message \<Rightarrow> u64 list \<Rightarrow> u64 list" where
  "other_sharers msg xs = filter (\<lambda>i. i \<noteq> ucast (owner msg)) xs"

text \<open>The count that goes out with the data: the size of the list, less one when the requester is in it.\<close>

definition ack_number :: "message \<Rightarrow> u64 list option \<Rightarrow> u64" where
  "ack_number msg ss =
     (case ss of
        None \<Rightarrow> 0
      | Some xs \<Rightarrow> if ucast (owner msg) \<in> set xs then of_nat (length xs) - 1 else of_nat (length xs))"

definition response_action :: "message \<Rightarrow> action_type" where
  "response_action msg = (if msg_source msg = LOWER_INTERCONNECT then HIT_Action else REMOVE_PENDING)"

definition LLCMSIDirectory_action_step ::
  "directory_protocol \<Rightarrow> cache \<Rightarrow> directory \<Rightarrow> message \<Rightarrow> int \<Rightarrow> int
   \<Rightarrow> cache_line \<times> controller_action list \<Rightarrow> (cache_line \<times> controller_action list) result" where
  "LLCMSIDirectory_action_step p c d msg old_owner a s =
     (case s of (line, acc) \<Rightarrow>
      case home_action_of a of
        None \<Rightarrow> Inl (Undefined ''uninitialised controller action'')
      | Some HStall \<Rightarrow> Inl (Exit ''LLCMSIDirectory: Stall Transaction is detected'')
      | Some HGetData \<Rightarrow>
          Inr (line, acc @ [action_on ADD_PENDING msg,
                            action_on SEND_BUS_MSG ((new_message (msg_id msg) (addr msg) 0 (word_of_int a) (owner msg))
                              \<lparr>msg_to := [word_of_int (d_shared_memory_id p)], msg_kind := K_MEM_READ\<rparr>)])
      | Some HSendData \<Rightarrow>
          Inr (line, acc @ [action_on (response_action msg)
                 (msg\<lparr>msg_to := [owner msg], msg_kind := K_RESP,
                      complementary_value :=
                        (if owner_id line \<noteq> - 1 then ack_number msg (sharers_of c d msg) else 0)\<rparr>)])
      | Some HSaveData \<Rightarrow> Inr (line, acc @ [no_action])
      | Some HSetOwner \<Rightarrow> Inr (line\<lparr>owner_id := uint (owner msg)\<rparr>, acc @ [action_on SET_SHARERS msg])
      | Some HClearOwner \<Rightarrow> Inr (line\<lparr>owner_id := - 1\<rparr>, acc @ [action_on NO_ACTION msg])
      | Some SendInv \<Rightarrow>
          (case sharers_of c d msg of
             None \<Rightarrow> Inl (Throw ''out_of_range'')
           | Some xs \<Rightarrow>
               Inr (line, acc @ [action_on SEND_FWD_MESSAGE
                      (msg\<lparr>complementary_value := DIR_INV, msg_kind := K_INV,
                           msg_to := map ucast (other_sharers msg xs)\<rparr>)]))
      | Some FwdGetS \<Rightarrow>
          Inr (line, acc @ [action_on SEND_FWD_MESSAGE
                 (msg\<lparr>complementary_value := DIR_GETS, msg_kind := K_FWD, msg_to := [word_of_int old_owner]\<rparr>)])
      | Some FwdGetM \<Rightarrow>
          Inr (line, acc @ [action_on SEND_FWD_MESSAGE
                 (msg\<lparr>complementary_value := DIR_GETM, msg_kind := K_FWD, msg_to := [word_of_int old_owner]\<rparr>)])
      | Some PutAck \<Rightarrow>
          Inr (line, acc @ [action_on SEND_FWD_MESSAGE (directory_message p msg DIR_PUT_ACK [owner msg] K_ACK)])
      | Some HWriteBack \<Rightarrow>
          Inr (line, acc @ [action_on WRITE_BACK (directory_message p msg 0 [] K_MEM_WRITE)])
      | Some IncSharers \<Rightarrow> Inr (line, acc @ [action_on INCREMENT_SHARERS msg])
      | Some DecSharers \<Rightarrow> Inr (line, acc @ [action_on DECREMENT_SHARERS msg])
      | Some HFault \<Rightarrow> Inl (Exit ''LLCMSIDirectory: Fault Transaction is detected''))"

fun LLCMSIDirectory_action_loop ::
  "directory_protocol \<Rightarrow> cache \<Rightarrow> directory \<Rightarrow> message \<Rightarrow> int \<Rightarrow> int list
   \<Rightarrow> cache_line \<times> controller_action list \<Rightarrow> (cache_line \<times> controller_action list) result" where
  "LLCMSIDirectory_action_loop p c d msg old_owner [] s = Inr s"
| "LLCMSIDirectory_action_loop p c d msg old_owner (a # as) s =
     result_bind (LLCMSIDirectory_action_step p c d msg old_owner a s)
       (LLCMSIDirectory_action_loop p c d msg old_owner as)"

definition LLCMSIDirectory_handleAction ::
  "directory_protocol \<Rightarrow> cache \<Rightarrow> directory \<Rightarrow> int list \<Rightarrow> message \<Rightarrow> cache_line \<Rightarrow> int
   \<Rightarrow> controller_action list result" where
  "LLCMSIDirectory_handleAction p c d actions msg line next_state =
     result_bind (LLCMSIDirectory_action_loop p c d msg (owner_id line) actions (line, [])) (\<lambda>(line', acc).
     result_bind (directory_line_action p msg line' next_state) (\<lambda>u. Inr (acc @ [u])))"

definition LLCMESIDirectory_handleAction ::
  "directory_protocol \<Rightarrow> cache \<Rightarrow> directory \<Rightarrow> int list \<Rightarrow> message \<Rightarrow> cache_line \<Rightarrow> int
   \<Rightarrow> controller_action list result" where
  "LLCMESIDirectory_handleAction p c d actions msg line next_state =
     result_bind (LLCMSIDirectory_handleAction p c d (remove1 14 actions) msg line next_state) (\<lambda>cas.
       Inr (if 14 \<in> set actions
            then cas @ [action_on (response_action msg)
                          (msg\<lparr>msg_to := [owner msg], complementary_value := RESPONSE_TYPE_EXECLUSIVE_DATA\<rparr>)]
            else cas))"

text \<open>
  \<open>LLCMOESIDirectory\<close> takes four actions out of the row and appends what they ask for. The comparison of a
  sharer with the old owner is between a \<open>uint64_t\<close> and an \<open>int\<close>, which is sign-extended.
\<close>

definition moesi_inv_targets :: "directory_protocol \<Rightarrow> message \<Rightarrow> int \<Rightarrow> u64 list \<Rightarrow> u64 list" where
  "moesi_inv_targets p msg old_owner xs =
     filter (\<lambda>i. i \<noteq> ucast (owner msg) \<and> \<not> (i = word_of_int old_owner \<and> uint (owner msg) \<noteq> d_id p)) xs"

definition moesi_fwd_count :: "message \<Rightarrow> int \<Rightarrow> u64 list \<Rightarrow> u64" where
  "moesi_fwd_count msg old_owner xs =
     of_nat (length (filter (\<lambda>i. i \<noteq> ucast (owner msg) \<and> i \<noteq> word_of_int old_owner) xs))"

definition with_sharers ::
  "bool \<Rightarrow> u64 list option \<Rightarrow> (u64 list \<Rightarrow> message) \<Rightarrow> controller_action list \<Rightarrow> controller_action list result" where
  "with_sharers flag ss f cas =
     (if \<not> flag then Inr cas
      else case ss of None \<Rightarrow> Inl (Throw ''out_of_range'')
                    | Some xs \<Rightarrow> Inr (cas @ [action_on SEND_FWD_MESSAGE (f xs)]))"

definition LLCMOESIDirectory_handleAction ::
  "directory_protocol \<Rightarrow> cache \<Rightarrow> directory \<Rightarrow> int list \<Rightarrow> message \<Rightarrow> cache_line \<Rightarrow> int
   \<Rightarrow> controller_action list result" where
  "LLCMOESIDirectory_handleAction p c d actions msg line next_state =
     (let old_owner = owner_id line; ss = sharers_of c d msg in
      result_bind (LLCMESIDirectory_handleAction p c d (filter (\<lambda>a. a \<notin> {6, 9, 15, 16}) actions)
                     msg line next_state) (\<lambda>cas.
      let cas1 = (if 15 \<in> set actions
                  then cas @ [action_on SEND_FWD_MESSAGE
                                ((directory_message p msg (ack_number msg ss) [owner msg] K_UNKNOWN)
                                   \<lparr>complementary_value2 := RESPONSE_TYPE_ACKCOUNT\<rparr>)]
                  else cas) in
      result_bind (with_sharers (6 \<in> set actions) ss
                     (\<lambda>xs. msg\<lparr>complementary_value := DIR_INV,
                               msg_to := map ucast (moesi_inv_targets p msg old_owner xs)\<rparr>) cas1) (\<lambda>cas2.
      result_bind (with_sharers (9 \<in> set actions) ss
                     (\<lambda>xs. msg\<lparr>complementary_value := DIR_GETM, msg_to := [word_of_int old_owner],
                               complementary_value2 := moesi_fwd_count msg old_owner xs\<rparr>) cas2) (\<lambda>cas3.
      Inr (if 16 \<in> set actions
           then cas3 @ [action_on SEND_FWD_MESSAGE
                          (msg\<lparr>complementary_value := DIR_INVM, msg_to := [word_of_int old_owner]\<rparr>)]
           else cas3)))))"

section \<open>The virtual calls\<close>

definition is_home :: "directory_kind \<Rightarrow> bool" where
  "is_home k \<longleftrightarrow> k \<in> {DIRECTORY_LLC_MSI, DIRECTORY_LLC_MESI, DIRECTORY_LLC_MOESI}"

definition directory_readEvent ::
  "directory_protocol \<Rightarrow> cache \<Rightarrow> directory \<Rightarrow> message \<Rightarrow> cache_line \<Rightarrow> int result" where
  "directory_readEvent p c d msg line =
     (case d_kind p of
        DIRECTORY_MSI \<Rightarrow> result_bind (MSIDirectory_readEvent p c d msg) (\<lambda>e. Inr (directory_event_num e))
      | DIRECTORY_MESI \<Rightarrow> MESIDirectory_readEvent p c d msg
      | DIRECTORY_MOESI \<Rightarrow> MOESIDirectory_readEvent p c d msg
      | DIRECTORY_LLC_MSI \<Rightarrow> result_bind (LLCMSIDirectory_readEvent p c d msg line) (\<lambda>e. Inr (home_event_num e))
      | DIRECTORY_LLC_MESI \<Rightarrow> LLCMESIDirectory_readEvent p c d msg line
      | DIRECTORY_LLC_MOESI \<Rightarrow> LLCMOESIDirectory_readEvent p c d msg line)"

definition directory_handleAction ::
  "directory_protocol \<Rightarrow> cache \<Rightarrow> directory \<Rightarrow> int list \<Rightarrow> message \<Rightarrow> cache_line \<Rightarrow> int
   \<Rightarrow> controller_action list result" where
  "directory_handleAction p =
     (case d_kind p of
        DIRECTORY_MSI \<Rightarrow> MSIDirectory_handleAction p
      | DIRECTORY_MESI \<Rightarrow> MESIDirectory_handleAction p
      | DIRECTORY_MOESI \<Rightarrow> MOESIDirectory_handleAction p
      | DIRECTORY_LLC_MSI \<Rightarrow> LLCMSIDirectory_handleAction p
      | DIRECTORY_LLC_MESI \<Rightarrow> LLCMESIDirectory_handleAction p
      | DIRECTORY_LLC_MOESI \<Rightarrow> LLCMOESIDirectory_handleAction p)"

text \<open>No event decoder of this family changes the message.\<close>

definition directory_processRequest ::
  "directory_protocol \<Rightarrow> cache \<Rightarrow> directory \<Rightarrow> message \<Rightarrow> controller_action list result" where
  "directory_processRequest p c d msg =
     result_bind (readLineBits (addr msg) new_line c) (\<lambda>(line, _).
     result_bind (directory_readEvent p c d msg line) (\<lambda>ev.
     result_bind (getTransition (d_fsm p) (line_state line) ev) (\<lambda>(next_state, actions).
       directory_handleAction p c d actions msg line next_state)))"

definition directory_getRequestState ::
  "directory_protocol \<Rightarrow> cache \<Rightarrow> directory \<Rightarrow> message \<Rightarrow> (directory_protocol \<times> FRFCFS_State) result" where
  "directory_getRequestState p c d msg =
     result_bind (readLineBits (addr msg) new_line c) (\<lambda>(line, _).
     result_bind (directory_readEvent p c d msg line) (\<lambda>ev.
       if is_home (d_kind p) \<and> msg_data msg \<noteq> None then Inr (p, Ready)
       else result_bind (isStall (line_state line) ev (d_fsm p)) (\<lambda>(r, stall).
         Inr (p\<lparr>d_fsm := r\<rparr>, if stall then NonReady else Ready))))"

text \<open>The private caches keep the base class's answer.\<close>

definition directory_needsDataArray ::
  "directory_protocol \<Rightarrow> cache \<Rightarrow> directory \<Rightarrow> message \<Rightarrow> bool result" where
  "directory_needsDataArray p c d msg =
     (if \<not> is_home (d_kind p) then Inr False
      else result_bind (readLineBits (addr msg) new_line c) (\<lambda>(line, _).
           result_bind (directory_readEvent p c d msg line) (\<lambda>ev.
             has_any_action (d_fsm p) (line_state line) ev [''SendData'', ''SendExeclusiveData'', ''SaveData''])))"

definition directory_createDefaultCacheLine ::
  "directory_protocol \<Rightarrow> cache \<Rightarrow> cache_line \<Rightarrow> directory_protocol \<times> cache_line" where
  "directory_createDefaultCacheLine p c line =
     (if \<not> is_home (d_kind p) then (p, line)
      else case getState ''I'' (d_fsm p) of
        (r, st) \<Rightarrow> (p\<lparr>d_fsm := r\<rparr>, (initializeCacheLine c line)\<lparr>line_state := st, valid := True\<rparr>))"

definition directory_protocol_named :: "string \<Rightarrow> directory_kind option" where
  "directory_protocol_named name =
     (if name = ''DIRECTORY_MSI'' then Some DIRECTORY_MSI
      else if name = ''DIRECTORY_LLC_MSI'' then Some DIRECTORY_LLC_MSI
      else if name = ''DIRECTORY_MESI'' then Some DIRECTORY_MESI
      else if name = ''DIRECTORY_LLC_MESI'' then Some DIRECTORY_LLC_MESI
      else if name = ''DIRECTORY_MOESI'' then Some DIRECTORY_MOESI
      else if name = ''DIRECTORY_LLC_MOESI'' then Some DIRECTORY_LLC_MOESI
      else None)"

definition new_directory_protocol ::
  "directory_kind \<Rightarrow> string option \<Rightarrow> int \<Rightarrow> int \<Rightarrow> directory_protocol result" where
  "new_directory_protocol k fsmFile cache_id shared_mem_id =
     result_bind (new_FSMReader fsmFile) (\<lambda>r.
       Inr \<lparr> d_kind = k, d_id = cache_id, d_shared_memory_id = shared_mem_id, d_fsm = r \<rparr>)"

section \<open>Acknowledgements and invalidations\<close>

lemma uint_not_minus_one [simp]: "uint (w :: 'a::len word) \<noteq> - 1"
  using uint_ge_0 [of w] by linarith

lemma length_other_sharers:
  assumes "distinct xs"
  shows "of_nat (length (other_sharers msg xs)) = ack_number msg (Some xs)"
proof -
  have "length (other_sharers msg xs) = length (remove1 (ucast (owner msg)) xs)"
    unfolding other_sharers_def using distinct_remove1_removeAll [OF assms, of "ucast (owner msg)"]
    by (metis (mono_tags, lifting) filter_cong removeAll_filter_not_eq)
  moreover have "of_nat (length xs - 1) = (of_nat (length xs) - 1 :: u64)" if "0 < length xs"
    using that by (cases "length xs") auto
  ultimately show ?thesis
    by (auto simp: ack_number_def length_remove1 dest: length_pos_if_in_set)
qed

text \<open>What the actions of an upgrade row build, for each of the three homes.\<close>

lemma upgrade_actions:
  assumes "LLCMSIDirectory_handleAction p c d [4, 2, 6] msg line nxt = Inr cas"
    and "sharers_of c d msg = Some xs"
  obtains u where "cas = [action_on SET_SHARERS msg,
      action_on (response_action msg)
        (msg\<lparr>msg_to := [owner msg], msg_kind := K_RESP, complementary_value := ack_number msg (Some xs)\<rparr>),
      action_on SEND_FWD_MESSAGE
        (msg\<lparr>complementary_value := DIR_INV, msg_kind := K_INV, msg_to := map ucast (other_sharers msg xs)\<rparr>), u]"
  using assms
  by (auto simp: LLCMSIDirectory_handleAction_def LLCMSIDirectory_action_step_def home_action_of_def
      result_bind_Inr_iff)

lemma moesi_upgrade_actions:
  assumes "LLCMOESIDirectory_handleAction p c d [4, 2, 6] msg line nxt = Inr cas"
    and "sharers_of c d msg = Some xs"
  obtains u where "cas = [action_on SET_SHARERS msg,
      action_on (response_action msg)
        (msg\<lparr>msg_to := [owner msg], msg_kind := K_RESP, complementary_value := ack_number msg (Some xs)\<rparr>), u,
      action_on SEND_FWD_MESSAGE
        (msg\<lparr>complementary_value := DIR_INV, msg_to := map ucast (moesi_inv_targets p msg (owner_id line) xs)\<rparr>)]"
  using assms
  by (auto simp: LLCMOESIDirectory_handleAction_def LLCMESIDirectory_handleAction_def with_sharers_def
      LLCMSIDirectory_handleAction_def LLCMSIDirectory_action_step_def home_action_of_def result_bind_Inr_iff)

text \<open>
  C27. When the home grants a store to a line in S (row \<open>SetOwner/SendData/SendInv\<close> of all three directory
  tables), the acknowledgement count it sends with the data is the number of invalidations it sends, and those
  go to the sharers other than the requester: the requester waits for exactly the acknowledgements that will
  come. For MOESI the line must not have an owner among the sharers, which is what S means.
\<close>

theorem upgrade_acks_match_invalidations:
  assumes "is_home (d_kind p)"
    and "directory_handleAction p c d [4, 2, 6] msg line nxt = Inr cas"
    and "sharers_of c d msg = Some xs" and "distinct xs"
    and "d_kind p = DIRECTORY_LLC_MOESI \<longrightarrow> word_of_int (owner_id line) \<notin> set xs"
  shows "\<exists>resp inv. action_on (response_action msg) resp \<in> set cas \<and> action_on SEND_FWD_MESSAGE inv \<in> set cas \<and>
    msg_to resp = [owner msg] \<and> complementary_value inv = DIR_INV \<and>
    msg_to inv = map ucast (filter (\<lambda>i. i \<noteq> ucast (owner msg)) xs) \<and>
    complementary_value resp = of_nat (length (msg_to inv))"
proof (cases "d_kind p = DIRECTORY_LLC_MOESI")
  case True
  then have m: "LLCMOESIDirectory_handleAction p c d [4, 2, 6] msg line nxt = Inr cas"
    using assms(2) by (simp add: directory_handleAction_def)
  have t: "moesi_inv_targets p msg (owner_id line) xs = other_sharers msg xs"
    using assms(5) True by (auto simp: moesi_inv_targets_def other_sharers_def intro!: filter_cong)
  from m assms(3) obtain u where "cas = [action_on SET_SHARERS msg,
      action_on (response_action msg)
        (msg\<lparr>msg_to := [owner msg], msg_kind := K_RESP, complementary_value := ack_number msg (Some xs)\<rparr>), u,
      action_on SEND_FWD_MESSAGE
        (msg\<lparr>complementary_value := DIR_INV, msg_to := map ucast (moesi_inv_targets p msg (owner_id line) xs)\<rparr>)]"
    by (rule moesi_upgrade_actions)
  then show ?thesis
    unfolding t other_sharers_def [symmetric]
    by (intro exI conjI) (auto simp: length_other_sharers [OF assms(4)])
next
  case False
  then have m: "LLCMSIDirectory_handleAction p c d [4, 2, 6] msg line nxt = Inr cas"
    using assms(1,2)
    by (auto simp: directory_handleAction_def is_home_def LLCMESIDirectory_handleAction_def result_bind_Inr_iff)
  from m assms(3) obtain u where "cas = [action_on SET_SHARERS msg,
      action_on (response_action msg)
        (msg\<lparr>msg_to := [owner msg], msg_kind := K_RESP, complementary_value := ack_number msg (Some xs)\<rparr>),
      action_on SEND_FWD_MESSAGE
        (msg\<lparr>complementary_value := DIR_INV, msg_kind := K_INV, msg_to := map ucast (other_sharers msg xs)\<rparr>), u]"
    by (rule upgrade_actions)
  then show ?thesis
    unfolding other_sharers_def [symmetric]
    by (intro exI conjI) (auto simp: length_other_sharers [OF assms(4)])
qed


definition example_home :: "directory_kind \<Rightarrow> directory_protocol" where
  "example_home k = \<lparr> d_kind = k, d_id = 10, d_shared_memory_id = 100,
     d_fsm = \<lparr> m_eventIds = [], m_actionIds = [], m_stateIds = [(''M'', 0)],
       m_states = [\<lparr> is_data_valid = True, stable = True, transitions = [], fsm_actions = [], m_own_state = 0 \<rparr>] \<rparr> \<rparr>"

text \<open>Core 0 stores to the line at address 64, which cores 0, 1 and 2 share.\<close>

definition example_sharers :: directory where
  "example_sharers = \<lparr> m_sharers = [(64, [0, 1, 2])], m_ack_counters = [] \<rparr>"

definition example_getm :: message where
  "example_getm = new_message 7 64 0 DIR_GETM 0"

theorem upgrade_acks_match_invalidations_witness:
  "\<exists>cas resp inv. directory_handleAction (example_home DIRECTORY_LLC_MSI) example_cache example_sharers [4, 2, 6]
       example_getm new_line 0 = Inr cas \<and>
     action_on HIT_Action resp \<in> set cas \<and> action_on SEND_FWD_MESSAGE inv \<in> set cas \<and>
     complementary_value resp = 2 \<and> msg_to inv = [1, 2]"
proof -
  have ss: "sharers_of example_cache example_sharers example_getm = Some [0, 1, 2]" by code_simp
  have src: "response_action example_getm = HIT_Action" "owner example_getm = 0" by code_simp+
  have "case directory_handleAction (example_home DIRECTORY_LLC_MSI) example_cache example_sharers [4, 2, 6]
       example_getm new_line 0 of Inl e \<Rightarrow> False | Inr cas \<Rightarrow> True" by code_simp
  then obtain cas where cas: "directory_handleAction (example_home DIRECTORY_LLC_MSI) example_cache example_sharers
       [4, 2, 6] example_getm new_line 0 = Inr cas" by (rule case_InrE)
  have home: "is_home (d_kind (example_home DIRECTORY_LLC_MSI))" by code_simp
  have moesi: "d_kind (example_home DIRECTORY_LLC_MSI) = DIRECTORY_LLC_MOESI \<longrightarrow>
      word_of_int (owner_id new_line) \<notin> set [0, 1, 2 :: u64]" by (simp add: example_home_def)
  obtain resp inv where "action_on HIT_Action resp \<in> set cas" "action_on SEND_FWD_MESSAGE inv \<in> set cas"
    "msg_to inv = [1, 2]" "complementary_value resp = 2"
    using upgrade_acks_match_invalidations [OF home cas ss _ moesi] unfolding src by auto
  then show ?thesis using cas by blast
qed

section \<open>The acknowledgement count of a forwarded store\<close>

text \<open>
  In MOESI the home counts the invalidations of an owned line in the request it forwards to the owner
  (row \<open>SetOwner/FwdGetM/SendInv\<close> of state O): the count in the forwarded message is the number of
  invalidations it sends beside it.
\<close>

lemma forwarded_count_matches_invalidations:
  assumes "d_kind p = DIRECTORY_LLC_MOESI" and "uint (owner msg) \<noteq> d_id p"
    and "directory_handleAction p c d [4, 9, 6] msg line nxt = Inr cas"
  shows "\<exists>fwd inv. action_on SEND_FWD_MESSAGE fwd \<in> set cas \<and> action_on SEND_FWD_MESSAGE inv \<in> set cas \<and>
    complementary_value fwd = DIR_GETM \<and> msg_to fwd = [word_of_int (owner_id line)] \<and>
    complementary_value inv = DIR_INV \<and> complementary_value2 fwd = of_nat (length (msg_to inv))"
proof -
  have h: "LLCMOESIDirectory_handleAction p c d [4, 9, 6] msg line nxt = Inr cas"
    using assms(1,3) by (simp add: directory_handleAction_def)
  obtain xs where xs: "sharers_of c d msg = Some xs"
    using h by (auto simp: LLCMOESIDirectory_handleAction_def with_sharers_def result_bind_Inr_iff Let_def
        split: option.splits)
  let ?inv = "msg\<lparr>complementary_value := DIR_INV, msg_to := map ucast (moesi_inv_targets p msg (owner_id line) xs)\<rparr>"
  let ?fwd = "msg\<lparr>complementary_value := DIR_GETM, msg_to := [word_of_int (owner_id line)],
      complementary_value2 := moesi_fwd_count msg (owner_id line) xs\<rparr>"
  have "action_on SEND_FWD_MESSAGE ?inv \<in> set cas" "action_on SEND_FWD_MESSAGE ?fwd \<in> set cas"
    using h xs by (auto simp: LLCMOESIDirectory_handleAction_def with_sharers_def result_bind_Inr_iff Let_def)
  moreover have "moesi_fwd_count msg (owner_id line) xs
      = of_nat (length (map ucast (moesi_inv_targets p msg (owner_id line) xs) :: u16 list))"
    using assms(2) by (simp add: moesi_fwd_count_def moesi_inv_targets_def)
  ultimately show ?thesis by (intro exI [of _ ?fwd] exI [of _ ?inv] conjI) simp_all
qed

text \<open>Core 0 stores to a line that core 1 owns and that cores 2 to \<open>n\<close> share.\<close>

definition example_owned :: "u64 list \<Rightarrow> directory" where
  "example_owned xs = \<lparr> m_sharers = [(64, xs)], m_ack_counters = [] \<rparr>"

lemma forwarded_count_matches_invalidations_witness:
  "\<exists>cas fwd inv. directory_handleAction (example_home DIRECTORY_LLC_MOESI) example_cache (example_owned [1, 2, 3])
       [4, 9, 6] example_getm (new_line\<lparr>owner_id := 1\<rparr>) 0 = Inr cas \<and>
     action_on SEND_FWD_MESSAGE fwd \<in> set cas \<and> action_on SEND_FWD_MESSAGE inv \<in> set cas \<and>
     msg_to fwd = [1] \<and> complementary_value2 fwd = of_nat (length (msg_to inv))"
proof -
  have "case directory_handleAction (example_home DIRECTORY_LLC_MOESI) example_cache (example_owned [1, 2, 3])
       [4, 9, 6] example_getm (new_line\<lparr>owner_id := 1\<rparr>) 0 of Inl e \<Rightarrow> False | Inr cas \<Rightarrow> True" by code_simp
  then obtain cas where cas: "directory_handleAction (example_home DIRECTORY_LLC_MOESI) example_cache
       (example_owned [1, 2, 3]) [4, 9, 6] example_getm (new_line\<lparr>owner_id := 1\<rparr>) 0 = Inr cas" by (rule case_InrE)
  have "d_kind (example_home DIRECTORY_LLC_MOESI) = DIRECTORY_LLC_MOESI"
    "uint (owner example_getm) \<noteq> d_id (example_home DIRECTORY_LLC_MOESI)" by code_simp+
  from forwarded_count_matches_invalidations [OF this cas] show ?thesis using cas by auto
qed

section \<open>The count nine\<close>

text \<open>
  The count travels in the member that also marks an acknowledgement-count response, whose marker is 9: when
  nine caches have to be invalidated, the owner decodes the forwarded store as \<open>AckCount\<close> (event 13) instead of
  \<open>Fwd_GetM\<close>, and the requester decodes the owner's data response as \<open>AckCount\<close> too.
\<close>

lemma count_nine_is_decoded_as_AckCount:
  assumes "d_kind home = DIRECTORY_LLC_MOESI" and "d_kind p = DIRECTORY_MOESI"
    and "directory_handleAction home c d [9] msg line nxt = Inr cas"
    and "sharers_of c d msg = Some xs" and "moesi_fwd_count msg (owner_id line) xs = 9"
  shows "\<exists>fwd. action_on SEND_FWD_MESSAGE fwd \<in> set cas \<and> complementary_value fwd = DIR_GETM \<and>
    directory_readEvent p c' d' (fwd\<lparr>msg_source := UPPER_INTERCONNECT\<rparr>) l = Inr 13 \<and>
    (\<forall>cas' l' n. directory_handleAction p c' d' [7] (fwd\<lparr>msg_source := UPPER_INTERCONNECT\<rparr>) l' n = Inr cas' \<longrightarrow>
       (\<exists>resp. action_on WRITE_BACK resp \<in> set cas' \<and>
          directory_readEvent p c' d' (resp\<lparr>msg_source := UPPER_INTERCONNECT, msg_data := Some bytes\<rparr>) l = Inr 13))"
proof -
  have h: "LLCMOESIDirectory_handleAction home c d [9] msg line nxt = Inr cas"
    using assms(1,3) by (simp add: directory_handleAction_def)
  let ?fwd = "msg\<lparr>complementary_value := DIR_GETM, msg_to := [word_of_int (owner_id line)],
      complementary_value2 := 9\<rparr>"
  let ?up = "?fwd\<lparr>msg_source := UPPER_INTERCONNECT\<rparr>"
  have "action_on SEND_FWD_MESSAGE ?fwd \<in> set cas"
    using h assms(4,5) by (auto simp: LLCMOESIDirectory_handleAction_def with_sharers_def result_bind_Inr_iff Let_def)
  moreover have ev: "directory_readEvent p c' d' m l = Inr 13"
    if "msg_source m = UPPER_INTERCONNECT" "complementary_value2 m = 9" "complementary_value m \<noteq> 0" for m
    using assms(2) that by (simp add: directory_readEvent_def MOESIDirectory_readEvent_def RESPONSE_TYPE_ACKCOUNT_def)
  moreover have "action_on WRITE_BACK (?up\<lparr>complementary_value := 9, msg_to := []\<rparr>) \<in> set cas'"
    if "directory_handleAction p c' d' [7] ?up l' n = Inr cas'" for cas' l' n
    using that assms(2)
    by (auto simp: directory_handleAction_def MOESIDirectory_handleAction_def result_bind_Inr_iff Let_def)
  ultimately show ?thesis
    by (intro exI [of _ ?fwd] conjI allI impI exI [of _ "?up\<lparr>complementary_value := 9, msg_to := []\<rparr>"])
      (simp_all add: ev DIR_GETM_def)
qed

definition example_private :: "directory_kind \<Rightarrow> int \<Rightarrow> directory_protocol" where
  "example_private k i = (example_home k)\<lparr>d_id := i, d_shared_memory_id := 10\<rparr>"

lemma count_nine_is_decoded_as_AckCount_witness:
  "\<exists>cas fwd. directory_handleAction (example_home DIRECTORY_LLC_MOESI) example_cache
       (example_owned [1, 2, 3, 4, 5, 6, 7, 8, 9, 11]) [9] example_getm (new_line\<lparr>owner_id := 1\<rparr>) 0 = Inr cas \<and>
     action_on SEND_FWD_MESSAGE fwd \<in> set cas \<and> complementary_value fwd = DIR_GETM \<and>
     directory_readEvent (example_private DIRECTORY_MOESI 1) example_cache (example_owned [])
       (fwd\<lparr>msg_source := UPPER_INTERCONNECT\<rparr>) new_line = Inr 13"
proof -
  let ?d = "example_owned [1, 2, 3, 4, 5, 6, 7, 8, 9, 11]"
  have "case directory_handleAction (example_home DIRECTORY_LLC_MOESI) example_cache ?d [9] example_getm
       (new_line\<lparr>owner_id := 1\<rparr>) 0 of Inl e \<Rightarrow> False | Inr cas \<Rightarrow> True" by code_simp
  then obtain cas where cas: "directory_handleAction (example_home DIRECTORY_LLC_MOESI) example_cache ?d [9]
       example_getm (new_line\<lparr>owner_id := 1\<rparr>) 0 = Inr cas" by (rule case_InrE)
  have "d_kind (example_home DIRECTORY_LLC_MOESI) = DIRECTORY_LLC_MOESI"
    "d_kind (example_private DIRECTORY_MOESI 1) = DIRECTORY_MOESI"
    "sharers_of example_cache ?d example_getm = Some [1, 2, 3, 4, 5, 6, 7, 8, 9, 11]"
    "moesi_fwd_count example_getm (owner_id (new_line\<lparr>owner_id := 1\<rparr>)) [1, 2, 3, 4, 5, 6, 7, 8, 9, 11] = 9"
    by code_simp+
  from count_nine_is_decoded_as_AckCount [OF this(1,2) cas this(3,4), of example_cache "example_owned []" new_line "[]"]
  show ?thesis using cas by blast
qed

end
