(* ===== verification/Controllers.thy ===== *)
theory Controllers
  imports DirectoryProtocols Interfaces
begin

text \<open>
  The cache controllers, src/CacheControllers: \<open>BaseController\<close>, \<open>CacheController\<close> and the three
  classes derived from it (\<open>CacheControllerExclusive\<close>, \<open>CacheController_End2End\<close>,
  \<open>CacheControllerDirectory\<close>). A controller owns its processing queue, data handler, protocol and the
  two interfaces; the members of all classes are one record and the virtual calls dispatch on
  \<open>controller_kind\<close>. \<open>Base_f\<close> and \<open>Cache_f\<close> are \<open>BaseController::f\<close> and the override
  in \<open>CacheController\<close>. Log records, traces and debug dumps are left out.
\<close>

section \<open>State\<close>

text \<open>A protocol handler of either family; the two maps of the directory family belong to the controller.\<close>

datatype coherence = Snooping protocol | Directory directory_protocol

datatype controller_kind = PlainController | ExclusiveController | End2EndController | DirectoryController

datatype array_op_kind = MESSAGE | ACTIONS

record data_array_op =
  op_kind :: array_op_kind
  op_msg :: message
  op_actions :: "controller_action list"
  op_id :: u64
  admitted :: bool
  ready_cycle :: u64

text \<open>The calls an external core receives (\<open>ExternalCPU::commit\<close>, \<open>ExternalCPU::invalidate\<close>).\<close>

datatype port_call = Commit u64 u64 | Invalidate u64

text \<open>
  The last four members are not of the class: the delivery counter of the interfaces, the next request number
  (\<open>IdGenerator::reqId\<close>), and what \<open>rand()\<close> returns, with the number of draws so far. A flag set to
  an \<open>int\<close> in the configuration is a \<open>bool\<close> here. \<open>m_array_park\<close> maps a message to the two
  counters at the time it was parked.
\<close>

record controller =
  c_kind :: controller_kind
  c_id :: int
  c_shared_memory_id :: int
  m_perfect_llc :: bool
  m_cache_cycle :: u64
  m_lower_interface :: interface
  m_upper_interface :: interface
  m_data_handler :: cache
  m_protocol :: coherence
  m_directory :: directory
  m_processing_queue :: frfcfs
  m_processing_queue_size :: int
  m_cpu_port :: bool
  m_port_calls :: "port_call list"
  m_data_read_failures :: u64
  m_admit_fail_cycles :: u64
  m_intake_refusals :: u64
  m_queue_peak :: int
  m_pending_requests :: "(u64 \<times> message list) list"
  m_num_mshr :: int
  m_saved_requests_for_wb :: "(u64 \<times> message list) list"
  m_modifying_data_messages :: "(u64 \<times> message) list"
  m_data_access_arbiter :: "arbiter option"
  m_arbiter_candidates :: "int list"
  m_array_served :: u64
  m_array_served_writes :: u64
  m_array_park :: "(u64 \<times> u64 \<times> u64) list"
  m_array_ops :: "data_array_op list"
  m_array_admitted_this_cycle :: u32
  m_array_op_seq :: u64
  m_pipe_firing :: bool
  m_pipe_ops :: u64
  m_pipe_early_fires :: u64
  m_pipe_requeues :: u64
  m_line_interlock :: bool
  m_owner_of_latest_data :: int
  delivery_seq :: u64
  next_request_id :: int
  rand_draws :: nat
  rand_value :: "nat \<Rightarrow> nat"

definition getAddressKey :: "controller \<Rightarrow> u64 \<Rightarrow> u64" where
  "getAddressKey s a = addr_key (m_data_handler s) a"

text \<open>\<open>m[key]\<close> of a map of vectors: an absent entry is an empty vector.\<close>

definition entry :: "('k \<times> 'v list) list \<Rightarrow> 'k \<Rightarrow> 'v list" where
  "entry m k = (case map_of m k of Some vs \<Rightarrow> vs | None \<Rightarrow> [])"

definition push_entry :: "'k \<Rightarrow> 'v \<Rightarrow> ('k \<times> 'v list) list \<Rightarrow> ('k \<times> 'v list) list" where
  "push_entry k v m = AList.update k (entry m k @ [v]) m"

text \<open>\<open>IdGenerator::nextReqId\<close>: an \<open>int\<close> that must not overflow.\<close>

definition nextReqId :: "controller \<Rightarrow> (controller \<times> u64) result" where
  "nextReqId s =
     (if next_request_id s = 2 ^ 31 - 1 then Inl (Undefined ''IdGenerator: overflow'')
      else Inr (s\<lparr>next_request_id := next_request_id s + 1\<rparr>, word_of_int (next_request_id s)))"

section \<open>The calls of the protocol\<close>

definition coh_processRequest ::
  "coherence \<Rightarrow> cache \<Rightarrow> directory \<Rightarrow> message \<Rightarrow> controller_action list result" where
  "coh_processRequest p c d msg =
     (case p of
        Snooping sp \<Rightarrow> result_bind (processRequest sp c msg) (\<lambda>(_, cas). Inr cas)
      | Directory dp \<Rightarrow> directory_processRequest dp c d msg)"

definition coh_getRequestState ::
  "coherence \<Rightarrow> cache \<Rightarrow> directory \<Rightarrow> message \<Rightarrow> (coherence \<times> message \<times> FRFCFS_State) result" where
  "coh_getRequestState p c d msg =
     (case p of
        Snooping sp \<Rightarrow> result_bind (getRequestState sp c msg) (\<lambda>(sp', msg', st). Inr (Snooping sp', msg', st))
      | Directory dp \<Rightarrow> result_bind (directory_getRequestState dp c d msg) (\<lambda>(dp', st). Inr (Directory dp', msg, st)))"

definition coh_needsDataArray :: "coherence \<Rightarrow> cache \<Rightarrow> directory \<Rightarrow> message \<Rightarrow> bool result" where
  "coh_needsDataArray p c d msg =
     (case p of
        Snooping sp \<Rightarrow> needsDataArray sp c msg
      | Directory dp \<Rightarrow> directory_needsDataArray dp c d msg)"

text \<open>The directory family keeps the base class's answer.\<close>

definition coh_isReadableState :: "coherence \<Rightarrow> int \<Rightarrow> (coherence \<times> bool) result" where
  "coh_isReadableState p st =
     (case p of
        Snooping sp \<Rightarrow> result_bind (isReadableState sp st) (\<lambda>(sp', b). Inr (Snooping sp', b))
      | Directory dp \<Rightarrow> Inr (p, False))"

definition coh_createDefaultCacheLine :: "coherence \<Rightarrow> cache \<Rightarrow> cache_line \<Rightarrow> coherence \<times> cache_line" where
  "coh_createDefaultCacheLine p c line =
     (case p of
        Snooping sp \<Rightarrow> map_prod Snooping id (createDefaultCacheLine sp c line)
      | Directory dp \<Rightarrow> map_prod Directory id (directory_createDefaultCacheLine dp c line))"

section \<open>Sending\<close>

definition push_lower :: "message \<Rightarrow> message_type \<Rightarrow> string \<Rightarrow> controller \<Rightarrow> controller result" where
  "push_lower m ty err s =
     (case itf_pushMessage (m_lower_interface s) m (m_cache_cycle s) ty of
        (i, _, ok) \<Rightarrow> if ok then Inr (s\<lparr>m_lower_interface := i\<rparr>) else Inl (Exit err))"

definition push_upper :: "message \<Rightarrow> message_type \<Rightarrow> string \<Rightarrow> controller \<Rightarrow> controller result" where
  "push_upper m ty err s =
     (case itf_pushMessage (m_upper_interface s) m (m_cache_cycle s) ty of
        (i, _, ok) \<Rightarrow> if ok then Inr (s\<lparr>m_upper_interface := i\<rparr>) else Inl (Exit err))"

text \<open>\<open>m_upper_interface->pushMessage2RX\<close>: the answer of the call is ignored.\<close>

definition push_upper_rx :: "message \<Rightarrow> message_type \<Rightarrow> controller \<Rightarrow> controller" where
  "push_upper_rx m ty s =
     (case itf_pushMessage2RX (delivery_seq s) (m_upper_interface s) m ty of
        (sq, i, _) \<Rightarrow> s\<lparr>delivery_seq := sq, m_upper_interface := i\<rparr>)"

definition port_call :: "port_call \<Rightarrow> controller \<Rightarrow> controller" where
  "port_call c s = (if m_cpu_port s then s\<lparr>m_port_calls := m_port_calls s @ [c]\<rparr> else s)"

section \<open>BaseController\<close>

definition dataArrayReadFailed :: "message \<Rightarrow> controller \<Rightarrow> controller result" where
  "dataArrayReadFailed m s =
     (let s' = s\<lparr>m_data_read_failures := m_data_read_failures s + 1\<rparr> in
      if \<not> m_cpu_port s then Inr s'
      else result_bind (readLineBits (addr m) new_line (m_data_handler s)) (\<lambda>_.
             Inl (Exit ''CacheController: the array has no readable copy'')))"

text \<open>
  The block that three operations start with: a message without bytes gets those of the line, 64 of them
  whatever the block size (the default argument of \<open>Message::copy\<close>).
\<close>

definition fetch_line_data :: "message \<Rightarrow> controller \<Rightarrow> (controller \<times> message) result" where
  "fetch_line_data m s =
     (if msg_data m \<noteq> None then Inr (s, m)
      else result_bind (readCacheLine (addr m) (Some new_line) False (m_data_handler s)) (\<lambda>(c, out, ok).
        let s' = s\<lparr>m_data_handler := c\<rparr>;
            failed = result_bind (dataArrayReadFailed m s') (\<lambda>s''. Inr (s'', m)) in
        if \<not> ok then failed
        else case out of
            None \<Rightarrow> failed
          | Some l \<Rightarrow> (case line_data l of
                None \<Rightarrow> failed
              | Some d \<Rightarrow> result_bind (message_copy_data m d 64) (\<lambda>m'. Inr (s', m')))))"

definition Base_addtoPendingRequests :: "message \<Rightarrow> controller \<Rightarrow> controller" where
  "Base_addtoPendingRequests m s =
     s\<lparr>m_pending_requests := push_entry (getAddressKey s (addr m)) m (m_pending_requests s)\<rparr>"

text \<open>A pending request as it goes out: the destinations, the value and the bytes of the data message.\<close>

definition response_to :: "message \<Rightarrow> message \<Rightarrow> message result" where
  "response_to m pending =
     (case msg_data m of
        None \<Rightarrow> Inl (Exit ''CacheController: Remove from pending without data'')
      | Some d \<Rightarrow>
          result_bind (message_copy_data
              (pending\<lparr>complementary_value := complementary_value m, msg_to := msg_to m\<rparr>) d 64)
            (\<lambda>p. Inr (p\<lparr>msg_kind := K_RESP\<rparr>)))"

fun respond_all :: "message \<Rightarrow> message list \<Rightarrow> controller \<Rightarrow> controller result" where
  "respond_all m [] s = Inr s"
| "respond_all m (p # ps) s =
     result_bind (response_to m p) (\<lambda>r.
     result_bind (push_lower r DATA_RESPONSE ''CacheController: Cannot insert the Msg into lower interface.''
                    (port_call (Commit (msg_id r) (addr r)) s)) (\<lambda>s'.
       respond_all m ps s'))"

definition Base_removePendingAndRespond :: "message \<Rightarrow> controller \<Rightarrow> controller result" where
  "Base_removePendingAndRespond m s =
     result_bind (fetch_line_data m s) (\<lambda>(s1, m1).
       let k = getAddressKey s1 (addr m1) in
       case map_of (m_pending_requests s1) k of
         None \<Rightarrow> Inl (Exit ''CacheController: Request is not found in the pending buffer.'')
       | Some ps \<Rightarrow>
           result_bind (respond_all m1 ps s1) (\<lambda>s2.
             Inr (s2\<lparr>m_pending_requests := AList.delete k (m_pending_requests s2)\<rparr>)))"

definition Base_hitAction :: "message \<Rightarrow> controller \<Rightarrow> controller result" where
  "Base_hitAction m s =
     result_bind (fetch_line_data m s) (\<lambda>(s1, m1).
       push_lower (m1\<lparr>msg_kind := K_RESP\<rparr>) DATA_RESPONSE ''CacheController: Cannot insert the Msg into lower interface.''
         (port_call (Commit (msg_id m1) (addr m1)) s1))"

text \<open>The fill a perfect shared cache gives itself.\<close>

definition perfect_fill :: "message \<Rightarrow> controller \<Rightarrow> message" where
  "perfect_fill m s =
     (new_message (msg_id m) (addr m) (m_cache_cycle s) 0 (owner m))
       \<lparr>msg_to := [word_of_int (c_id s)], msg_kind := K_FILL, msg_data := Some (replicate 64 0), data_size := 64\<rparr>"

definition Base_sendBusRequest :: "message \<Rightarrow> controller \<Rightarrow> controller result" where
  "Base_sendBusRequest m s =
     (let m' = m\<lparr>msg_cycle := m_cache_cycle s\<rparr> in
      if m_perfect_llc s \<and> msg_to m' \<noteq> [] \<and> msg_to m' ! 0 = word_of_int (c_shared_memory_id s)
      then Inr (push_upper_rx (perfect_fill m' s) DATA_RESPONSE s)
      else push_upper m' REQUEST ''CacheController: Cannot insert the Msg into the upper interface FIFO, FIFO is Full'' s)"

definition Base_performWriteBack :: "message \<Rightarrow> controller \<Rightarrow> controller result" where
  "Base_performWriteBack m s =
     result_bind (fetch_line_data m s) (\<lambda>(s1, m1).
       let own = (uint (owner m1) = c_id s1) in
       if own \<and> m_perfect_llc s1 then Inr s1
       else push_upper (m1\<lparr>msg_to := msg_to m1 @ [if own then word_of_int (c_shared_memory_id s1) else owner m1]\<rparr>)
              DATA_RESPONSE ''CacheController: Cannot insert the Msg into BusTxResp FIFO, FIFO is Full'' s1)"

definition Base_demandAdmissionBlocked :: "int \<Rightarrow> controller \<Rightarrow> bool" where
  "Base_demandAdmissionBlocked outstanding s \<longleftrightarrow>
     0 \<le> m_processing_queue_size s \<and> m_processing_queue_size s \<le> outstanding"

section \<open>Level 2: the accesses that wait for the data array\<close>

definition pipelinedArray :: "controller \<Rightarrow> bool" where
  "pipelinedArray s \<longleftrightarrow> m_data_array_pipelined (m_data_handler s) \<and> 0 < m_data_access_latency (m_data_handler s)"

definition arbitrated :: "controller \<Rightarrow> int \<Rightarrow> bool" where
  "arbitrated s own \<longleftrightarrow> own \<in> set (m_arbiter_candidates s)"

text \<open>The copies the arbiter sees carry the number of the access.\<close>

definition array_candidates :: "controller \<Rightarrow> message list" where
  "array_candidates s =
     map (\<lambda>op. (op_msg op)\<lparr>msg_id := op_id op\<rparr>)
       (filter (\<lambda>op. \<not> admitted op \<and> arbitrated s (uint (owner (op_msg op)))) (m_array_ops s))"

text \<open>The index of the elected access, \<open>None\<close> for the end of the list.\<close>

definition arrayElect :: "controller \<Rightarrow> (controller \<times> nat option) result" where
  "arrayElect s =
     (case m_data_access_arbiter s of
        None \<Rightarrow> Inr (s, first_index (\<lambda>op. \<not> admitted op) (m_array_ops s))
      | Some a \<Rightarrow>
          let rest = first_index (\<lambda>op. \<not> admitted op \<and> \<not> arbitrated s (uint (owner (op_msg op)))) (m_array_ops s) in
          if array_candidates s = [] then Inr (s, rest)
          else result_bind (arbiter_elect a (m_cache_cycle s) [array_candidates s]) (\<lambda>(a', r).
            let s' = s\<lparr>m_data_access_arbiter := Some a'\<rparr> in
            case r of
              None \<Rightarrow> Inr (s', rest)
            | Some (elected, _) \<Rightarrow>
                (case first_index (\<lambda>op. \<not> admitted op \<and> op_id op = msg_id elected) (m_array_ops s) of
                   Some i \<Rightarrow> Inr (s', Some i)
                 | None \<Rightarrow> Inr (s', rest))))"

lemma arrayElect_waiting:
  assumes "arrayElect s = Inr (s', Some i)"
  shows "i < length (m_array_ops s) \<and> \<not> admitted (m_array_ops s ! i)"
  using assms
  by (auto simp: arrayElect_def Let_def result_bind_Inr_iff split: option.splits if_splits dest: first_index_SomeD)

lemma arrayElect_frame:
  assumes "arrayElect s = Inr (s', r)"
  shows "\<exists>a. s' = s\<lparr>m_data_access_arbiter := a\<rparr>"
proof (cases "m_data_access_arbiter s")
  case None
  then have "s' = s\<lparr>m_data_access_arbiter := None\<rparr>" using assms by (simp add: arrayElect_def)
  then show ?thesis by blast
next
  case (Some a)
  show ?thesis
  proof (cases "array_candidates s = []")
    case True
    then have "s' = s\<lparr>m_data_access_arbiter := Some a\<rparr>" using assms Some by (simp add: arrayElect_def)
    then show ?thesis by blast
  next
    case False
    then obtain x where "arbiter_elect a (m_cache_cycle s) [array_candidates s] = Inr x"
      using assms Some by (auto simp: arrayElect_def Let_def)
    then show ?thesis
      using assms Some False
      by (cases x; cases "snd x") (auto simp: arrayElect_def Let_def split: option.splits)
  qed
qed

lemma arrayElect_ops [simp]: "arrayElect s = Inr (s', r) \<Longrightarrow> m_array_ops s' = m_array_ops s"
  by (auto dest: arrayElect_frame)

definition admit_op :: "nat \<Rightarrow> controller \<Rightarrow> controller" where
  "admit_op i s =
     s\<lparr>m_array_ops := (m_array_ops s)[i := (m_array_ops s ! i)
         \<lparr>admitted := True, ready_cycle := m_cache_cycle s + ucast (m_data_access_latency (m_data_handler s))\<rparr>],
       m_array_admitted_this_cycle := m_array_admitted_this_cycle s + 1\<rparr>"

definition waiting_ops :: "controller \<Rightarrow> nat" where
  "waiting_ops s = length (filter (\<lambda>op. \<not> admitted op) (m_array_ops s))"

lemma filter_update_less:
  "i < length xs \<Longrightarrow> P (xs ! i) \<Longrightarrow> \<not> P y \<Longrightarrow> Suc (length (filter P (xs[i := y]))) = length (filter P xs)"
  by (induction xs arbitrary: i) (auto simp: less_Suc_eq_0_disj)

lemma waiting_ops_admit:
  assumes "arrayElect s = Inr (s', Some i)"
  shows "Suc (waiting_ops (admit_op i s')) = waiting_ops s"
proof -
  have ops: "m_array_ops s' = m_array_ops s" using assms by simp
  show ?thesis
    unfolding waiting_ops_def admit_op_def using arrayElect_waiting [OF assms]
    by (simp add: ops filter_update_less)
qed

text \<open>Every turn of the loop admits one waiting access, so the loop ends.\<close>

function arrayAdmit :: "controller \<Rightarrow> controller result" where
  "arrayAdmit s =
     (if m_array_admitted_this_cycle s < m_data_array_ports (m_data_handler s)
      then case arrayElect s of
          Inl e \<Rightarrow> Inl e
        | Inr (s', None) \<Rightarrow> Inr s'
        | Inr (s', Some i) \<Rightarrow> arrayAdmit (admit_op i s')
      else Inr s)"
  by pat_completeness auto
termination
proof (relation "measure waiting_ops")
  show "wf (measure waiting_ops)" by simp
  fix s x r s' o' i
  assume "arrayElect s = Inr r" "(s', o') = r" "o' = Some i"
  then have "arrayElect s = Inr (s', Some i)" by simp
  from waiting_ops_admit [OF this] show "(admit_op i s', s) \<in> measure waiting_ops" by simp
qed

declare arrayAdmit.simps [simp del]

definition arrayEnqueue :: "data_array_op \<Rightarrow> controller \<Rightarrow> controller result" where
  "arrayEnqueue op s =
     (let s' = s\<lparr>m_pipe_ops := m_pipe_ops s + 1, m_array_op_seq := m_array_op_seq s + 1,
                 m_array_ops := m_array_ops s @ [op\<lparr>op_id := m_array_op_seq s + 1\<rparr>]\<rparr>
      in if pipelinedArray s' then arrayAdmit s' else Inr s')"

definition new_array_op :: "array_op_kind \<Rightarrow> message \<Rightarrow> controller_action list \<Rightarrow> data_array_op" where
  "new_array_op k m cas =
     \<lparr> op_kind = k, op_msg = m, op_actions = cas, op_id = 0, admitted = False, ready_cycle = 0 \<rparr>"

definition lineHasDeferredOp :: "controller \<Rightarrow> u64 \<Rightarrow> bool" where
  "lineHasDeferredOp s a \<longleftrightarrow> (\<exists>op\<in>set (m_array_ops s). getAddressKey s (addr (op_msg op)) = getAddressKey s a)"

definition trackArrayGrant :: "message \<Rightarrow> action_type \<Rightarrow> controller \<Rightarrow> controller" where
  "trackArrayGrant m ty s =
     s\<lparr>m_array_park := AList.delete (msg_id m) (m_array_park s), m_array_served := m_array_served s + 1,
       m_array_served_writes := m_array_served_writes s + (if ty = WRITE_CACHE_LINE_DATA then 1 else 0)\<rparr>"

text \<open>
  \<open>data_ptr\<close> is the action's message and line. \<open>m_pipe_firing\<close> is set while an access that has been
  through the array completes.
\<close>

definition array_granted :: "message \<Rightarrow> controller \<Rightarrow> bool" where
  "array_granted m s \<longleftrightarrow>
     (if pipelinedArray s
      then m_pipe_firing s \<or> lineLocation (m_data_handler s) (addr m) \<in> {MSHR, PWB}
      else isReady (m_data_handler s) (addr m))"

definition checkReadinessOfCache ::
  "message \<Rightarrow> action_type \<Rightarrow> cache_line option \<Rightarrow> controller \<Rightarrow> (controller \<times> bool) result" where
  "checkReadinessOfCache m ty line s =
     (if array_granted m s then Inr (trackArrayGrant m ty s, True)
      else let s' = (if ty = HIT_Action \<and> map_of (m_array_park s) (msg_id m) = None
                     then s\<lparr>m_array_park := AList.update (msg_id m) (m_array_served s, m_array_served_writes s)
                                            (m_array_park s)\<rparr>
                     else s) in
        result_bind (arrayEnqueue (new_array_op ACTIONS m [\<lparr> ca_type = ty, ca_msg = Some m, ca_line = line \<rparr>]) s')
          (\<lambda>s''. Inr (s'', False)))"

text \<open>Run \<open>f\<close> once the array is granted; a parked action runs from the start later.\<close>

definition when_granted ::
  "message \<Rightarrow> action_type \<Rightarrow> cache_line option \<Rightarrow> (controller \<Rightarrow> controller result) \<Rightarrow> controller \<Rightarrow> controller result" where
  "when_granted m ty line f s =
     result_bind (checkReadinessOfCache m ty line s) (\<lambda>(s', ok). if ok then f s' else Inr s')"

section \<open>CacheController: the actions\<close>

definition Cache_addtoPendingRequests :: "message \<Rightarrow> controller \<Rightarrow> controller" where
  "Cache_addtoPendingRequests m s =
     Base_addtoPendingRequests m
       (if msg_data m \<noteq> None
        then s\<lparr>m_modifying_data_messages := AList.update (msg_id m) m (m_modifying_data_messages s)\<rparr> else s)"

definition Cache_hitAction :: "message \<Rightarrow> controller \<Rightarrow> controller result" where
  "Cache_hitAction m s =
     (if msg_data m = None then when_granted m HIT_Action None (Base_hitAction m) s else Base_hitAction m s)"

definition Cache_removePendingAndRespond :: "message \<Rightarrow> controller \<Rightarrow> controller result" where
  "Cache_removePendingAndRespond m s =
     (if msg_data m = None then when_granted m REMOVE_PENDING None (Base_removePendingAndRespond m) s
      else Base_removePendingAndRespond m s)"

definition Cache_sendInvalidationMessage :: "message \<Rightarrow> controller \<Rightarrow> controller result" where
  "Cache_sendInvalidationMessage m s =
     push_lower (m\<lparr>msg_cycle := m_cache_cycle s\<rparr>) SERVICE_REQUEST
       ''CacheController: Cannot insert INV into lower interface FIFO'' s"

definition deferredSupplyCopiesToLLC :: "controller \<Rightarrow> bool" where
  "deferredSupplyCopiesToLLC s \<longleftrightarrow> c_kind s \<noteq> DirectoryController"

text \<open>The message of a supply to the requests parked on the line, first parked first.\<close>

definition fan_out :: "controller \<Rightarrow> message \<Rightarrow> message \<Rightarrow> message list \<Rightarrow> message" where
  "fan_out s m first others =
     (let llc = word_of_int (c_shared_memory_id s);
          copy_llc = deferredSupplyCopiesToLLC s \<and> complementary_value first = REQUEST_TYPE_GETS \<and> llc \<notin> set (msg_to m)
      in m\<lparr>owner := owner first, msg_id := msg_id first,
           msg_to := msg_to m @ (if copy_llc then [llc] else []) @ map owner others\<rparr>)"

definition supply_message :: "message \<Rightarrow> controller \<Rightarrow> controller \<times> message" where
  "supply_message m s =
     (let k = getAddressKey s (addr m) in
      case map_of (m_saved_requests_for_wb s) k of
        Some (first # others) \<Rightarrow>
          (s\<lparr>m_saved_requests_for_wb := AList.delete k (m_saved_requests_for_wb s)\<rparr>, fan_out s m first others)
      | _ \<Rightarrow> (s, if msg_kind m = K_SUPPLY_DEFERRED then m\<lparr>msg_kind := K_WB_INV\<rparr> else m))"

definition Cache_performWriteBack :: "message \<Rightarrow> controller \<Rightarrow> controller result" where
  "Cache_performWriteBack m s =
     (case supply_message m s of
        (s', m') \<Rightarrow>
          if msg_data m' = None then when_granted m' WRITE_BACK None (Base_performWriteBack m') s'
          else Base_performWriteBack m' s')"

definition fill_line :: "message \<Rightarrow> controller \<Rightarrow> controller result" where
  "fill_line m s =
     (case msg_data m of
        None \<Rightarrow> Inl (Undefined ''fill without data'')
      | Some d \<Rightarrow>
          result_bind (updateLineData (rand_value s (rand_draws s)) (addr m) d
                         (setRequester (uint (owner m)) (m_data_handler s))) (\<lambda>(c, ok).
            if ok then Inr (s\<lparr>m_data_handler := setRequester (- 1) c, rand_draws := rand_draws s + 1\<rparr>)
            else Inl (Exit ''CacheController: update data of an unfound line'')))"

definition writeCacheLineData :: "message \<Rightarrow> cache_line \<Rightarrow> controller \<Rightarrow> controller result" where
  "writeCacheLineData m line s = when_granted m WRITE_CACHE_LINE_DATA (Some line) (fill_line m) s"

text \<open>The core is told when it loses a readable copy; the second table look-up only happens after the first.\<close>

definition report_lost_line :: "message \<Rightarrow> cache_line \<Rightarrow> controller \<Rightarrow> controller result" where
  "report_lost_line m line s =
     (if \<not> m_cpu_port s then Inr s
      else result_bind (readLineBits (addr m) new_line (m_data_handler s)) (\<lambda>(old_line, found).
        if \<not> found then Inr s
        else result_bind (coh_isReadableState (m_protocol s) (line_state old_line)) (\<lambda>(p1, was).
          if \<not> was then Inr (s\<lparr>m_protocol := p1\<rparr>)
          else result_bind (coh_isReadableState p1 (line_state line)) (\<lambda>(p2, is).
            Inr (if is then s\<lparr>m_protocol := p2\<rparr>
                 else port_call (Invalidate (addr m)) (s\<lparr>m_protocol := p2\<rparr>))))))"

definition Cache_updateCacheLine :: "message \<Rightarrow> cache_line \<Rightarrow> controller \<Rightarrow> controller result" where
  "Cache_updateCacheLine m line s =
     result_bind (report_lost_line m line s) (\<lambda>s1.
     result_bind (updateLineBits (addr m) line (m_data_handler s1)) (\<lambda>(c, ok).
       if msg_data m = None \<or> \<not> valid line \<or> ucast (data_size m) < m_block_size (m_data_handler s1)
       then (if ok then Inr (s1\<lparr>m_data_handler := c\<rparr>)
             else result_bind (writeLine2MSHR (addr m) line c) (\<lambda>c'. Inr (s1\<lparr>m_data_handler := c'\<rparr>)))
       else writeCacheLineData m line (s1\<lparr>m_data_handler := c\<rparr>)))"

text \<open>\<open>CacheController::modifyData\<close>; the answer of the data handler is ignored.\<close>

definition Cache_modifyData :: "message \<Rightarrow> controller \<Rightarrow> controller result" where
  "Cache_modifyData m s =
     (let source = (case map_of (m_modifying_data_messages s) (msg_id m) of
                      Some dm \<Rightarrow> Some dm
                    | None \<Rightarrow> if msg_source m = LOWER_INTERCONNECT \<and> msg_data m \<noteq> None then Some m else None) in
      case source of
        None \<Rightarrow> Inr s
      | Some dm \<Rightarrow>
          (case msg_data dm of
             None \<Rightarrow> Inl (Undefined ''modification without data'')
           | Some d \<Rightarrow>
               result_bind (modifyData (addr dm) d (data_size dm) False (m_data_handler s)) (\<lambda>(c, _).
                 Inr (s\<lparr>m_data_handler := c,
                        m_modifying_data_messages := AList.delete (msg_id m) (m_modifying_data_messages s)\<rparr>))))"

definition saveReqForWriteBack :: "message \<Rightarrow> controller \<Rightarrow> controller" where
  "saveReqForWriteBack m s =
     s\<lparr>m_saved_requests_for_wb := push_entry (getAddressKey s (addr m)) m (m_saved_requests_for_wb s)\<rparr>"

definition stall :: "message \<Rightarrow> controller \<Rightarrow> controller result" where
  "stall m s =
     (case pushBack m NonReady False (m_processing_queue s) of
        (q, ok) \<Rightarrow> if ok then Inr (s\<lparr>m_processing_queue := q\<rparr>)
                   else Inl (Exit ''CacheController: error there is no free space to push request to processing queue''))"

section \<open>The derived controllers\<close>

text \<open>\<open>CacheControllerExclusive\<close>\<close>

definition removedSaveRequest :: "message \<Rightarrow> controller \<Rightarrow> controller" where
  "removedSaveRequest m s =
     s\<lparr>m_saved_requests_for_wb := AList.delete (getAddressKey s (addr m)) (m_saved_requests_for_wb s)\<rparr>"

text \<open>\<open>CacheController_End2End\<close>\<close>

definition End2End_sendBusRequest :: "message \<Rightarrow> controller \<Rightarrow> controller result" where
  "End2End_sendBusRequest m s =
     (case itf_rollback (m_upper_interface s) (addr m) (ucast (m_block_size (m_data_handler s))) of
        (i, None) \<Rightarrow> Base_sendBusRequest m (s\<lparr>m_upper_interface := i\<rparr>)
      | (i, Some returned) \<Rightarrow>
          (case msg_data returned of
             None \<Rightarrow> Inl (Exit ''CacheController_End2End: Wrong message returned from the rollback'')
           | Some d \<Rightarrow>
               result_bind (message_copy_data m d 64) (\<lambda>m'.
                 Inr (push_upper_rx (m'\<lparr>msg_kind := K_FILL_ROLLBACK\<rparr>) DATA_RESPONSE (s\<lparr>m_upper_interface := i\<rparr>)))))"

definition End2End_send_back :: "message \<Rightarrow> controller \<Rightarrow> controller result" where
  "End2End_send_back m s =
     result_bind (fetch_line_data m s) (\<lambda>(s1, m1).
       push_upper
         (m1\<lparr>owner := word_of_int (if - 1 < m_owner_of_latest_data s1 then m_owner_of_latest_data s1 else c_id s1),
             msg_to := msg_to m1 @ [word_of_int (c_shared_memory_id s1)]\<rparr>)
         DATA_RESPONSE ''CacheController: Cannot insert the Msg into BusTxResp FIFO, FIFO is Full'' s1)"

definition End2End_performWriteBack :: "message \<Rightarrow> controller \<Rightarrow> controller result" where
  "End2End_performWriteBack m s =
     (if m_perfect_llc s then Inr s
      else if msg_data m = None then when_granted m WRITE_BACK None (End2End_send_back m) s
      else End2End_send_back m s)"

definition End2End_sendInvalidationMessage :: "message \<Rightarrow> controller \<Rightarrow> controller result" where
  "End2End_sendInvalidationMessage m s =
     push_lower (m\<lparr>msg_cycle := m_cache_cycle s\<rparr>) SERVICE_REQUEST
       ''CacheController_End2End: Cannot insert the Msg into the lower interface FIFO, FIFO is Full'' s"

text \<open>\<open>CacheControllerDirectory\<close>\<close>

definition set_directory :: "(directory \<Rightarrow> directory) \<Rightarrow> controller \<Rightarrow> controller" where
  "set_directory f s = s\<lparr>m_directory := f (m_directory s)\<rparr>"

text \<open>A counter that reaches 0 is erased.\<close>

definition add_acks :: "u64 \<Rightarrow> u64 \<Rightarrow> directory \<Rightarrow> directory" where
  "add_acks k n d =
     (let total = (case map_of (m_ack_counters d) k of Some v \<Rightarrow> v | None \<Rightarrow> 0) + n in
      d\<lparr>m_ack_counters := if total = 0 then AList.delete k (m_ack_counters d)
                          else AList.update k total (m_ack_counters d)\<rparr>)"

definition setACKNumber :: "message \<Rightarrow> controller \<Rightarrow> controller" where
  "setACKNumber m s = set_directory (add_acks (getAddressKey s (addr m)) (complementary_value m)) s"

definition decrementACK :: "message \<Rightarrow> controller \<Rightarrow> controller" where
  "decrementACK m s = set_directory (add_acks (getAddressKey s (addr m)) (- 1)) s"

definition incrementSharers :: "message \<Rightarrow> controller \<Rightarrow> controller" where
  "incrementSharers m s =
     set_directory (\<lambda>d. d\<lparr>m_sharers := push_entry (getAddressKey s (addr m)) (ucast (owner m)) (m_sharers d)\<rparr>) s"

text \<open>The look-up creates an empty entry for a line that has none, and leaves it there.\<close>

definition decrementSharers :: "message \<Rightarrow> controller \<Rightarrow> controller" where
  "decrementSharers m s =
     set_directory (\<lambda>d.
       let k = getAddressKey s (addr m); own = ucast (owner m); xs = entry (m_sharers d) k;
           rest = remove1 own xs in
       d\<lparr>m_sharers := if own \<in> set xs \<and> rest = [] then AList.delete k (m_sharers d)
                      else AList.update k rest (m_sharers d)\<rparr>) s"

definition setSharers :: "message \<Rightarrow> controller \<Rightarrow> controller" where
  "setSharers m s =
     set_directory (\<lambda>d. d\<lparr>m_sharers := AList.update (getAddressKey s (addr m)) [ucast (owner m)] (m_sharers d)\<rparr>) s"

definition clearSharers :: "message \<Rightarrow> controller \<Rightarrow> controller" where
  "clearSharers m s = set_directory (\<lambda>d. d\<lparr>m_sharers := AList.delete (getAddressKey s (addr m)) (m_sharers d)\<rparr>) s"

definition sendForwardMessage :: "message \<Rightarrow> controller \<Rightarrow> controller result" where
  "sendForwardMessage m s =
     (if msg_to m = [] then Inr s
      else push_lower (m\<lparr>msg_cycle := m_cache_cycle s\<rparr>) SERVICE_REQUEST
             ''CacheController: Cannot insert the Msg into the lower interface FIFO, FIFO is Full'' s)"

definition removePendingNoResponse :: "message \<Rightarrow> controller \<Rightarrow> controller result" where
  "removePendingNoResponse m s =
     (let k = getAddressKey s (addr m) in
      if map_of (m_pending_requests s) k = None
      then Inl (Exit ''CacheControllerDirectory: Request is not found in the pending buffer.'')
      else Inr (s\<lparr>m_pending_requests := AList.delete k (m_pending_requests s)\<rparr>))"

text \<open>
  \<open>addData2Message\<close> gives bytes to a message that a later action of the list shares; no protocol emits the
  action, and here the message it changes is its own. Reading the null pointer of an absent line is undefined.
\<close>

definition addData2Message :: "message \<Rightarrow> controller \<Rightarrow> (controller \<times> message) result" where
  "addData2Message m s =
     result_bind (readCacheLine (addr m) (Some new_line) False (m_data_handler s)) (\<lambda>(c, out, _).
       case out of
         None \<Rightarrow> Inl (Undefined ''null line'')
       | Some l \<Rightarrow> (case line_data l of
             None \<Rightarrow> Inl (Undefined ''copy from a null pointer'')
           | Some d \<Rightarrow> result_bind (message_copy_data m d 64) (\<lambda>m'. Inr (s\<lparr>m_data_handler := c\<rparr>, m'))))"

section \<open>Running the actions\<close>

text \<open>
  \<open>action_functions[action.type](action.data)\<close>. A type no class of the controller has registered is an empty
  \<open>std::function\<close>.
\<close>

definition no_function :: "controller result" where
  "no_function = Inl (Throw ''bad_function_call'')"

definition run_directory_action :: "action_type \<Rightarrow> message \<Rightarrow> controller \<Rightarrow> controller result" where
  "run_directory_action ty m s =
     (if c_kind s \<noteq> DirectoryController then no_function
      else case ty of
          ADD_DATA2MSG \<Rightarrow> result_bind (addData2Message m s) (\<lambda>(s', _). Inr s')
        | SET_ACK_NUMBER \<Rightarrow> Inr (setACKNumber m s)
        | DECREMENT_ACK \<Rightarrow> Inr (decrementACK m s)
        | INCREMENT_SHARERS \<Rightarrow> Inr (incrementSharers m s)
        | DECREMENT_SHARERS \<Rightarrow> Inr (decrementSharers m s)
        | SET_SHARERS \<Rightarrow> Inr (setSharers m s)
        | CLEAR_SHARERS \<Rightarrow> Inr (clearSharers m s)
        | SEND_FWD_MESSAGE \<Rightarrow> sendForwardMessage m s
        | REMOVE_PENDING_NORESPONSE \<Rightarrow> removePendingNoResponse m s
        | _ \<Rightarrow> no_function)"

definition message_action :: "action_type \<Rightarrow> message \<Rightarrow> cache_line option \<Rightarrow> controller \<Rightarrow> controller result" where
  "message_action ty m line s =
     (case ty of
        REMOVE_PENDING \<Rightarrow> Cache_removePendingAndRespond m s
      | HIT_Action \<Rightarrow> Cache_hitAction m s
      | ADD_PENDING \<Rightarrow> Inr (Cache_addtoPendingRequests m s)
      | SEND_BUS_MSG \<Rightarrow>
          if c_kind s = End2EndController then End2End_sendBusRequest m s else Base_sendBusRequest m s
      | WRITE_BACK \<Rightarrow>
          if c_kind s = End2EndController then End2End_performWriteBack m s else Cache_performWriteBack m s
      | UPDATE_CACHE_LINE \<Rightarrow>
          (case line of None \<Rightarrow> Inl (Undefined ''no line'') | Some l \<Rightarrow> Cache_updateCacheLine m l s)
      | WRITE_CACHE_LINE_DATA \<Rightarrow>
          (case line of None \<Rightarrow> Inl (Undefined ''no line'') | Some l \<Rightarrow> writeCacheLineData m l s)
      | MODIFY_DATA \<Rightarrow> Cache_modifyData m s
      | SAVE_REQ_FOR_WRITE_BACK \<Rightarrow> Inr (saveReqForWriteBack m s)
      | STALL \<Rightarrow> stall m s
      | SEND_INV_MSG \<Rightarrow>
          if c_kind s = End2EndController then End2End_sendInvalidationMessage m s
          else Cache_sendInvalidationMessage m s
      | REMOVE_SAVED_REQ \<Rightarrow> if c_kind s = ExclusiveController then Inr (removedSaveRequest m s) else no_function
      | TIMER_ACTION \<Rightarrow> no_function
      | ADD_SHARER \<Rightarrow> no_function
      | REMOVE_SHARER \<Rightarrow> no_function
      | _ \<Rightarrow> run_directory_action ty m s)"

definition run_action :: "controller_action \<Rightarrow> controller \<Rightarrow> controller result" where
  "run_action a s =
     (if ca_type a = NO_ACTION then Inr s
      else case ca_msg a of
          None \<Rightarrow> Inl (Undefined ''action without a message'')
        | Some m \<Rightarrow> message_action (ca_type a) m (ca_line a) s)"

fun run_actions :: "controller_action list \<Rightarrow> controller \<Rightarrow> controller result" where
  "run_actions [] s = Inr s"
| "run_actions (a # as) s = result_bind (run_action a s) (run_actions as)"

definition process_message :: "message \<Rightarrow> controller \<Rightarrow> controller result" where
  "process_message m s =
     result_bind (coh_processRequest (m_protocol s) (m_data_handler s) (m_directory s) m) (\<lambda>cas. run_actions cas s)"

section \<open>Completing array accesses\<close>

definition requeue :: "message \<Rightarrow> controller \<Rightarrow> controller" where
  "requeue m s =
     s\<lparr>m_pipe_requeues := m_pipe_requeues s + 1,
       m_processing_queue := fst (pushBack m NonReady True (m_processing_queue s))\<rparr>"

definition end_firing :: "bool \<Rightarrow> controller \<Rightarrow> controller" where
  "end_firing was s = s\<lparr>m_pipe_firing := was, m_processing_queue := markDirty (m_processing_queue s)\<rparr>"

definition pipelineFire :: "data_array_op \<Rightarrow> controller \<Rightarrow> controller result" where
  "pipelineFire op s =
     (let s0 = s\<lparr>m_pipe_firing := True\<rparr> in
      result_bind
        (case op_kind op of
           ACTIONS \<Rightarrow> run_actions (op_actions op) s0
         | MESSAGE \<Rightarrow>
             result_bind (coh_getRequestState (m_protocol s0) (m_data_handler s0) (m_directory s0) (op_msg op))
               (\<lambda>(p, m, st).
                  let s1 = s0\<lparr>m_protocol := p\<rparr>
                  in if st \<noteq> Ready then Inr (requeue m s1) else process_message m s1))
        (\<lambda>s2. Inr (end_firing (m_pipe_firing s) s2)))"

text \<open>Occupancy model: one access when the array is free.\<close>

definition processDataArrayBuffer :: "controller \<Rightarrow> controller result" where
  "processDataArrayBuffer s =
     (if \<not> base_isReady (m_data_handler s) then Inr s
      else result_bind (arrayElect s) (\<lambda>(s', r).
        case r of
          None \<Rightarrow> Inr s'
        | Some i \<Rightarrow> pipelineFire (m_array_ops s' ! i) (s'\<lparr>m_array_ops := erase_at i (m_array_ops s')\<rparr>)))"

text \<open>Loops that an access can extend while it completes, or that a state of the controller could keep alive, take fuel.\<close>

text \<open>The loops of \<open>pipelineStep\<close> and \<open>pipelineFlushLine\<close>: complete the first access that is due, rescan.\<close>

definition op_due :: "controller \<Rightarrow> data_array_op \<Rightarrow> bool" where
  "op_due s op \<longleftrightarrow> admitted op \<and> ready_cycle op \<le> m_cache_cycle s"

fun pipelineStep_loop :: "nat \<Rightarrow> controller \<Rightarrow> controller fuelled" where
  "pipelineStep_loop 0 s = None"
| "pipelineStep_loop (Suc n) s =
     (case first_index (op_due s) (m_array_ops s) of
        None \<Rightarrow> Some (Inr s)
      | Some i \<Rightarrow>
          fuel_bind (Some (pipelineFire (m_array_ops s ! i) (s\<lparr>m_array_ops := erase_at i (m_array_ops s)\<rparr>)))
            (pipelineStep_loop n))"

definition pipelineStep :: "nat \<Rightarrow> controller \<Rightarrow> controller fuelled" where
  "pipelineStep n s = fuel_bind (Some (arrayAdmit (s\<lparr>m_array_admitted_this_cycle := 0\<rparr>))) (pipelineStep_loop n)"

fun pipelineFlushLine :: "nat \<Rightarrow> u64 \<Rightarrow> controller \<Rightarrow> controller fuelled" where
  "pipelineFlushLine 0 key s = None"
| "pipelineFlushLine (Suc n) key s =
     (case first_index (\<lambda>op. getAddressKey s (addr (op_msg op)) = key) (m_array_ops s) of
        None \<Rightarrow> Some (Inr s)
      | Some i \<Rightarrow>
          fuel_bind (Some (pipelineFire (m_array_ops s ! i)
                             (s\<lparr>m_array_ops := erase_at i (m_array_ops s), m_pipe_early_fires := m_pipe_early_fires s + 1\<rparr>)))
            (pipelineFlushLine n key))"

section \<open>Admission\<close>

definition canAdmitRequest :: "message \<Rightarrow> controller \<Rightarrow> bool" where
  "canAdmitRequest m s \<longleftrightarrow>
     \<not> isDemandRequest m \<or> isAddressTracked (m_data_handler s) (addr m) \<or>
     map_of (m_pending_requests s) (getAddressKey s (addr m)) \<noteq> None \<or>
     \<not> (0 \<le> m_num_mshr s \<and> m_num_mshr s \<le> int (length (m_pending_requests s)))"

definition demandAdmissionBlocked :: "int \<Rightarrow> controller \<Rightarrow> bool" where
  "demandAdmissionBlocked outstanding s \<longleftrightarrow>
     Base_demandAdmissionBlocked outstanding s \<or>
     0 \<le> m_num_mshr s \<and> m_num_mshr s \<le> int (length (m_pending_requests s)) \<or>
     \<not> pwbHasSpace (m_data_handler s)"

definition messageTouchesArray :: "message \<Rightarrow> controller \<Rightarrow> bool result" where
  "messageTouchesArray m s =
     result_bind (coh_needsDataArray (m_protocol s) (m_data_handler s) (m_directory s) m) (\<lambda>b.
       Inr (b \<or> pipelinedArray s \<and> msg_data m \<noteq> None \<and>
              \<not> (msg_source m = LOWER_INTERCONNECT \<and> (complementary_value m = 0 \<or> complementary_value m = 1))))"

definition defer_when :: "bool result \<Rightarrow> message \<Rightarrow> controller \<Rightarrow> (controller \<times> bool) result" where
  "defer_when b m s =
     result_bind b (\<lambda>touches.
       if touches then result_bind (arrayEnqueue (new_array_op MESSAGE m []) s) (\<lambda>s'. Inr (s', True))
       else Inr (s, False))"

definition deferForDataArray :: "message \<Rightarrow> controller \<Rightarrow> (controller \<times> bool) result" where
  "deferForDataArray m s =
     (if \<not> pipelinedArray s
      then (if \<not> m_line_interlock s \<or> m_data_access_latency (m_data_handler s) = 0 \<or> base_isReady (m_data_handler s)
            then Inr (s, False)
            else defer_when (coh_needsDataArray (m_protocol s) (m_data_handler s) (m_directory s) m) m s)
      else if lineLocation (m_data_handler s) (addr m) = PWB then Inr (s, False)
      else defer_when (messageTouchesArray m s) m s)"

section \<open>The processing loop\<close>

text \<open>
  The queue's callback. The look-up may add the name of an action to the table reader, always with the same number;
  the copy the callback leaves behind is not kept.
\<close>

definition check_request :: "controller \<Rightarrow> check_state" where
  "check_request s m st =
     result_bind (coh_getRequestState (m_protocol s) (m_data_handler s) (m_directory s) m) (\<lambda>(_, m', st'). Inr (m', st'))"

definition line_hold :: "controller \<Rightarrow> message \<Rightarrow> bool" where
  "line_hold s m \<longleftrightarrow> m_line_interlock s \<and> lineHasDeferredOp s (addr m)"

definition pop_ready :: "controller \<Rightarrow> (controller \<times> message option) result" where
  "pop_ready s =
     result_bind (getFirstReady (check_request s) (Some (line_hold s)) (m_processing_queue s)) (\<lambda>(q, r).
       Inr (s\<lparr>m_processing_queue := q\<rparr>, r))"

definition put_back :: "message \<Rightarrow> controller \<Rightarrow> controller" where
  "put_back m s = s\<lparr>m_processing_queue := fst (pushBack m NonReady False (m_processing_queue s))\<rparr>"

fun process_loop :: "nat \<Rightarrow> controller \<Rightarrow> controller fuelled" where
  "process_loop 0 s = None"
| "process_loop (Suc n) s =
     fuel_bind (Some (pop_ready s)) (\<lambda>(s1, r).
       case r of
         None \<Rightarrow> Some (Inr s1)
       | Some m \<Rightarrow>
           if \<not> canAdmitRequest m s1
           then Some (Inr (put_back m (s1\<lparr>m_admit_fail_cycles := m_admit_fail_cycles s1 + 1\<rparr>)))
           else fuel_bind (Some (deferForDataArray m s1)) (\<lambda>(s2, deferred).
             if deferred then process_loop n s2
             else if \<not> canAdmitRequest m s2 then Some (Inr (put_back m s2))
             else fuel_bind (Some (process_message m s2)) (process_loop n)))"

section \<open>Intake\<close>

definition note_peak :: "controller \<Rightarrow> controller" where
  "note_peak s = s\<lparr>m_queue_peak := max (m_queue_peak s) (queue_size (m_processing_queue s))\<rparr>"

definition pop_upper :: "controller \<Rightarrow> controller result" where
  "pop_upper s = result_bind (itf_popFrontMessage (m_upper_interface s)) (\<lambda>i. Inr (s\<lparr>m_upper_interface := i\<rparr>))"

definition pop_lower :: "controller \<Rightarrow> controller result" where
  "pop_lower s = result_bind (itf_popFrontMessage (m_lower_interface s)) (\<lambda>i. Inr (s\<lparr>m_lower_interface := i\<rparr>))"

definition peek_upper :: "controller \<Rightarrow> controller \<times> message option" where
  "peek_upper s = (case itf_peekMessage (m_upper_interface s) of (i, r) \<Rightarrow> (s\<lparr>m_upper_interface := i\<rparr>, r))"

definition peek_lower :: "controller \<Rightarrow> controller \<times> message option" where
  "peek_lower s = (case itf_peekMessage (m_lower_interface s) of (i, r) \<Rightarrow> (s\<lparr>m_lower_interface := i\<rparr>, r))"

definition Base_intake_upper :: "controller \<Rightarrow> controller result" where
  "Base_intake_upper s =
     (case peek_upper s of
        (s1, None) \<Rightarrow> Inr s1
      | (s1, Some m) \<Rightarrow>
          (case pushFrontOrdered (m\<lparr>msg_source := UPPER_INTERCONNECT\<rparr>) (m_processing_queue s1) of
             (q, ok) \<Rightarrow> if ok then pop_upper (s1\<lparr>m_processing_queue := q\<rparr>) else Inr s1))"

definition Base_intake_lower :: "controller \<Rightarrow> controller result" where
  "Base_intake_lower s =
     (case peek_lower s of
        (s1, None) \<Rightarrow> Inr s1
      | (s1, Some m) \<Rightarrow>
          let m' = m\<lparr>msg_source := LOWER_INTERCONNECT\<rparr> in
          (case pushBack m' NonReady (\<not> isDemandRequest m') (m_processing_queue s1) of
             (q, ok) \<Rightarrow> if ok then pop_lower (s1\<lparr>m_processing_queue := q\<rparr>)
                        else Inr (s1\<lparr>m_intake_refusals := m_intake_refusals s1 + 1\<rparr>)))"

definition Base_addRequests2ProcessingQueue :: "controller \<Rightarrow> controller result" where
  "Base_addRequests2ProcessingQueue s =
     result_bind (Base_intake_upper s) (\<lambda>s1. result_bind (Base_intake_lower s1) (\<lambda>s2. Inr (note_peak s2)))"

definition eviction_message :: "u64 \<Rightarrow> u64 \<Rightarrow> controller \<Rightarrow> message" where
  "eviction_message i a s =
     (new_message i a (m_cache_cycle s) 0 (word_of_int (c_id s)))
       \<lparr>msg_to := [word_of_int (c_shared_memory_id s)], msg_source := SELF, msg_kind := K_EVICT\<rparr>"

definition checkReplacements :: "nat \<Rightarrow> controller \<Rightarrow> controller fuelled" where
  "checkReplacements n s =
     (case addressOfLinePendingWB False (m_data_handler s) of
        (_, None) \<Rightarrow> Some (Inr s)
      | (_, Some a) \<Rightarrow>
          fuel_bind (Some (nextReqId s)) (\<lambda>(s1, i).
            case pushBack (eviction_message i a s1) NonReady True (m_processing_queue s1) of
              (q, ok) \<Rightarrow>
                let s2 = s1\<lparr>m_processing_queue := q,
                            m_data_handler := (if ok then fst (addressOfLinePendingWB True (m_data_handler s1))
                                               else m_data_handler s1)\<rparr>
                in pipelineFlushLine n (getAddressKey s2 a) s2))"

definition note_latest_owner :: "controller \<Rightarrow> controller" where
  "note_latest_owner s =
     (case peek_upper s of
        (s1, None) \<Rightarrow> s1
      | (s1, Some m) \<Rightarrow> if msg_data m \<noteq> None then s1\<lparr>m_owner_of_latest_data := uint (owner m)\<rparr> else s1)"

text \<open>\<open>find(msg.to.begin(), msg.to.end(), m_id)\<close>\<close>

definition addressed_here :: "controller \<Rightarrow> message \<Rightarrow> bool" where
  "addressed_here s m \<longleftrightarrow> c_id s \<in> uint ` set (msg_to m)"

definition Directory_intake_upper :: "controller \<Rightarrow> controller result" where
  "Directory_intake_upper s =
     (case peek_upper s of
        (s1, None) \<Rightarrow> Inr s1
      | (s1, Some m) \<Rightarrow>
          if \<not> addressed_here s1 m then pop_upper s1
          else let m' = m\<lparr>msg_source := UPPER_INTERCONNECT\<rparr> in
            result_bind (coh_getRequestState (m_protocol s1) (m_data_handler s1) (m_directory s1) m') (\<lambda>(p, m'', st).
              let s2 = s1\<lparr>m_protocol := p\<rparr> in
              if msg_data m'' \<noteq> None
              then pop_upper (s2\<lparr>m_processing_queue := fst (pushFront m'' (m_processing_queue s2))\<rparr>)
              else case pushBack m'' st (\<not> isDemandRequest m'') (m_processing_queue s2) of
                  (q, ok) \<Rightarrow> if ok then pop_upper (s2\<lparr>m_processing_queue := q\<rparr>) else Inr s2))"

definition Directory_intake_lower :: "controller \<Rightarrow> controller result" where
  "Directory_intake_lower s =
     (case peek_lower s of
        (s1, None) \<Rightarrow> Inr s1
      | (s1, Some m) \<Rightarrow>
          if \<not> addressed_here s1 m then pop_lower s1
          else let m' = m\<lparr>msg_source := LOWER_INTERCONNECT\<rparr> in
            (case pushBack m' NonReady (\<not> isDemandRequest m') (m_processing_queue s1) of
               (q, ok) \<Rightarrow> if ok then pop_lower (s1\<lparr>m_processing_queue := q\<rparr>) else Inr s1))"

definition addRequests2ProcessingQueue :: "nat \<Rightarrow> controller \<Rightarrow> controller fuelled" where
  "addRequests2ProcessingQueue n s =
     (case c_kind s of
        DirectoryController \<Rightarrow>
          fuel_bind (Some (result_bind (Directory_intake_upper s) Directory_intake_lower)) (checkReplacements n)
      | End2EndController \<Rightarrow>
          fuel_bind (Some (Base_addRequests2ProcessingQueue (note_latest_owner s))) (checkReplacements n)
      | _ \<Rightarrow> fuel_bind (Some (Base_addRequests2ProcessingQueue s)) (checkReplacements n))"

definition processLogic :: "nat \<Rightarrow> controller \<Rightarrow> controller fuelled" where
  "processLogic n s = fuel_bind (addRequests2ProcessingQueue n s) (process_loop n)"

text \<open>One cycle of the controller.\<close>

definition cycleProcess :: "nat \<Rightarrow> controller \<Rightarrow> controller fuelled" where
  "cycleProcess n s =
     (let s0 = s\<lparr>m_data_handler := updateCycle (m_cache_cycle s) (m_data_handler s)\<rparr> in
      fuel_bind (if pipelinedArray s0 then pipelineStep n s0 else Some (processDataArrayBuffer s0)) (\<lambda>s1.
      fuel_bind (processLogic n s1) (\<lambda>s2.
        Some (Inr (s2\<lparr>m_cache_cycle := m_cache_cycle s2 + 1\<rparr>)))))"

section \<open>Construction and direct access\<close>

definition DEFAULT_NUM_MSHR :: int where "DEFAULT_NUM_MSHR = 16"

text \<open>Any other name leaves the pointer to the arbiter unset.\<close>

definition data_access_arbiter :: "string \<Rightarrow> int list \<Rightarrow> cache \<Rightarrow> arbiter option result" where
  "data_access_arbiter name ids c =
     (let period = uint (m_data_access_latency c) in
      if name = ''NULL'' then Inr None
      else if name = ''RRArbiter'' then Inr (Some (RRArbiter (new_RRArbiter ids period)))
      else if name = ''FCFSArbiter'' then Inr (Some (FCFSArbiter (new_arbiter_base ids period)))
      else Inl (Undefined ''CacheController: the arbiter is not set''))"

text \<open>
  The constructors, with the values of the configuration as arguments (\<open>None\<close> for an optional one that is
  absent). The pipelined array turns the line interlock on.
\<close>

definition new_CacheController ::
  "controller_kind \<Rightarrow> int \<Rightarrow> int \<Rightarrow> bool option \<Rightarrow> int \<Rightarrow> int option \<Rightarrow> bool option \<Rightarrow> string \<Rightarrow> int list
   \<Rightarrow> coherence \<Rightarrow> cache \<Rightarrow> interface \<Rightarrow> interface \<Rightarrow> int \<Rightarrow> (nat \<Rightarrow> nat) \<Rightarrow> controller result" where
  "new_CacheController kind cid shared perfect qsize mshr interlock arbiter_type ids p c upper lower
     first_id rnd =
     result_bind (data_access_arbiter arbiter_type ids c) (\<lambda>a.
       let pipelined = m_data_array_pipelined c \<and> 0 < m_data_access_latency c in
       Inr \<lparr> c_kind = kind, c_id = cid, c_shared_memory_id = shared, m_perfect_llc = (perfect = Some True),
             m_cache_cycle = 1, m_lower_interface = lower, m_upper_interface = upper, m_data_handler = c,
             m_protocol = p, m_directory = \<lparr> m_sharers = [], m_ack_counters = [] \<rparr>,
             m_processing_queue = new_FRFCFS qsize (NOT (ucast (m_block_size c - 1))) True,
             m_processing_queue_size = qsize, m_cpu_port = False, m_port_calls = [],
             m_data_read_failures = 0, m_admit_fail_cycles = 0, m_intake_refusals = 0, m_queue_peak = 0,
             m_pending_requests = [],
             m_num_mshr = (case mshr of Some n \<Rightarrow> n | None \<Rightarrow> DEFAULT_NUM_MSHR),
             m_saved_requests_for_wb = [], m_modifying_data_messages = [],
             m_data_access_arbiter = a, m_arbiter_candidates = (if arbiter_type = ''NULL'' then [] else ids),
             m_array_served = 0, m_array_served_writes = 0, m_array_park = [], m_array_ops = [],
             m_array_admitted_this_cycle = 0, m_array_op_seq = 0, m_pipe_firing = False, m_pipe_ops = 0,
             m_pipe_early_fires = 0, m_pipe_requeues = 0,
             m_line_interlock = (pipelined \<or> interlock = Some True), m_owner_of_latest_data = - 1,
             delivery_seq = 0, next_request_id = first_id, rand_draws = 0, rand_value = rnd \<rparr>)"

text \<open>\<open>BaseController::init\<close>\<close>

definition controller_init :: "controller \<Rightarrow> controller" where
  "controller_init s =
     (case m_protocol s of
        Snooping sp \<Rightarrow>
          (case CoherenceProtocolHandler_initializeCacheStates (m_fsm sp) (m_data_handler s) of
             (r, c) \<Rightarrow> s\<lparr>m_protocol := Snooping (sp\<lparr>m_fsm := r\<rparr>), m_data_handler := c\<rparr>)
      | Directory dp \<Rightarrow>
          (case CoherenceProtocolHandler_initializeCacheStates (d_fsm dp) (m_data_handler s) of
             (r, c) \<Rightarrow> s\<lparr>m_protocol := Directory (dp\<lparr>d_fsm := r\<rparr>), m_data_handler := c\<rparr>))"

text \<open>
  \<open>initialize\<close>, \<open>initialize_child\<close> and \<open>read\<close> set up and inspect memory outside simulated time.
  The children are the private caches below a shared cache, which have none of their own. The size is an
  \<open>int\<close> that the data handler takes as 16 bits.
\<close>

definition initialize_child :: "u64 \<Rightarrow> u8 list \<Rightarrow> int \<Rightarrow> controller \<Rightarrow> controller result" where
  "initialize_child a d sz s =
     result_bind (readLineBits a new_line (m_data_handler s)) (\<lambda>(_, found).
       if \<not> found then Inr s
       else result_bind (modifyData a d (word_of_int sz) True (m_data_handler s)) (\<lambda>(c, _). Inr (s\<lparr>m_data_handler := c\<rparr>)))"

fun initialize_children :: "u64 \<Rightarrow> u8 list \<Rightarrow> int \<Rightarrow> controller list \<Rightarrow> controller list result" where
  "initialize_children a d sz [] = Inr []"
| "initialize_children a d sz (c # cs) =
     result_bind (initialize_child a d sz c) (\<lambda>c'.
     result_bind (initialize_children a d sz cs) (\<lambda>cs'. Inr (c' # cs')))"

definition controller_initialize ::
  "u64 \<Rightarrow> u8 list \<Rightarrow> int \<Rightarrow> controller \<Rightarrow> controller list \<Rightarrow> (controller \<times> controller list) result" where
  "controller_initialize a d sz s children =
     result_bind (readLineBits a new_line (m_data_handler s)) (\<lambda>(line, found).
       if found
       then result_bind (modifyData a d (word_of_int sz) True (m_data_handler s)) (\<lambda>(c, _).
            result_bind (initialize_children a d sz children) (\<lambda>children'.
              Inr (s\<lparr>m_data_handler := c\<rparr>, children')))
       else if findEmptyWay (m_data_handler s) a = None
       then Inl (Exit ''ERROR: Cache does not fit the data ... increase the cache size'')
       else case coh_createDefaultCacheLine (m_protocol s) (m_data_handler s) line of
           (p, line') \<Rightarrow>
             result_bind (line_modifyData line' d (ucast (a AND ucast (line_block_size line' - 1))) (word_of_int sz)) (\<lambda>line''.
             result_bind (writeCacheLine_bypassLatency a line'' True (m_data_handler s)) (\<lambda>(c, _).
               Inr (s\<lparr>m_protocol := p, m_data_handler := c\<rparr>, children))))"

text \<open>The bytes a read copies out, \<open>None\<close> when the line is not there. A soft read may still claim the array.\<close>

definition line_bytes :: "cache_line \<Rightarrow> u8 list result" where
  "line_bytes l =
     (case line_data l of
        None \<Rightarrow> Inl (Undefined ''copy from a null pointer'')
      | Some d \<Rightarrow> if length d < unat (line_block_size l) then Inl (Undefined ''copy past the line'')
                  else Inr (take (unat (line_block_size l)) d))"

text \<open>The read of a cache whose line is its own or the memory's; otherwise the number of the owner.\<close>

definition read_own ::
  "u64 \<Rightarrow> controller \<Rightarrow> (controller \<times> (int + u8 list option)) result" where
  "read_own a s =
     result_bind (readCacheLine a (Some new_line) True (m_data_handler s)) (\<lambda>(c, out, ok).
       let s' = s\<lparr>m_data_handler := c\<rparr> in
       case (ok, out) of
         (True, Some l) \<Rightarrow>
           if owner_id l = c_id s \<or> owner_id l = - 1
           then result_bind (line_bytes l) (\<lambda>d. Inr (s', Inr (Some d)))
           else Inr (s', Inl (owner_id l))
       | _ \<Rightarrow> Inr (s', Inr None))"

definition controller_read ::
  "u64 \<Rightarrow> controller \<Rightarrow> controller list \<Rightarrow> (controller \<times> controller list \<times> u8 list option) result" where
  "controller_read a s children =
     result_bind (read_own a s) (\<lambda>(s', r).
       case r of
         Inr bytes \<Rightarrow> Inr (s', children, bytes)
       | Inl i \<Rightarrow>
           if 0 \<le> i \<and> nat i < length children
           then result_bind (read_own a (children ! nat i)) (\<lambda>(child, r').
                  case r' of
                    Inr bytes \<Rightarrow> Inr (s', children[nat i := child], bytes)
                  | Inl _ \<Rightarrow> Inl (Undefined ''a private cache has no children''))
           else Inl (Undefined ''no such child''))"

end
