(* ===== verification/Sending.thy ===== *)
theory Sending
  imports Interfaces
begin

text \<open>
  What the send and receive sides of an interface do to each other: reading leaves the outgoing queues alone, and a
  response that is accepted is the last one of its queue.
\<close>

lemma Bus_push_response:
  assumes "Bus_pushMessage b m cyc DATA_RESPONSE = (b', m', True)"
  shows "m_tx_response_buffer b' = m_tx_response_buffer b @ [m'] \<and> m_tx_request_buffer b' = m_tx_request_buffer b \<and>
    m_interface_id b' = m_interface_id b \<and> m' = stamp_message b m cyc"
  using assms by (auto simp: Bus_pushMessage_def Let_def split: if_splits)

lemma stamp_fields [simp]:
  "msg_id (stamp_message b m cyc) = msg_id m" "addr (stamp_message b m cyc) = addr m"
  "owner (stamp_message b m cyc) = owner m" "msg_to (stamp_message b m cyc) = msg_to m"
  "msg_data (stamp_message b m cyc) = msg_data m" "msg_kind (stamp_message b m cyc) = msg_kind m"
  by (simp_all add: stamp_message_def)

text \<open>What an answer says: the request it is for, where it goes and the bytes it carries.\<close>

definition answer :: "message \<Rightarrow> u64 \<times> u64 \<times> u16 list \<times> u8 list option" where
  "answer m = (msg_id m, addr m, msg_to m, msg_data m)"

lemma push_response:
  assumes "itf_pushMessage i m cyc DATA_RESPONSE = (i', m', True)"
  shows "tx_response i' = tx_response i @ [m'] \<and> tx_request i' = tx_request i \<and> answer m' = answer m \<and> msg_kind m' = msg_kind m"
  using assms
  by (cases i) (auto simp: answer_def Triple_pushMessage_def map_prod_def split: prod.splits dest!: Bus_push_response)

lemma peek_keeps_tx:
  assumes "itf_peekMessage i = (i', r)"
  shows "tx_response i' = tx_response i" and "tx_request i' = tx_request i"
  using assms
  by (cases i; auto simp: map_prod_def numeral_2_eq_2 Bus_peekMessage_def Triple_peekMessage_def Let_def
      split: prod.splits if_splits)+

lemma pop_keeps_tx:
  assumes "itf_popFrontMessage i = Inr i'"
  shows "tx_response i' = tx_response i" and "tx_request i' = tx_request i"
  using assms
  by (cases i; auto simp: map_sum_def Bus_popFrontMessage_def Triple_popFrontMessage_def split: sum.splits if_splits)+

end
