(* ===== verification/Ports.thy ===== *)
theory Ports
  imports Sending "HOL-Library.Sublist"
begin

text \<open>
  What the component at an interface may do to it: append to the outgoing queues, take from the front of the incoming
  ones, and nothing else. Every component of a system keeps to it (the controllers and cores below), which is what the
  interconnects rely on.
\<close>

definition port_used :: "interface \<Rightarrow> interface \<Rightarrow> bool" where
  "port_used i i' \<longleftrightarrow>
     itf_id i' = itf_id i \<and> (itf_wf i \<longrightarrow> itf_wf i') \<and>
     suffix (rx_request i') (rx_request i) \<and> suffix (rx_response i') (rx_response i) \<and> suffix (rx_service i') (rx_service i) \<and>
     prefix (tx_request i) (tx_request i') \<and> prefix (tx_response i) (tx_response i') \<and> prefix (tx_service i) (tx_service i')"

lemma port_used_refl [simp, intro]: "port_used i i"
  by (simp add: port_used_def)

lemma port_used_trans [trans]: "port_used i1 i2 \<Longrightarrow> port_used i2 i3 \<Longrightarrow> port_used i1 i3"
  unfolding port_used_def by (metis prefix_order.trans suffix_order.trans)

lemma erase_front_suffix [simp]: "suffix (erase_at 0 xs) xs"
  by (simp add: erase_at_def suffix_tl suffix_drop)

lemma push_port_used:
  assumes "itf_pushMessage i m cyc ty = (i', m', ok)"
  shows "port_used i i'"
  using assms
  by (cases i) (auto simp: port_used_def Triple_pushMessage_def Bus_pushMessage_def Let_def Bus_wf_def Triple_wf_def
      split: if_splits)

lemma peek_port_used:
  assumes "itf_peekMessage i = (i', r)"
  shows "port_used i i'"
  using assms
  by (cases i) (auto simp: port_used_def Triple_peekMessage_def Bus_peekMessage_def numeral_2_eq_2 Bus_wf_def Triple_wf_def
      split: if_splits)

lemma pop_port_used:
  assumes "itf_popFrontMessage i = Inr i'"
  shows "port_used i i'"
  using assms
  by (cases i) (auto simp: port_used_def Triple_popFrontMessage_def Bus_popFrontMessage_def Bus_wf_def Triple_wf_def erase_at_0
      suffix_tl split: if_splits)

end
