(* ===== verification/ControllerFrames.thy ===== *)
theory ControllerFrames
  imports Controllers Ports
begin

text \<open>
  What the actions of a controller leave alone. The locale \<open>action_frame\<close> is the contract of a relation that
  every elementary change of the controller keeps; its lemmas carry the relation through every action. It is
  interpreted on the frames and invariants that the controller's theorems need.
\<close>

section \<open>The data handler keeps its configuration\<close>

definition array_config :: "cache \<Rightarrow> bool \<times> u32 \<times> u32 \<times> u32" where
  "array_config c = (m_data_array_pipelined c, m_data_access_latency c, m_data_array_ports c, m_block_size c)"

named_theorems config_simps "operations of the data handler that keep the configuration of the array"

lemma config_updates [config_simps]:
  "array_config (c\<lparr>m_cache := x\<rparr>) = array_config c"
  "array_config (c\<lparr>m_mshr := y\<rparr>) = array_config c"
  "array_config (c\<lparr>m_pwb := y\<rparr>) = array_config c"
  "array_config (c\<lparr>m_pwb_pending_issue := z\<rparr>) = array_config c"
  "array_config (c\<lparr>m_replacement_policy := p\<rparr>) = array_config c"
  "array_config (setRequester r c) = array_config c"
  "array_config (updateCycle t c) = array_config c"
  by (simp_all add: array_config_def setRequester_def updateCycle_def)

lemma config_write_slot [config_simps]: "array_config (write_slot sl l c) = array_config c"
  by (cases sl) (simp_all add: config_simps)

lemma config_touch [config_simps]:
  "array_config (touch_array c) = array_config c"
  "array_config (policy_touch st way c) = array_config c"
  by (simp_all add: touch_array_def policy_touch_def array_config_def)

lemma config_base_updateLineBits [config_simps]:
  "base_updateLineBits a l c = Inr (c', ok) \<Longrightarrow> array_config c' = array_config c"
  by (auto simp: base_updateLineBits_def result_bind_Inr_iff config_simps split: option.splits prod.splits)

lemma config_updateLineBits [config_simps]:
  assumes "updateLineBits a l c = Inr (c', ok)"
  shows "array_config c' = array_config c"
proof -
  obtain c1 where c1: "base_updateLineBits a l c = Inr (c1, ok)"
    using assms by (auto simp: updateLineBits_def result_bind_Inr_iff)
  have "array_config c' = array_config c1"
    using assms c1 by (cases "findline c1 a") (auto simp: updateLineBits_def config_simps split: if_splits)
  then show ?thesis using config_base_updateLineBits [OF c1] by simp
qed

lemma config_readCacheLine [config_simps]:
  "readCacheLine a out soft c = Inr (c', out', ok) \<Longrightarrow> array_config c' = array_config c"
  by (auto simp: readCacheLine_def result_bind_Inr_iff config_simps split: option.splits prod.splits if_splits)

lemma config_modifyData [config_simps]:
  "modifyData a d sz soft c = Inr (c', ok) \<Longrightarrow> array_config c' = array_config c"
  by (auto simp: modifyData_def Let_def result_bind_Inr_iff config_simps split: option.splits prod.splits if_splits)

lemma config_writeLine2MSHR [config_simps]:
  "writeLine2MSHR a l c = Inr c' \<Longrightarrow> array_config c' = array_config c"
  by (auto simp: writeLine2MSHR_def Let_def result_bind_Inr_iff config_simps split: option.splits if_splits)

lemma config_base_updateLineData [config_simps]:
  "base_updateLineData a d c = Inr (c', ok) \<Longrightarrow> array_config c' = array_config c"
  by (auto simp: base_updateLineData_def result_bind_Inr_iff config_simps split: option.splits prod.splits if_splits)

lemma config_writeCacheLine [config_simps]:
  "writeCacheLine a l c = Inr (c', ok) \<Longrightarrow> array_config c' = array_config c"
  by (auto simp: writeCacheLine_def writeCacheLine_bypassLatency_def Let_def result_bind_Inr_iff config_simps
      split: option.splits prod.splits if_splits)

lemma config_make_room [config_simps]:
  "make_room r a c = Inr c' \<Longrightarrow> array_config c' = array_config c"
  by (auto simp: make_room_def chooseEvictionWay_def moveLine2WB_def Let_def result_bind_Inr_iff config_simps
      split: option.splits prod.splits if_splits)

lemma config_updateLineData [config_simps]:
  assumes "updateLineData r a d c = Inr (c', ok)"
  shows "array_config c' = array_config c"
proof -
  have *: "array_config c' = array_config c"
    if "line_copyData e d = Inr e'" "make_room r a (c\<lparr>m_mshr := m\<rparr>) = Inr c1"
      "writeCacheLine a e' c1 = Inr (c2, ok')" "c' = (if ok' then c2\<lparr>m_mshr := m'\<rparr> else c2)" for e e' m m' c1 c2 ok'
    using config_make_room [OF that(2)] config_writeCacheLine [OF that(3)] that(4) by (simp add: config_simps)
  show ?thesis
    using assms
    by (auto simp: updateLineData_def Let_def result_bind_Inr_iff config_simps config_base_updateLineData
        split: option.splits prod.splits if_splits intro: *)
qed

lemma pipelinedArray_config:
  "array_config (m_data_handler s') = array_config (m_data_handler s) \<Longrightarrow> pipelinedArray s' = pipelinedArray s"
  by (simp add: array_config_def pipelinedArray_def)

lemma getAddressKey_config:
  "array_config (m_data_handler s') = array_config (m_data_handler s) \<Longrightarrow> getAddressKey s' = getAddressKey s"
  by (simp add: array_config_def getAddressKey_def addr_key_def fun_eq_iff)

section \<open>Relations kept by every action\<close>

locale action_frame =
  fixes keeps :: "controller \<Rightarrow> controller \<Rightarrow> bool"
  assumes refl [simp, intro]: "keeps s s"
    and trans: "keeps s s1 \<Longrightarrow> keeps s1 s2 \<Longrightarrow> keeps s s2"
    and lower: "port_used (m_lower_interface s) i \<Longrightarrow> keeps s (s\<lparr>m_lower_interface := i\<rparr>)"
    and upper: "port_used (m_upper_interface s) i \<Longrightarrow> keeps s (s\<lparr>m_upper_interface := i\<rparr>)"
    and bypass: "m_perfect_llc s \<or> c_kind s = End2EndController \<Longrightarrow>
      keeps s (s\<lparr>delivery_seq := q, m_upper_interface := i\<rparr>)"
    and port: "keeps s (s\<lparr>m_port_calls := pc\<rparr>)"
    and failures: "keeps s (s\<lparr>m_data_read_failures := v\<rparr>)"
    and draws: "keeps s (s\<lparr>rand_draws := n\<rparr>)"
    and park: "keeps s (s\<lparr>m_array_park := pk\<rparr>)"
    and served: "keeps s (s\<lparr>m_array_served := v\<rparr>)"
    and served_writes: "keeps s (s\<lparr>m_array_served_writes := v\<rparr>)"
    and handler: "array_config c = array_config (m_data_handler s) \<Longrightarrow> keeps s (s\<lparr>m_data_handler := c\<rparr>)"
    and readable: "coh_isReadableState (m_protocol s) st = Inr (p, b) \<Longrightarrow> keeps s (s\<lparr>m_protocol := p\<rparr>)"
    and add_modifying: "msg_data m \<noteq> None \<Longrightarrow>
      keeps s (s\<lparr>m_modifying_data_messages := AList.update (msg_id m) m (m_modifying_data_messages s)\<rparr>)"
    and drop_modifying: "keeps s (s\<lparr>m_modifying_data_messages := AList.delete mid (m_modifying_data_messages s)\<rparr>)"
    and add_pending: "keeps s (Base_addtoPendingRequests m s)"
    and drop_pending: "keeps s (s\<lparr>m_pending_requests := AList.delete k (m_pending_requests s)\<rparr>)"
    and save: "keeps s (saveReqForWriteBack m s)"
    and drop_saved: "keeps s (s\<lparr>m_saved_requests_for_wb := AList.delete k (m_saved_requests_for_wb s)\<rparr>)"
    and acks: "keeps s (set_directory (add_acks k v) s)"
    and sharers: "keeps s (set_directory (\<lambda>d. d\<lparr>m_sharers := f d\<rparr>) s)"
    and enqueue: "\<not> array_granted m s \<Longrightarrow> arrayEnqueue (new_array_op ACTIONS m cas) s = Inr s' \<Longrightarrow> keeps s s'"
begin

lemma push_lower_keeps: "push_lower m ty err s = Inr s' \<Longrightarrow> keeps s s'"
  by (auto simp: push_lower_def split: prod.splits if_splits intro: lower push_port_used)

lemma push_upper_keeps: "push_upper m ty err s = Inr s' \<Longrightarrow> keeps s s'"
  by (auto simp: push_upper_def split: prod.splits if_splits intro: upper push_port_used)

text \<open>
  Only a perfect shared cache and the end-to-end controller do more with the upper interface than a port may: they
  deliver to themselves, and the latter takes back what it has sent.
\<close>

lemma push_upper_rx_keeps:
  "m_perfect_llc s \<or> c_kind s = End2EndController \<Longrightarrow> keeps s (push_upper_rx m ty s)"
  unfolding push_upper_rx_def using bypass by (auto split: prod.splits)

lemma rolled_back_keeps:
  assumes "c_kind s = End2EndController"
  shows "keeps s (s\<lparr>m_upper_interface := i\<rparr>)"
proof -
  have "s\<lparr>delivery_seq := delivery_seq s, m_upper_interface := i\<rparr> = s\<lparr>m_upper_interface := i\<rparr>" by simp
  then show ?thesis using bypass [where s = s and q = "delivery_seq s" and i = i] assms by simp
qed

lemma port_call_keeps: "keeps s (port_call c s)"
  by (simp add: port_call_def port)

lemma read_failed_keeps: "dataArrayReadFailed m s = Inr s' \<Longrightarrow> keeps s s'"
  by (auto simp: dataArrayReadFailed_def Let_def failures result_bind_Inr_iff split: if_splits)

lemma fetch_keeps:
  assumes "fetch_line_data m s = Inr (s', m')"
  shows "keeps s s'"
proof (cases "msg_data m")
  case (Some d)
  then show ?thesis using assms by (simp add: fetch_line_data_def)
next
  case None
  then obtain c out ok where r: "readCacheLine (addr m) (Some new_line) False (m_data_handler s) = Inr (c, out, ok)"
    using assms by (auto simp: fetch_line_data_def result_bind_Inr_iff)
  have s1: "keeps s (s\<lparr>m_data_handler := c\<rparr>)" by (rule handler) (rule config_readCacheLine [OF r])
  have "s' = s\<lparr>m_data_handler := c\<rparr> \<or> dataArrayReadFailed m (s\<lparr>m_data_handler := c\<rparr>) = Inr s'"
    using assms None r
    by (auto simp: fetch_line_data_def Let_def result_bind_Inr_iff split: if_splits option.splits)
  then show ?thesis using s1 read_failed_keeps trans by blast
qed

lemma respond_all_keeps: "respond_all m ps s = Inr s' \<Longrightarrow> keeps s s'"
proof (induction ps arbitrary: s)
  case Nil
  then show ?case by simp
next
  case (Cons p ps)
  then obtain r s1 where "push_lower r DATA_RESPONSE ''CacheController: Cannot insert the Msg into lower interface.''
      (port_call (Commit (msg_id r) (addr r)) s) = Inr s1" "respond_all m ps s1 = Inr s'"
    by (auto simp: result_bind_Inr_iff)
  then show ?case
    using Cons.IH push_lower_keeps port_call_keeps trans by meson
qed

lemma base_remove_keeps:
  assumes "Base_removePendingAndRespond m s = Inr s'"
  shows "keeps s s'"
proof -
  obtain s1 m1 ps s2 where f: "fetch_line_data m s = Inr (s1, m1)" and r: "respond_all m1 ps s1 = Inr s2"
    and s': "s' = s2\<lparr>m_pending_requests := AList.delete (getAddressKey s1 (addr m1)) (m_pending_requests s2)\<rparr>"
    using assms by (auto simp: Base_removePendingAndRespond_def Let_def result_bind_Inr_iff split: option.splits)
  show ?thesis
    unfolding s' by (rule trans [OF trans [OF fetch_keeps [OF f] respond_all_keeps [OF r]] drop_pending])
qed

lemma base_hit_keeps:
  assumes "Base_hitAction m s = Inr s'"
  shows "keeps s s'"
proof -
  obtain s1 m1 where f: "fetch_line_data m s = Inr (s1, m1)"
    and p: "push_lower (m1\<lparr>msg_kind := K_RESP\<rparr>) DATA_RESPONSE
        ''CacheController: Cannot insert the Msg into lower interface.''
        (port_call (Commit (msg_id m1) (addr m1)) s1) = Inr s'"
    using assms by (auto simp: Base_hitAction_def result_bind_Inr_iff)
  show ?thesis
    by (rule trans [OF fetch_keeps [OF f] trans [OF port_call_keeps push_lower_keeps [OF p]]])
qed

lemma base_bus_keeps: "Base_sendBusRequest m s = Inr s' \<Longrightarrow> keeps s s'"
  by (auto simp: Base_sendBusRequest_def Let_def push_upper_rx_keeps push_upper_keeps split: if_splits)

lemma base_write_back_keeps:
  assumes "Base_performWriteBack m s = Inr s'"
  shows "keeps s s'"
proof -
  obtain s1 m1 where f: "fetch_line_data m s = Inr (s1, m1)" and "s' = s1 \<or> (\<exists>m' e. push_upper m' DATA_RESPONSE e s1 = Inr s')"
    using assms by (auto simp: Base_performWriteBack_def Let_def result_bind_Inr_iff split: if_splits)
  then show ?thesis using fetch_keeps [OF f] push_upper_keeps trans by blast
qed

lemma track_keeps: "keeps s (trackArrayGrant m ty s)"
proof -
  have "keeps s (s\<lparr>m_array_park := pk, m_array_served := v, m_array_served_writes := w\<rparr>)" for pk v w
    by (rule trans [OF trans [OF park served] served_writes])
  then show ?thesis by (simp add: trackArrayGrant_def)
qed

lemma array_granted_park [simp]: "array_granted m (s\<lparr>m_array_park := pk\<rparr>) = array_granted m s"
  by (simp add: array_granted_def pipelinedArray_def)

lemma readiness_keeps:
  assumes "checkReadinessOfCache m ty line s = Inr (s', ok)"
  shows "keeps s s'"
proof (cases "array_granted m s")
  case True
  then show ?thesis using assms track_keeps by (auto simp: checkReadinessOfCache_def)
next
  case False
  obtain pk where "arrayEnqueue (new_array_op ACTIONS m [\<lparr> ca_type = ty, ca_msg = Some m, ca_line = line \<rparr>])
      (s\<lparr>m_array_park := pk\<rparr>) = Inr s'"
  proof (cases "ty = HIT_Action \<and> map_of (m_array_park s) (msg_id m) = None")
    case True
    with assms False that show ?thesis by (auto simp: checkReadinessOfCache_def Let_def result_bind_Inr_iff)
  next
    case parked: False
    have "s\<lparr>m_array_park := m_array_park s\<rparr> = s" by simp
    with assms False parked that [of "m_array_park s"] show ?thesis
      by (auto simp: checkReadinessOfCache_def Let_def result_bind_Inr_iff)
  qed
  then show ?thesis using trans [OF park enqueue] False by (metis array_granted_park)
qed

lemma when_granted_keeps:
  assumes "when_granted m ty line f s = Inr s'" and "\<And>s1 s2. f s1 = Inr s2 \<Longrightarrow> keeps s1 s2"
  shows "keeps s s'"
  using assms readiness_keeps trans
  by (auto simp: when_granted_def result_bind_Inr_iff split: if_splits) blast

lemma fill_keeps:
  assumes "fill_line m s = Inr s'"
  shows "keeps s s'"
proof -
  obtain d c where u: "updateLineData (rand_value s (rand_draws s)) (addr m) d
      (setRequester (uint (owner m)) (m_data_handler s)) = Inr (c, True)"
    and s': "s' = s\<lparr>m_data_handler := setRequester (- 1) c, rand_draws := rand_draws s + 1\<rparr>"
    using assms by (auto simp: fill_line_def result_bind_Inr_iff split: option.splits if_splits)
  have "array_config (setRequester (- 1) c) = array_config (m_data_handler s)"
    using config_updateLineData [OF u] by (simp add: config_simps)
  then show ?thesis unfolding s' by (rule trans [OF handler draws])
qed

lemma report_keeps:
  assumes "report_lost_line m line s = Inr s'"
  shows "keeps s s'"
proof -
  have two: "keeps s (port_call (Invalidate (addr m)) (s\<lparr>m_protocol := p2\<rparr>))" "keeps s (s\<lparr>m_protocol := p2\<rparr>)"
    if "coh_isReadableState (m_protocol s) st = Inr (p1, b)" "coh_isReadableState p1 st' = Inr (p2, b')"
    for st st' p1 p2 b b'
  proof -
    have "keeps (s\<lparr>m_protocol := p1\<rparr>) ((s\<lparr>m_protocol := p1\<rparr>)\<lparr>m_protocol := p2\<rparr>)"
      using that(2) by (intro readable [where st = st' and b = b']) simp
    then show "keeps s (s\<lparr>m_protocol := p2\<rparr>)" using readable [OF that(1)] trans by simp
    then show "keeps s (port_call (Invalidate (addr m)) (s\<lparr>m_protocol := p2\<rparr>))" using port_call_keeps trans by blast
  qed
  show ?thesis
    using assms
    by (auto simp: report_lost_line_def result_bind_Inr_iff split: if_splits intro: readable two)
qed

lemma write_data_keeps: "writeCacheLineData m line s = Inr s' \<Longrightarrow> keeps s s'"
  unfolding writeCacheLineData_def by (erule when_granted_keeps) (rule fill_keeps)

lemma update_line_keeps:
  assumes "Cache_updateCacheLine m line s = Inr s'"
  shows "keeps s s'"
proof -
  obtain s1 c ok where r: "report_lost_line m line s = Inr s1"
    and u: "updateLineBits (addr m) line (m_data_handler s1) = Inr (c, ok)"
    and "s' = s1\<lparr>m_data_handler := c\<rparr> \<or>
      (\<exists>c'. writeLine2MSHR (addr m) line c = Inr c' \<and> s' = s1\<lparr>m_data_handler := c'\<rparr>) \<or>
      writeCacheLineData m line (s1\<lparr>m_data_handler := c\<rparr>) = Inr s'"
    using assms by (auto simp: Cache_updateCacheLine_def result_bind_Inr_iff split: if_splits)
  moreover have "keeps s1 (s1\<lparr>m_data_handler := c\<rparr>)"
    by (rule handler) (rule config_updateLineBits [OF u])
  moreover have "keeps s1 (s1\<lparr>m_data_handler := c'\<rparr>)" if "writeLine2MSHR (addr m) line c = Inr c'" for c'
    by (rule handler) (use config_writeLine2MSHR [OF that] config_updateLineBits [OF u] in simp)
  ultimately show ?thesis using report_keeps [OF r] write_data_keeps trans by blast
qed

lemma modify_keeps:
  assumes "Cache_modifyData m s = Inr s'"
  shows "keeps s s'"
proof -
  have change: "keeps s (s\<lparr>m_data_handler := c,
      m_modifying_data_messages := AList.delete (msg_id m) (m_modifying_data_messages s)\<rparr>)"
    if "modifyData a d sz False (m_data_handler s) = Inr (c, ok)" for a d sz c ok
    using trans [OF handler [OF config_modifyData [OF that]] drop_modifying] by simp
  show ?thesis
    using assms change by (auto simp: Cache_modifyData_def Let_def result_bind_Inr_iff split: option.splits)
qed

lemma write_back_keeps:
  assumes "Cache_performWriteBack m s = Inr s'"
  shows "keeps s s'"
proof -
  obtain s1 m1 where sm: "supply_message m s = (s1, m1)" by (cases "supply_message m s")
  have "keeps s s1"
    using sm drop_saved by (auto simp: supply_message_def Let_def split: option.splits list.splits)
  moreover have "keeps s1 s'"
    using assms sm base_write_back_keeps when_granted_keeps [where f = "Base_performWriteBack m1"]
    by (auto simp: Cache_performWriteBack_def split: if_splits)
  ultimately show ?thesis by (rule trans)
qed

lemma add_pending_keeps: "keeps s (Cache_addtoPendingRequests m s)"
  unfolding Cache_addtoPendingRequests_def using add_pending trans [OF add_modifying add_pending] by auto

lemma hit_keeps: "Cache_hitAction m s = Inr s' \<Longrightarrow> keeps s s'"
  using base_hit_keeps when_granted_keeps [where f = "Base_hitAction m"]
  by (auto simp: Cache_hitAction_def split: if_splits)

lemma remove_keeps: "Cache_removePendingAndRespond m s = Inr s' \<Longrightarrow> keeps s s'"
  using base_remove_keeps when_granted_keeps [where f = "Base_removePendingAndRespond m"]
  by (auto simp: Cache_removePendingAndRespond_def split: if_splits)

lemma end2end_bus_keeps:
  assumes "End2End_sendBusRequest m s = Inr s'" and kind: "c_kind s = End2EndController"
  shows "keeps s s'"
  using assms
  by (auto simp: End2End_sendBusRequest_def result_bind_Inr_iff split: prod.splits option.splits
      intro: trans [OF rolled_back_keeps [OF kind] base_bus_keeps] trans [OF rolled_back_keeps [OF kind] push_upper_rx_keeps])

lemma end2end_write_back_keeps: "End2End_performWriteBack m s = Inr s' \<Longrightarrow> keeps s s'"
proof -
  have send: "keeps s1 s2" if "End2End_send_back m s1 = Inr s2" for s1 s2
    using that fetch_keeps push_upper_keeps trans by (auto simp: End2End_send_back_def result_bind_Inr_iff) blast
  show "End2End_performWriteBack m s = Inr s' \<Longrightarrow> keeps s s'"
    using send when_granted_keeps [where f = "End2End_send_back m"]
    by (auto simp: End2End_performWriteBack_def split: if_splits)
qed

lemma add_data_keeps:
  assumes "addData2Message m s = Inr (s', m')"
  shows "keeps s s'"
proof -
  obtain c out ok where r: "readCacheLine (addr m) (Some new_line) False (m_data_handler s) = Inr (c, out, ok)"
    using assms by (auto simp: addData2Message_def result_bind_Inr_iff)
  then have s': "s' = s\<lparr>m_data_handler := c\<rparr>"
    using assms by (auto simp: addData2Message_def result_bind_Inr_iff split: option.splits)
  show ?thesis unfolding s' by (rule handler) (rule config_readCacheLine [OF r])
qed

lemma directory_ops_keep:
  "keeps s (setACKNumber m s)" "keeps s (decrementACK m s)" "keeps s (incrementSharers m s)"
  "keeps s (decrementSharers m s)" "keeps s (setSharers m s)" "keeps s (clearSharers m s)"
  unfolding setACKNumber_def decrementACK_def incrementSharers_def decrementSharers_def setSharers_def
    clearSharers_def Let_def
  by (rule acks sharers)+

lemma directory_keeps:
  assumes "run_directory_action ty m s = Inr s'"
  shows "keeps s s'"
proof -
  have "keeps s s'" if "sendForwardMessage m s = Inr s'"
    using that push_lower_keeps by (auto simp: sendForwardMessage_def split: if_splits)
  moreover have "keeps s s'" if "removePendingNoResponse m s = Inr s'"
    using that drop_pending by (auto simp: removePendingNoResponse_def Let_def split: if_splits)
  ultimately show ?thesis
    using assms add_data_keeps
    by (cases ty) (auto simp: run_directory_action_def no_function_def directory_ops_keep result_bind_Inr_iff split: if_splits)
qed

lemma removed_saved_keeps: "keeps s (removedSaveRequest m s)"
  by (simp add: removedSaveRequest_def drop_saved)

lemma message_action_keeps:
  assumes "message_action ty m line s = Inr s'" and "ty \<noteq> STALL"
  shows "keeps s s'"
  using assms
  by (cases ty)
    (auto simp: message_action_def no_function_def Cache_sendInvalidationMessage_def
      End2End_sendInvalidationMessage_def save split: option.splits if_splits
      intro: remove_keeps hit_keeps add_pending_keeps base_bus_keeps write_back_keeps update_line_keeps
        write_data_keeps modify_keeps end2end_bus_keeps end2end_write_back_keeps push_lower_keeps
        removed_saved_keeps directory_keeps)

lemma run_action_keeps:
  assumes "run_action a s = Inr s'" and "ca_type a \<noteq> STALL"
  shows "keeps s s'"
  using assms by (auto simp: run_action_def split: if_splits option.splits intro: message_action_keeps)

lemma run_actions_keeps:
  assumes "run_actions cas s = Inr s'" and "\<forall>a\<in>set cas. ca_type a \<noteq> STALL"
  shows "keeps s s'"
  using assms
proof (induction cas arbitrary: s)
  case Nil
  then show ?case by simp
next
  case (Cons a as)
  then obtain s1 where "run_action a s = Inr s1" "run_actions as s1 = Inr s'" by (auto simp: result_bind_Inr_iff)
  then show ?case using Cons.IH Cons.prems(2) run_action_keeps trans by (metis list.set_intros)
qed

end

text \<open>A relation that a stall keeps too is kept by every list of actions.\<close>

locale full_frame = action_frame +
  assumes stalled: "stall m s = Inr s' \<Longrightarrow> keeps s s'"
begin

lemma run_keeps: "run_action a s = Inr s' \<Longrightarrow> keeps s s'"
  using run_action_keeps stalled
  by (cases "ca_type a = STALL") (auto simp: run_action_def message_action_def split: option.splits)

lemma runs_keep: "run_actions cas s = Inr s' \<Longrightarrow> keeps s s'"
  by (induction cas arbitrary: s) (auto simp: result_bind_Inr_iff intro: trans [OF run_keeps])

lemma process_keeps: "process_message m s = Inr s' \<Longrightarrow> keeps s s'"
  by (auto simp: process_message_def result_bind_Inr_iff runs_keep)

end

section \<open>Scheduling the array\<close>

lemma arrayAdmit_frame:
  assumes "arrayAdmit s = Inr s'"
  shows "\<exists>a ops n. s' = s\<lparr>m_data_access_arbiter := a, m_array_ops := ops, m_array_admitted_this_cycle := n\<rparr>"
  using assms
proof (induction s rule: arrayAdmit.induct)
  case (1 s)
  have id: "s = s\<lparr>m_data_access_arbiter := m_data_access_arbiter s, m_array_ops := m_array_ops s,
      m_array_admitted_this_cycle := m_array_admitted_this_cycle s\<rparr>" by simp
  show ?case
  proof (cases "m_array_admitted_this_cycle s < m_data_array_ports (m_data_handler s)")
    case False
    then have "s' = s" using 1(2) by (simp add: arrayAdmit.simps [of s])
    then show ?thesis using id by metis
  next
    case True
    then obtain s1 r where e: "arrayElect s = Inr (s1, r)"
      using 1(2) by (auto simp: arrayAdmit.simps [of s] split: sum.splits)
    obtain a where s1: "s1 = s\<lparr>m_data_access_arbiter := a\<rparr>" using arrayElect_frame [OF e] by blast
    show ?thesis
    proof (cases r)
      case None
      then have "s' = s1" using 1(2) True e by (simp add: arrayAdmit.simps [of s])
      then show ?thesis using s1 id by (metis controller.update_convs(23,28,29) controller.surjective)
    next
      case (Some i)
      then have "arrayAdmit (admit_op i s1) = Inr s'" using 1(2) True e by (simp add: arrayAdmit.simps [of s])
      from 1(1) [OF True e refl Some this] obtain a' ops n where
        "s' = (admit_op i s1)\<lparr>m_data_access_arbiter := a', m_array_ops := ops, m_array_admitted_this_cycle := n\<rparr>" by blast
      then show ?thesis unfolding s1 admit_op_def by simp blast
    qed
  qed
qed

lemma arrayEnqueue_frame:
  assumes "arrayEnqueue op s = Inr s'"
  shows "\<exists>a ops n p q. s' = s\<lparr>m_data_access_arbiter := a, m_array_ops := ops, m_array_admitted_this_cycle := n,
      m_pipe_ops := p, m_array_op_seq := q\<rparr>"
proof -
  let ?s = "s\<lparr>m_pipe_ops := m_pipe_ops s + 1, m_array_op_seq := m_array_op_seq s + 1,
      m_array_ops := m_array_ops s @ [op\<lparr>op_id := m_array_op_seq s + 1\<rparr>]\<rparr>"
  have "arrayAdmit ?s = Inr s' \<or> s' = ?s" using assms by (auto simp: arrayEnqueue_def Let_def split: if_splits)
  then show ?thesis
  proof
    assume "arrayAdmit ?s = Inr s'"
    then obtain a ops n where "s' = ?s\<lparr>m_data_access_arbiter := a, m_array_ops := ops, m_array_admitted_this_cycle := n\<rparr>"
      using arrayAdmit_frame by blast
    then show ?thesis
      by (intro exI [of _ a] exI [of _ ops] exI [of _ n] exI [of _ "m_pipe_ops s + 1"] exI [of _ "m_array_op_seq s + 1"])
        simp
  next
    assume "s' = ?s"
    then show ?thesis
      by (intro exI [of _ "m_data_access_arbiter s"] exI [of _ "m_array_ops s'"]
          exI [of _ "m_array_admitted_this_cycle s"] exI [of _ "m_pipe_ops s + 1"] exI [of _ "m_array_op_seq s + 1"])
        simp
  qed
qed

section \<open>A small controller\<close>

text \<open>The controller the witnesses run: two sets of two ways of 64 bytes, one MSHR.\<close>

definition example_array :: "bool \<Rightarrow> cache" where
  "example_array pipelined =
     \<lparr> m_cache = replicate 4 (new_line\<lparr>line_block_size := 64\<rparr>), m_block_size = 64, m_ways_count = 2, m_way_mask = [],
       m_shared_mask = 3, m_all_mask = 3, m_requester = - 1, m_sets_count = 2,
       m_replacement_policy = LeastRecentlyUsed (\<lambda>_. None), m_cycle = 5, m_data_access_latency = 3, m_ready_cycle = 0,
       m_data_array_pipelined = pipelined, m_data_array_ports = 2, m_mshr = [], m_pwb = [], m_pwb_size = 8,
       m_pwb_pending_issue = [] \<rparr>"

definition example_controller :: "controller_kind \<Rightarrow> coherence \<Rightarrow> cache \<Rightarrow> controller" where
  "example_controller kind p c =
     \<lparr> c_kind = kind, c_id = 0, c_shared_memory_id = 10, m_perfect_llc = False, m_cache_cycle = 5,
       m_lower_interface = BusI (new_BusInterface 0 8), m_upper_interface = TripleI (new_TripleBusInterface 0 8),
       m_data_handler = c, m_protocol = p, m_directory = \<lparr> m_sharers = [], m_ack_counters = [] \<rparr>,
       m_processing_queue = new_FRFCFS 8 (NOT 63) True, m_processing_queue_size = 8, m_cpu_port = False,
       m_port_calls = [], m_data_read_failures = 0, m_admit_fail_cycles = 0, m_intake_refusals = 0, m_queue_peak = 0,
       m_pending_requests = [], m_num_mshr = 1, m_saved_requests_for_wb = [], m_modifying_data_messages = [],
       m_data_access_arbiter = None, m_arbiter_candidates = [], m_array_served = 0, m_array_served_writes = 0,
       m_array_park = [], m_array_ops = [], m_array_admitted_this_cycle = 0, m_array_op_seq = 0,
       m_pipe_firing = False, m_pipe_ops = 0, m_pipe_early_fires = 0, m_pipe_requeues = 0, m_line_interlock = True,
       m_owner_of_latest_data = - 1, delivery_seq = 0, next_request_id = 1, rand_draws = 0, rand_value = (\<lambda>_. 0) \<rparr>"

text \<open>A table with one state, where a load hits and everything else stalls.\<close>

definition example_table :: fsm_reader where
  "example_table =
     \<lparr> m_eventIds = [], m_actionIds = [(''Stall'', 0), (''Hit'', 1)], m_stateIds = [(''S'', 0)],
       m_states = [\<lparr> is_data_valid = True, stable = True, transitions = [],
                     fsm_actions = [(0, [1]), (1, [0]), (6, [0])], m_own_state = 0 \<rparr>] \<rparr>"

definition example_msi :: coherence where
  "example_msi = Snooping \<lparr> p_kind = SNOOP_MSI, m_id = 0, m_shared_memory_id = 10, m_fsm = example_table \<rparr>"

definition example_line_message :: "u64 \<Rightarrow> u64 \<Rightarrow> message" where
  "example_line_message i a = (new_message i a 0 0 0)\<lparr>msg_data := Some (replicate 64 7), data_size := 64\<rparr>"

end
