(* ===== verification/ArrayScheduling.thy ===== *)
theory ArrayScheduling imports ControllerFrames
begin

text \<open>
  The level-2 list of array accesses: how accesses enter the array (ports per cycle, oldest first or by the
  arbiter), and that the loops that complete them end and complete exactly the accesses that are due.
\<close>

section \<open>Admission\<close>

text \<open>Admission only marks accesses: \<open>admits s\<close> relates the list before and after.\<close>

definition admitted_from :: "controller \<Rightarrow> data_array_op \<Rightarrow> data_array_op \<Rightarrow> bool" where
  "admitted_from s op op' \<longleftrightarrow>
     op' = op \<or> \<not> admitted op \<and> op' = op\<lparr>admitted := True,
       ready_cycle := m_cache_cycle s + ucast (m_data_access_latency (m_data_handler s))\<rparr>"

lemma arrayElect_oldest:
  assumes "arrayElect s = Inr (s', r)" and "m_data_access_arbiter s = None"
  shows "s' = s \<and> first_index (\<lambda>op. \<not> admitted op) (m_array_ops s) = r"
  using assms by (auto simp: arrayElect_def)

text \<open>The older accesses are inside the array already: the waiting ones form a suffix.\<close>

definition oldest_first :: "data_array_op list \<Rightarrow> bool" where
  "oldest_first ops \<longleftrightarrow> (\<forall>i j. i < j \<longrightarrow> j < length ops \<longrightarrow> admitted (ops ! j) \<longrightarrow> admitted (ops ! i))"

lemma oldest_first_admit:
  assumes "oldest_first ops" and "first_index (\<lambda>op. \<not> admitted op) ops = Some i"
  shows "oldest_first (ops[i := (ops ! i)\<lparr>admitted := True, ready_cycle := t\<rparr>])"
proof -
  have before: "admitted (ops ! k)" if "k < i" for k using first_index_SomeD(3) [OF assms(2) that] by simp
  show ?thesis
    unfolding oldest_first_def
  proof (intro allI impI)
    fix p q
    let ?ops = "ops[i := (ops ! i)\<lparr>admitted := True, ready_cycle := t\<rparr>]"
    assume pq: "p < q" "q < length ?ops" and q: "admitted (?ops ! q)"
    show "admitted (?ops ! p)"
    proof (cases "p = i \<or> q = i")
      case True
      then show ?thesis using pq before by (auto simp: nth_list_update)
    next
      case False
      then show ?thesis using pq q assms(1) by (auto simp: oldest_first_def)
    qed
  qed
qed

lemma word_inc_unat:
  fixes x y :: "'a::len word"
  assumes "x < y"
  shows "unat (x + 1) = Suc (unat x)"
proof -
  have "Suc (unat x) \<le> unat y" using assms by (simp add: word_less_nat_alt)
  also have "\<dots> < 2 ^ LENGTH('a)" by simp
  finally show ?thesis by (simp add: unat_word_ariths)
qed

lemma waiting_ops_None: "first_index (\<lambda>op. \<not> admitted op) (m_array_ops s) = None \<longleftrightarrow> waiting_ops s = 0"
  by (auto simp: first_index_None_iff waiting_ops_def filter_empty_conv)

lemma arrayAdmit_spec:
  assumes "arrayAdmit s = Inr s'"
    and "m_array_admitted_this_cycle s \<le> m_data_array_ports (m_data_handler s)"
  shows "m_array_admitted_this_cycle s' \<le> m_data_array_ports (m_data_handler s) \<and>
    waiting_ops s' + unat (m_array_admitted_this_cycle s') = waiting_ops s + unat (m_array_admitted_this_cycle s) \<and>
    list_all2 (admitted_from s) (m_array_ops s) (m_array_ops s') \<and>
    (m_data_access_arbiter s = None \<longrightarrow>
       (m_array_admitted_this_cycle s' = m_data_array_ports (m_data_handler s) \<or> waiting_ops s' = 0) \<and>
       (oldest_first (m_array_ops s) \<longrightarrow> oldest_first (m_array_ops s')))"
  using assms
proof (induction s rule: arrayAdmit.induct)
  case (1 s)
  let ?P = "m_data_array_ports (m_data_handler s)"
  have same: "list_all2 (admitted_from s) (m_array_ops s) (m_array_ops s)"
    by (simp add: list_all2_refl admitted_from_def)
  show ?case
  proof (cases "m_array_admitted_this_cycle s < ?P")
    case False
    then have "s' = s" using 1(2) by (simp add: arrayAdmit.simps [of s])
    then show ?thesis using 1(3) False same by simp
  next
    case True
    then obtain s1 r where e: "arrayElect s = Inr (s1, r)"
      using 1(2) by (auto simp: arrayAdmit.simps [of s] split: sum.splits)
    obtain a where s1: "s1 = s\<lparr>m_data_access_arbiter := a\<rparr>" using arrayElect_frame [OF e] by blast
    show ?thesis
    proof (cases r)
      case None
      then have s': "s' = s1" using 1(2) True e by (simp add: arrayAdmit.simps [of s])
      have "waiting_ops s' = waiting_ops s" by (simp add: s' s1 waiting_ops_def)
      moreover have "waiting_ops s = 0" if "m_data_access_arbiter s = None"
        using arrayElect_oldest [OF e that] None waiting_ops_None by metis
      ultimately show ?thesis using s' s1 True same by simp
    next
      case (Some i)
      let ?s2 = "admit_op i s1"
      have rec: "arrayAdmit ?s2 = Inr s'" using 1(2) True e Some by (simp add: arrayAdmit.simps [of s])
      have w: "i < length (m_array_ops s)" "\<not> admitted (m_array_ops s ! i)"
        using arrayElect_waiting e Some by auto
      have le: "m_array_admitted_this_cycle ?s2 \<le> m_data_array_ports (m_data_handler ?s2)"
        using True unfolding admit_op_def s1 by (simp add: inc_le)
      have unat: "unat (m_array_admitted_this_cycle ?s2) = Suc (unat (m_array_admitted_this_cycle s))"
        using True word_inc_unat [of "m_array_admitted_this_cycle s" ?P] unfolding admit_op_def s1 by simp
      have wait: "Suc (waiting_ops ?s2) = waiting_ops s" using waiting_ops_admit e Some by simp
      note IH = 1(1) [OF True e refl Some rec le]
      have frame: "m_data_handler ?s2 = m_data_handler s" "m_cache_cycle ?s2 = m_cache_cycle s"
        "m_data_access_arbiter ?s2 = a"
        by (simp_all add: admit_op_def s1)
      have from': "admitted_from ?s2 = admitted_from s" by (simp add: admitted_from_def frame fun_eq_iff)
      have step: "list_all2 (admitted_from s) (m_array_ops s) (m_array_ops ?s2)"
        using w by (auto simp: admit_op_def s1 list_all2_conv_all_nth nth_list_update admitted_from_def)
      have twice: "admitted_from s x z" if "admitted_from s x y" "admitted_from s y z" for x y z
        using that by (auto simp: admitted_from_def)
      have all: "list_all2 (admitted_from s) (m_array_ops s) (m_array_ops s')"
        using IH step unfolding from' by (auto intro: list_all2_trans [OF twice])
      have arb: "a = None \<and> (oldest_first (m_array_ops s) \<longrightarrow> oldest_first (m_array_ops ?s2))"
        if none: "m_data_access_arbiter s = None"
      proof -
        have "s1 = s" "first_index (\<lambda>op. \<not> admitted op) (m_array_ops s) = Some i"
          using arrayElect_oldest [OF e none] Some by auto
        moreover have "m_data_access_arbiter s1 = a" unfolding s1 by simp
        ultimately show ?thesis using none oldest_first_admit [of "m_array_ops s" i] by (auto simp: admit_op_def)
      qed
      show ?thesis using IH unat wait all arb unfolding frame by auto
    qed
  qed
qed

lemma arrayAdmit_length:
  assumes "arrayAdmit (s\<lparr>m_array_admitted_this_cycle := 0\<rparr>) = Inr s'"
  shows "length (m_array_ops s') = length (m_array_ops s)"
  using arrayAdmit_spec [OF assms] by (auto dest: list_all2_lengthD)

text \<open>
  The pipelined data array takes at most its number of ports of new accesses per cycle, every access it takes
  becomes ready after the latency and nothing else of it changes, none is lost or reordered; without an arbiter it
  takes them oldest first and does not leave a port idle while an access waits.
\<close>

lemma array_ports_are_respected:
  assumes "arrayAdmit (s\<lparr>m_array_admitted_this_cycle := 0\<rparr>) = Inr s'"
  shows "waiting_ops s \<le> waiting_ops s' + unat (m_data_array_ports (m_data_handler s)) \<and>
    list_all2 (admitted_from s) (m_array_ops s) (m_array_ops s') \<and>
    (m_data_access_arbiter s = None \<longrightarrow>
       waiting_ops s' = waiting_ops s - unat (m_data_array_ports (m_data_handler s)) \<and>
       (oldest_first (m_array_ops s) \<longrightarrow> oldest_first (m_array_ops s')))"
proof -
  let ?s0 = "s\<lparr>m_array_admitted_this_cycle := 0\<rparr>"
  note spec = arrayAdmit_spec [OF assms]
  have frame: "waiting_ops ?s0 = waiting_ops s" "admitted_from ?s0 = admitted_from s"
    by (simp_all add: waiting_ops_def admitted_from_def fun_eq_iff)
  have "unat (m_array_admitted_this_cycle s') \<le> unat (m_data_array_ports (m_data_handler s))"
    using spec by (simp add: word_le_nat_alt)
  then show ?thesis using spec unfolding frame by auto
qed

definition example_waiting :: controller where
  "example_waiting =
     (example_controller PlainController example_msi (example_array True))
       \<lparr>m_array_ops := [new_array_op ACTIONS (example_line_message 1 0) [],
                       new_array_op ACTIONS (example_line_message 2 64) [],
                       new_array_op ACTIONS (example_line_message 3 128) []]\<rparr>"

lemma array_ports_are_respected_witness:
  "\<exists>s'. arrayAdmit (example_waiting\<lparr>m_array_admitted_this_cycle := 0\<rparr>) = Inr s' \<and> waiting_ops s' = 1 \<and>
     oldest_first (m_array_ops s')"
proof -
  have "case arrayAdmit (example_waiting\<lparr>m_array_admitted_this_cycle := 0\<rparr>) of Inl e \<Rightarrow> False | Inr s' \<Rightarrow> True"
    by code_simp
  then obtain s' where s': "arrayAdmit (example_waiting\<lparr>m_array_admitted_this_cycle := 0\<rparr>) = Inr s'"
    by (rule case_InrE)
  have "waiting_ops example_waiting = 3" "m_data_access_arbiter example_waiting = None"
    "unat (m_data_array_ports (m_data_handler example_waiting)) = 2" by code_simp+
  moreover have "oldest_first (m_array_ops example_waiting)"
    by (auto simp: oldest_first_def example_waiting_def new_array_op_def nth_Cons split: nat.splits)
  ultimately show ?thesis using array_ports_are_respected [OF s'] s' by auto
qed

section \<open>Completion\<close>

text \<open>While an access of a pipelined array completes, its actions find the array granted.\<close>

definition fire_keeps :: "controller \<Rightarrow> controller \<Rightarrow> bool" where
  "fire_keeps s s' \<longleftrightarrow>
     (pipelinedArray s \<and> m_pipe_firing s \<longrightarrow>
        m_array_ops s' = m_array_ops s \<and> m_pipe_firing s' \<and>
        array_config (m_data_handler s') = array_config (m_data_handler s) \<and> m_cache_cycle s' = m_cache_cycle s)"

lemma fire_keeps_update:
  assumes "m_array_ops s' = m_array_ops s" "m_pipe_firing s' = m_pipe_firing s"
    "array_config (m_data_handler s') = array_config (m_data_handler s)" "m_cache_cycle s' = m_cache_cycle s"
  shows "fire_keeps s s'"
  using assms by (simp add: fire_keeps_def)

lemma granted_while_firing: "pipelinedArray s \<Longrightarrow> m_pipe_firing s \<Longrightarrow> array_granted m s"
  by (simp add: array_granted_def)

interpretation firing: full_frame fire_keeps
proof unfold_locales
  show "fire_keeps s s2" if "fire_keeps s s1" "fire_keeps s1 s2" for s s1 s2
    using that pipelinedArray_config [of s1 s] by (auto simp: fire_keeps_def)
  show "fire_keeps s s'" if "\<not> array_granted m s" for m cas s s'
    using that granted_while_firing by (auto simp: fire_keeps_def)
  show "fire_keeps s s'" if "stall m s = Inr s'" for m s s'
    using that by (intro fire_keeps_update) (auto simp: stall_def split: prod.splits if_splits)
qed (rule fire_keeps_update;
     simp add: Base_addtoPendingRequests_def saveReqForWriteBack_def set_directory_def)+

lemma pipelineFire_cases:
  assumes "pipelineFire op s = Inr s'"
  obtains (acts) s2 where "run_actions (op_actions op) (s\<lparr>m_pipe_firing := True\<rparr>) = Inr s2"
      "s' = end_firing (m_pipe_firing s) s2"
  | (msg) m p s2 where "process_message m (s\<lparr>m_pipe_firing := True, m_protocol := p\<rparr>) = Inr s2"
      "s' = end_firing (m_pipe_firing s) s2"
  | (requeued) m p where "s' = end_firing (m_pipe_firing s) (requeue m (s\<lparr>m_pipe_firing := True, m_protocol := p\<rparr>))"
  using assms
  by (cases "op_kind op") (auto simp: pipelineFire_def Let_def result_bind_Inr_iff split: if_splits)

lemma pipelineFire_keeps:
  assumes "pipelineFire op s = Inr s'" and "pipelinedArray s"
  shows "m_array_ops s' = m_array_ops s \<and> m_pipe_firing s' = m_pipe_firing s \<and>
    array_config (m_data_handler s') = array_config (m_data_handler s) \<and> m_cache_cycle s' = m_cache_cycle s"
proof -
  let ?s0 = "s\<lparr>m_pipe_firing := True\<rparr>"
  have p0: "pipelinedArray ?s0" using assms(2) by (simp add: pipelinedArray_def)
  have run: "fire_keeps ?s0 s2" if "run_actions cas ?s0 = Inr s2" for cas s2 using that by (rule firing.runs_keep)
  have proto: "fire_keeps ?s0 (?s0\<lparr>m_protocol := p\<rparr>)" for p by (rule fire_keeps_update) simp_all
  have proc: "fire_keeps ?s0 s2" if "process_message m (?s0\<lparr>m_protocol := p\<rparr>) = Inr s2" for m p s2
    by (rule firing.trans [OF proto firing.process_keeps [OF that]])
  have requeue: "fire_keeps ?s0 (requeue m (?s0\<lparr>m_protocol := p\<rparr>))" for m p
    by (rule fire_keeps_update) (simp_all add: requeue_def)
  have "\<exists>s2. fire_keeps ?s0 s2 \<and> s' = end_firing (m_pipe_firing s) s2"
    using assms(1) run proc requeue by (cases rule: pipelineFire_cases) blast+
  then show ?thesis using p0 by (auto simp: fire_keeps_def end_firing_def)
qed

text \<open>The loop of \<open>pipelineStep\<close> completes the accesses that are due, and only those.\<close>

lemma pipelineStep_loop_spec:
  assumes "pipelinedArray s" and "length (m_array_ops s) < n"
  shows "\<exists>r. pipelineStep_loop n s = Some r \<and>
    (\<forall>s'. r = Inr s' \<longrightarrow> m_array_ops s' = filter (\<lambda>op. \<not> op_due s op) (m_array_ops s) \<and>
       m_cache_cycle s' = m_cache_cycle s)"
  using assms
proof (induction n arbitrary: s)
  case 0
  then show ?case by simp
next
  case (Suc n)
  show ?case
  proof (cases "first_index (op_due s) (m_array_ops s)")
    case None
    then have "filter (\<lambda>op. \<not> op_due s op) (m_array_ops s) = m_array_ops s"
      by (simp add: first_index_None_iff)
    then show ?thesis using None by simp
  next
    case (Some i)
    let ?s1 = "s\<lparr>m_array_ops := erase_at i (m_array_ops s)\<rparr>"
    have i: "i < length (m_array_ops s)" "op_due s (m_array_ops s ! i)" using first_index_SomeD [OF Some] by auto
    have p1: "pipelinedArray ?s1" using Suc.prems(1) by (simp add: pipelinedArray_def)
    show ?thesis
    proof (cases "pipelineFire (m_array_ops s ! i) ?s1")
      case (Inl e)
      then show ?thesis using Some by simp
    next
      case (Inr s2)
      note k = pipelineFire_keeps [OF Inr p1]
      have "pipelinedArray s2" using k p1 pipelinedArray_config [of s2 ?s1] by simp
      moreover have "length (m_array_ops s2) < n" using k Suc.prems(2) i by (simp add: length_erase_at)
      ultimately obtain r where r: "pipelineStep_loop n s2 = Some r"
        "\<forall>s'. r = Inr s' \<longrightarrow> m_array_ops s' = filter (\<lambda>op. \<not> op_due s2 op) (m_array_ops s2) \<and>
           m_cache_cycle s' = m_cache_cycle s2"
        using Suc.IH by blast
      have "op_due s2 = op_due s" using k by (simp add: op_due_def fun_eq_iff)
      moreover have "filter (\<lambda>op. \<not> op_due s op) (m_array_ops s2) = filter (\<lambda>op. \<not> op_due s op) (m_array_ops s)"
        using k filter_erase_at [of i "m_array_ops s" "\<lambda>op. \<not> op_due s op"] i by simp
      ultimately show ?thesis using r k Some Inr by simp
    qed
  qed
qed

text \<open>
  The scheduler of the pipelined array ends every cycle: fuel for one more round than there are accesses is
  enough. When no error stops the simulation, what is left in the list are, in order, the accesses the admission of
  this cycle left there, less exactly those whose latency has elapsed.
\<close>

lemma pipelineStep_completes_due_accesses:
  assumes "pipelinedArray s" and "length (m_array_ops s) < n"
  shows "\<exists>r. pipelineStep n s = Some r \<and>
    (\<forall>s'. r = Inr s' \<longrightarrow> (\<exists>s1. arrayAdmit (s\<lparr>m_array_admitted_this_cycle := 0\<rparr>) = Inr s1 \<and>
       m_array_ops s' = filter (\<lambda>op. \<not> (admitted op \<and> ready_cycle op \<le> m_cache_cycle s)) (m_array_ops s1)))"
proof (cases "arrayAdmit (s\<lparr>m_array_admitted_this_cycle := 0\<rparr>)")
  case (Inl e)
  then show ?thesis by (simp add: pipelineStep_def)
next
  case (Inr s1)
  obtain a ops k where s1: "s1 = s\<lparr>m_array_admitted_this_cycle := 0, m_data_access_arbiter := a, m_array_ops := ops,
      m_array_admitted_this_cycle := k\<rparr>"
    using arrayAdmit_frame [OF Inr] by auto
  have "length ops = length (m_array_ops s)"
    using arrayAdmit_length [OF Inr] unfolding s1 by simp
  then have "length (m_array_ops s1) < n" "pipelinedArray s1"
    using assms unfolding s1 by (simp_all add: pipelinedArray_def)
  from pipelineStep_loop_spec [OF this(2,1)] obtain r where r: "pipelineStep_loop n s1 = Some r"
    "\<forall>s'. r = Inr s' \<longrightarrow> m_array_ops s' = filter (\<lambda>op. \<not> op_due s1 op) (m_array_ops s1)" by blast
  moreover have "op_due s1 op \<longleftrightarrow> admitted op \<and> ready_cycle op \<le> m_cache_cycle s" for op
    unfolding s1 by (simp add: op_due_def)
  ultimately show ?thesis using Inr by (simp add: pipelineStep_def)
qed

text \<open>A parked hit that has been through the array, beside an access that entered it later.\<close>

definition example_in_flight :: controller where
  "example_in_flight =
     (example_controller PlainController example_msi (example_array True))
       \<lparr>m_array_ops :=
          [(new_array_op ACTIONS (example_line_message 1 0) [action_on HIT_Action (example_line_message 1 0)])
             \<lparr>admitted := True, ready_cycle := 5\<rparr>,
           (new_array_op ACTIONS (example_line_message 2 64) [action_on HIT_Action (example_line_message 2 64)])
             \<lparr>admitted := True, ready_cycle := 7\<rparr>]\<rparr>"

lemma pipelineStep_completes_due_accesses_witness:
  "\<exists>s' s1. pipelineStep 3 example_in_flight = Some (Inr s') \<and>
     arrayAdmit (example_in_flight\<lparr>m_array_admitted_this_cycle := 0\<rparr>) = Inr s1 \<and>
     m_array_ops s' = filter (\<lambda>op. \<not> (admitted op \<and> ready_cycle op \<le> m_cache_cycle example_in_flight)) (m_array_ops s1) \<and>
     map (msg_id \<circ> op_msg) (m_array_ops s') = [2] \<and> map msg_id (tx_response (m_lower_interface s')) = [1]"
proof -
  have hyps: "pipelinedArray example_in_flight" "length (m_array_ops example_in_flight) < 3" by code_simp+
  have run: "case pipelineStep 3 example_in_flight of
      None \<Rightarrow> False
    | Some r \<Rightarrow> (case r of Inl e \<Rightarrow> False
        | Inr s' \<Rightarrow> map (msg_id \<circ> op_msg) (m_array_ops s') = [2] \<and>
                    map msg_id (tx_response (m_lower_interface s')) = [1])" by code_simp
  obtain r where r: "pipelineStep 3 example_in_flight = Some r"
    "\<forall>s'. r = Inr s' \<longrightarrow> (\<exists>s1. arrayAdmit (example_in_flight\<lparr>m_array_admitted_this_cycle := 0\<rparr>) = Inr s1 \<and>
       m_array_ops s' = filter (\<lambda>op. \<not> (admitted op \<and> ready_cycle op \<le> m_cache_cycle example_in_flight)) (m_array_ops s1))"
    using pipelineStep_completes_due_accesses [OF hyps] by blast
  obtain s' where s': "r = Inr s'" and out: "map (msg_id \<circ> op_msg) (m_array_ops s') = [2]"
    "map msg_id (tx_response (m_lower_interface s')) = [1]"
    using run unfolding r(1) option.case by (cases r) simp_all
  obtain s1 where s1: "arrayAdmit (example_in_flight\<lparr>m_array_admitted_this_cycle := 0\<rparr>) = Inr s1"
      "m_array_ops s' = filter (\<lambda>op. \<not> (admitted op \<and> ready_cycle op \<le> m_cache_cycle example_in_flight)) (m_array_ops s1)"
    using r(2) s' by (elim allE [of _ s'] impE exE conjE)
  show ?thesis by (intro exI [of _ s'] exI [of _ s1] conjI r(1) [unfolded s'] s1 out)
qed

text \<open>Before an evicted line's bytes can be released, every access on it completes.\<close>

lemma pipelineFlushLine_spec:
  assumes "pipelinedArray s" and "length (m_array_ops s) < n"
  shows "\<exists>r. pipelineFlushLine n key s = Some r \<and>
    (\<forall>s'. r = Inr s' \<longrightarrow>
       m_array_ops s' = filter (\<lambda>op. getAddressKey s (addr (op_msg op)) \<noteq> key) (m_array_ops s) \<and>
       array_config (m_data_handler s') = array_config (m_data_handler s))"
  using assms
proof (induction n arbitrary: s)
  case 0
  then show ?case by simp
next
  case (Suc n)
  let ?P = "\<lambda>op. getAddressKey s (addr (op_msg op)) = key"
  show ?case
  proof (cases "first_index ?P (m_array_ops s)")
    case None
    then have "filter (\<lambda>op. \<not> ?P op) (m_array_ops s) = m_array_ops s" by (simp add: first_index_None_iff)
    then show ?thesis using None by simp
  next
    case (Some i)
    let ?s1 = "s\<lparr>m_array_ops := erase_at i (m_array_ops s), m_pipe_early_fires := m_pipe_early_fires s + 1\<rparr>"
    have i: "i < length (m_array_ops s)" "?P (m_array_ops s ! i)" using first_index_SomeD [OF Some] by auto
    have p1: "pipelinedArray ?s1" using Suc.prems(1) by (simp add: pipelinedArray_def)
    show ?thesis
    proof (cases "pipelineFire (m_array_ops s ! i) ?s1")
      case (Inl e)
      then show ?thesis using Some by simp
    next
      case (Inr s2)
      note k = pipelineFire_keeps [OF Inr p1]
      have "pipelinedArray s2" using k p1 pipelinedArray_config [of s2 ?s1] by simp
      moreover have "length (m_array_ops s2) < n" using k Suc.prems(2) i by (simp add: length_erase_at)
      ultimately obtain r where r: "pipelineFlushLine n key s2 = Some r"
        "\<forall>s'. r = Inr s' \<longrightarrow>
           m_array_ops s' = filter (\<lambda>op. getAddressKey s2 (addr (op_msg op)) \<noteq> key) (m_array_ops s2) \<and>
           array_config (m_data_handler s') = array_config (m_data_handler s2)"
        using Suc.IH by blast
      have "getAddressKey s2 = getAddressKey s" using k getAddressKey_config [of s2 s] by simp
      moreover have "filter (\<lambda>op. \<not> ?P op) (m_array_ops s2) = filter (\<lambda>op. \<not> ?P op) (m_array_ops s)"
        using k filter_erase_at [of i "m_array_ops s" "\<lambda>op. \<not> ?P op"] i by simp
      ultimately show ?thesis using r k Some Inr by simp
    qed
  qed
qed

end
