(* ===== verification/ProcessingLoop.thy ===== *)
theory ProcessingLoop
  imports ArrayScheduling
begin

text \<open>
  The loop of \<open>BaseController::processLogic\<close>: that it ends, and that it leaves a message alone while an
  access on its line waits for the data array.
\<close>

section \<open>What the scan of the queue returns\<close>

text \<open>
  \<open>hot\<close>: exclusive data from the bus, which the event decoders of the exclusive protocols turn into plain data
  the first time they see it. \<open>k\<close> bounds how often a row of the table stalls. An element that is already marked
  ready weighs more, because running it may put it back as not ready, \<open>k\<close> times; so does a hot message, because
  the test that passes it and the run that follows may look at different rows.
\<close>

definition hot :: "message \<Rightarrow> bool" where
  "hot m \<longleftrightarrow> msg_source m = UPPER_INTERCONNECT \<and> msg_data m \<noteq> None \<and> complementary_value m = 2"

definition msg_cost :: "nat \<Rightarrow> message \<Rightarrow> nat" where
  "msg_cost k m = (if hot m then Suc k else 1)"

definition el_weight :: "nat \<Rightarrow> element \<Rightarrow> nat" where
  "el_weight k e = (if el_state e = Ready then k * Suc k else 0) + msg_cost k (item e)"

definition queue_weight :: "nat \<Rightarrow> frfcfs \<Rightarrow> nat" where
  "queue_weight k q = (\<Sum>e\<leftarrow>m_buffer q. el_weight k e)"

lemma msg_cost_bounds: "1 \<le> msg_cost k m" "msg_cost k m \<le> Suc k"
  by (simp_all add: msg_cost_def)

text \<open>The readiness test answers ready or not ready and makes no message hot.\<close>

definition settled_check :: "check_state \<Rightarrow> bool" where
  "settled_check check \<longleftrightarrow>
     (\<forall>m st m' st'. check m st = Inr (m', st') \<longrightarrow> (st' = Ready \<or> st' = NonReady) \<and> (hot m' \<longrightarrow> hot m))"

lemma scan_ready_origin:
  assumes "scan_ready check hold w older es = Inr (Some m, es')" and "settled_check check"
  obtains e where "e \<in> set es" "\<not> (case hold of None \<Rightarrow> False | Some h \<Rightarrow> h (item e))"
    "el_state e = Ready \<and> m = item e \<or> el_state e \<noteq> Ready \<and> check (item e) (el_state e) = Inr (m, Ready)"
    "(\<Sum>e\<leftarrow>es'. el_weight k e) + el_weight k e \<le> (\<Sum>e\<leftarrow>older @ es. el_weight k e)"
  using assms
proof (induction es arbitrary: older thesis)
  case Nil
  then show ?case by simp
next
  case (Cons e es)
  let ?held = "case hold of None \<Rightarrow> False | Some h \<Rightarrow> h (item e)"
  have skip: thesis
    if s: "scan_ready check hold w (older @ [e']) es = Inr (Some m, es')" and le: "el_weight k e' \<le> el_weight k e" for e'
  proof (rule Cons.IH [OF _ s Cons.prems(3)])
    fix x
    assume x: "x \<in> set es" "\<not> (case hold of None \<Rightarrow> False | Some h \<Rightarrow> h (item x))"
      "el_state x = Ready \<and> m = item x \<or> el_state x \<noteq> Ready \<and> check (item x) (el_state x) = Inr (m, Ready)"
      "(\<Sum>e\<leftarrow>es'. el_weight k e) + el_weight k x \<le> (\<Sum>e\<leftarrow>(older @ [e']) @ es. el_weight k e)"
    have "(\<Sum>e\<leftarrow>(older @ [e']) @ es. el_weight k e) \<le> (\<Sum>e\<leftarrow>older @ e # es. el_weight k e)" using le by simp
    with x show thesis by (intro Cons.prems(1) [of x]) auto
  qed
  consider (wait) "?held \<or> blocked_by_older w older (item e)"
    | (ready) "\<not> ?held" "\<not> blocked_by_older w older (item e)" "el_state e = Ready"
    | (ask) "\<not> ?held" "\<not> blocked_by_older w older (item e)" "el_state e \<noteq> Ready" by blast
  then show ?case
  proof cases
    case wait
    then have "scan_ready check hold w (older @ [e]) es = Inr (Some m, es')"
      using Cons.prems(2) by (auto split: if_splits)
    then show ?thesis by (rule skip) simp
  next
    case ready
    then have "m = item e" "es' = older @ es" using Cons.prems(2) by auto
    then show ?thesis using ready by (intro Cons.prems(1) [of e]) auto
  next
    case ask
    then obtain m' st where c: "check (item e) (el_state e) = Inr (m', st)"
      using Cons.prems(2) by (auto simp: result_bind_Inr_iff split: if_splits)
    then have st: "st = Ready \<or> st = NonReady" and h: "hot m' \<Longrightarrow> hot (item e)"
      using Cons.prems(3) by (auto simp: settled_check_def)
    show ?thesis
    proof (cases "st = Ready")
      case True
      then have "m = m'" "es' = older @ es" using Cons.prems(2) ask c by auto
      then show ?thesis using ask c True by (intro Cons.prems(1) [of e]) auto
    next
      case False
      then have "scan_ready check hold w (older @ [\<lparr>item = m', el_state = NonReady\<rparr>]) es = Inr (Some m, es')"
        using Cons.prems(2) ask c st by auto
      then show ?thesis by (rule skip) (use h ask in \<open>auto simp: el_weight_def msg_cost_def\<close>)
    qed
  qed
qed

lemma getFirstReady_origin:
  assumes "getFirstReady check hold q = Inr (q', Some m)" and "settled_check check"
  obtains e where "e \<in> set (m_buffer q)" "\<not> (case hold of None \<Rightarrow> False | Some h \<Rightarrow> h (item e))"
    "el_state e = Ready \<and> m = item e \<or> el_state e \<noteq> Ready \<and> check (item e) (el_state e) = Inr (m, Ready)"
    "queue_weight k q' + el_weight k e \<le> queue_weight k q"
proof -
  obtain es' where s: "scan_ready check hold (m_line_mask q) [] (m_buffer q) = Inr (Some m, es')"
    and q': "q' = q\<lparr>m_buffer := es'\<rparr>"
    using assms(1)
    by (auto simp: getFirstReady_def result_bind_Inr_iff split: if_splits option.splits)
  show ?thesis
    by (rule scan_ready_origin [OF s assms(2), where k = k]) (use q' that in \<open>auto simp: queue_weight_def\<close>)
qed

text \<open>The protocols answer ready or not ready, and keep the address of the message.\<close>

lemma readEvent_addr:
  assumes "readEvent p msg line = Inr (msg', ev)"
  shows "addr msg' = addr msg"
  using assms
  by (auto simp: MESI_readEvent_def PMSIAsterisk_readEvent_def PMESIAsterisk_readEvent_def result_bind_Inr_iff
      split: protocol_kind.splits if_splits)

lemma coh_getRequestState_facts:
  assumes "coh_getRequestState p c d m = Inr (p', m', st)"
  shows "addr m' = addr m" "st = Ready \<or> st = NonReady"
  using assms readEvent_addr
  by (auto simp: coh_getRequestState_def getRequestState_def directory_getRequestState_def stall_check_def
      result_bind_Inr_iff split: coherence.splits if_splits simp del: readEvent.simps)

lemma MSI_OwnData: "MSI_readEvent p m = Inr OwnData \<Longrightarrow> msg_source m = UPPER_INTERCONNECT \<and> msg_data m \<noteq> None"
  by (auto simp: MSI_readEvent_def Let_def split: message_source.splits if_splits)

lemma readEvent_hot:
  assumes "readEvent p msg line = Inr (msg', ev)"
  shows "msg' = msg \<or> hot msg \<and> \<not> hot msg' \<and> \<not> is_llc (p_kind p)"
  using assms
  by (auto simp: hot_def is_llc_def MESI_readEvent_def PMSIAsterisk_readEvent_def PMESIAsterisk_readEvent_def
      result_bind_Inr_iff split: protocol_kind.splits if_splits dest: MSI_OwnData)

lemma coh_getRequestState_hot:
  assumes "coh_getRequestState p c d m = Inr (p', m', st)"
  shows "m' = m \<or> hot m \<and> \<not> hot m'"
  using assms
  by (auto simp: coh_getRequestState_def getRequestState_def result_bind_Inr_iff
      split: coherence.splits if_splits simp del: readEvent.simps dest: readEvent_hot)

lemma check_request_settled: "settled_check (check_request s)"
  by (auto simp: settled_check_def check_request_def result_bind_Inr_iff
      dest: coh_getRequestState_facts(2) coh_getRequestState_hot)

lemma pop_ready_origin:
  assumes "pop_ready s = Inr (s', Some m)"
  obtains e :: element and q where "s' = s\<lparr>m_processing_queue := q\<rparr>" "addr m = addr (item e)" "\<not> line_hold s (item e)"
    "el_state e = Ready \<and> m = item e \<or> el_state e \<noteq> Ready \<and> check_request s (item e) (el_state e) = Inr (m, Ready)"
    "queue_weight k q + el_weight k e \<le> queue_weight k (m_processing_queue s)"
proof -
  obtain q where g: "getFirstReady (check_request s) (Some (line_hold s)) (m_processing_queue s) = Inr (q, Some m)"
    and s': "s' = s\<lparr>m_processing_queue := q\<rparr>"
    using assms by (auto simp: pop_ready_def result_bind_Inr_iff)
  obtain e where h: "\<not> (case Some (line_hold s) of None \<Rightarrow> False | Some h \<Rightarrow> h (item e))"
    and e: "el_state e = Ready \<and> m = item e \<or> el_state e \<noteq> Ready \<and> check_request s (item e) (el_state e) = Inr (m, Ready)"
    and w: "queue_weight k q + el_weight k e \<le> queue_weight k (m_processing_queue s)"
    by (rule getFirstReady_origin [OF g check_request_settled, where k = k]) blast
  have n: "\<not> line_hold s (item e)" using h by simp
  have a: "addr m = addr (item e)"
    using e by (auto simp: check_request_def result_bind_Inr_iff dest: coh_getRequestState_facts(1))
  show ?thesis by (rule that [OF s' a n e w])
qed

text \<open>
  C38. Address interlock: with it on, the message a controller takes off its queue never belongs to a line that has a
  data-array access waiting or in flight, so same-line traffic runs against the state the older access leaves.
\<close>

theorem deferred_line_is_held:
  assumes "m_line_interlock s" and "pop_ready s = Inr (s', Some m)"
  shows "\<not> lineHasDeferredOp s' (addr m)"
proof (rule pop_ready_origin [OF assms(2)])
  fix e :: element and q
  assume "s' = s\<lparr>m_processing_queue := q\<rparr>" "addr m = addr (item e)" "\<not> line_hold s (item e)"
  then show ?thesis using assms(1) by (auto simp: line_hold_def lineHasDeferredOp_def getAddressKey_def)
qed

definition example_held :: controller where
  "example_held =
     example_in_flight\<lparr>m_processing_queue :=
       (new_FRFCFS 8 (NOT 63) True)
         \<lparr>m_buffer := [new_element (new_message 4 8 0 0 0) NonReady, new_element (new_message 5 192 0 0 0) NonReady]\<rparr>\<rparr>"

text \<open>The load of address 8 waits for the access to line 0; the one of address 192 is taken.\<close>

theorem deferred_line_is_held_witness:
  "\<exists>s' m. pop_ready example_held = Inr (s', Some m) \<and> msg_id m = 5 \<and> \<not> lineHasDeferredOp s' (addr m) \<and>
     lineHasDeferredOp example_held 8"
proof -
  have run: "case pop_ready example_held of
      Inl e \<Rightarrow> False | Inr x \<Rightarrow> (case snd x of None \<Rightarrow> False | Some m \<Rightarrow> msg_id m = 5)" by code_simp
  obtain x where x: "pop_ready example_held = Inr x"
    "case snd x of None \<Rightarrow> False | Some m \<Rightarrow> msg_id m = 5"
    using run by (rule case_InrE)
  obtain m where m: "snd x = Some m" "msg_id m = 5" using x(2) by (auto split: option.splits)
  obtain s' where pop: "pop_ready example_held = Inr (s', Some m)" using x(1) m(1) by (cases x) simp
  have "m_line_interlock example_held" "lineHasDeferredOp example_held 8" by code_simp+
  then show ?thesis using deferred_line_is_held [OF _ pop] pop m by blast
qed

section \<open>Termination\<close>

text \<open>
  The one assumption on a table: the action it calls \<open>Stall\<close>, which is the one the readiness test looks for,
  has the number 0 that the protocol's switch takes for a stall (or no number, which the look-up makes 0). Every
  table of src/Protocols_FSM has it (\<open>0,Stall\<close>). With another number the test passes messages that then
  stall, and the loop takes them again and again. Nothing is assumed of a shared cache's table: the shared caches
  emit no stall.
\<close>

definition stall_is_zero :: "fsm_reader \<Rightarrow> bool" where
  "stall_is_zero r \<longleftrightarrow> (case map_of (m_actionIds r) ''Stall'' of None \<Rightarrow> True | Some i \<Rightarrow> i = 0)"

definition stalls_when_told :: "coherence \<Rightarrow> bool" where
  "stalls_when_told p =
     (case p of
        Snooping sp \<Rightarrow> is_llc (p_kind sp) \<or> stall_is_zero (m_fsm sp)
      | Directory dp \<Rightarrow> is_home (d_kind dp) \<or> stall_is_zero (d_fsm dp))"

text \<open>With a bound \<open>k\<close> on the stalls of a row, which every table has.\<close>

definition stall_table :: "nat \<Rightarrow> fsm_reader \<Rightarrow> bool" where
  "stall_table k r \<longleftrightarrow> stall_is_zero r \<and>
     list_all (\<lambda>st. list_all (\<lambda>(e, as). count_list as 0 \<le> k) (fsm_actions st)) (m_states r)"

definition stall_sane :: "nat \<Rightarrow> coherence \<Rightarrow> bool" where
  "stall_sane k p =
     (case p of
        Snooping sp \<Rightarrow> is_llc (p_kind sp) \<or> stall_table k (m_fsm sp)
      | Directory dp \<Rightarrow> is_home (d_kind dp) \<or> stall_table k (d_fsm dp))"

lemma stall_table_bound: "stall_is_zero r \<Longrightarrow> \<exists>k. stall_table k r"
proof -
  define ns where "ns = concat (map (\<lambda>st. map (\<lambda>(e, as). count_list as 0) (fsm_actions st)) (m_states r))"
  have "n \<le> sum_list ns" if "n \<in> set ns" for n
    using that by (simp add: member_le_sum_list)
  then have "list_all (\<lambda>st. list_all (\<lambda>(e, as). count_list as 0 \<le> sum_list ns) (fsm_actions st)) (m_states r)"
    unfolding ns_def list_all_iff by force
  then show "stall_is_zero r \<Longrightarrow> ?thesis" by (auto simp: stall_table_def)
qed

lemma stall_sane_bound: "stalls_when_told p \<Longrightarrow> \<exists>k. stall_sane k p"
  using stall_table_bound
  by (fastforce simp: stalls_when_told_def stall_sane_def split: coherence.splits)

text \<open>What the stalls of an action list put back, in the queue's measure.\<close>

definition stall_cost :: "nat \<Rightarrow> controller_action \<Rightarrow> nat" where
  "stall_cost k a = (if ca_type a = STALL then case ca_msg a of None \<Rightarrow> 0 | Some m \<Rightarrow> msg_cost k m else 0)"

definition stalls :: "nat \<Rightarrow> controller_action list \<Rightarrow> nat" where
  "stalls k cas = (\<Sum>a\<leftarrow>cas. stall_cost k a)"

lemma stalls_simps [simp]:
  "stalls k [] = 0" "stalls k (a # as) = stall_cost k a + stalls k as"
  "stalls k (as @ bs) = stalls k as + stalls k bs"
  by (simp_all add: stalls_def)

lemma stall_cost_simps [simp]:
  "stall_cost k (action_on t m) = (if t = STALL then msg_cost k m else 0)" "stall_cost k no_action = 0"
  "t \<noteq> STALL \<Longrightarrow> stall_cost k \<lparr>ca_type = t, ca_msg = x, ca_line = l\<rparr> = 0"
  by (simp_all add: stall_cost_def action_on_def no_action_def)

lemma ca_type_simps [simp]:
  "ca_type (action_on t m) = t" "ca_type no_action = NO_ACTION"
  by (simp_all add: action_on_def no_action_def)

lemma MSI_step_stalls:
  assumes "MSI_action_step p msg a acc = Inr acc'"
  shows "stalls k acc' = stalls k acc + (if a = 0 then msg_cost k msg else 0)"
proof -
  have "a \<in> {0, 1, 2, 3, 4, 5, 6, 7, 8}"
    using assms by (auto simp: MSI_action_step_def msi_action_of_def split: if_splits)
  then show ?thesis
    using assms by (auto simp: MSI_action_step_def msi_action_of_def split: if_splits)
qed

lemma MSI_loop_stalls:
  "MSI_action_loop p msg as acc = Inr acc' \<Longrightarrow> stalls k acc' = stalls k acc + msg_cost k msg * count_list as 0"
  by (induction as arbitrary: acc) (auto simp: result_bind_Inr_iff dest!: MSI_step_stalls)

lemma MSI_handleAction_stalls:
  assumes "MSI_handleAction p as msg line n = Inr cas"
  shows "stalls k cas = msg_cost k msg * count_list as 0"
proof -
  have "\<exists>u. stalls k u = 0 \<and> MSI_action_loop p msg as u = Inr cas"
  proof (cases "as \<noteq> [] \<and> as ! 0 = 0")
    case True
    then show ?thesis using assms by (intro exI [of _ "[]"]) (simp add: MSI_handleAction_def)
  next
    case False
    then obtain u where u: "update_line_action p msg line n = Inr u" "MSI_action_loop p msg as [u] = Inr cas"
      using assms by (auto simp: MSI_handleAction_def result_bind_Inr_iff)
    then show ?thesis by (intro exI [of _ "[u]"]) (auto simp: update_line_action_def result_bind_Inr_iff)
  qed
  then show ?thesis using MSI_loop_stalls by fastforce
qed

lemma PMSI_handleAction_stalls:
  assumes "PMSI_handleAction p as msg line n = Inr cas"
  shows "stalls k cas = msg_cost k msg * count_list as 0"
proof -
  obtain u where "MSI_handleAction p (remove1 9 as) msg line n = Inr u"
    "cas = (if 9 \<in> set as then u @ [action_on SEND_BUS_MSG (bus_message p msg 9 K_UNKNOWN)] else u)"
    using assms by (auto simp: PMSI_handleAction_def result_bind_Inr_iff)
  moreover have "count_list (remove1 9 as) 0 = count_list as 0" by (induction as) auto
  ultimately show ?thesis using MSI_handleAction_stalls by fastforce
qed

lemma MESI_handleAction_stalls:
  assumes "MESI_handleAction p as msg line n = Inr cas"
  shows "stalls k cas = msg_cost k msg * count_list as 0"
proof -
  obtain u where "MSI_handleAction p (remove1 9 as) msg line n = Inr u"
    "cas = (if 9 \<in> set as then u @ [action_on REMOVE_SAVED_REQ msg] else u)"
    using assms by (auto simp: MESI_handleAction_def result_bind_Inr_iff)
  moreover have "count_list (remove1 9 as) 0 = count_list as 0" by (induction as) auto
  ultimately show ?thesis using MSI_handleAction_stalls [of p "remove1 9 as"] by fastforce
qed

lemma PMESI_handleAction_stalls:
  "PMESI_handleAction p as msg line n = Inr cas \<Longrightarrow> stalls k cas = msg_cost k msg * count_list as 0"
  using PMSI_handleAction_stalls by (simp add: PMESI_handleAction_def PMSI_handleAction_def)

lemma LLCMSI_step_stalls:
  assumes "LLCMSI_action_step p msg a s = Inr s'"
  shows "stalls k (snd s') = stalls k (snd s)"
  using assms
  by (auto simp: LLCMSI_action_step_def Let_def result_bind_Inr_iff split: prod.splits option.splits llc_action.splits)

lemma LLCMSI_loop_stalls: "LLCMSI_action_loop p msg as s = Inr s' \<Longrightarrow> stalls k (snd s') = stalls k (snd s)"
  by (induction as arbitrary: s) (auto simp: result_bind_Inr_iff dest!: LLCMSI_step_stalls)

lemma LLCMSI_handleAction_stalls: "LLCMSI_handleAction p as msg line n = Inr cas \<Longrightarrow> stalls k cas = 0"
  by (auto simp: LLCMSI_handleAction_def update_line_action_def result_bind_Inr_iff dest!: LLCMSI_loop_stalls)

lemma LLC_handleAction_stalls:
  assumes "is_llc (p_kind p)" and "handleAction p as msg line n = Inr cas"
  shows "stalls k cas = 0"
  using assms
  by (auto simp: is_llc_def LLCMESI_handleAction_def LLCPMSI_handleAction_def LLCPMESI_handleAction_def
      exclusive_data_def result_bind_Inr_iff split: if_splits dest!: LLCMSI_handleAction_stalls)

lemma MSIDirectory_step_stalls:
  assumes "MSIDirectory_action_step p c d msg a acc = Inr acc'"
  shows "stalls k acc' = stalls k acc + (if a = 0 then msg_cost k msg else 0)"
proof -
  have "0 \<le> a \<and> a < 14"
    using assms by (auto simp: MSIDirectory_action_step_def directory_action_of_def split: if_splits)
  then have "a \<in> {0, 1, 2, 3, 4, 5, 6, 7, 8, 9, 10, 11, 12, 13}" by (simp, presburger)
  then show ?thesis
    using assms by (auto simp: MSIDirectory_action_step_def directory_action_of_def directory_hit_def)
qed

lemma MSIDirectory_loop_stalls:
  "MSIDirectory_action_loop p c d msg as acc = Inr acc' \<Longrightarrow> stalls k acc' = stalls k acc + msg_cost k msg * count_list as 0"
  by (induction as arbitrary: acc) (auto simp: result_bind_Inr_iff dest!: MSIDirectory_step_stalls)


lemma count_list_filter: "P x \<Longrightarrow> count_list (filter P as) x = count_list as x"
  by (induction as) auto

lemma count_list_remove1: "y \<noteq> x \<Longrightarrow> count_list (remove1 y as) x = count_list as x"
  by (induction as) auto

lemma MSIDirectory_handleAction_stalls:
  assumes "MSIDirectory_handleAction p c d as msg line n = Inr cas"
  shows "stalls k cas = msg_cost k msg * count_list as 0"
proof -
  have "\<exists>u. stalls k u = 0 \<and> MSIDirectory_action_loop p c d msg as u = Inr cas"
  proof (cases "as \<noteq> [] \<and> as ! 0 = 0")
    case True
    then show ?thesis using assms by (intro exI [of _ "[]"]) (simp add: MSIDirectory_handleAction_def)
  next
    case False
    then obtain u where u: "directory_line_action p msg line n = Inr u" "MSIDirectory_action_loop p c d msg as [u] = Inr cas"
      using assms by (auto simp: MSIDirectory_handleAction_def result_bind_Inr_iff)
    then show ?thesis by (intro exI [of _ "[u]"]) (auto simp: directory_line_action_def result_bind_Inr_iff)
  qed
  then show ?thesis using MSIDirectory_loop_stalls by fastforce
qed

lemma MESIDirectory_handleAction_stalls:
  assumes "MESIDirectory_handleAction p c d as msg line n = Inr cas"
  shows "stalls k cas = msg_cost k msg * count_list as 0"
  using assms
  by (auto simp: MESIDirectory_handleAction_def result_bind_Inr_iff count_list_remove1
      dest!: MSIDirectory_handleAction_stalls)

lemma MOESIDirectory_handleAction_stalls:
  assumes "MOESIDirectory_handleAction p c d as msg line n = Inr cas"
  shows "stalls k cas = msg_cost k msg * count_list as 0"
  using assms
  by (auto simp: MOESIDirectory_handleAction_def Let_def result_bind_Inr_iff count_list_filter
      dest!: MESIDirectory_handleAction_stalls)

lemma home_step_stalls:
  assumes "LLCMSIDirectory_action_step p c d msg own a s = Inr s'"
  shows "stalls k (snd s') = stalls k (snd s)"
  using assms
  by (auto simp: LLCMSIDirectory_action_step_def response_action_def
      split: prod.splits option.splits home_action.splits)

lemma home_loop_stalls:
  "LLCMSIDirectory_action_loop p c d msg own as s = Inr s' \<Longrightarrow> stalls k (snd s') = stalls k (snd s)"
  by (induction as arbitrary: s) (auto simp: result_bind_Inr_iff dest!: home_step_stalls)

lemma LLCMSIDirectory_handleAction_stalls: "LLCMSIDirectory_handleAction p c d as msg line n = Inr cas \<Longrightarrow> stalls k cas = 0"
  by (auto simp: LLCMSIDirectory_handleAction_def directory_line_action_def result_bind_Inr_iff dest!: home_loop_stalls)

lemma LLCMESIDirectory_handleAction_stalls: "LLCMESIDirectory_handleAction p c d as msg line n = Inr cas \<Longrightarrow> stalls k cas = 0"
  by (auto simp: LLCMESIDirectory_handleAction_def response_action_def result_bind_Inr_iff
      dest!: LLCMSIDirectory_handleAction_stalls)

lemma with_sharers_stalls: "with_sharers flag ss f cas = Inr cas' \<Longrightarrow> stalls k cas' = stalls k cas"
  by (auto simp: with_sharers_def split: if_splits option.splits)

lemma LLCMOESIDirectory_handleAction_stalls: "LLCMOESIDirectory_handleAction p c d as msg line n = Inr cas \<Longrightarrow> stalls k cas = 0"
  by (auto simp: LLCMOESIDirectory_handleAction_def Let_def result_bind_Inr_iff
      dest!: LLCMESIDirectory_handleAction_stalls [where k = k] with_sharers_stalls [where k = k])

text \<open>A row of a table never stalls more than \<open>k\<close> times, and not at all when the readiness test passes.\<close>

lemma stall_table_row:
  assumes "stall_table k r" and "getTransition r st ev = Inr (n, as)"
  shows "count_list as 0 \<le> k" and "isStall st ev r = Inr (r', False) \<Longrightarrow> count_list as 0 = 0"
proof -
  obtain row where row: "state_row r st = Inr row" and as: "as = getActions row ev"
    using assms(2) by (auto simp: getTransition_def result_bind_Inr_iff)
  have "row \<in> set (m_states r)" using row by (auto simp: state_row_def split: if_splits)
  then have "list_all (\<lambda>(e, as). count_list as 0 \<le> k) (fsm_actions row)"
    using assms(1) by (auto simp: stall_table_def list_all_iff)
  then show "count_list as 0 \<le> k"
    by (auto simp: as getActions_def list_all_iff dest: map_of_SomeD split: option.splits)
  assume "isStall st ev r = Inr (r', False)"
  then have "0 \<notin> set as"
    using assms(1) row
    by (auto simp: isStall_def as stall_table_def stall_is_zero_def ids_index_def split: option.splits)
  then show "count_list as 0 = 0" by (simp add: count_list_0_iff)
qed

lemma snoop_stalls:
  assumes "stall_sane k (Snooping sp)" and "processRequest sp c m = Inr (m', cas)"
  shows "stalls k cas \<le> k * msg_cost k m"
    and "getRequestState sp c m0 = Inr (sp', m, Ready) \<Longrightarrow> stalls k cas < msg_cost k m0"
proof -
  obtain line b ev n as where line: "readLineBits (addr m) new_line c = Inr (line, b)"
    and ev: "readEvent sp m line = Inr (m', ev)" and tr: "getTransition (m_fsm sp) (line_state line) ev = Inr (n, as)"
    and ha: "handleAction sp as m' line n = Inr cas"
    using assms(2) by (auto simp: processRequest_def result_bind_Inr_iff simp del: readEvent.simps handleAction.simps)
  have le: "msg_cost k m' \<le> msg_cost k m" using readEvent_hot [OF ev] by (auto simp: msg_cost_def)
  have count: "stalls k cas = msg_cost k m' * count_list as 0" if "\<not> is_llc (p_kind sp)"
    using ha that MSI_handleAction_stalls MESI_handleAction_stalls PMSI_handleAction_stalls
      PMESI_handleAction_stalls
    by (auto simp: is_llc_def split: protocol_kind.splits)
  have none: "stalls k cas = 0" if "is_llc (p_kind sp)" using LLC_handleAction_stalls [OF that ha] .
  have core_row: "stalls k cas = msg_cost k m' * count_list as 0" "stall_table k (m_fsm sp)" "count_list as 0 \<le> k"
    if "\<not> is_llc (p_kind sp)"
    using assms(1) that count stall_table_row(1) [OF _ tr] by (auto simp: stall_sane_def)
  show few: "stalls k cas \<le> k * msg_cost k m"
  proof (cases "is_llc (p_kind sp)")
    case False
    then show ?thesis using core_row le by (simp add: mult.commute mult_le_mono)
  qed (simp add: none)
  assume st: "getRequestState sp c m0 = Inr (sp', m, Ready)"
  show "stalls k cas < msg_cost k m0"
  proof (cases "is_llc (p_kind sp)")
    case True
    then show ?thesis using none by (simp add: msg_cost_def)
  next
    case False
    obtain line0 b0 ev0 r where at0: "readLineBits (addr m0) new_line c = Inr (line0, b0)"
      "readEvent sp m0 line0 = Inr (m, ev0)" "isStall (line_state line0) ev0 (m_fsm sp) = Inr (r, False)"
      using st False
      by (auto simp: getRequestState_def stall_check_def result_bind_Inr_iff simp del: readEvent.simps split: if_splits)
    consider (same) "m = m0" | (cooled) "hot m0" "\<not> hot m" using readEvent_hot [OF at0(2)] by blast
    then show ?thesis
    proof cases
      case same
      then have "isStall (line_state line) ev (m_fsm sp) = Inr (r, False)"
        using line ev at0 by (simp del: readEvent.simps)
      then show ?thesis using core_row [OF False] stall_table_row(2) [OF _ tr] by (simp add: msg_cost_def)
    next
      case cooled
      then show ?thesis using few by (simp add: msg_cost_def)
    qed
  qed
qed

lemma directory_stalls:
  assumes "stall_sane k (Directory dp)" and "directory_processRequest dp c d m = Inr cas"
  shows "stalls k cas \<le> k * msg_cost k m"
    and "directory_getRequestState dp c d m = Inr (dp', Ready) \<Longrightarrow> stalls k cas = 0"
proof -
  obtain line b ev n as where line: "readLineBits (addr m) new_line c = Inr (line, b)"
    and ev: "directory_readEvent dp c d m line = Inr ev"
    and tr: "getTransition (d_fsm dp) (line_state line) ev = Inr (n, as)"
    and ha: "directory_handleAction dp c d as m line n = Inr cas"
    using assms(2) by (auto simp: directory_processRequest_def result_bind_Inr_iff)
  have home: "stalls k cas = 0" if "is_home (d_kind dp)"
    using ha that LLCMSIDirectory_handleAction_stalls LLCMESIDirectory_handleAction_stalls
      LLCMOESIDirectory_handleAction_stalls
    by (auto simp: directory_handleAction_def is_home_def)
  have count: "stalls k cas = msg_cost k m * count_list as 0" if "\<not> is_home (d_kind dp)"
    using ha that MSIDirectory_handleAction_stalls MESIDirectory_handleAction_stalls
      MOESIDirectory_handleAction_stalls
    by (auto simp: directory_handleAction_def is_home_def split: directory_kind.splits)
  have core_row: "stall_table k (d_fsm dp)" "count_list as 0 \<le> k" if "\<not> is_home (d_kind dp)"
    using assms(1) that stall_table_row(1) [OF _ tr] by (auto simp: stall_sane_def)
  show "stalls k cas \<le> k * msg_cost k m"
  proof (cases "is_home (d_kind dp)")
    case False
    then show ?thesis using count core_row by (simp add: mult.commute mult_le_mono)
  qed (simp add: home)
  assume st: "directory_getRequestState dp c d m = Inr (dp', Ready)"
  show "stalls k cas = 0"
  proof (cases "is_home (d_kind dp)")
    case True
    then show ?thesis by (rule home)
  next
    case False
    obtain r where "isStall (line_state line) ev (d_fsm dp) = Inr (r, False)"
      using st False line ev by (auto simp: directory_getRequestState_def result_bind_Inr_iff split: if_splits)
    then show ?thesis using count [OF False] stall_table_row(2) [OF core_row(1) [OF False] tr] by simp
  qed
qed

lemma coh_stalls:
  assumes "stall_sane k p" and "coh_processRequest p c d m = Inr cas"
  shows "stalls k cas \<le> k * msg_cost k m"
    and "coh_getRequestState p c d m0 = Inr (p', m, Ready) \<Longrightarrow> stalls k cas < msg_cost k m0"
proof -
  show "stalls k cas \<le> k * msg_cost k m"
    using assms snoop_stalls(1) directory_stalls(1)
    by (cases p) (auto simp: coh_processRequest_def result_bind_Inr_iff)
  have pos: "0 < msg_cost k m0" by (simp add: msg_cost_def)
  assume "coh_getRequestState p c d m0 = Inr (p', m, Ready)"
  then show "stalls k cas < msg_cost k m0"
    using assms pos snoop_stalls(2) directory_stalls(2)
    by (cases p) (auto simp: coh_processRequest_def coh_getRequestState_def result_bind_Inr_iff)
qed

text \<open>Only a stall changes the queue.\<close>

definition queue_keeps :: "controller \<Rightarrow> controller \<Rightarrow> bool" where
  "queue_keeps s s' \<longleftrightarrow>
     m_processing_queue s' = m_processing_queue s \<and> (\<forall>k. stall_sane k (m_protocol s) \<longrightarrow> stall_sane k (m_protocol s'))"

lemma readable_sane:
  assumes "coh_isReadableState p st = Inr (p', b)"
  shows "stall_sane k p' = stall_sane k p"
proof (cases p)
  case (Directory dp)
  then show ?thesis using assms by (simp add: coh_isReadableState_def)
next
  case (Snooping sp)
  obtain sp' where sp': "isReadableState sp st = Inr (sp', b)" and p': "p' = Snooping sp'"
    using assms Snooping by (auto simp: coh_isReadableState_def result_bind_Inr_iff)
  have "stall_table k (m_fsm sp') = stall_table k (m_fsm sp) \<and> p_kind sp' = p_kind sp"
    using sp'
    by (auto simp: isReadableState_def isHit_def ids_index_def stall_table_def stall_is_zero_def update_conv'
        result_bind_Inr_iff split: if_splits option.splits)
  then show ?thesis using Snooping p' by (simp add: stall_sane_def)
qed

interpretation queue_frame: action_frame queue_keeps
proof unfold_locales
  show "queue_keeps s s'" if "arrayEnqueue (new_array_op ACTIONS m cas) s = Inr s'" for m cas s s'
    using arrayEnqueue_frame [OF that] by (auto simp: queue_keeps_def)
  show "queue_keeps s (s\<lparr>m_protocol := p\<rparr>)" if "coh_isReadableState (m_protocol s) st = Inr (p, b)" for s st p b
    using readable_sane [OF that] by (simp add: queue_keeps_def)
qed (auto simp: queue_keeps_def Base_addtoPendingRequests_def saveReqForWriteBack_def set_directory_def)

lemma pushBack_weight:
  assumes "pushBack m NonReady force q = (q', ok)"
  shows "queue_weight k q' \<le> queue_weight k q + msg_cost k m"
  using assms
  by (auto simp: pushBack_def queue_weight_def el_weight_def new_element_def msg_cost_def hot_def split: if_splits)

lemma run_actions_weight:
  assumes "run_actions cas s = Inr s'"
  shows "queue_weight k (m_processing_queue s') \<le> queue_weight k (m_processing_queue s) + stalls k cas \<and>
    (stall_sane k (m_protocol s) \<longrightarrow> stall_sane k (m_protocol s'))"
  using assms
proof (induction cas arbitrary: s)
  case Nil
  then show ?case by simp
next
  case (Cons a as)
  then obtain s1 where s1: "run_action a s = Inr s1" "run_actions as s1 = Inr s'" by (auto simp: result_bind_Inr_iff)
  have "queue_weight k (m_processing_queue s1) \<le> queue_weight k (m_processing_queue s) + stall_cost k a \<and>
      (stall_sane k (m_protocol s) \<longrightarrow> stall_sane k (m_protocol s1))"
  proof (cases "ca_type a = STALL")
    case True
    then obtain m q where "pushBack m NonReady False (m_processing_queue s) = (q, True)" "ca_msg a = Some m"
      "s1 = s\<lparr>m_processing_queue := q\<rparr>"
      using s1(1) by (auto simp: run_action_def message_action_def stall_def split: option.splits prod.splits if_splits)
    then show ?thesis using True pushBack_weight [of m False] by (fastforce simp: stall_cost_def)
  next
    case False
    then show ?thesis using queue_frame.run_action_keeps [OF s1(1)] by (simp add: queue_keeps_def)
  qed
  then show ?case using Cons.IH [OF s1(2)] by auto
qed

lemma process_message_weight:
  assumes "process_message m s = Inr s'" and "stall_sane k (m_protocol s)"
  shows "queue_weight k (m_processing_queue s') \<le> queue_weight k (m_processing_queue s) + k * msg_cost k m \<and>
      stall_sane k (m_protocol s')"
    and "coh_getRequestState (m_protocol s) (m_data_handler s) (m_directory s) m0 = Inr (p', m, Ready) \<Longrightarrow>
      queue_weight k (m_processing_queue s') < queue_weight k (m_processing_queue s) + msg_cost k m0"
proof -
  obtain cas where cas: "coh_processRequest (m_protocol s) (m_data_handler s) (m_directory s) m = Inr cas"
    and run: "run_actions cas s = Inr s'"
    using assms(1) by (auto simp: process_message_def result_bind_Inr_iff)
  note w = run_actions_weight [OF run, of k]
  show "queue_weight k (m_processing_queue s') \<le> queue_weight k (m_processing_queue s) + k * msg_cost k m \<and>
      stall_sane k (m_protocol s')"
    using w coh_stalls(1) [OF assms(2) cas] assms(2) by auto
  assume "coh_getRequestState (m_protocol s) (m_data_handler s) (m_directory s) m0 = Inr (p', m, Ready)"
  then show "queue_weight k (m_processing_queue s') < queue_weight k (m_processing_queue s) + msg_cost k m0"
    using w coh_stalls(2) [OF assms(2) cas] by fastforce
qed

lemma deferral_keeps:
  assumes "deferForDataArray m s = Inr (s', deferred)"
  shows "m_processing_queue s' = m_processing_queue s \<and> m_protocol s' = m_protocol s \<and> (\<not> deferred \<longrightarrow> s' = s)"
proof -
  have "m_processing_queue s' = m_processing_queue s \<and> m_protocol s' = m_protocol s \<and> (\<not> deferred \<longrightarrow> s' = s)"
    if "defer_when b m s = Inr (s', deferred)" for b
    using that by (auto simp: defer_when_def result_bind_Inr_iff split: if_splits dest!: arrayEnqueue_frame)
  then show ?thesis using assms by (auto simp: deferForDataArray_def split: if_splits)
qed

text \<open>A message the loop takes off the queue does not put back as much as it took.\<close>

lemma taken_message_weight:
  assumes pop: "pop_ready s = Inr (s1, Some m)" and sane: "stall_sane k (m_protocol s)"
  shows "stall_sane k (m_protocol s1) \<and> queue_weight k (m_processing_queue s1) < queue_weight k (m_processing_queue s) \<and>
    (\<forall>s'. process_message m s1 = Inr s' \<longrightarrow> stall_sane k (m_protocol s') \<and>
       queue_weight k (m_processing_queue s') < queue_weight k (m_processing_queue s))"
proof -
  obtain e :: element and q where s1: "s1 = s\<lparr>m_processing_queue := q\<rparr>"
    and e: "el_state e = Ready \<and> m = item e \<or>
      el_state e \<noteq> Ready \<and> check_request s (item e) (el_state e) = Inr (m, Ready)"
    and w: "queue_weight k q + el_weight k e \<le> queue_weight k (m_processing_queue s)"
    by (rule pop_ready_origin [OF pop, where k = k]) blast
  have sane1: "stall_sane k (m_protocol s1)" using sane s1 by simp
  have "queue_weight k (m_processing_queue s') < queue_weight k q + el_weight k e"
    if pm: "process_message m s1 = Inr s'" for s'
  proof (cases "el_state e = Ready")
    case True
    then have "k * msg_cost k m < el_weight k e"
      using e msg_cost_bounds [of k m] mult_le_mono2 [OF msg_cost_bounds(2) [of k m], of k]
      by (simp add: el_weight_def)
    then show ?thesis using process_message_weight(1) [OF pm sane1] s1 by simp
  next
    case False
    then obtain p' where "coh_getRequestState (m_protocol s1) (m_data_handler s1) (m_directory s1) (item e)
        = Inr (p', m, Ready)"
      using e s1 by (auto simp: check_request_def result_bind_Inr_iff)
    from process_message_weight(2) [OF pm sane1 this] show ?thesis using s1 False by (simp add: el_weight_def)
  qed
  moreover have "0 < el_weight k e" by (simp add: el_weight_def msg_cost_def)
  ultimately show ?thesis
    using w s1 sane1 process_message_weight(1) [OF _ sane1] by fastforce
qed

lemma process_loop_ends:
  assumes "stall_sane k (m_protocol s)" and "queue_weight k (m_processing_queue s) < n"
  shows "process_loop n s \<noteq> None"
  using assms
proof (induction n arbitrary: s)
  case 0
  then show ?case by simp
next
  case (Suc n)
  show ?case
  proof (cases "\<exists>s1 m. pop_ready s = Inr (s1, Some m) \<and> canAdmitRequest m s1")
    case False
    then show ?thesis by (cases "pop_ready s") (auto split: option.splits)
  next
    case True
    then obtain s1 m where pop: "pop_ready s = Inr (s1, Some m)" and adm: "canAdmitRequest m s1" by blast
    note taken = taken_message_weight [OF pop Suc.prems(1)]
    have next_ok: "process_loop n s' \<noteq> None"
      if "stall_sane k (m_protocol s')" "queue_weight k (m_processing_queue s') < queue_weight k (m_processing_queue s)"
      for s'
      using Suc.IH [OF that(1)] that(2) Suc.prems(2) by simp
    show ?thesis
    proof (cases "deferForDataArray m s1")
      case (Inl e)
      then show ?thesis using pop adm by simp
    next
      case (Inr y)
      obtain s2 deferred where y: "y = (s2, deferred)" by (cases y)
      note held = deferral_keeps [OF Inr [unfolded y]]
      have "process_loop n s2 \<noteq> None" using next_ok [of s2] held taken by simp
      then show ?thesis
        using pop adm Inr y held taken next_ok by (cases deferred; cases "process_message m s1") auto
    qed
  qed
qed

lemma queue_weight_le: "queue_weight k q \<le> (Suc k * Suc k) * length (m_buffer q)"
proof -
  have "el_weight k e \<le> Suc k * Suc k" for e
    using msg_cost_bounds(2) [of k "item e"] by (simp add: el_weight_def)
  then have "(\<Sum>e\<leftarrow>es. el_weight k e) \<le> length es * (Suc k * Suc k)" for es
    by (intro order.trans [OF sum_list_mono [of es "el_weight k" "\<lambda>_. Suc k * Suc k"]])
      (simp_all add: sum_list_triv)
  then show ?thesis by (simp only: queue_weight_def mult.commute)
qed

text \<open>
  The loop of a controller's cycle ends, for every protocol: with a table whose rows stall at most \<open>k\<close> times it
  takes no more turns than \<open>(k + 1) * (k + 1)\<close> times the elements of the queue, whatever the messages in it and
  whatever state their lines are in. The tables of the repository stall once per row at most.
\<close>

lemma process_loop_terminates:
  assumes "stall_sane k (m_protocol s)" and "(Suc k * Suc k) * length (m_buffer (m_processing_queue s)) < n"
  shows "process_loop n s \<noteq> None"
  using process_loop_ends [OF assms(1)] assms(2) queue_weight_le le_less_trans by blast

text \<open>
  A MESI cache with exclusive data in its queue. The readiness test looks up the row of exclusive data, which is empty,
  and clears the message's flag; the run that follows looks up the row of plain data, which stalls.
\<close>

definition example_exclusive :: controller where
  "example_exclusive =
     example_held
       \<lparr>m_protocol := Snooping \<lparr> p_kind = SNOOP_MESI, m_id = 0, m_shared_memory_id = 10,
            m_fsm = example_table\<lparr>m_states := [\<lparr> is_data_valid = True, stable = True, transitions = [],
              fsm_actions = [(0, [1]), (9, [0])], m_own_state = 0 \<rparr>]\<rparr> \<rparr>,
        m_processing_queue := (new_FRFCFS 8 (NOT 63) True)
          \<lparr>m_buffer := [new_element ((example_line_message 5 192)
              \<lparr>msg_source := UPPER_INTERCONNECT, complementary_value := 2\<rparr>) NonReady]\<rparr>\<rparr>"

lemma process_loop_terminates_witness:
  "\<exists>s'. process_loop 5 (example_exclusive\<lparr>m_data_handler := example_array False\<rparr>) = Some (Inr s') \<and>
     map (\<lambda>e. (msg_id (item e), complementary_value (item e))) (m_buffer (m_processing_queue s')) = [(5, 0)]"
proof -
  let ?s = "example_exclusive\<lparr>m_data_handler := example_array False\<rparr>"
  have run: "case process_loop 5 ?s of
      Some (Inr s') \<Rightarrow> map (\<lambda>e. (msg_id (item e), complementary_value (item e))) (m_buffer (m_processing_queue s')) = [(5, 0)]
    | _ \<Rightarrow> False" by code_simp
  have "stall_sane 1 (m_protocol ?s)" "length (m_buffer (m_processing_queue ?s)) = 1" by code_simp+
  then have "process_loop 5 ?s \<noteq> None" using process_loop_terminates [of 1 ?s 5] by simp
  then obtain r where r: "process_loop 5 ?s = Some r" by blast
  from run r show ?thesis by (cases r) simp_all
qed

end
