(* ===== verification/ControllerActions.thy ===== *)
theory ControllerActions
  imports ProcessingLoop Sending
begin

text \<open>
  What the actions of a controller do: the answers to pending requests, the supply of parked requests, the bound on
  outstanding misses, the invalidation acknowledgements of the directory protocol, and the shape of the controller's
  tables, which a whole cycle keeps.
\<close>

section \<open>Answers\<close>

lemma push_lower_response:
  assumes "push_lower m DATA_RESPONSE err s = Inr s'"
  shows "\<exists>m' i. s' = s\<lparr>m_lower_interface := i\<rparr> \<and> tx_response i = tx_response (m_lower_interface s) @ [m'] \<and>
    answer m' = answer m \<and> msg_kind m' = msg_kind m"
  using assms by (auto simp: push_lower_def split: prod.splits if_splits dest!: push_response)

lemma push_upper_response:
  assumes "push_upper m DATA_RESPONSE err s = Inr s'"
  shows "\<exists>m' i. s' = s\<lparr>m_upper_interface := i\<rparr> \<and> tx_response i = tx_response (m_upper_interface s) @ [m'] \<and>
    answer m' = answer m \<and> msg_kind m' = msg_kind m"
  using assms by (auto simp: push_upper_def split: prod.splits if_splits dest!: push_response)

lemma respond_all_answers:
  assumes "respond_all m ps s = Inr s'" and "msg_data m = Some d"
  shows "\<exists>rs. tx_response (m_lower_interface s') = tx_response (m_lower_interface s) @ rs \<and>
    map answer rs = map (\<lambda>p. (msg_id p, addr p, msg_to m, Some (take 64 d))) ps \<and>
    m_port_calls s' = m_port_calls s @ (if m_cpu_port s then map (\<lambda>p. Commit (msg_id p) (addr p)) ps else []) \<and>
    m_pending_requests s' = m_pending_requests s \<and> m_cpu_port s' = m_cpu_port s"
  using assms(1)
proof (induction ps arbitrary: s)
  case Nil
  then show ?case by simp
next
  case (Cons p ps)
  let ?call = "\<lambda>r. port_call (Commit (msg_id r) (addr r)) s"
  obtain r s1 where r: "response_to m p = Inr r"
    and push: "push_lower r DATA_RESPONSE ''CacheController: Cannot insert the Msg into lower interface.'' (?call r) = Inr s1"
    and rest: "respond_all m ps s1 = Inr s'"
    using Cons.prems by (auto simp: result_bind_Inr_iff)
  have ans: "answer r = (msg_id p, addr p, msg_to m, Some (take 64 d))"
    using r assms(2)
    by (auto simp: response_to_def message_copy_data_def answer_def result_bind_Inr_iff split: if_splits)
  then have mid: "msg_id r = msg_id p" "addr r = addr p" by (auto simp: answer_def)
  obtain m' i where s1: "s1 = (?call r)\<lparr>m_lower_interface := i\<rparr>"
    "tx_response i = tx_response (m_lower_interface s) @ [m']" "answer m' = answer r"
    using push_lower_response [OF push] by (auto simp: port_call_def split: if_splits)
  from Cons.IH [OF rest] obtain rs where rs:
    "tx_response (m_lower_interface s') = tx_response (m_lower_interface s1) @ rs"
    "map answer rs = map (\<lambda>p. (msg_id p, addr p, msg_to m, Some (take 64 d))) ps"
    "m_port_calls s' = m_port_calls s1 @ (if m_cpu_port s1 then map (\<lambda>p. Commit (msg_id p) (addr p)) ps else [])"
    "m_pending_requests s' = m_pending_requests s1" "m_cpu_port s' = m_cpu_port s1"
    by blast
  show ?case
    by (rule exI [of _ "m' # rs"]) (use rs s1 ans mid in \<open>simp add: port_call_def\<close>)
qed

text \<open>
  C29. A data message answers every request parked on its line, each once and in the order they were parked: the
  answers carry the data's bytes, an attached core receives the commits in the same order, and afterwards the line
  has no pending entry while every other line keeps its own.
\<close>

theorem pending_requests_are_answered_once:
  assumes "Cache_removePendingAndRespond m s = Inr s'" and "msg_data m = Some d"
    and "map_of (m_pending_requests s) (getAddressKey s (addr m)) = Some ps"
  shows "\<exists>rs. tx_response (m_lower_interface s') = tx_response (m_lower_interface s) @ rs \<and>
    map answer rs = map (\<lambda>p. (msg_id p, addr p, msg_to m, Some (take 64 d))) ps \<and>
    m_port_calls s' = m_port_calls s @ (if m_cpu_port s then map (\<lambda>p. Commit (msg_id p) (addr p)) ps else []) \<and>
    (\<forall>k. map_of (m_pending_requests s') k
       = (if k = getAddressKey s (addr m) then None else map_of (m_pending_requests s) k))"
proof -
  obtain s2 where r: "respond_all m ps s = Inr s2"
    and s': "s' = s2\<lparr>m_pending_requests := AList.delete (getAddressKey s (addr m)) (m_pending_requests s2)\<rparr>"
    using assms
    by (auto simp: Cache_removePendingAndRespond_def Base_removePendingAndRespond_def fetch_line_data_def Let_def
        result_bind_Inr_iff)
  show ?thesis using respond_all_answers [OF r assms(2)] unfolding s' by (auto simp: delete_conv')
qed

definition example_pending :: controller where
  "example_pending =
     (example_controller PlainController example_msi (example_array False))
       \<lparr>m_pending_requests := [(64, [new_message 1 64 0 0 0, new_message 2 72 0 0 0]), (128, [new_message 3 128 0 0 0])],
        m_cpu_port := True\<rparr>"

theorem pending_requests_are_answered_once_witness:
  "\<exists>s' rs. Cache_removePendingAndRespond (example_line_message 9 64) example_pending = Inr s' \<and>
     tx_response (m_lower_interface s') = rs \<and> map msg_id rs = [1, 2] \<and>
     m_port_calls s' = [Commit 1 64, Commit 2 72] \<and> map_of (m_pending_requests s') 64 = None"
proof -
  let ?m = "example_line_message 9 64"
  have "case Cache_removePendingAndRespond ?m example_pending of Inl e \<Rightarrow> False | Inr s \<Rightarrow> True" by code_simp
  then obtain s' where s': "Cache_removePendingAndRespond ?m example_pending = Inr s'" by (rule case_InrE)
  have key: "getAddressKey example_pending (addr ?m) = 64" by code_simp
  have d: "msg_data ?m = Some (replicate 64 7)" by (simp add: example_line_message_def)
  have p: "map_of (m_pending_requests example_pending) (getAddressKey example_pending (addr ?m))
      = Some [new_message 1 64 0 0 0, new_message 2 72 0 0 0]" unfolding key by (simp add: example_pending_def)
  have start: "tx_response (m_lower_interface example_pending) = []" "m_port_calls example_pending = []"
    "m_cpu_port example_pending" by code_simp+
  obtain rs where rs: "tx_response (m_lower_interface s') = rs"
    "map answer rs = map (\<lambda>p. (msg_id p, addr p, msg_to ?m, Some (take 64 (replicate 64 7))))
       [new_message 1 64 0 0 0, new_message 2 72 0 0 0]"
    "m_port_calls s' = map (\<lambda>p. Commit (msg_id p) (addr p)) [new_message 1 64 0 0 0, new_message 2 72 0 0 0]"
    "map_of (m_pending_requests s') 64 = None"
    using pending_requests_are_answered_once [OF s' d p] start(3) unfolding start(1,2) key by auto
  have "map msg_id rs = map fst (map answer rs)" by (simp add: answer_def comp_def)
  then have "map msg_id rs = [1, 2]" unfolding rs(2) by (simp add: new_message_def)
  then show ?thesis using s' rs by (auto simp: new_message_def)
qed

section \<open>Supply of parked requests\<close>

text \<open>
  When the bytes of a line go out and requests for it are parked, one message serves all of them: it is
  addressed to the core of every parked request, carries the number of the first, and the parked list is dropped.
  A snooping cache adds the shared cache when the first parked request is a load.
\<close>

lemma parked_requests_share_one_supply:
  assumes "Cache_performWriteBack m s = Inr s'" and "msg_data m = Some d"
    and "map_of (m_saved_requests_for_wb s) (getAddressKey s (addr m)) = Some (first # others)"
    and "uint (owner first) \<noteq> c_id s"
  shows "\<exists>r. tx_response (m_upper_interface s') = tx_response (m_upper_interface s) @ [r] \<and>
    msg_id r = msg_id first \<and> msg_data r = Some d \<and> owner ` set (first # others) \<subseteq> set (msg_to r) \<and>
    (c_kind s \<noteq> DirectoryController \<and> complementary_value first = REQUEST_TYPE_GETS \<longrightarrow>
       word_of_int (c_shared_memory_id s) \<in> set (msg_to r)) \<and>
    map_of (m_saved_requests_for_wb s') (getAddressKey s (addr m)) = None"
proof -
  let ?k = "getAddressKey s (addr m)"
  let ?s1 = "s\<lparr>m_saved_requests_for_wb := AList.delete ?k (m_saved_requests_for_wb s)\<rparr>"
  let ?m1 = "fan_out s m first others"
  have m1: "msg_data ?m1 = Some d" "owner ?m1 = owner first" "msg_id ?m1 = msg_id first"
    using assms(2) by (simp_all add: fan_out_def Let_def)
  have "Base_performWriteBack ?m1 ?s1 = Inr s'"
    using assms(1,3) m1(1) by (simp add: Cache_performWriteBack_def supply_message_def Let_def)
  then have push: "push_upper (?m1\<lparr>msg_to := msg_to ?m1 @ [owner first]\<rparr>) DATA_RESPONSE
      ''CacheController: Cannot insert the Msg into BusTxResp FIFO, FIFO is Full'' ?s1 = Inr s'"
    using assms(4) m1 by (simp add: Base_performWriteBack_def fetch_line_data_def Let_def)
  obtain r i where r: "s' = ?s1\<lparr>m_upper_interface := i\<rparr>" "tx_response i = tx_response (m_upper_interface s) @ [r]"
    "answer r = answer (?m1\<lparr>msg_to := msg_to ?m1 @ [owner first]\<rparr>)"
    using push_upper_response [OF push] by auto
  have "msg_to r = msg_to ?m1 @ [owner first]" "msg_id r = msg_id first" "msg_data r = Some d"
    using r(3) m1 by (simp_all add: answer_def)
  moreover have "owner ` set others \<subseteq> set (msg_to ?m1)" by (auto simp: fan_out_def Let_def)
  moreover have "word_of_int (c_shared_memory_id s) \<in> set (msg_to ?m1)"
    if "c_kind s \<noteq> DirectoryController \<and> complementary_value first = REQUEST_TYPE_GETS"
    using that by (auto simp: fan_out_def Let_def deferredSupplyCopiesToLLC_def)
  ultimately show ?thesis using r(1,2) by (intro exI [of _ r]) (auto simp: delete_conv')
qed

definition example_parked :: controller where
  "example_parked =
     (example_controller PlainController example_msi (example_array False))
       \<lparr>m_saved_requests_for_wb := [(64, [new_message 4 64 0 0 1, new_message 5 64 0 0 2])]\<rparr>"

lemma parked_requests_share_one_supply_witness:
  "\<exists>s' r. Cache_performWriteBack (example_line_message 9 64) example_parked = Inr s' \<and>
     tx_response (m_upper_interface s') = [r] \<and> msg_id r = 4 \<and> {1, 2, 10} \<subseteq> set (msg_to r) \<and>
     map_of (m_saved_requests_for_wb s') 64 = None"
proof -
  let ?m = "example_line_message 9 64"
  have "case Cache_performWriteBack ?m example_parked of Inl e \<Rightarrow> False | Inr s \<Rightarrow> True" by code_simp
  then obtain s' where s': "Cache_performWriteBack ?m example_parked = Inr s'" by (rule case_InrE)
  have key: "getAddressKey example_parked (addr ?m) = 64" by code_simp
  have d: "msg_data ?m = Some (replicate 64 7)" by (simp add: example_line_message_def)
  have p: "map_of (m_saved_requests_for_wb example_parked) (getAddressKey example_parked (addr ?m))
      = Some (new_message 4 64 0 0 1 # [new_message 5 64 0 0 2])" unfolding key by (simp add: example_parked_def)
  have "uint (owner (new_message 4 64 0 0 1)) \<noteq> c_id example_parked" "tx_response (m_upper_interface example_parked) = []"
    "c_kind example_parked = PlainController" "c_shared_memory_id example_parked = 10" by code_simp+
  then show ?thesis
    using parked_requests_share_one_supply [OF s' d p] s' unfolding key
    by (auto simp: new_message_def REQUEST_TYPE_GETS_def)
qed

section \<open>Outstanding misses\<close>

lemma isDemand_bound:
  assumes "canAdmitRequest m s" "isDemandRequest m" "\<not> isAddressTracked (m_data_handler s) (addr m)"
    "map_of (m_pending_requests s) (getAddressKey s (addr m)) = None" "0 \<le> m_num_mshr s"
  shows "int (length (m_pending_requests s)) < m_num_mshr s"
  using assms by (auto simp: canAdmitRequest_def)

lemma length_push_entry:
  "length (push_entry k v m) = (if map_of m k = None then Suc (length m) else length m)"
  by (induction m) (auto simp: push_entry_def entry_def)

lemma pending_after_add [simp]:
  "m_pending_requests (Cache_addtoPendingRequests m s)
     = push_entry (getAddressKey s (addr m)) m (m_pending_requests s)"
  by (simp add: Cache_addtoPendingRequests_def Base_addtoPendingRequests_def getAddressKey_def)

text \<open>
  The MSHR count bounds the misses: a demand for a line the cache does not track that passes the admission check
  leaves at most \<open>m_num_mshr\<close> lines pending once it is recorded, and joins the entry of its line, behind the
  requests that are there, when the line is pending already.
\<close>

lemma misses_respect_mshr_count:
  assumes "canAdmitRequest m s" and "isDemandRequest m" and "\<not> isAddressTracked (m_data_handler s) (addr m)"
    and "0 \<le> m_num_mshr s" and "int (length (m_pending_requests s)) \<le> m_num_mshr s"
  shows "int (length (m_pending_requests (Cache_addtoPendingRequests m s))) \<le> m_num_mshr s \<and>
    map_of (m_pending_requests (Cache_addtoPendingRequests m s)) (getAddressKey s (addr m))
      = Some (entry (m_pending_requests s) (getAddressKey s (addr m)) @ [m])"
  using assms isDemand_bound [OF assms(1-3)]
  by (auto simp: length_push_entry) (simp_all add: push_entry_def update_conv')

definition example_store :: message where
  "example_store = (new_message 7 64 0 REQUEST_TYPE_GETM 0)\<lparr>msg_source := LOWER_INTERCONNECT\<rparr>"

lemma misses_respect_mshr_count_witness:
  "int (length (m_pending_requests (Cache_addtoPendingRequests example_store
     (example_controller PlainController example_msi (example_array False))))) \<le> 1"
proof -
  let ?s = "example_controller PlainController example_msi (example_array False)"
  have "canAdmitRequest example_store ?s" "isDemandRequest example_store"
    "\<not> isAddressTracked (m_data_handler ?s) (addr example_store)" "0 \<le> m_num_mshr ?s"
    "int (length (m_pending_requests ?s)) \<le> m_num_mshr ?s" by code_simp+
  from misses_respect_mshr_count [OF this] show ?thesis by (simp add: example_controller_def)
qed

text \<open>
  The check lets a store to a line that is present through whatever the number of pending lines, and the upgrade it
  starts takes an entry too: with one MSHR in use, two lines are pending afterwards.
\<close>

definition example_upgrade :: controller where
  "example_upgrade =
     (example_controller PlainController example_msi ((example_array False)\<lparr>m_cache :=
        (m_cache (example_array False))[2 := new_line\<lparr>line_block_size := 64, valid := True, tag := 0\<rparr>]\<rparr>))
       \<lparr>m_pending_requests := [(128, [new_message 3 128 0 0 0])]\<rparr>"

theorem upgrade_exceeds_mshr_count:
  "m_num_mshr example_upgrade = 1 \<and> length (m_pending_requests example_upgrade) = 1 \<and>
   isDemandRequest example_store \<and> canAdmitRequest example_store example_upgrade \<and>
   length (m_pending_requests (Cache_addtoPendingRequests example_store example_upgrade)) = 2"
  by code_simp

section \<open>Invalidation acknowledgements\<close>

text \<open>A counter of value 0 has no entry.\<close>

definition counter_is :: "directory \<Rightarrow> u64 \<Rightarrow> u64 \<Rightarrow> bool" where
  "counter_is d k v \<longleftrightarrow> map_of (m_ack_counters d) k = (if v = 0 then None else Some v)"

lemma counter_add_acks: "counter_is d k v \<Longrightarrow> counter_is (add_acks k n d) k (v + n)"
  by (auto simp: counter_is_def add_acks_def Let_def delete_conv' update_conv' split: if_splits)

lemma add_acks_other: "k' \<noteq> k \<Longrightarrow> map_of (m_ack_counters (add_acks k n d)) k' = map_of (m_ack_counters d) k'"
  by (simp add: add_acks_def Let_def delete_conv' update_conv')

text \<open>
  The cells that the rows \<open>IM_ad\<close> and \<open>IM_a\<close> (\<open>SM_ad\<close> and \<open>SM_a\<close>) of the table have for the
  events of a write miss: \<open>Hit\<close> is action 1, \<open>Ack_dec\<close> 10 and \<open>AckNum_set\<close> 11.
\<close>

fun write_miss_cell :: "directory_event \<Rightarrow> int list" where
  "write_miss_cell Data_nonZeroAck = [11]"
| "write_miss_cell Data_zeroAck = [1]"
| "write_miss_cell InvAck = [10]"
| "write_miss_cell lastInvAck = [1, 10]"
| "write_miss_cell _ = []"

text \<open>What an action of the controller does to the counters.\<close>

definition count_action :: "cache \<Rightarrow> controller_action \<Rightarrow> directory \<Rightarrow> directory" where
  "count_action c a d =
     (case (ca_type a, ca_msg a) of
        (SET_ACK_NUMBER, Some m) \<Rightarrow> add_acks (addr_key c (addr m)) (complementary_value m) d
      | (DECREMENT_ACK, Some m) \<Rightarrow> add_acks (addr_key c (addr m)) (- 1) d
      | _ \<Rightarrow> d)"

lemma count_action_run:
  assumes "c_kind s = DirectoryController" and "ca_type a \<in> {SET_ACK_NUMBER, DECREMENT_ACK}" and "ca_msg a \<noteq> None"
  shows "run_action a s = Inr (set_directory (count_action (m_data_handler s) a) s)"
  using assms
  by (auto simp: run_action_def message_action_def run_directory_action_def setACKNumber_def decrementACK_def
      set_directory_def count_action_def getAddressKey_def)

fun collect_acks ::
  "directory_protocol \<Rightarrow> cache \<Rightarrow> message list \<Rightarrow> directory \<Rightarrow> (directory \<times> directory_event list) result" where
  "collect_acks p c [] d = Inr (d, [])"
| "collect_acks p c (m # ms) d =
     result_bind (MSIDirectory_readEvent p c d m) (\<lambda>e.
     result_bind (MSIDirectory_action_loop p c d m (write_miss_cell e) []) (\<lambda>cas.
     result_bind (collect_acks p c ms (fold (count_action c) cas d)) (\<lambda>(d', es). Inr (d', e # es))))"

definition is_inv_ack :: "cache \<Rightarrow> u64 \<Rightarrow> message \<Rightarrow> bool" where
  "is_inv_ack c k m \<longleftrightarrow>
     msg_source m = UPPER_INTERCONNECT \<and> msg_data m = None \<and> complementary_value m = DIR_INV_ACK \<and>
     addr_key c (addr m) = k"

definition is_home_data :: "directory_protocol \<Rightarrow> cache \<Rightarrow> u64 \<Rightarrow> nat \<Rightarrow> message \<Rightarrow> bool" where
  "is_home_data p c k n m \<longleftrightarrow>
     msg_source m = UPPER_INTERCONNECT \<and> msg_data m \<noteq> None \<and> uint (msg_from m) = d_shared_memory_id p \<and>
     complementary_value m = of_nat n \<and> addr_key c (addr m) = k"

definition counted :: "directory_protocol \<Rightarrow> cache \<Rightarrow> directory \<Rightarrow> message \<Rightarrow> directory_event \<Rightarrow> directory \<Rightarrow> bool" where
  "counted p c d m e d' \<longleftrightarrow>
     MSIDirectory_readEvent p c d m = Inr e \<and>
     (\<exists>cas. MSIDirectory_action_loop p c d m (write_miss_cell e) [] = Inr cas \<and> fold (count_action c) cas d = d')"

lemma collect_counted:
  assumes "counted p c d m e d1" and "collect_acks p c ms d1 = Inr (d', es)"
  shows "collect_acks p c (m # ms) d = Inr (d', e # es)"
  using assms by (auto simp: counted_def)

lemmas ack_simps = directory_action_of_def action_on_def count_action_def directory_hit_def DIR_GETS_def DIR_GETM_def
  DIR_PUT_ACK_def DIR_INV_def DIR_INV_ACK_def MSIDirectory_action_step_def MSIDirectory_readEvent_def

lemma inv_ack_counted:
  assumes "is_inv_ack c k m" and "counter_is d k v"
  shows "counted p c d m (if v = 1 then lastInvAck else InvAck) (add_acks k (- 1) d)"
  using assms by (auto simp: counted_def is_inv_ack_def counter_is_def acks_settled_def ack_simps)

lemma of_nat_zero_u64: "n < 2 ^ 64 \<Longrightarrow> (of_nat n :: u64) = 0 \<longleftrightarrow> n = 0"
  by (simp add: word_of_nat_eq_0_iff nat_dvd_not_less)
     (metis bot_nat_0.not_eq_extremum dvd_0_right nat_dvd_not_less)

lemma early_acks:
  assumes "\<forall>m\<in>set ms. is_inv_ack c k m" and "counter_is d k (- of_nat j)" and "j + length ms < 2 ^ 64 - 1"
  shows "\<exists>d'. collect_acks p c ms d = Inr (d', replicate (length ms) InvAck) \<and>
    counter_is d' k (- of_nat (j + length ms)) \<and> (\<forall>k'. k' \<noteq> k \<longrightarrow> map_of (m_ack_counters d') k' = map_of (m_ack_counters d) k')"
  using assms
proof (induction ms arbitrary: d j)
  case Nil
  then show ?case by simp
next
  case (Cons m ms)
  let ?d = "add_acks k (- 1) d"
  have "(of_nat (Suc j) :: u64) \<noteq> 0" using Cons.prems(3) of_nat_zero_u64 [of "Suc j"] by simp
  then have "(- of_nat j :: u64) \<noteq> 1" by (metis add.inverse_inverse add.right_inverse add_uminus_conv_diff diff_0 diff_minus_eq_add of_nat_Suc)
  then have e: "counted p c d m InvAck ?d"
    using inv_ack_counted [of c k m d "- of_nat j" p] Cons.prems by auto
  have "counter_is ?d k (- of_nat (Suc j))"
    using counter_add_acks [OF Cons.prems(2), of "- 1"] by (simp add: algebra_simps)
  moreover have "Suc j + length ms < 2 ^ 64 - 1" using Cons.prems(3) by simp
  ultimately obtain d' where "collect_acks p c ms ?d = Inr (d', replicate (length ms) InvAck)"
    "counter_is d' k (- of_nat (Suc j + length ms))" "\<forall>k'. k' \<noteq> k \<longrightarrow> map_of (m_ack_counters d') k' = map_of (m_ack_counters ?d) k'"
    using Cons.IH [of ?d "Suc j"] Cons.prems(1) by auto
  then show ?case
    using collect_counted [OF e] by (intro exI [of _ d']) (simp add: add_acks_other del: collect_acks.simps)
qed

lemma late_acks:
  assumes "\<forall>m\<in>set ms. is_inv_ack c k m" and "counter_is d k (of_nat (length ms))" and "ms \<noteq> []" and "length ms < 2 ^ 64"
  shows "\<exists>d'. collect_acks p c ms d = Inr (d', replicate (length ms - 1) InvAck @ [lastInvAck]) \<and>
    counter_is d' k 0 \<and> (\<forall>k'. k' \<noteq> k \<longrightarrow> map_of (m_ack_counters d') k' = map_of (m_ack_counters d) k')"
  using assms
proof (induction ms arbitrary: d)
  case Nil
  then show ?case by simp
next
  case (Cons m ms)
  let ?d = "add_acks k (- 1) d"
  have one: "(of_nat (Suc (length ms)) :: u64) = 1 \<longleftrightarrow> ms = []"
    using of_nat_zero_u64 [of "length ms"] Cons.prems(4) by simp
  have e: "counted p c d m (if ms = [] then lastInvAck else InvAck) ?d"
    using inv_ack_counted [of c k m d "of_nat (Suc (length ms))" p] Cons.prems(1,2) unfolding one by auto
  have cnt: "counter_is ?d k (of_nat (length ms))" using counter_add_acks [OF Cons.prems(2), of "- 1"] by simp
  show ?case
  proof (cases "ms = []")
    case True
    then show ?thesis
      using collect_counted [OF e, of "[]" ?d "[]"] cnt by (intro exI [of _ ?d]) (simp add: add_acks_other)
  next
    case False
    then obtain d' where "collect_acks p c ms ?d = Inr (d', replicate (length ms - 1) InvAck @ [lastInvAck])"
      "counter_is d' k 0" "\<forall>k'. k' \<noteq> k \<longrightarrow> map_of (m_ack_counters d') k' = map_of (m_ack_counters ?d) k'"
      using Cons.IH [OF _ cnt] Cons.prems(1,4) by auto
    moreover have "InvAck # replicate (length ms - 1) InvAck = replicate (length ms) InvAck"
      using False by (cases ms) simp_all
    ultimately show ?thesis using collect_counted [OF e] False
      by (intro exI [of _ d'])
        (simp add: add_acks_other append_Cons [symmetric] del: append_Cons collect_acks.simps)
  qed
qed

lemma collect_append:
  "collect_acks p c (xs @ ys) d =
     result_bind (collect_acks p c xs d) (\<lambda>(d1, es). result_bind (collect_acks p c ys d1) (\<lambda>(d2, es'). Inr (d2, es @ es')))"
  by (induction xs arbitrary: d) (auto simp: result_bind_def split: sum.splits prod.splits)

lemma home_data_counted:
  assumes "is_home_data p c k n m" and "counter_is d k (- of_nat i)" and "0 < n" and "i \<le> n" and "n < 2 ^ 64"
  shows "counted p c d m (if i = n then Data_zeroAck else Data_nonZeroAck) (add_acks k (of_nat n) d)"
proof -
  have n: "(of_nat n :: u64) \<noteq> 0" using of_nat_zero_u64 assms(3,5) by simp
  have sum: "(of_nat n - of_nat i :: u64) = of_nat (n - i)" using assms(4) by (simp add: of_nat_diff)
  have "(of_nat (n - i) :: u64) = 0 \<longleftrightarrow> i = n" using of_nat_zero_u64 [of "n - i"] assms(4,5) by auto
  then have "acks_settled c d m \<longleftrightarrow> i = n"
    using assms(1,2) n sum by (auto simp: acks_settled_def counter_is_def is_home_data_def)
  then show ?thesis using assms(1) n by (auto simp: counted_def is_home_data_def ack_simps)
qed

text \<open>
  C28. A write miss of a directory cache is complete exactly when its data and all \<open>n\<close> acknowledgements announced in it
  have arrived, in whatever order: acknowledgements that come before the data count below zero, the data is
  \<open>Data_zeroAck\<close> when it is last and \<open>Data_nonZeroAck\<close> otherwise, and of the acknowledgements only one that is
  last after the data is \<open>lastInvAck\<close>. Afterwards the line has no counter and the other lines keep theirs. The data
  is the home's; that the events let the miss complete is in the rows of the table, copied in \<open>write_miss_cell\<close>.
\<close>

theorem write_miss_completes_with_last_ack:
  assumes "\<forall>m\<in>set early \<union> set late. is_inv_ack c k m" and "is_home_data p c k (length early + length late) data"
    and "early @ late \<noteq> []" and "length early + length late < 2 ^ 64 - 1"
    and "map_of (m_ack_counters d) k = None"
  shows "\<exists>d'. collect_acks p c (early @ [data] @ late) d =
      Inr (d', replicate (length early) InvAck @
        (if late = [] then [Data_zeroAck] else Data_nonZeroAck # replicate (length late - 1) InvAck @ [lastInvAck])) \<and>
    map_of (m_ack_counters d') = map_of (m_ack_counters d)"
proof -
  let ?i = "length early" and ?n = "length early + length late"
  have "counter_is d k (- of_nat 0)" using assms(5) by (simp add: counter_is_def)
  then obtain d1 where d1: "collect_acks p c early d = Inr (d1, replicate ?i InvAck)" "counter_is d1 k (- of_nat ?i)"
    "\<forall>k'. k' \<noteq> k \<longrightarrow> map_of (m_ack_counters d1) k' = map_of (m_ack_counters d) k'"
    using early_acks [of early c k d 0 p] assms(1,4) by auto
  let ?d2 = "add_acks k (of_nat ?n) d1"
  have "counted p c d1 data (if ?i = ?n then Data_zeroAck else Data_nonZeroAck) ?d2"
    by (rule home_data_counted [OF assms(2) d1(2)]) (use assms(3,4) in auto)
  then have e: "counted p c d1 data (if late = [] then Data_zeroAck else Data_nonZeroAck) ?d2" by simp
  have d2: "counter_is ?d2 k (of_nat (length late))" using counter_add_acks [OF d1(2), of "of_nat ?n"] by simp
  have others: "map_of (m_ack_counters d') = map_of (m_ack_counters d)"
    if "counter_is d' k 0" "\<forall>k'. k' \<noteq> k \<longrightarrow> map_of (m_ack_counters d') k' = map_of (m_ack_counters ?d2) k'" for d'
  proof
    fix x
    show "map_of (m_ack_counters d') x = map_of (m_ack_counters d) x"
      using that d1(3) assms(5) add_acks_other [of x k] by (cases "x = k") (auto simp: counter_is_def)
  qed
  show ?thesis
  proof (cases "late = []")
    case True
    then show ?thesis
      using d1(1) collect_counted [OF e, of "[]" ?d2 "[]"] d2 others [of ?d2]
      by (simp add: collect_append del: collect_acks.simps(2))
  next
    case False
    then obtain d' where "collect_acks p c late ?d2 = Inr (d', replicate (length late - 1) InvAck @ [lastInvAck])"
      "counter_is d' k 0" "\<forall>k'. k' \<noteq> k \<longrightarrow> map_of (m_ack_counters d') k' = map_of (m_ack_counters ?d2) k'"
      using late_acks [of late c k ?d2 p] d2 assms(1,4) by auto
    then show ?thesis
      using d1(1) collect_counted [OF e] False others [of d'] by (simp add: collect_append del: collect_acks.simps(2))
  qed
qed

definition example_ack :: "u64 \<Rightarrow> message" where
  "example_ack i = (new_message i 64 0 DIR_INV_ACK 0)\<lparr>msg_source := UPPER_INTERCONNECT\<rparr>"

definition example_home_data :: message where
  "example_home_data = (example_line_message 9 64)\<lparr>msg_source := UPPER_INTERCONNECT, msg_from := 10, complementary_value := 3\<rparr>"

theorem write_miss_completes_with_last_ack_witness:
  "\<exists>d'. collect_acks (example_private DIRECTORY_MSI 1) (example_array False)
      ([example_ack 1] @ [example_home_data] @ [example_ack 2, example_ack 3]) (example_owned []) =
    Inr (d', [InvAck, Data_nonZeroAck, InvAck, lastInvAck])"
proof -
  let ?p = "example_private DIRECTORY_MSI 1" and ?c = "example_array False"
  have "\<forall>m\<in>set [example_ack 1] \<union> set [example_ack 2, example_ack 3]. is_inv_ack ?c 64 m"
    "is_home_data ?p ?c 64 (length [example_ack 1] + length [example_ack 2, example_ack 3]) example_home_data"
    "map_of (m_ack_counters (example_owned [])) 64 = None"
    by code_simp+
  from write_miss_completes_with_last_ack [OF this(1,2) _ _ this(3)] show ?thesis by fastforce
qed

end
