(* ===== verification/ControllerCycle.thy ===== *)
theory ControllerCycle
  imports ControllerActions
begin

text \<open>
  Whole cycles of a controller. The locale \<open>cycle_frame\<close> carries a relation through the scheduler of the array, the
  intake and the processing loop; it is interpreted on the shape of the controller's tables. The second part is the
  termination of a cycle.
\<close>

section \<open>Relations kept by a cycle\<close>

locale cycle_frame = full_frame +
  assumes queue: "keeps s (s\<lparr>m_processing_queue := q\<rparr>)"
    and cycle: "keeps s (s\<lparr>m_cache_cycle := t\<rparr>)"
    and ops: "keeps s (s\<lparr>m_array_ops := os\<rparr>)"
    and scheduler: "keeps s (s\<lparr>m_data_access_arbiter := a\<rparr>)"
    and admission: "keeps s (s\<lparr>m_array_admitted_this_cycle := x\<rparr>)"
    and firing: "keeps s (s\<lparr>m_pipe_firing := b\<rparr>)"
    and op_count: "keeps s (s\<lparr>m_pipe_ops := y\<rparr>)"
    and op_seq: "keeps s (s\<lparr>m_array_op_seq := y\<rparr>)"
    and early_fires: "keeps s (s\<lparr>m_pipe_early_fires := y\<rparr>)"
    and requeues: "keeps s (s\<lparr>m_pipe_requeues := y\<rparr>)"
    and admit_fails: "keeps s (s\<lparr>m_admit_fail_cycles := y\<rparr>)"
    and refusals: "keeps s (s\<lparr>m_intake_refusals := y\<rparr>)"
    and peak: "keeps s (s\<lparr>m_queue_peak := z\<rparr>)"
    and latest_owner: "keeps s (s\<lparr>m_owner_of_latest_data := z\<rparr>)"
    and request_id: "keeps s (s\<lparr>next_request_id := z\<rparr>)"
    and state_lookup: "coh_getRequestState (m_protocol s) (m_data_handler s) (m_directory s) m = Inr (p, m', st) \<Longrightarrow>
      keeps s (s\<lparr>m_protocol := p\<rparr>)"
begin

lemma admit_keeps:
  assumes "arrayAdmit s = Inr s'"
  shows "keeps s s'"
proof -
  obtain a os x where "s' = s\<lparr>m_data_access_arbiter := a, m_array_ops := os, m_array_admitted_this_cycle := x\<rparr>"
    using arrayAdmit_frame [OF assms] by blast
  then show ?thesis using trans [OF trans [OF scheduler ops] admission] by simp
qed

lemma enqueue_keeps:
  assumes "arrayEnqueue op s = Inr s'"
  shows "keeps s s'"
proof -
  obtain a os x y q where "s' = s\<lparr>m_data_access_arbiter := a, m_array_ops := os, m_array_admitted_this_cycle := x,
      m_pipe_ops := y, m_array_op_seq := q\<rparr>"
    using arrayEnqueue_frame [OF assms] by blast
  then show ?thesis using trans [OF trans [OF trans [OF trans [OF scheduler ops] admission] op_count] op_seq] by simp
qed

lemma end_firing_keeps: "keeps s (end_firing b s)"
  unfolding end_firing_def by (rule trans [OF firing queue])

lemma fire_keeps:
  assumes "pipelineFire op s = Inr s'"
  shows "keeps s s'"
proof -
  let ?s0 = "s\<lparr>m_pipe_firing := True\<rparr>"
  have lookup: "keeps ?s0 (?s0\<lparr>m_protocol := p\<rparr>)"
    if "coh_getRequestState (m_protocol ?s0) (m_data_handler ?s0) (m_directory ?s0) (op_msg op) = Inr (p, m, st)" for p m st
    using that by (rule state_lookup)
  have requeue: "keeps u (requeue m u)" for u m
    unfolding requeue_def by (rule trans [OF requeues queue])
  obtain s2 where s2: "keeps ?s0 s2" "s' = end_firing (m_pipe_firing s) s2"
  proof (cases "op_kind op")
    case ACTIONS
    then show ?thesis using assms that by (auto simp: pipelineFire_def Let_def result_bind_Inr_iff intro: runs_keep)
  next
    case MESSAGE
    then obtain p m st where r: "coh_getRequestState (m_protocol ?s0) (m_data_handler ?s0) (m_directory ?s0) (op_msg op)
          = Inr (p, m, st)"
      and k: "s' = end_firing (m_pipe_firing s) (requeue m (?s0\<lparr>m_protocol := p\<rparr>)) \<or>
        (\<exists>s2. process_message m (?s0\<lparr>m_protocol := p\<rparr>) = Inr s2 \<and> s' = end_firing (m_pipe_firing s) s2)"
      using assms by (auto simp: pipelineFire_def Let_def result_bind_Inr_iff split: if_splits)
    show ?thesis using k that trans [OF lookup [OF r]] requeue process_keeps by blast
  qed
  show ?thesis unfolding s2(2) by (rule trans [OF trans [OF firing s2(1)] end_firing_keeps])
qed

lemma buffer_keeps:
  assumes "processDataArrayBuffer s = Inr s'"
  shows "keeps s s'"
proof (cases "base_isReady (m_data_handler s)")
  case False
  then show ?thesis using assms by (simp add: processDataArrayBuffer_def)
next
  case True
  then obtain s1 r where e: "arrayElect s = Inr (s1, r)"
    using assms by (auto simp: processDataArrayBuffer_def result_bind_Inr_iff)
  then obtain a where s1: "s1 = s\<lparr>m_data_access_arbiter := a\<rparr>" using arrayElect_frame by blast
  have first: "keeps s s1" unfolding s1 by (rule scheduler)
  show ?thesis
  proof (cases r)
    case None
    then show ?thesis using assms True e first by (simp add: processDataArrayBuffer_def)
  next
    case (Some i)
    then have "pipelineFire (m_array_ops s1 ! i) (s1\<lparr>m_array_ops := erase_at i (m_array_ops s1)\<rparr>) = Inr s'"
      using assms True e by (simp add: processDataArrayBuffer_def)
    from trans [OF first trans [OF ops fire_keeps [OF this]]] show ?thesis .
  qed
qed

lemma step_loop_keeps: "pipelineStep_loop n s = Some (Inr s') \<Longrightarrow> keeps s s'"
proof (induction n arbitrary: s)
  case 0
  then show ?case by simp
next
  case (Suc n)
  show ?case
  proof (cases "first_index (op_due s) (m_array_ops s)")
    case None
    then show ?thesis using Suc.prems by simp
  next
    case (Some i)
    then obtain s1 where "pipelineFire (m_array_ops s ! i) (s\<lparr>m_array_ops := erase_at i (m_array_ops s)\<rparr>) = Inr s1"
      "pipelineStep_loop n s1 = Some (Inr s')"
      using Suc.prems by (auto simp: fuel_bind_def split: sum.splits)
    then show ?thesis using trans [OF trans [OF ops fire_keeps] Suc.IH] by blast
  qed
qed

lemma step_keeps:
  assumes "pipelineStep n s = Some (Inr s')"
  shows "keeps s s'"
proof -
  obtain s1 where "arrayAdmit (s\<lparr>m_array_admitted_this_cycle := 0\<rparr>) = Inr s1" "pipelineStep_loop n s1 = Some (Inr s')"
    using assms by (auto simp: pipelineStep_def fuel_bind_def split: sum.splits)
  then show ?thesis using trans [OF admission trans [OF admit_keeps step_loop_keeps]] by blast
qed

lemma flush_keeps: "pipelineFlushLine n key s = Some (Inr s') \<Longrightarrow> keeps s s'"
proof (induction n arbitrary: s)
  case 0
  then show ?case by simp
next
  case (Suc n)
  show ?case
  proof (cases "first_index (\<lambda>op. getAddressKey s (addr (op_msg op)) = key) (m_array_ops s)")
    case None
    then show ?thesis using Suc.prems by simp
  next
    case (Some i)
    then obtain s1 where f: "pipelineFire (m_array_ops s ! i)
        (s\<lparr>m_array_ops := erase_at i (m_array_ops s), m_pipe_early_fires := m_pipe_early_fires s + 1\<rparr>) = Inr s1"
      "pipelineFlushLine n key s1 = Some (Inr s')"
      using Suc.prems by (auto simp: fuel_bind_def split: sum.splits)
    show ?thesis by (rule trans [OF trans [OF trans [OF ops early_fires] fire_keeps [OF f(1)]] Suc.IH [OF f(2)]])
  qed
qed

lemma defer_keeps:
  assumes "deferForDataArray m s = Inr (s', b)"
  shows "keeps s s'"
proof -
  have "keeps s s'" if "defer_when w m s = Inr (s', b)" for w
    using that enqueue_keeps by (auto simp: defer_when_def result_bind_Inr_iff split: if_splits)
  then show ?thesis using assms by (auto simp: deferForDataArray_def split: if_splits)
qed

lemma pop_keeps: "pop_ready s = Inr (s', r) \<Longrightarrow> keeps s s'"
  using queue by (auto simp: pop_ready_def result_bind_Inr_iff)

lemma put_back_keeps: "keeps s (put_back m s)" "keeps s (put_back m (s\<lparr>m_admit_fail_cycles := y\<rparr>))"
  unfolding put_back_def by (rule queue, rule trans [OF admit_fails queue])

lemma loop_keeps: "process_loop n s = Some (Inr s') \<Longrightarrow> keeps s s'"
proof (induction n arbitrary: s)
  case 0
  then show ?case by simp
next
  case (Suc n)
  obtain s1 r where pop: "pop_ready s = Inr (s1, r)"
    using Suc.prems by (cases "pop_ready s") auto
  note k1 = pop_keeps [OF pop]
  show ?case
  proof (cases r)
    case None
    then show ?thesis using Suc.prems pop k1 by simp
  next
    case (Some m)
    show ?thesis
    proof (cases "canAdmitRequest m s1")
      case False
      then show ?thesis using Suc.prems pop Some trans [OF k1 put_back_keeps(2)] by auto
    next
      case True
      obtain s2 b where d: "deferForDataArray m s1 = Inr (s2, b)"
        using Suc.prems pop Some True by (cases "deferForDataArray m s1") auto
      note k2 = trans [OF k1 defer_keeps [OF d]]
      consider "process_loop n s2 = Some (Inr s')" | "s' = put_back m s2"
        | s3 where "process_message m s2 = Inr s3" "process_loop n s3 = Some (Inr s')"
        using Suc.prems pop Some True d
        by (cases "process_message m s2"; cases b; cases "canAdmitRequest m s2") simp_all
      then show ?thesis
      proof cases
        case 1
        show ?thesis by (rule trans [OF k2 Suc.IH [OF 1]])
      next
        case 2
        show ?thesis unfolding 2 by (rule trans [OF k2 put_back_keeps(1)])
      next
        case 3
        show ?thesis by (rule trans [OF k2 trans [OF process_keeps [OF 3(1)] Suc.IH [OF 3(2)]]])
      qed
    qed
  qed
qed

lemma port_keeps:
  "pop_upper s = Inr s' \<Longrightarrow> keeps s s'" "pop_lower s = Inr s' \<Longrightarrow> keeps s s'"
  "peek_upper s = (s', r) \<Longrightarrow> keeps s s'" "peek_lower s = (s', r) \<Longrightarrow> keeps s s'"
  using upper [OF pop_port_used] lower [OF pop_port_used] upper [OF peek_port_used] lower [OF peek_port_used]
  by (auto simp: pop_upper_def pop_lower_def peek_upper_def peek_lower_def result_bind_Inr_iff split: prod.splits)

lemma queue_then_pop:
  "pop_upper (s\<lparr>m_processing_queue := q\<rparr>) = Inr s' \<Longrightarrow> keeps s s'"
  "pop_lower (s\<lparr>m_processing_queue := q\<rparr>) = Inr s' \<Longrightarrow> keeps s s'"
  using trans [OF queue port_keeps(1)] trans [OF queue port_keeps(2)] by blast+

lemma base_intake_upper_keeps: "Base_intake_upper s = Inr s' \<Longrightarrow> keeps s s'"
  using trans [OF port_keeps(3)] queue_then_pop refl
  by (auto simp: Base_intake_upper_def split: prod.splits option.splits if_splits)

lemma base_intake_lower_keeps: "Base_intake_lower s = Inr s' \<Longrightarrow> keeps s s'"
  using trans [OF port_keeps(4)] queue_then_pop refusals refl
  by (auto simp: Base_intake_lower_def Let_def split: prod.splits option.splits if_splits)

lemma base_intake_keeps: "Base_addRequests2ProcessingQueue s = Inr s' \<Longrightarrow> keeps s s'"
  using trans [OF trans [OF base_intake_upper_keeps base_intake_lower_keeps] peak]
  by (auto simp: Base_addRequests2ProcessingQueue_def note_peak_def result_bind_Inr_iff)

lemma directory_intake_upper_keeps:
  assumes "Directory_intake_upper s = Inr s'"
  shows "keeps s s'"
proof -
  obtain s1 r where pk: "peek_upper s = (s1, r)" by (cases "peek_upper s")
  note k1 = port_keeps(3) [OF pk]
  show ?thesis
  proof (cases "r = None \<or> pop_upper s1 = Inr s'")
    case True
    then show ?thesis using assms pk k1 trans [OF k1 port_keeps(1)] by (auto simp: Directory_intake_upper_def)
  next
    case False
    then obtain m where m: "r = Some m" "addressed_here s1 m"
      using assms pk by (auto simp: Directory_intake_upper_def split: if_splits)
    obtain p m' st where g: "coh_getRequestState (m_protocol s1) (m_data_handler s1) (m_directory s1)
        (m\<lparr>msg_source := UPPER_INTERCONNECT\<rparr>) = Inr (p, m', st)"
      using assms pk m by (auto simp: Directory_intake_upper_def Let_def result_bind_Inr_iff)
    let ?s2 = "s1\<lparr>m_protocol := p\<rparr>"
    note k2 = trans [OF k1 state_lookup [OF g]]
    have "keeps ?s2 s'"
      using assms pk m g queue_then_pop(1) [where s = ?s2] refl
      by (auto simp: Directory_intake_upper_def Let_def split: if_splits prod.splits)
    then show ?thesis by (rule trans [OF k2])
  qed
qed

lemma directory_intake_lower_keeps:
  assumes "Directory_intake_lower s = Inr s'"
  shows "keeps s s'"
  using assms trans [OF port_keeps(4)] trans [OF port_keeps(4) port_keeps(2)] queue_then_pop refl
  by (auto simp: Directory_intake_lower_def Let_def split: prod.splits option.splits if_splits)

lemma note_owner_keeps: "keeps s (note_latest_owner s)"
proof -
  obtain s1 r where pk: "peek_upper s = (s1, r)" by (cases "peek_upper s")
  show ?thesis
    using port_keeps(3) [OF pk] trans [OF port_keeps(3) [OF pk] latest_owner]
    by (cases r) (simp_all add: note_latest_owner_def pk)
qed

lemma replacements_keep:
  assumes "checkReplacements n s = Some (Inr s')"
  shows "keeps s s'"
proof (cases "snd (addressOfLinePendingWB False (m_data_handler s))")
  case None
  then show ?thesis using assms by (auto simp: checkReplacements_def split: prod.splits)
next
  case (Some a)
  obtain s1 i where i: "nextReqId s = Inr (s1, i)"
    using assms Some by (cases "nextReqId s") (auto simp: checkReplacements_def split: prod.splits)
  have s1: "s1 = s\<lparr>next_request_id := next_request_id s + 1\<rparr>" using i by (auto simp: nextReqId_def split: if_splits)
  have config: "array_config (fst (addressOfLinePendingWB b c)) = array_config c" for b c
    by (auto simp: addressOfLinePendingWB_def config_simps split: list.splits)
  obtain q ok where q: "pushBack (eviction_message i a s1) NonReady True (m_processing_queue s1) = (q, ok)" by force
  define c where "c = (if ok then fst (addressOfLinePendingWB True (m_data_handler s1)) else m_data_handler s1)"
  have "pipelineFlushLine n (getAddressKey (s1\<lparr>m_processing_queue := q, m_data_handler := c\<rparr>) a)
      (s1\<lparr>m_processing_queue := q, m_data_handler := c\<rparr>) = Some (Inr s')"
    using assms Some i q by (cases "addressOfLinePendingWB False (m_data_handler s)") (simp add: checkReplacements_def Let_def c_def)
  note flush = flush_keeps [OF this]
  have "array_config c = array_config (m_data_handler (s1\<lparr>m_processing_queue := q\<rparr>))" by (simp add: c_def config)
  note hk = handler [OF this]
  have "keeps s s1" unfolding s1 by (rule request_id)
  then show ?thesis using trans [OF trans [OF trans [OF _ queue] hk] flush] by blast
qed

lemma intake_keeps:
  assumes "addRequests2ProcessingQueue n s = Some (Inr s')"
  shows "keeps s s'"
proof -
  have rest: "\<exists>s1. r = Inr s1 \<and> keeps s1 s'" if "fuel_bind (Some r) (checkReplacements n) = Some (Inr s')" for r
    using that replacements_keep by (cases r) auto
  show ?thesis
  proof (cases "c_kind s")
    case DirectoryController
    then obtain s1 s2 where "Directory_intake_upper s = Inr s1" "Directory_intake_lower s1 = Inr s2" "keeps s2 s'"
      using assms rest by (auto simp: addRequests2ProcessingQueue_def result_bind_Inr_iff dest!: rest)
    then show ?thesis using directory_intake_upper_keeps directory_intake_lower_keeps trans by blast
  next
    case End2EndController
    then show ?thesis
      using assms trans [OF note_owner_keeps trans [OF base_intake_keeps]]
      by (auto simp: addRequests2ProcessingQueue_def dest!: rest)
  qed (use assms trans [OF base_intake_keeps] in \<open>auto simp: addRequests2ProcessingQueue_def dest!: rest\<close>)
qed

lemma cycle_keeps:
  assumes "cycleProcess n s = Some (Inr s')"
  shows "keeps s s'"
proof -
  let ?s0 = "s\<lparr>m_data_handler := updateCycle (m_cache_cycle s) (m_data_handler s)\<rparr>"
  have k0: "keeps s ?s0" by (rule handler) (simp add: config_simps)
  obtain s1 where s1: "keeps ?s0 s1" "fuel_bind (processLogic n s1) (\<lambda>s2. Some (Inr (s2\<lparr>m_cache_cycle := m_cache_cycle s2 + 1\<rparr>)))
      = Some (Inr s')"
  proof (cases "pipelinedArray ?s0")
    case True
    then show ?thesis using assms that step_keeps [of n ?s0]
      by (auto simp: cycleProcess_def fuel_bind_def split: option.splits sum.splits)
  next
    case False
    then show ?thesis using assms that buffer_keeps [of ?s0]
      by (auto simp: cycleProcess_def fuel_bind_def split: option.splits sum.splits)
  qed
  then obtain s2 s3 where p: "addRequests2ProcessingQueue n s1 = Some (Inr s2)" "process_loop n s2 = Some (Inr s3)"
    "s' = s3\<lparr>m_cache_cycle := m_cache_cycle s3 + 1\<rparr>"
    by (auto simp: processLogic_def fuel_bind_def split: option.splits sum.splits)
  show ?thesis
    unfolding p(3) by (rule trans [OF k0 trans [OF s1(1) trans [OF intake_keeps [OF p(1)] trans [OF loop_keeps [OF p(2)] cycle]]]])
qed

end

section \<open>The tables of a controller\<close>

text \<open>A map from lines to the messages that wait for them.\<close>

definition line_table :: "controller \<Rightarrow> (u64 \<times> message list) list \<Rightarrow> bool" where
  "line_table s t \<longleftrightarrow>
     distinct (map fst t) \<and> (\<forall>x\<in>set t. snd x \<noteq> [] \<and> (\<forall>m\<in>set (snd x). getAddressKey s (addr m) = fst x))"

definition ack_table :: "(u64 \<times> u64) list \<Rightarrow> bool" where
  "ack_table t \<longleftrightarrow> distinct (map fst t) \<and> (\<forall>x\<in>set t. snd x \<noteq> 0)"

definition modifying_table :: "(u64 \<times> message) list \<Rightarrow> bool" where
  "modifying_table t \<longleftrightarrow>
     distinct (map fst t) \<and> (\<forall>x\<in>set t. msg_id (snd x) = fst x \<and> msg_data (snd x) \<noteq> None)"

definition controller_wf :: "controller \<Rightarrow> bool" where
  "controller_wf s \<longleftrightarrow>
     line_table s (m_pending_requests s) \<and> line_table s (m_saved_requests_for_wb s) \<and>
     ack_table (m_ack_counters (m_directory s)) \<and> modifying_table (m_modifying_data_messages s)"

lemma set_update_subset: "x \<in> set (AList.update k v t) \<Longrightarrow> x = (k, v) \<or> x \<in> set t"
  by (induction t) (auto split: if_splits)

lemma set_delete_subset: "x \<in> set (AList.delete k t) \<Longrightarrow> x \<in> set t"
  by (simp add: AList.delete_eq)

lemma line_table_push:
  assumes "line_table s t" and "getAddressKey s (addr m) = k"
  shows "line_table s (push_entry k m t)"
proof -
  have "\<forall>v\<in>set (entry t k). getAddressKey s (addr v) = k"
    using assms(1) by (auto simp: entry_def line_table_def dest!: map_of_SomeD split: option.splits)
  then show ?thesis
    using assms by (auto simp: line_table_def push_entry_def distinct_update dest!: set_update_subset)
qed

lemma table_delete:
  "line_table s t \<Longrightarrow> line_table s (AList.delete k t)"
  "ack_table a \<Longrightarrow> ack_table (AList.delete k a)"
  "modifying_table mt \<Longrightarrow> modifying_table (AList.delete k mt)"
  by (auto simp: line_table_def ack_table_def modifying_table_def distinct_delete dest!: set_delete_subset)

lemma table_update:
  "ack_table a \<Longrightarrow> v \<noteq> 0 \<Longrightarrow> ack_table (AList.update k v a)"
  "modifying_table mt \<Longrightarrow> msg_data m \<noteq> None \<Longrightarrow> modifying_table (AList.update (msg_id m) m mt)"
  by (auto simp: ack_table_def modifying_table_def distinct_update dest!: set_update_subset)

lemma ack_table_add: "ack_table (m_ack_counters d) \<Longrightarrow> ack_table (m_ack_counters (add_acks k v d))"
  by (simp add: add_acks_def Let_def table_delete table_update)

text \<open>The members that are set when the controller is built.\<close>

definition controller_config ::
  "controller \<Rightarrow> controller_kind \<times> int \<times> int \<times> bool \<times> int \<times> int \<times> bool \<times> int list" where
  "controller_config s =
     (c_kind s, c_id s, c_shared_memory_id s, m_perfect_llc s, m_num_mshr s, m_processing_queue_size s,
      m_line_interlock s, m_arbiter_candidates s)"

definition tables_keep :: "controller \<Rightarrow> controller \<Rightarrow> bool" where
  "tables_keep s s' \<longleftrightarrow>
     array_config (m_data_handler s') = array_config (m_data_handler s) \<and> controller_config s' = controller_config s \<and>
     (controller_wf s \<longrightarrow> controller_wf s')"

lemma line_table_cong: "getAddressKey s' = getAddressKey s \<Longrightarrow> line_table s' = line_table s"
  by (simp add: line_table_def fun_eq_iff)

lemma tables_keep_frame:
  assumes "array_config (m_data_handler s') = array_config (m_data_handler s)" "controller_config s' = controller_config s"
    "m_pending_requests s' = m_pending_requests s" "m_saved_requests_for_wb s' = m_saved_requests_for_wb s"
    "m_ack_counters (m_directory s') = m_ack_counters (m_directory s)"
    "m_modifying_data_messages s' = m_modifying_data_messages s"
  shows "tables_keep s s'"
  using assms line_table_cong [OF getAddressKey_config [OF assms(1)]] by (simp add: tables_keep_def controller_wf_def)

lemma tables_keep_tables:
  assumes "s' = s\<lparr>m_pending_requests := pr, m_saved_requests_for_wb := sr, m_directory := d, m_modifying_data_messages := mt\<rparr>"
    "controller_wf s \<Longrightarrow> line_table s pr" "controller_wf s \<Longrightarrow> line_table s sr"
    "controller_wf s \<Longrightarrow> ack_table (m_ack_counters d)" "controller_wf s \<Longrightarrow> modifying_table mt"
  shows "tables_keep s s'"
proof -
  have "line_table s' = line_table s" by (rule line_table_cong) (simp add: assms(1) getAddressKey_def fun_eq_iff)
  then show ?thesis using assms by (auto simp: tables_keep_def controller_wf_def controller_config_def)
qed

interpretation tables: cycle_frame tables_keep
proof unfold_locales
  fix s s' s1 s2 :: controller and m :: message and k v :: u64 and cas
  show "tables_keep s s2" if "tables_keep s s1" "tables_keep s1 s2" using that by (simp add: tables_keep_def)
  show "tables_keep s (Base_addtoPendingRequests m s)"
    unfolding Base_addtoPendingRequests_def
    by (rule tables_keep_tables [where sr = "m_saved_requests_for_wb s" and d = "m_directory s"
          and mt = "m_modifying_data_messages s"])
      (auto simp: controller_wf_def intro: line_table_push)
  show "tables_keep s (saveReqForWriteBack m s)"
    unfolding saveReqForWriteBack_def
    by (rule tables_keep_tables [where pr = "m_pending_requests s" and d = "m_directory s"
          and mt = "m_modifying_data_messages s"])
      (auto simp: controller_wf_def intro: line_table_push)
  show "tables_keep s (s\<lparr>m_pending_requests := AList.delete k (m_pending_requests s)\<rparr>)"
    by (rule tables_keep_tables [where sr = "m_saved_requests_for_wb s" and d = "m_directory s"
          and mt = "m_modifying_data_messages s"])
      (auto simp: controller_wf_def intro: table_delete)
  show "tables_keep s (s\<lparr>m_saved_requests_for_wb := AList.delete k (m_saved_requests_for_wb s)\<rparr>)"
    by (rule tables_keep_tables [where pr = "m_pending_requests s" and d = "m_directory s"
          and mt = "m_modifying_data_messages s"])
      (auto simp: controller_wf_def intro: table_delete)
  show "tables_keep s (s\<lparr>m_modifying_data_messages := AList.delete k (m_modifying_data_messages s)\<rparr>)"
    by (rule tables_keep_tables [where pr = "m_pending_requests s" and sr = "m_saved_requests_for_wb s"
          and d = "m_directory s"])
      (auto simp: controller_wf_def intro: table_delete)
  show "tables_keep s (s\<lparr>m_modifying_data_messages := AList.update (msg_id m) m (m_modifying_data_messages s)\<rparr>)"
    if "msg_data m \<noteq> None"
    by (rule tables_keep_tables [where pr = "m_pending_requests s" and sr = "m_saved_requests_for_wb s"
          and d = "m_directory s"])
      (use that in \<open>auto simp: controller_wf_def intro: table_update\<close>)
  show "tables_keep s (set_directory (add_acks k v) s)"
    unfolding set_directory_def
    by (rule tables_keep_tables [where pr = "m_pending_requests s" and sr = "m_saved_requests_for_wb s"
          and mt = "m_modifying_data_messages s"])
      (auto simp: controller_wf_def intro: ack_table_add)
  show "tables_keep s s'" if "arrayEnqueue (new_array_op ACTIONS m cas) s = Inr s'"
    using arrayEnqueue_frame [OF that] by (auto intro!: tables_keep_frame simp: controller_config_def)
  show "tables_keep s s'" if "stall m s = Inr s'"
    using that by (auto simp: stall_def controller_config_def split: prod.splits if_splits intro!: tables_keep_frame)
qed (rule tables_keep_frame; simp add: set_directory_def controller_config_def)+

text \<open>
  A run of a controller: its cycles, and between them whatever the interconnects and the other users of the shared
  counters do.
\<close>

inductive controller_run :: "controller \<Rightarrow> controller \<Rightarrow> bool" where
  start: "controller_run s s"
| cycle: "controller_run s s1 \<Longrightarrow> cycleProcess n s1 = Some (Inr s2) \<Longrightarrow> controller_run s s2"
| traffic: "controller_run s s1 \<Longrightarrow>
    controller_run s (s1\<lparr>m_lower_interface := l, m_upper_interface := u, delivery_seq := q, next_request_id := i\<rparr>)"

text \<open>
  C30. The tables of a controller keep their shape in every run, for every class of controller and every protocol:
  a line has at most one list of pending and one of parked requests, a list is never empty and its messages are
  for that line, an acknowledgement counter that is kept is not 0, and a store that waits to modify a line is filed
  under its own number with its bytes. The configuration stays as it was.
\<close>

theorem tables_stay_well_formed:
  assumes "controller_run s s'" and "controller_wf s"
  shows "controller_wf s' \<and> controller_config s' = controller_config s"
proof -
  have "tables_keep s s'"
    using assms(1)
  proof (induction rule: controller_run.induct)
    case (start s)
    show ?case by (rule tables.refl)
  next
    case (cycle s s1 n s2)
    show ?case by (rule tables.trans [OF cycle.IH tables.cycle_keeps [OF cycle.hyps(2)]])
  next
    case (traffic s s1 i q u l)
    have "tables_keep s1 (s1\<lparr>m_lower_interface := l, m_upper_interface := u, delivery_seq := q, next_request_id := i\<rparr>)"
      by (rule tables_keep_frame) (simp_all add: controller_config_def)
    from tables.trans [OF traffic.IH this] show ?case .
  qed
  then show ?thesis using assms(2) by (simp add: tables_keep_def)
qed

definition example_cycle :: controller where
  "example_cycle =
     example_pending\<lparr>m_processing_queue :=
       (new_FRFCFS 8 (NOT 63) True)\<lparr>m_buffer := [new_element (new_message 4 8 0 0 0) NonReady]\<rparr>\<rparr>"

theorem tables_stay_well_formed_witness:
  "\<exists>s'. cycleProcess 5 example_cycle = Some (Inr s') \<and> controller_wf s' \<and> m_num_mshr s' = 1"
proof -
  have "case cycleProcess 5 example_cycle of None \<Rightarrow> False | Some r \<Rightarrow> (case r of Inl e \<Rightarrow> False | Inr s' \<Rightarrow> True)"
    by code_simp
  then obtain s' where s': "cycleProcess 5 example_cycle = Some (Inr s')"
    by (auto split: option.splits sum.splits)
  have "controller_wf example_cycle" "m_num_mshr example_cycle = 1" by code_simp+
  moreover have "controller_run example_cycle s'" by (rule controller_run.cycle [OF controller_run.start s'])
  ultimately show ?thesis using tables_stay_well_formed [of example_cycle s'] s' by (auto simp: controller_config_def)
qed

section \<open>A cycle ends\<close>

lemma stall_table_index:
  "stall_table k r \<Longrightarrow> ids_index ''Stall'' (m_actionIds r) = (m, i) \<Longrightarrow> stall_table k (r\<lparr>m_actionIds := m\<rparr>)"
  by (auto simp: stall_table_def stall_is_zero_def ids_index_def update_conv' split: option.splits)

lemma isStall_table: "isStall st ev r = Inr (r', b) \<Longrightarrow> stall_table k r \<Longrightarrow> stall_table k r'"
  by (cases "ids_index ''Stall'' (m_actionIds r)") (auto simp: isStall_def result_bind_Inr_iff dest: stall_table_index)

lemma state_lookup_sane:
  assumes "coh_getRequestState p c d m = Inr (p', m', st)" and "stall_sane k p"
  shows "stall_sane k p'"
proof (cases p)
  case (Directory dp)
  then obtain dp' where dp': "directory_getRequestState dp c d m = Inr (dp', st)" "p' = Directory dp'"
    using assms(1) by (auto simp: coh_getRequestState_def result_bind_Inr_iff)
  then have "dp' = dp \<or> (\<exists>st' ev b r. isStall st' ev (d_fsm dp) = Inr (r, b) \<and> dp' = dp\<lparr>d_fsm := r\<rparr>)"
    by (auto simp: directory_getRequestState_def result_bind_Inr_iff split: if_splits)
  then show ?thesis using assms(2) dp'(2) Directory isStall_table by (auto simp: stall_sane_def)
next
  case (Snooping sp)
  then obtain sp' where sp': "getRequestState sp c m = Inr (sp', m', st)" "p' = Snooping sp'"
    using assms(1) by (auto simp: coh_getRequestState_def result_bind_Inr_iff)
  then have "sp' = sp \<or> (\<exists>st' ev b r. isStall st' ev (m_fsm sp) = Inr (r, b) \<and> sp' = sp\<lparr>m_fsm := r\<rparr>)"
    by (auto simp: getRequestState_def stall_check_def result_bind_Inr_iff split: if_splits)
  then show ?thesis using assms(2) sp'(2) Snooping isStall_table by (auto simp: stall_sane_def)
qed

definition sane_keeps :: "controller \<Rightarrow> controller \<Rightarrow> bool" where
  "sane_keeps s s' \<longleftrightarrow>
     array_config (m_data_handler s') = array_config (m_data_handler s) \<and>
     (\<forall>k. stall_sane k (m_protocol s) \<longrightarrow> stall_sane k (m_protocol s'))"

interpretation sane: cycle_frame sane_keeps
proof unfold_locales
  fix s s' s1 s2 :: controller and m m' :: message and cas p b st fs
  show "sane_keeps s s'" if "arrayEnqueue (new_array_op ACTIONS m cas) s = Inr s'"
    using arrayEnqueue_frame [OF that] by (auto simp: sane_keeps_def)
  show "sane_keeps s (s\<lparr>m_protocol := p\<rparr>)" if "coh_isReadableState (m_protocol s) st = Inr (p, b)"
    using readable_sane [OF that] by (simp add: sane_keeps_def)
  show "sane_keeps s (s\<lparr>m_protocol := p\<rparr>)"
    if "coh_getRequestState (m_protocol s) (m_data_handler s) (m_directory s) m = Inr (p, m', fs)"
    using state_lookup_sane [OF that] by (simp add: sane_keeps_def)
  show "sane_keeps s s'" if "stall m s = Inr s'"
    using that by (auto simp: stall_def sane_keeps_def split: prod.splits if_splits)
qed (auto simp: sane_keeps_def Base_addtoPendingRequests_def saveReqForWriteBack_def set_directory_def)

text \<open>More fuel does not change a result.\<close>

lemma step_loop_mono: "pipelineStep_loop n s = Some r \<Longrightarrow> n \<le> n' \<Longrightarrow> pipelineStep_loop n' s = Some r"
proof (induction n arbitrary: s n')
  case 0
  then show ?case by simp
next
  case (Suc n)
  from Suc.prems(2) obtain k where k: "n' = Suc k" "n \<le> k" by (cases n') auto
  show ?case
  proof (cases "first_index (op_due s) (m_array_ops s)")
    case None
    then show ?thesis using Suc.prems k by simp
  next
    case (Some i)
    show ?thesis
    proof (cases "pipelineFire (m_array_ops s ! i) (s\<lparr>m_array_ops := erase_at i (m_array_ops s)\<rparr>)")
      case (Inl e)
      moreover from this have "r = Inl e" using Suc.prems(1) Some by simp
      ultimately show ?thesis using Some k(1) by simp
    next
      case (Inr s1)
      then have "pipelineStep_loop n s1 = Some r" using Suc.prems(1) Some by simp
      from Suc.IH [OF this k(2)] show ?thesis using Inr Some k(1) by simp
    qed
  qed
qed

lemma flush_mono: "pipelineFlushLine n key s = Some r \<Longrightarrow> n \<le> n' \<Longrightarrow> pipelineFlushLine n' key s = Some r"
proof (induction n arbitrary: s n')
  case 0
  then show ?case by simp
next
  case (Suc n)
  from Suc.prems(2) obtain k where k: "n' = Suc k" "n \<le> k" by (cases n') auto
  show ?case
  proof (cases "first_index (\<lambda>op. getAddressKey s (addr (op_msg op)) = key) (m_array_ops s)")
    case None
    then show ?thesis using Suc.prems k by simp
  next
    case (Some i)
    show ?thesis
    proof (cases "pipelineFire (m_array_ops s ! i)
        (s\<lparr>m_array_ops := erase_at i (m_array_ops s), m_pipe_early_fires := m_pipe_early_fires s + 1\<rparr>)")
      case (Inl e)
      moreover from this have "r = Inl e" using Suc.prems(1) Some by simp
      ultimately show ?thesis using Some k(1) by simp
    next
      case (Inr s1)
      then have "pipelineFlushLine n key s1 = Some r" using Suc.prems(1) Some by simp
      from Suc.IH [OF this k(2)] show ?thesis using Inr Some k(1) by simp
    qed
  qed
qed

text \<open>\<open>settles f r\<close>: with enough fuel, \<open>f\<close> gives \<open>r\<close>.\<close>

definition settles :: "(nat \<Rightarrow> 'a fuelled) \<Rightarrow> 'a result \<Rightarrow> bool" where
  "settles f r \<longleftrightarrow> (\<exists>N. \<forall>n\<ge>N. f n = Some r)"

lemma settlesI: "(\<And>n. N \<le> n \<Longrightarrow> f n = Some r) \<Longrightarrow> settles f r"
  by (auto simp: settles_def)

lemma settles_bind:
  assumes "settles f r" and "\<And>x. r = Inr x \<Longrightarrow> \<exists>r'. settles (\<lambda>n. g n x) r'"
  shows "\<exists>r'. settles (\<lambda>n. fuel_bind (f n) (g n)) r'"
proof (cases r)
  case (Inl e)
  then have "settles (\<lambda>n. fuel_bind (f n) (g n)) (Inl e)" using assms(1) by (fastforce simp: settles_def)
  then show ?thesis by blast
next
  case (Inr x)
  then obtain r' N' where N': "\<forall>n\<ge>N'. g n x = Some r'" using assms(2) by (auto simp: settles_def)
  obtain N where N: "\<forall>n\<ge>N. f n = Some (Inr x)" using assms(1) Inr by (auto simp: settles_def)
  have "settles (\<lambda>n. fuel_bind (f n) (g n)) r'" by (rule settlesI [of "max N N'"]) (use N N' in simp)
  then show ?thesis by blast
qed

lemma settles_const: "settles (\<lambda>n. Some r) r"
  by (simp add: settles_def)

lemma step_settles:
  assumes "pipelinedArray s"
  shows "\<exists>r. settles (\<lambda>n. pipelineStep n s) r"
  unfolding pipelineStep_def
proof (rule settles_bind [OF settles_const])
  fix s1
  assume adm: "arrayAdmit (s\<lparr>m_array_admitted_this_cycle := 0\<rparr>) = Inr s1"
  then obtain a os k where "s1 = s\<lparr>m_array_admitted_this_cycle := 0, m_data_access_arbiter := a, m_array_ops := os,
      m_array_admitted_this_cycle := k\<rparr>"
    using arrayAdmit_frame by blast
  then have "pipelinedArray s1" using assms by (simp add: pipelinedArray_def)
  then obtain r where "pipelineStep_loop (Suc (length (m_array_ops s1))) s1 = Some r"
    using pipelineStep_loop_spec [of s1 "Suc (length (m_array_ops s1))"] by auto
  then have "settles (\<lambda>n. pipelineStep_loop n s1) r"
    by (intro settlesI [of "Suc (length (m_array_ops s1))"]) (rule step_loop_mono)
  then show "\<exists>r. settles (\<lambda>n. pipelineStep_loop n s1) r" by blast
qed

lemma flush_settles:
  assumes "pipelinedArray s"
  shows "\<exists>r. settles (\<lambda>n. pipelineFlushLine n key s) r"
proof -
  let ?N = "Suc (length (m_array_ops s))"
  obtain r where r: "pipelineFlushLine ?N key s = Some r"
    using pipelineFlushLine_spec [OF assms, of ?N key] by auto
  have "settles (\<lambda>n. pipelineFlushLine n key s) r"
    by (rule settlesI [of ?N]) (rule flush_mono [OF r])
  then show ?thesis by blast
qed

lemma sane_keeps_pipelined: "sane_keeps s s' \<Longrightarrow> pipelinedArray s' = pipelinedArray s"
  using pipelinedArray_config [of s' s] by (simp add: sane_keeps_def)

lemma replacements_settle:
  assumes "pipelinedArray s"
  shows "\<exists>r. settles (\<lambda>n. checkReplacements n s) r"
proof (cases "snd (addressOfLinePendingWB False (m_data_handler s))")
  case None
  then have "checkReplacements n s = Some (Inr s)" for n by (auto simp: checkReplacements_def split: prod.splits)
  then show ?thesis using settles_const [of "Inr s"] by (intro exI [of _ "Inr s"]) simp
next
  case (Some a)
  obtain c0 where wb: "addressOfLinePendingWB False (m_data_handler s) = (c0, Some a)"
    using Some by (cases "addressOfLinePendingWB False (m_data_handler s)") simp
  show ?thesis
    unfolding checkReplacements_def wb prod.case option.case
  proof (rule settles_bind [OF settles_const])
    fix x
    assume x: "nextReqId s = Inr x"
    obtain s1 i where i: "x = (s1, i)" by (cases x)
    have s1: "s1 = s\<lparr>next_request_id := next_request_id s + 1\<rparr>"
      using x i by (auto simp: nextReqId_def split: if_splits)
    obtain q ok where q: "pushBack (eviction_message i a s1) NonReady True (m_processing_queue s1) = (q, ok)" by force
    have "array_config (fst (addressOfLinePendingWB True c)) = array_config c" for c
      by (auto simp: addressOfLinePendingWB_def config_simps split: list.splits)
    then have "pipelinedArray (s1\<lparr>m_processing_queue := q,
        m_data_handler := if ok then fst (addressOfLinePendingWB True (m_data_handler s1)) else m_data_handler s1\<rparr>)"
      using assms by (auto simp: s1 pipelinedArray_def array_config_def)
    from flush_settles [OF this]
    show "\<exists>r. settles (\<lambda>n. case x of (s1, i) \<Rightarrow>
        case pushBack (eviction_message i a s1) NonReady True (m_processing_queue s1) of (q, ok) \<Rightarrow>
          let s2 = s1\<lparr>m_processing_queue := q, m_data_handler := if ok then fst (addressOfLinePendingWB True (m_data_handler s1))
                      else m_data_handler s1\<rparr>
          in pipelineFlushLine n (getAddressKey s2 a) s2) r"
      by (simp add: i q Let_def)
  qed
qed

lemma intake_settles:
  assumes "pipelinedArray s"
  shows "\<exists>r. settles (\<lambda>n. addRequests2ProcessingQueue n s) r"
proof -
  have rest: "\<exists>r'. settles (\<lambda>n. fuel_bind (Some r) (checkReplacements n)) r'"
    if "\<And>s1. r = Inr s1 \<Longrightarrow> sane_keeps s s1" for r
    by (rule settles_bind [OF settles_const]) (use that assms replacements_settle sane_keeps_pipelined in blast)
  have base: "sane_keeps s s1" if "Base_addRequests2ProcessingQueue s = Inr s1" for s1
    by (rule sane.base_intake_keeps [OF that])
  have base2: "sane_keeps s s1" if "Base_addRequests2ProcessingQueue (note_latest_owner s) = Inr s1" for s1
    by (rule sane.trans [OF sane.note_owner_keeps sane.base_intake_keeps [OF that]])
  have dir: "sane_keeps s s1" if "result_bind (Directory_intake_upper s) Directory_intake_lower = Inr s1" for s1
    using that sane.trans [OF sane.directory_intake_upper_keeps sane.directory_intake_lower_keeps]
    by (auto simp: result_bind_Inr_iff)
  show ?thesis
    using rest [OF base] rest [OF base2] rest [OF dir]
    by (cases "c_kind s") (simp_all add: addRequests2ProcessingQueue_def)
qed

text \<open>A function of the fuel that gives a result with enough of it.\<close>

definition returns :: "(nat \<Rightarrow> 'a fuelled) \<Rightarrow> bool" where
  "returns f \<longleftrightarrow> (\<exists>N. \<forall>n\<ge>N. f n \<noteq> None)"

lemma returns_bind:
  assumes "settles f r" and "\<And>x. r = Inr x \<Longrightarrow> returns (\<lambda>n. g n x)"
  shows "returns (\<lambda>n. fuel_bind (f n) (g n))"
proof -
  obtain N where N: "\<And>n. N \<le> n \<Longrightarrow> f n = Some r" using assms(1) by (auto simp: settles_def)
  show ?thesis
  proof (cases r)
    case (Inl e)
    then show ?thesis unfolding returns_def by (intro exI [of _ N]) (simp add: N)
  next
    case (Inr x)
    then obtain N' where "\<And>n. N' \<le> n \<Longrightarrow> g n x \<noteq> None" using assms(2) by (auto simp: returns_def)
    then show ?thesis unfolding returns_def by (intro exI [of _ "max N N'"]) (simp add: N Inr)
  qed
qed

lemma returns_then: "returns f \<Longrightarrow> returns (\<lambda>n. fuel_bind (f n) (\<lambda>x. Some (h x)))"
  by (fastforce simp: returns_def fuel_bind_def split: option.splits sum.splits)

lemma loop_returns:
  assumes "stall_sane k (m_protocol s)"
  shows "returns (\<lambda>n. process_loop n s)"
  unfolding returns_def
proof (intro exI [of _ "Suc (queue_weight k (m_processing_queue s))"] allI impI)
  fix n assume "Suc (queue_weight k (m_processing_queue s)) \<le> n"
  then show "process_loop n s \<noteq> None" using process_loop_ends [OF assms] by simp
qed

text \<open>
  C31. A cycle of a controller with a pipelined array ends: whatever is queued, waiting for the array or arriving,
  there is an amount of fuel from which on the whole cycle gives a result or one of the code's errors. It holds for
  every coherence protocol, private, shared, snooping or directory, the exclusive ones included. Of a private cache's
  table it assumes that the action called \<open>Stall\<close> has the number 0, the one the protocol's switch takes for a
  stall, as in every table the repository ships (\<open>stalls_when_told\<close>); nothing of a shared cache's.
\<close>

theorem cycleProcess_terminates:
  assumes "stalls_when_told (m_protocol s)" and "pipelinedArray s"
  shows "\<exists>N. \<forall>n\<ge>N. cycleProcess n s \<noteq> None"
proof -
  let ?s0 = "s\<lparr>m_data_handler := updateCycle (m_cache_cycle s) (m_data_handler s)\<rparr>"
  obtain k where sane: "stall_sane k (m_protocol s)" using stall_sane_bound [OF assms(1)] by blast
  have k0: "sane_keeps s ?s0" by (simp add: sane_keeps_def config_simps)
  then have p0: "pipelinedArray ?s0" using assms(2) sane_keeps_pipelined by blast
  obtain r1 where r1: "settles (\<lambda>n. pipelineStep n ?s0) r1" using step_settles [OF p0] by blast
  have logic: "returns (\<lambda>n. processLogic n s1)" if "r1 = Inr s1" for s1
  proof -
    have k1: "sane_keeps s s1"
      using r1 that sane.trans [OF k0 sane.step_keeps] by (auto simp: settles_def)
    then have "pipelinedArray s1" using assms(2) sane_keeps_pipelined by blast
    then obtain r2 where r2: "settles (\<lambda>n. addRequests2ProcessingQueue n s1) r2" using intake_settles by blast
    have "returns (\<lambda>n. process_loop n s2)" if "r2 = Inr s2" for s2
      using r2 that sane.trans [OF k1 sane.intake_keeps] sane
      by (intro loop_returns [of k]) (auto simp: settles_def sane_keeps_def)
    from returns_bind [OF r2 this] show ?thesis unfolding processLogic_def .
  qed
  have "returns (\<lambda>n. cycleProcess n s)"
    unfolding cycleProcess_def Let_def if_P [OF p0]
    by (rule returns_bind [OF r1]) (rule returns_then [OF logic])
  then show ?thesis unfolding returns_def .
qed

text \<open>A MESI cache whose queued exclusive data is tested as such and processed as plain data.\<close>

theorem cycleProcess_terminates_witness:
  "map (\<lambda>e. complementary_value (item e)) (m_buffer (m_processing_queue example_exclusive)) = [2] \<and>
   (\<exists>N. \<forall>n\<ge>N. cycleProcess n example_exclusive \<noteq> None)"
proof -
  have "stalls_when_told (m_protocol example_exclusive)" "pipelinedArray example_exclusive"
    "map (\<lambda>e. complementary_value (item e)) (m_buffer (m_processing_queue example_exclusive)) = [2]" by code_simp+
  then show ?thesis using cycleProcess_terminates by blast
qed

end
