(* ===== verification/Cores.thy ===== *)
theory Cores
  imports Sending CacheData "HOL-Library.AList"
begin

text \<open>
  The cores: \<open>CPU\<close> (src/CPU.cpp), which replays an access trace or runs a periodic task, and the text it reads.
  Reports go to a list of rows; the other log records are left out. What a core keeps is in CoreTimetable.
\<close>

section \<open>Reading numbers\<close>

definition digit_of :: "char \<Rightarrow> int" where
  "digit_of c =
     (let n = of_char c :: int in
      if 48 \<le> n \<and> n \<le> 57 then n - 48
      else if 97 \<le> n \<and> n \<le> 122 then n - 87
      else if 65 \<le> n \<and> n \<le> 90 then n - 55 else 99)"

text \<open>The digits of a base at the front of a text: their value and the rest; \<open>None\<close> for no digit.\<close>

fun scan_digits :: "int \<Rightarrow> int \<Rightarrow> string \<Rightarrow> int \<times> string" where
  "scan_digits b acc [] = (acc, [])"
| "scan_digits b acc (c # cs) = (if digit_of c < b then scan_digits b (b * acc + digit_of c) cs else (acc, c # cs))"

definition starts_with_digit :: "int \<Rightarrow> string \<Rightarrow> bool" where
  "starts_with_digit b s \<longleftrightarrow> s \<noteq> [] \<and> digit_of (hd s) < b"

definition hex_prefix :: "string \<Rightarrow> bool" where
  "hex_prefix s \<longleftrightarrow> take 2 s \<in> {''0x'', ''0X''} \<and> starts_with_digit 16 (drop 2 s)"

text \<open>
  An optional sign and the digits, as \<open>strtoull\<close>, \<open>strtoll\<close> and \<open>sscanf\<close> read them: base 16 takes a
  prefix, base 0 chooses the base by the prefix.
\<close>

definition scan_number :: "int \<Rightarrow> string \<Rightarrow> (bool \<times> int \<times> string) option" where
  "scan_number base s =
     (let t = skip_blanks s;
          neg = (t \<noteq> [] \<and> hd t = CHR ''-'');
          u = (if t \<noteq> [] \<and> hd t \<in> {CHR ''-'', CHR ''+''} then tl t else t);
          hex = (base \<in> {0, 16} \<and> hex_prefix u);
          b = (if hex then 16 else if base \<noteq> 0 then base else if u \<noteq> [] \<and> hd u = CHR ''0'' then 8 else 10);
          v = (if hex then drop 2 u else u)
      in if starts_with_digit b v then Some (neg, scan_digits b 0 v) else None)"

definition saturate_unsigned :: "bool \<Rightarrow> int \<Rightarrow> u64" where
  "saturate_unsigned neg n = (if 2 ^ 64 \<le> n then - 1 else if neg then - word_of_int n else word_of_int n)"

definition saturate_signed :: "bool \<Rightarrow> int \<Rightarrow> int" where
  "saturate_signed neg n = (if neg then max (- (2 ^ 63)) (- n) else min (2 ^ 63 - 1) n)"

definition strtoull :: "string \<Rightarrow> u64" where
  "strtoull s = (case scan_number 0 s of None \<Rightarrow> 0 | Some (neg, n, _) \<Rightarrow> saturate_unsigned neg n)"

definition strtoll :: "string \<Rightarrow> int" where
  "strtoll s = (case scan_number 0 s of None \<Rightarrow> 0 | Some (neg, n, _) \<Rightarrow> saturate_signed neg n)"

text \<open>
  \<open>sscanf(line, "%llx %*d %c %lld", &addr, &sample_type, &cycle)\<close>: a conversion that fails ends the scan and the
  arguments from there on keep their values.
\<close>

definition scan_sample :: "string \<Rightarrow> u64 \<times> char \<times> u64 \<Rightarrow> u64 \<times> char \<times> u64" where
  "scan_sample line args =
     (case args of (a, ty, cyc) \<Rightarrow>
      (case scan_number 16 line of
         None \<Rightarrow> (a, ty, cyc)
       | Some (neg, n, rest) \<Rightarrow>
           let a' = saturate_unsigned neg n in
           (case scan_number 10 rest of
              None \<Rightarrow> (a', ty, cyc)
            | Some (_, _, rest2) \<Rightarrow>
                (case skip_blanks rest2 of
                   [] \<Rightarrow> (a', ty, cyc)
                 | c # rest3 \<Rightarrow>
                     (case scan_number 10 rest3 of
                        None \<Rightarrow> (a', c, cyc)
                      | Some (neg4, n4, _) \<Rightarrow> (a', c, word_of_int (saturate_signed neg4 n4)))))))"

section \<open>State\<close>

record trace_sample =
  compute_time :: u64
  read_cycle :: u64
  sample_msg :: message

text \<open>
  A row of a task's body. The read ratio, a \<open>double\<close> that is only compared with a draw of 53 bits, is the least
  draw that makes a write.
\<close>

datatype phase =
    COMPUTE u64
  | READ_ONE u64
  | WRITE_ONE u64
  | LINEAR u64 u64 u64 int
  | RANDOM u64 u64 u64 int

text \<open>A row of the job report: index, release, finish, deadline, miss, accesses, skipped, mean and worst latency.\<close>

type_synonym job_row = "u64 \<times> u64 \<times> u64 \<times> u64 \<times> bool \<times> u32 \<times> u64 \<times> u64 \<times> u64"

text \<open>
  The last three members are shared by all cores: \<open>CPU::s_finite_cores_running\<close>, the next request number
  and the reports. \<open>m_workload_file\<close> is \<open>None\<close> when no file is open, else the lines from the read position on.
\<close>

record cpu =
  cpu_id :: int
  m_clk_cycle :: u64
  m_number_of_OoO_requests :: u32
  m_last_received_msg_cycle :: u64
  m_sent_requests :: int
  m_simulation_done :: bool
  m_sample_in_progess :: "trace_sample option"
  m_workload_file :: "string list option"
  cpu_upper_interface :: interface
  m_periodic :: bool
  m_idle :: bool
  m_period :: u64
  m_deadline_rel :: u64
  m_start :: u64
  m_jobs_total :: int
  m_job_index :: u64
  m_job_release :: u64
  m_job_deadline :: u64
  m_trailing_compute :: u64
  m_missed_deadlines :: u64
  m_job_accesses :: u32
  m_job_lat_sum :: u64
  m_job_lat_max :: u64
  m_issue_cycle :: "(u64 \<times> u64) list"
  m_job_first_access :: bool
  m_body :: "phase list"
  m_job_samples :: "trace_sample list"
  m_job_next :: nat
  m_rng :: u64
  s_finite_cores_running :: int
  cpu_next_id :: int
  job_reports :: "job_row list"

definition new_CPU :: "int \<Rightarrow> u32 \<Rightarrow> interface \<Rightarrow> int \<Rightarrow> int \<Rightarrow> cpu" where
  "new_CPU i ooo itf running next_id =
     \<lparr> cpu_id = i, m_clk_cycle = 1, m_number_of_OoO_requests = ooo, m_last_received_msg_cycle = 0,
       m_sent_requests = 0, m_simulation_done = False, m_sample_in_progess = None, m_workload_file = None,
       cpu_upper_interface = itf, m_periodic = False, m_idle = False, m_period = 0, m_deadline_rel = 0, m_start = 0,
       m_jobs_total = 0, m_job_index = 0, m_job_release = 0, m_job_deadline = 0, m_trailing_compute = 0,
       m_missed_deadlines = 0, m_job_accesses = 0, m_job_lat_sum = 0, m_job_lat_max = 0, m_issue_cycle = [],
       m_job_first_access = True, m_body = [], m_job_samples = [], m_job_next = 0, m_rng = 0,
       s_finite_cores_running = running, cpu_next_id = next_id, job_reports = [] \<rparr>"

definition cpu_nextReqId :: "cpu \<Rightarrow> (cpu \<times> u64) result" where
  "cpu_nextReqId s =
     (if cpu_next_id s = 2 ^ 31 - 1 then Inl (Undefined ''IdGenerator: overflow'')
      else Inr (s\<lparr>cpu_next_id := cpu_next_id s + 1\<rparr>, word_of_int (cpu_next_id s)))"

definition coreDone :: "cpu \<Rightarrow> cpu" where
  "coreDone s =
     s\<lparr>m_simulation_done := True,
       s_finite_cores_running := (if 0 \<le> m_jobs_total s then s_finite_cores_running s - 1 else s_finite_cores_running s)\<rparr>"

section \<open>Task programs\<close>

fun split_commas :: "string \<Rightarrow> string \<Rightarrow> string list" where
  "split_commas acc [] = (if acc = [] then [] else [acc])"
| "split_commas acc (c # cs) = (if c = CHR '','' then acc # split_commas [] cs else split_commas (acc @ [c]) cs)"

definition columns :: "string \<Rightarrow> string list" where
  "columns line = (let cs = split_commas [] line in cs @ replicate (5 - length cs) [])"

text \<open>\<open>ratio\<close> is what \<open>atof\<close> makes of the fifth column, as the least draw that makes a write.\<close>

definition load_attr :: "string \<Rightarrow> string \<Rightarrow> cpu \<Rightarrow> cpu option" where
  "load_attr name v s =
     (if name = ''period'' then Some (s\<lparr>m_period := strtoull v\<rparr>)
      else if name = ''jobs'' then Some (s\<lparr>m_jobs_total := strtoll v\<rparr>)
      else if name = ''ooo'' then Some (s\<lparr>m_number_of_OoO_requests := ucast (strtoull v)\<rparr>)
      else if name = ''deadline'' then Some (s\<lparr>m_deadline_rel := strtoull v\<rparr>)
      else if name = ''start'' then Some (s\<lparr>m_start := strtoull v\<rparr>)
      else if name = ''base'' then Some s
      else None)"

definition load_phase :: "(string \<Rightarrow> int) \<Rightarrow> string list \<Rightarrow> phase option" where
  "load_phase ratio col =
     (let num = (\<lambda>i. strtoull (col ! i)); rd = (if col ! 4 = [] then 2 ^ 53 else ratio (col ! 4)) in
      if col ! 0 = ''COMPUTE'' then Some (COMPUTE (num 1))
      else if col ! 0 = ''READ'' then Some (READ_ONE (num 1))
      else if col ! 0 = ''WRITE'' then Some (WRITE_ONE (num 1))
      else if col ! 0 = ''LINEAR'' then Some (LINEAR (num 1) (num 2) (num 3) rd)
      else if col ! 0 = ''RANDOM'' then Some (RANDOM (num 1) (num 2) (num 3) rd)
      else None)"

text \<open>A line without its carriage return; blank lines and comments are skipped.\<close>

definition strip_return :: "string \<Rightarrow> string" where
  "strip_return l = (if l \<noteq> [] \<and> last l = CHR 0x0D then butlast l else l)"

definition skipped_line :: "string \<Rightarrow> bool" where
  "skipped_line l =
     (case dropWhile (\<lambda>c. c = CHR '' '' \<or> c = CHR 0x09) l of [] \<Rightarrow> True | c # _ \<Rightarrow> c = CHR ''#'')"

fun load_rows :: "(string \<Rightarrow> int) \<Rightarrow> string list \<Rightarrow> cpu \<Rightarrow> cpu option" where
  "load_rows ratio [] s = Some s"
| "load_rows ratio (l # ls) s =
     (let line = strip_return l; col = columns line in
      if skipped_line line \<or> col ! 0 = ''kind'' then load_rows ratio ls s
      else if col ! 0 = ''attr''
      then (case load_attr (col ! 1) (col ! 2) s of None \<Rightarrow> None | Some s' \<Rightarrow> load_rows ratio ls s')
      else (case load_phase ratio col of
              None \<Rightarrow> None
            | Some ph \<Rightarrow> load_rows ratio ls (s\<lparr>m_body := m_body s @ [ph]\<rparr>)))"

definition loadTask :: "(string \<Rightarrow> int) \<Rightarrow> string list \<Rightarrow> cpu \<Rightarrow> cpu option" where
  "loadTask ratio ls s =
     (case load_rows ratio ls (s\<lparr>m_periodic := True, m_deadline_rel := 0\<rparr>) of
        None \<Rightarrow> None
      | Some s1 \<Rightarrow>
          if 0 \<le> m_jobs_total s1 \<and> m_period s1 = 0 then None
          else let s2 = s1\<lparr>m_deadline_rel := if m_deadline_rel s1 = 0 then m_period s1 else m_deadline_rel s1\<rparr>
            in Some (s2\<lparr>m_period := if m_jobs_total s2 < 0 \<and> m_period s2 = 0 then 1 else m_period s2\<rparr>))"

text \<open>
  The constructor's choice of workload: a task program, an access trace (whose file may be missing), or nothing.
\<close>

datatype workload = Task_program "string list option" | Access_trace "string list option" | No_workload

definition attach_workload :: "(string \<Rightarrow> int) \<Rightarrow> workload \<Rightarrow> cpu \<Rightarrow> cpu result" where
  "attach_workload ratio w s =
     result_bind
       (case w of
          Task_program f \<Rightarrow>
            (case f of
               None \<Rightarrow> Inl (Exit ''CPU: cannot read task program'')
             | Some ls \<Rightarrow> (case loadTask ratio ls s of
                   None \<Rightarrow> Inl (Exit ''CPU: cannot read task program'')
                 | Some s' \<Rightarrow> Inr s'))
        | Access_trace f \<Rightarrow> Inr (s\<lparr>m_workload_file := f\<rparr>)
        | No_workload \<Rightarrow> Inr (s\<lparr>m_idle := True\<rparr>))
       (\<lambda>s1. Inr (if \<not> m_idle s1 \<and> 0 \<le> m_jobs_total s1
                  then s1\<lparr>s_finite_cores_running := s_finite_cores_running s1 + 1\<rparr> else s1))"

section \<open>Access traces\<close>

definition READ :: u64 where "READ = 0"

definition WRITE :: u64 where "WRITE = 1"

text \<open>
  \<open>readSampleFromWorkload(Message *)\<close>: \<open>None\<close> when the file has no line left. A message that comes in keeps
  what the scan does not set.
\<close>

definition read_message :: "message \<Rightarrow> cpu \<Rightarrow> (cpu \<times> message option) result" where
  "read_message m s =
     (case m_workload_file s of
        None \<Rightarrow> Inl (Exit ''CPU: Error workload file is not opened!'')
      | Some [] \<Rightarrow> Inr (s, None)
      | Some (l # ls) \<Rightarrow>
          (case scan_sample l (addr m, CHR ''R'', msg_cycle m) of
             (a, ty, cyc) \<Rightarrow>
               result_bind (cpu_nextReqId (s\<lparr>m_workload_file := Some ls\<rparr>)) (\<lambda>(s', i).
                 Inr (s', Some (m\<lparr>addr := a, msg_cycle := cyc,
                        complementary_value := (if ty = CHR ''R'' then READ else WRITE), msg_id := i,
                        owner := word_of_int (cpu_id s), msg_to := msg_to m @ [word_of_int (cpu_id s)]\<rparr>)))))"

text \<open>
  \<open>readSampleFromWorkload(TraceSample *)\<close>: the time between this line and the one before it. The position is put
  back to the second line; at the end of the file the stream has failed and stays so.
\<close>

definition read_sample :: "u64 \<Rightarrow> cpu \<Rightarrow> (cpu \<times> trace_sample option) result" where
  "read_sample now s =
     (case m_workload_file s of
        None \<Rightarrow> Inl (Exit ''CPU: Error workload file is not opened!'')
      | Some [] \<Rightarrow> Inr (s, None)
      | Some (l # ls) \<Rightarrow>
          result_bind (read_message (new_message 0 0 0 0 0) (s\<lparr>m_workload_file := Some ls\<rparr>)) (\<lambda>(s', r).
            case r of
              None \<Rightarrow> Inr (s', None)
            | Some m \<Rightarrow>
                Inr (s'\<lparr>m_workload_file := Some ls\<rparr>,
                     Some \<lparr> compute_time = msg_cycle m - snd (snd (scan_sample l (0, CHR ''R'', 0))),
                            read_cycle = now, sample_msg = m \<rparr>)))"

section \<open>The generator\<close>

text \<open>\<open>rnd\<close> (splitmix64): the result is the second component divided by \<open>2 ^ 53\<close>, exactly.\<close>

definition rnd :: "u64 \<Rightarrow> u64 \<times> int" where
  "rnd rng =
     (let r = rng + 0x9E3779B97F4A7C15;
          z1 = (r XOR drop_bit 30 r) * 0xBF58476D1CE4E5B9;
          z2 = (z1 XOR drop_bit 27 z1) * 0x94D049BB133111EB;
          z3 = z2 XOR drop_bit 31 z2
      in (r, uint (drop_bit 11 z3)))"

function bit_length :: "int \<Rightarrow> nat" where
  "bit_length n = (if n \<le> 0 then 0 else Suc (bit_length (n div 2)))"
  by auto
termination
  by (relation "measure nat") auto

declare bit_length.simps [simp del]

text \<open>A number that is not negative as a \<open>double\<close>: 53 bits, to the nearest, ties to even.\<close>

definition round_double :: "int \<Rightarrow> int" where
  "round_double n =
     (if n < 2 ^ 53 then n
      else let u = 2 ^ (bit_length n - 53); q = n div u; r = n mod u
        in (if u < 2 * r \<or> (u = 2 * r \<and> odd q) then q + 1 else q) * u)"

text \<open>\<open>(uint64_t)(rnd() * lines)\<close>\<close>

definition random_line :: "int \<Rightarrow> u64 \<Rightarrow> int" where
  "random_line draw lines = round_double (draw * round_double (uint lines)) div 2 ^ 53"

section \<open>Jobs\<close>

text \<open>The state of the expansion: the core, the compute budget and the samples so far.\<close>

definition job_access :: "u64 \<Rightarrow> bool \<Rightarrow> cpu \<times> u64 \<times> trace_sample list \<Rightarrow> (cpu \<times> u64 \<times> trace_sample list) result" where
  "job_access a wr acc =
     (case acc of (s, compute, samples) \<Rightarrow>
      result_bind (cpu_nextReqId s) (\<lambda>(s', i).
        Inr (s', 0, samples @ [\<lparr> compute_time = compute, read_cycle = 0,
               sample_msg = (new_message i a 0 (if wr then WRITE else READ) (word_of_int (cpu_id s)))
                 \<lparr>msg_to := [word_of_int (cpu_id s)]\<rparr> \<rparr>])))"

text \<open>The two loops, \<open>n\<close> accesses from the \<open>i\<close>-th on. A random access draws its line first, then its kind.\<close>

fun linear_accesses ::
  "nat \<Rightarrow> u64 \<Rightarrow> u64 \<Rightarrow> u64 \<Rightarrow> int \<Rightarrow> cpu \<times> u64 \<times> trace_sample list \<Rightarrow> (cpu \<times> u64 \<times> trace_sample list) result" where
  "linear_accesses 0 i base stride rd acc = Inr acc"
| "linear_accesses (Suc n) i base stride rd (s, compute, samples) =
     (case rnd (m_rng s) of
        (r, draw) \<Rightarrow>
          result_bind (job_access (base + i * stride) (rd \<le> draw) (s\<lparr>m_rng := r\<rparr>, compute, samples))
            (linear_accesses n (i + 1) base stride rd))"

fun random_accesses ::
  "nat \<Rightarrow> u64 \<Rightarrow> u64 \<Rightarrow> int \<Rightarrow> cpu \<times> u64 \<times> trace_sample list \<Rightarrow> (cpu \<times> u64 \<times> trace_sample list) result" where
  "random_accesses 0 base lines rd acc = Inr acc"
| "random_accesses (Suc n) base lines rd (s, compute, samples) =
     (case rnd (m_rng s) of
        (r1, draw1) \<Rightarrow> (case rnd r1 of
          (r2, draw2) \<Rightarrow>
            result_bind (job_access (base + word_of_int (random_line draw1 lines) * 64) (rd \<le> draw2)
                          (s\<lparr>m_rng := r2\<rparr>, compute, samples))
              (random_accesses n base lines rd)))"

definition phase_step :: "phase \<Rightarrow> cpu \<times> u64 \<times> trace_sample list \<Rightarrow> (cpu \<times> u64 \<times> trace_sample list) result" where
  "phase_step ph acc =
     (case ph of
        COMPUTE a \<Rightarrow> (case acc of (s, compute, samples) \<Rightarrow> Inr (s, compute + a, samples))
      | READ_ONE a \<Rightarrow> job_access a False acc
      | WRITE_ONE a \<Rightarrow> job_access a True acc
      | LINEAR a b c d \<Rightarrow> linear_accesses (unat b) 0 a c d acc
      | RANDOM a b c d \<Rightarrow> random_accesses (unat c) a (max 1 (b div 64)) d acc)"

fun expand_phases :: "phase list \<Rightarrow> cpu \<times> u64 \<times> trace_sample list \<Rightarrow> (cpu \<times> u64 \<times> trace_sample list) result" where
  "expand_phases [] acc = Inr acc"
| "expand_phases (ph # phs) acc = result_bind (phase_step ph acc) (expand_phases phs)"

definition expandJob :: "cpu \<Rightarrow> cpu result" where
  "expandJob s =
     result_bind (expand_phases (m_body s)
        (s\<lparr>m_job_samples := [], m_job_next := 0, m_job_first_access := True, m_job_accesses := 0,
           m_job_lat_sum := 0, m_job_lat_max := 0\<rparr>, 0, []))
       (\<lambda>(s', compute, samples).
          Inr (s'\<lparr>m_job_samples := samples, m_trailing_compute := compute, m_job_accesses := of_nat (length samples)\<rparr>))"

text \<open>
  The loop that skips the periods an overrun swallowed; \<open>k\<close> is below the number of jobs, as an \<open>int64_t\<close>
  (the last guard follows from the one before it, an \<open>int64_t\<close> being at most \<open>2 ^ 63 - 1\<close>).
\<close>

lemma sint_add1:
  assumes "sint (k :: u64) < 2 ^ 63 - 1"
  shows "sint (k + 1) = sint k + 1"
proof -
  have "- (2 ^ 63) \<le> sint k" using sint_ge [of k] by simp
  then have "signed_take_bit 63 (sint k + 1) = sint k + 1"
    using assms by (intro signed_take_bit_int_eq_self) simp_all
  then show ?thesis by (simp add: sint_word_add)
qed

function skip_periods :: "u64 \<Rightarrow> u64 \<Rightarrow> u64 \<Rightarrow> int \<Rightarrow> u64 \<Rightarrow> u64 \<Rightarrow> u64 \<times> u64" where
  "skip_periods start period finish jobs skipped k =
     (if start + k * period + period \<le> finish \<and> sint k < jobs \<and> sint k < 2 ^ 63 - 1
      then skip_periods start period finish jobs (skipped + 1) (k + 1) else (skipped, k))"
  by auto
termination
  by (relation "measure (\<lambda>(start, period, finish, jobs, skipped, k). nat (2 ^ 63 - sint k))") (auto simp: sint_add1)

declare skip_periods.simps [simp del]

definition mean_latency :: "cpu \<Rightarrow> u64" where
  "mean_latency s = (if m_job_accesses s \<noteq> 0 then m_job_lat_sum s div ucast (m_job_accesses s) else 0)"

definition jobReport :: "u64 \<Rightarrow> u64 \<Rightarrow> bool \<Rightarrow> u64 \<Rightarrow> cpu \<Rightarrow> cpu" where
  "jobReport finish deadline miss skipped s =
     s\<lparr>job_reports := job_reports s @ [(m_job_index s, m_job_release s, finish, deadline, miss, m_job_accesses s,
         skipped, mean_latency s, m_job_lat_max s)]\<rparr>"

definition finishJob :: "u64 \<Rightarrow> cpu \<Rightarrow> cpu result" where
  "finishJob finish s =
     (if m_jobs_total s < 0
      then let s1 = (jobReport finish 0 False 0 s)\<lparr>m_job_index := m_job_index s + 1\<rparr> in
        if s_finite_cores_running s1 = 0 then Inr (coreDone s1)
        else expandJob (s1\<lparr>m_job_release := finish\<rparr>)
      else
        let miss = m_job_deadline s < finish;
            skipped = fst (skip_periods (m_start s) (m_period s) finish (m_jobs_total s) 0 (m_job_index s + 1));
            s1 = jobReport finish (m_job_deadline s) miss skipped (s\<lparr>m_missed_deadlines := m_missed_deadlines s + skipped\<rparr>);
            s2 = s1\<lparr>m_job_index := m_job_index s + (1 + skipped)\<rparr> in
        if m_jobs_total s \<le> sint (m_job_index s2) then Inr (coreDone s2)
        else expandJob (s2\<lparr>m_job_release := max finish (m_start s + m_job_index s2 * m_period s),
                           m_job_deadline := m_start s + m_job_index s2 * m_period s + m_deadline_rel s\<rparr>))"

section \<open>The cycle\<close>

text \<open>
  \<open>std::map\<close> from message number to issue cycle, as an association list.
\<close>

definition record_latency :: "u64 \<Rightarrow> cpu \<Rightarrow> cpu" where
  "record_latency i s =
     (case map_of (m_issue_cycle s) i of
        None \<Rightarrow> s
      | Some c \<Rightarrow>
          let lat = m_clk_cycle s - c in
          s\<lparr>m_job_lat_sum := m_job_lat_sum s + lat, m_job_lat_max := max (m_job_lat_max s) lat,
            m_issue_cycle := AList.delete i (m_issue_cycle s)\<rparr>)"

definition checkReceiveBuffer :: "cpu \<Rightarrow> cpu result" where
  "checkReceiveBuffer s =
     (case itf_peekMessage (cpu_upper_interface s) of
        (i, None) \<Rightarrow> Inr (s\<lparr>cpu_upper_interface := i\<rparr>)
      | (i, Some m) \<Rightarrow>
          result_bind (itf_popFrontMessage i) (\<lambda>i'.
            let s1 = s\<lparr>cpu_upper_interface := i'\<rparr>;
                s2 = (if m_periodic s1 then record_latency (msg_id m) s1 else s1);
                s3 = s2\<lparr>m_sent_requests := m_sent_requests s2 - 1\<rparr> in
            if m_sent_requests s3 < 0 then Inl (Exit ''error'')
            else Inr (s3\<lparr>m_last_received_msg_cycle := m_clk_cycle s3\<rparr>)))"

definition may_issue :: "cpu \<Rightarrow> bool" where
  "may_issue s \<longleftrightarrow> (word_of_int (m_sent_requests s) :: u32) < m_number_of_OoO_requests s"

text \<open>
  The end of both logics: the sample is pushed when its compute time is over. \<open>pushMessage\<close> gets the message by
  reference, so that a refused one keeps the fields it was given. \<open>issued\<close> is what a task does after a push.
\<close>

definition issue_sample :: "u64 \<Rightarrow> (cpu \<Rightarrow> cpu result) \<Rightarrow> trace_sample \<Rightarrow> cpu \<Rightarrow> cpu result" where
  "issue_sample base issued x s =
     (let issue_cycle = base + compute_time x in
      if may_issue s \<and> issue_cycle \<le> m_clk_cycle s
      then (case itf_pushMessage (cpu_upper_interface s)
                   ((sample_msg x)\<lparr>msg_cycle := max issue_cycle (read_cycle x), msg_kind := K_DEMAND\<rparr>) 0 REQUEST of
              (i, m, ok) \<Rightarrow>
                if ok
                then result_bind (issued (s\<lparr>cpu_upper_interface := i, m_sample_in_progess := None\<rparr>)) (\<lambda>s1.
                  if m_sent_requests s1 = 2 ^ 31 - 1 then Inl (Undefined ''CPU: m_sent_requests overflows'')
                  else Inr (s1\<lparr>m_sent_requests := m_sent_requests s1 + 1\<rparr>))
                else Inr (s\<lparr>cpu_upper_interface := i, m_sample_in_progess := Some (x\<lparr>sample_msg := m\<rparr>)\<rparr>))
      else Inr s)"

definition processLogic_trace :: "cpu \<Rightarrow> cpu result" where
  "processLogic_trace s =
     (case m_sample_in_progess s of
        Some x \<Rightarrow> issue_sample (m_last_received_msg_cycle s) Inr x s
      | None \<Rightarrow>
          result_bind (read_sample (m_clk_cycle s) s) (\<lambda>(s1, r).
            case r of
              None \<Rightarrow> Inr (if m_sent_requests s1 = 0 then coreDone s1 else s1)
            | Some x \<Rightarrow> issue_sample (m_last_received_msg_cycle s1) Inr x (s1\<lparr>m_sample_in_progess := Some x\<rparr>)))"

text \<open>The bookkeeping of a task: \<open>m_job_samples[m_job_next - 1]\<close> is the sample just issued.\<close>

definition note_issue :: "cpu \<Rightarrow> cpu result" where
  "note_issue s =
     (if m_job_next s = 0 \<or> length (m_job_samples s) < m_job_next s
      then Inl (Undefined ''CPU: m_job_samples out of range'')
      else Inr (s\<lparr>m_issue_cycle :=
             AList.update (msg_id (sample_msg (m_job_samples s ! (m_job_next s - 1)))) (m_clk_cycle s) (m_issue_cycle s),
             m_job_first_access := False\<rparr>))"

definition issue_base :: "cpu \<Rightarrow> u64" where
  "issue_base s = (if m_job_first_access s then m_job_release s else m_last_received_msg_cycle s)"

definition periodicLogic :: "cpu \<Rightarrow> cpu result" where
  "periodicLogic s =
     (if m_clk_cycle s < m_job_release s then Inr s
      else case m_sample_in_progess s of
        Some x \<Rightarrow> issue_sample (issue_base s) note_issue x s
      | None \<Rightarrow>
          if m_job_next s < length (m_job_samples s)
          then let x = (m_job_samples s ! m_job_next s)\<lparr>read_cycle := m_clk_cycle s\<rparr>;
                   s1 = s\<lparr>m_job_next := m_job_next s + 1, m_sample_in_progess := Some x\<rparr>
            in issue_sample (issue_base s1) note_issue x s1
          else if m_sent_requests s = 0
          then let done_at = (if m_job_accesses s \<noteq> 0 then m_last_received_msg_cycle s else m_job_release s)
                     + m_trailing_compute s
            in if m_clk_cycle s < done_at then Inr s else finishJob done_at s
          else Inr s)"

definition cpu_init :: "cpu \<Rightarrow> cpu result" where
  "cpu_init s =
     (if m_idle s then Inr (s\<lparr>m_simulation_done := True\<rparr>)
      else if m_periodic s
      then expandJob (s\<lparr>m_rng := 0x9E3779B97F4A7C15 XOR (word_of_int (cpu_id s) * 0x1234567),
             m_job_index := 0, m_job_release := m_start s, m_job_deadline := m_start s + m_deadline_rel s\<rparr>)
      else result_bind (read_message (new_message 0 0 0 0 0) s) (\<lambda>(s1, r).
        let m = (case r of None \<Rightarrow> new_message 0 0 0 0 0 | Some m \<Rightarrow> m) in
        Inr (s1\<lparr>m_workload_file := m_workload_file s,
                m_sample_in_progess := Some \<lparr> compute_time = msg_cycle m, read_cycle = 0, sample_msg = m \<rparr>\<rparr>)))"

text \<open>The second component is whether the core asks the clock to stop calling it.\<close>

definition CPU_cycleProcess :: "cpu \<Rightarrow> (cpu \<times> bool) result" where
  "CPU_cycleProcess s =
     (if m_simulation_done s then Inr (s, True)
      else result_bind (checkReceiveBuffer s) (\<lambda>s1.
           result_bind (if m_periodic s1 then periodicLogic s1 else processLogic_trace s1) (\<lambda>s2.
             Inr (s2\<lparr>m_clk_cycle := m_clk_cycle s2 + 1\<rparr>, False))))"

section \<open>Random lines\<close>

lemma bit_length_pos: "0 < n \<Longrightarrow> bit_length n = Suc (bit_length (n div 2))"
  by (simp add: bit_length.simps [of n])

lemma bit_length_le: "0 < n \<Longrightarrow> 2 ^ bit_length n \<le> 2 * n"
proof (induction n rule: bit_length.induct)
  case (1 n)
  show ?case
  proof (cases "n = 1")
    case True
    then show ?thesis by (simp add: bit_length.simps)
  next
    case False
    with 1 have "2 ^ bit_length (n div 2) \<le> 2 * (n div 2)" by simp
    with 1 show ?thesis by (simp add: bit_length_pos)
  qed
qed

text \<open>Rounding adds at most half a unit of the last place.\<close>

lemma round_double_upper:
  assumes "2 ^ 53 \<le> n"
  shows "2 * round_double n \<le> 2 * n + 2 ^ (bit_length n - 53)"
proof -
  let ?u = "2 ^ (bit_length n - 53) :: int"
  have "n = n div ?u * ?u + n mod ?u" by (simp only: div_mult_mod_eq)
  moreover have "0 \<le> n mod ?u" by simp
  moreover have "(q + 1) * ?u = q * ?u + ?u" for q by (simp add: distrib_right)
  ultimately show ?thesis using assms unfolding round_double_def Let_def by (smt (verit))
qed

lemma round_double_nonneg: "0 \<le> n \<Longrightarrow> 0 \<le> round_double n"
  by (simp add: round_double_def Let_def pos_imp_zdiv_nonneg_iff)

lemma round_double_id: "n \<le> 2 ^ 53 \<Longrightarrow> round_double n = n"
proof (cases "n = 2 ^ 53")
  case True
  show ?thesis unfolding True by code_simp
qed (simp add: round_double_def)

text \<open>The draw is below 1 and the product is rounded by less than one line.\<close>

lemma random_line_bound:
  assumes "0 \<le> draw" "draw < 2 ^ 53" "0 < lines" "uint lines \<le> 2 ^ 53"
  shows "0 \<le> random_line draw lines \<and> random_line draw lines < uint lines"
proof -
  let ?L = "uint lines" and ?P = "draw * uint lines"
  have L: "0 < ?L" using assms(3) by (simp add: word_less_def)
  have P: "0 \<le> ?P" "?P \<le> 2 ^ 53 * ?L - ?L"
  proof -
    have "?P \<le> (2 ^ 53 - 1) * ?L" using assms L by (intro mult_right_mono) simp_all
    then show "?P \<le> 2 ^ 53 * ?L - ?L" by (simp add: left_diff_distrib)
  qed (use assms L in simp)
  have "0 \<le> round_double ?P \<and> round_double ?P < 2 ^ 53 * ?L"
  proof (cases "?P < 2 ^ 53")
    case True
    then show ?thesis using P L by (simp add: round_double_def)
  next
    case False
    then have big: "2 ^ 53 \<le> ?P" by simp
    have two: "2 ^ bit_length ?P \<le> 2 * ?P" using big by (intro bit_length_le) simp
    have "2 ^ (bit_length ?P - 53) < 2 * ?L"
    proof (cases "53 \<le> bit_length ?P")
      case True
      then have "(2::int) ^ bit_length ?P = 2 ^ 53 * 2 ^ (bit_length ?P - 53)" by (metis le_add_diff_inverse power_add)
      with two P(2) L have "2 ^ 53 * 2 ^ (bit_length ?P - 53) < 2 ^ 53 * (2 * ?L)" by linarith
      then show ?thesis by (rule mult_left_less_imp_less) simp
    qed (use L in simp)
    with round_double_upper [OF big] P have "round_double ?P < 2 ^ 53 * ?L" by linarith
    with P(1) show ?thesis by (simp add: round_double_nonneg)
  qed
  then show ?thesis
    using assms(4) by (auto simp: random_line_def round_double_id div_less_iff_less_mult pos_imp_zdiv_nonneg_iff mult.commute)
qed

lemma rnd_range: "rnd r = (r', d) \<Longrightarrow> 0 \<le> d \<and> d < 2 ^ 53"
proof -
  have "uint (drop_bit 11 (w :: u64)) < 2 ^ 53" for w
    using uint_lt2p [of w] by (simp add: drop_bit_eq_div uint_div div_less_iff_less_mult)
  moreover have "snd (rnd r) = uint (drop_bit 11 w)" if "w = (let r' = r + 0x9E3779B97F4A7C15;
      z1 = (r' XOR drop_bit 30 r') * 0xBF58476D1CE4E5B9; z2 = (z1 XOR drop_bit 27 z1) * 0x94D049BB133111EB
    in z2 XOR drop_bit 31 z2)" for w
    unfolding that by (simp add: rnd_def Let_def)
  ultimately show "rnd r = (r', d) \<Longrightarrow> 0 \<le> d \<and> d < 2 ^ 53" by (metis snd_conv uint_ge_0)
qed


text \<open>The samples of an expansion grow at the end.\<close>

lemma job_access_samples:
  assumes "job_access a wr (s, compute, samples) = Inr (s', compute', samples')"
  shows "\<exists>x. samples' = samples @ [x] \<and> addr (sample_msg x) = a \<and> compute_time x = compute \<and> compute' = 0"
  using assms by (auto simp: job_access_def new_message_def split: prod.splits)

text \<open>
  The accesses of a RANDOM row stay inside its range: with \<open>lines\<close> lines (at most \<open>2 ^ 53\<close>), each of the
  \<open>n\<close> accesses goes to \<open>base + 64 * i\<close> with \<open>i < lines\<close>, whatever the generator draws, although draw and product are
  rounded as doubles.
\<close>

lemma random_accesses_stay_in_range:
  assumes "0 < lines" and "uint lines \<le> 2 ^ 53"
    and "random_accesses n base lines rd (s, compute, samples) = Inr (s', compute', samples')"
  shows "\<exists>new. samples' = samples @ new \<and> length new = n \<and>
    (\<forall>x\<in>set new. \<exists>i. 0 \<le> i \<and> i < uint lines \<and> addr (sample_msg x) = base + word_of_int i * 64)"
  using assms(3)
proof (induction n arbitrary: s compute samples)
  case 0
  then show ?case by simp
next
  case (Suc n)
  obtain r1 d1 where d1: "rnd (m_rng s) = (r1, d1)" by force
  obtain r2 d2 where d2: "rnd r1 = (r2, d2)" by force
  let ?i = "random_line d1 lines"
  obtain s1 c1 samples1 where one: "job_access (base + word_of_int ?i * 64) (rd \<le> d2)
      (s\<lparr>m_rng := r2\<rparr>, compute, samples) = Inr (s1, c1, samples1)"
    and rest: "random_accesses n base lines rd (s1, c1, samples1) = Inr (s', compute', samples')"
    using Suc.prems d1 d2 by (auto simp: result_bind_Inr_iff)
  obtain x where x: "samples1 = samples @ [x]" "addr (sample_msg x) = base + word_of_int ?i * 64"
    using job_access_samples [OF one] by blast
  obtain new where new: "samples' = samples1 @ new" "length new = n"
      "\<forall>x\<in>set new. \<exists>i. 0 \<le> i \<and> i < uint lines \<and> addr (sample_msg x) = base + word_of_int i * 64"
    using Suc.IH [OF rest] by blast
  have "0 \<le> ?i \<and> ?i < uint lines" using rnd_range [OF d1] assms by (intro random_line_bound) auto
  then show ?case using x new by (intro exI [of _ "x # new"]) auto
qed

definition example_core :: cpu where
  "example_core = new_CPU 1 1 (BusI (new_BusInterface 1 8)) 0 1"

lemma random_accesses_stay_in_range_witness:
  "\<exists>s' c' x y. random_accesses 2 0x1000 4 0 (example_core, 5, []) = Inr (s', c', [x, y]) \<and>
     addr (sample_msg x) \<in> {0x1000, 0x1040, 0x1080, 0x10C0} \<and> addr (sample_msg y) \<in> {0x1000, 0x1040, 0x1080, 0x10C0}"
proof -
  have run: "case random_accesses 2 0x1000 4 0 (example_core, 5, []) of Inl e \<Rightarrow> False | Inr r \<Rightarrow> True" by code_simp
  then obtain s' c' xs where r: "random_accesses 2 0x1000 4 0 (example_core, 5, []) = Inr (s', c', xs)"
    by (auto elim!: case_InrE)
  obtain new where new: "xs = [] @ new" "length new = 2"
      "\<forall>x\<in>set new. \<exists>i. 0 \<le> i \<and> i < uint (4 :: u64) \<and> addr (sample_msg x) = 0x1000 + word_of_int i * 64"
    using random_accesses_stay_in_range [OF _ _ r] by auto
  have four: "(0 \<le> i \<and> i < uint (4 :: u64)) = (i \<in> {0, 1, 2, 3})" for i by auto
  have "addr (sample_msg x) \<in> {0x1000, 0x1040, 0x1080, 0x10C0}" if "x \<in> set new" for x
    using bspec [OF new(3) that] unfolding conj_assoc [symmetric] four by auto
  then show ?thesis using r new by (auto simp: length_Suc_conv numeral_2_eq_2)
qed

end
