(* ===== verification/CoreTimetable.thy ===== *)
theory CoreTimetable
  imports Cores
begin

text \<open>
  What a core keeps over its cycles: the timetable of a periodic task, as docs/Tasks.md states it, and the window of
  outstanding requests. Each is a view of the core that the expansion of a job leaves alone (locale \<open>job_frame\<close>).
\<close>

section \<open>What an expansion leaves alone\<close>

text \<open>
  A view of the core that the expansion of a job does not change: it depends on neither the generator, the request
  numbers nor the samples of the job.
\<close>

locale job_frame =
  fixes view :: "cpu \<Rightarrow> 'v"
  assumes next_id: "view (s\<lparr>cpu_next_id := n\<rparr>) = view s"
    and rng: "view (s\<lparr>m_rng := r\<rparr>) = view s"
    and samples: "view (s\<lparr>m_job_samples := xs\<rparr>) = view s"
    and position: "view (s\<lparr>m_job_next := k\<rparr>) = view s"
    and first_access: "view (s\<lparr>m_job_first_access := b\<rparr>) = view s"
    and accesses: "view (s\<lparr>m_job_accesses := a\<rparr>) = view s"
    and latencies: "view (s\<lparr>m_job_lat_sum := c\<rparr>) = view s" "view (s\<lparr>m_job_lat_max := c\<rparr>) = view s"
    and trailing: "view (s\<lparr>m_trailing_compute := c\<rparr>) = view s"
begin

lemma job_access_view:
  "job_access a wr acc = Inr acc' \<Longrightarrow> view (fst acc') = view (fst acc)"
  by (auto simp: job_access_def cpu_nextReqId_def next_id split: prod.splits if_splits)

lemma linear_view:
  "linear_accesses n i base stride rd acc = Inr acc' \<Longrightarrow> view (fst acc') = view (fst acc)"
  by (induction n i base stride rd acc rule: linear_accesses.induct)
    (auto simp: result_bind_Inr_iff rng dest!: job_access_view split: prod.splits)

lemma random_view:
  "random_accesses n base lines rd acc = Inr acc' \<Longrightarrow> view (fst acc') = view (fst acc)"
  by (induction n base lines rd acc rule: random_accesses.induct)
    (auto simp: result_bind_Inr_iff rng dest!: job_access_view split: prod.splits)

lemma phase_view: "phase_step ph acc = Inr acc' \<Longrightarrow> view (fst acc') = view (fst acc)"
  by (auto simp: phase_step_def dest: job_access_view linear_view random_view split: phase.splits prod.splits)

lemma phases_view: "expand_phases phs acc = Inr acc' \<Longrightarrow> view (fst acc') = view (fst acc)"
  by (induction phs acc rule: expand_phases.induct) (auto simp: result_bind_Inr_iff dest: phase_view)

lemma expandJob_view: "expandJob s = Inr s' \<Longrightarrow> view s' = view s"
  by (auto simp: expandJob_def result_bind_Inr_iff samples position first_access accesses latencies trailing
      dest!: phases_view split: prod.splits)

end

definition timetable :: "cpu \<Rightarrow> u64 \<times> u64 \<times> u64 \<times> u64 \<times> job_row list \<times> bool \<times> int" where
  "timetable s = (m_job_index s, m_job_release s, m_job_deadline s, m_missed_deadlines s, job_reports s,
     m_simulation_done s, s_finite_cores_running s)"

interpretation timetable: job_frame timetable
  by unfold_locales (simp_all add: timetable_def)

section \<open>The timetable of a task\<close>

lemma sint_small: "sint k = int (unat k)" if "unat (k :: u64) < 2 ^ 63"
proof -
  have u: "uint k = int (unat k)" by simp
  have "int (unat k) < int (2 ^ 63)" using that by (simp only: of_nat_less_iff)
  then have "uint k < 2 ^ 63" unfolding u by simp
  moreover have "- (2 ^ 63) \<le> uint k" by (rule order_trans [OF _ uint_ge_0]) simp
  ultimately have "signed_take_bit 63 (uint k) = uint k" by (intro signed_take_bit_int_eq_self)
  moreover have "sint k = signed_take_bit 63 (uint k)" unfolding sint_uint by simp
  ultimately show ?thesis unfolding u by simp
qed

text \<open>The start of the \<open>k\<close>-th period.\<close>

definition period_start :: "cpu \<Rightarrow> nat \<Rightarrow> nat" where
  "period_start s k = unat (m_start s) + k * unat (m_period s)"

lemma period_start_mono: "i \<le> k \<Longrightarrow> period_start s i \<le> period_start s k"
  by (simp add: period_start_def)

lemma word_period:
  assumes "period_start s (unat k) < 2 ^ 64"
  shows "unat (m_start s + k * m_period s) = period_start s (unat k)"
proof -
  have "unat (k * m_period s) = unat k * unat (m_period s)"
    using assms unat_mult_lem [of k "m_period s"] by (simp add: period_start_def)
  then show ?thesis using assms unat_add_lem [of "m_start s" "k * m_period s"] by (simp add: period_start_def)
qed

lemma word_window:
  assumes "period_start s (Suc (unat k)) < 2 ^ 64"
  shows "unat (m_start s + k * m_period s + m_period s) = period_start s (Suc (unat k))"
proof -
  have "period_start s (Suc (unat k)) = period_start s (unat k) + unat (m_period s)" by (simp add: period_start_def)
  with assms word_period [of s k] unat_add_lem [of "m_start s + k * m_period s" "m_period s"] show ?thesis by simp
qed

text \<open>The loop finds the first period that is not over, or the end of the task.\<close>

lemma skip_periods_spec:
  assumes fits: "period_start s (Suc (nat jobs)) < 2 ^ 64" and jobs: "0 \<le> jobs" "jobs < 2 ^ 63"
    and "unat k \<le> nat jobs"
    and "skip_periods (m_start s) (m_period s) finish jobs skipped k = (skipped', k')"
  shows "unat k \<le> unat k' \<and> unat k' \<le> nat jobs \<and> skipped' - skipped = k' - k \<and>
    (\<forall>i. unat k \<le> i \<and> i < unat k' \<longrightarrow> period_start s (Suc i) \<le> unat finish) \<and>
    (unat k' < nat jobs \<longrightarrow> unat finish < period_start s (Suc (unat k')))"
  using assms(4,5)
proof (induction "nat jobs - unat k" arbitrary: skipped k rule: less_induct)
  case less
  have win: "unat (m_start s + k * m_period s + m_period s) = period_start s (Suc (unat k))"
    using fits less.prems(1) period_start_mono [of "Suc (unat k)" "Suc (nat jobs)" s] by (intro word_window) simp
  have "unat k < 2 ^ 63" using less.prems(1) jobs by (simp add: nat_less_iff order_le_less_trans)
  then have "sint k = int (unat k)" by (rule sint_small)
  then have k: "sint k < jobs \<longleftrightarrow> unat k < nat jobs" "unat k < nat jobs \<longrightarrow> sint k < 2 ^ 63 - 1"
    using jobs by linarith+
  show ?case
  proof (cases "period_start s (Suc (unat k)) \<le> unat finish \<and> unat k < nat jobs")
    case True
    then have k1: "unat (k + 1) = unat k + 1" using jobs by (intro unat_add1) auto
    have go: "skip_periods (m_start s) (m_period s) finish jobs (skipped + 1) (k + 1) = (skipped', k')"
      using less.prems(2) True k unfolding skip_periods.simps [of "m_start s" _ _ _ _ k] word_le_nat_alt win by simp
    have "nat jobs - unat (k + 1) < nat jobs - unat k" "unat (k + 1) \<le> nat jobs" using True k1 by linarith+
    note ih = less.hyps [OF this go]
    have "period_start s (Suc i) \<le> unat finish" if "unat k \<le> i" "i < unat k'" for i
      using that True ih k1 by (cases "i = unat k") simp_all
    moreover have "x - y = x - (y + 1) + 1" for x y :: u64 by simp
    then have "skipped' - skipped = k' - k" using ih by metis
    ultimately show ?thesis using ih unfolding k1 by (intro conjI allI impI) simp_all
  next
    case False
    then have "skipped' = skipped \<and> k' = k"
      using less.prems(2) k unfolding skip_periods.simps [of "m_start s" _ _ _ _ k] word_le_nat_alt win by auto
    then show ?thesis using False less.prems(1) by auto
  qed
qed

text \<open>
  C36. A finished job of a task with a number of jobs is reported and the next one is scheduled: the periods whose
  whole window was over are skipped, each counted as a missed deadline, until the first period \<open>k\<close> that has not
  ended, or the number of jobs. The row names the job, its release, finish and deadline, and whether it was late.
  The core is done when no job is left; else job \<open>k\<close> is released when its period starts or, after an overrun,
  at once, in any case before its period ends, and is due its relative deadline after the start of the period.
\<close>

theorem finished_job_schedules_next_period:
  assumes "0 \<le> m_jobs_total s" "m_jobs_total s < 2 ^ 63" and "unat (m_job_index s) < nat (m_jobs_total s)"
    and "period_start s (Suc (nat (m_jobs_total s))) + unat (m_deadline_rel s) < 2 ^ 64"
    and "finishJob finish s = Inr s'"
  shows "\<exists>k. unat (m_job_index s) < k \<and> k \<le> nat (m_jobs_total s) \<and>
    (\<forall>i. unat (m_job_index s) < i \<and> i < k \<longrightarrow> period_start s (Suc i) \<le> unat finish) \<and>
    unat (m_job_index s') = k \<and>
    m_missed_deadlines s' = m_missed_deadlines s + of_nat (k - Suc (unat (m_job_index s))) \<and>
    job_reports s' = job_reports s @ [(m_job_index s, m_job_release s, finish, m_job_deadline s,
      m_job_deadline s < finish, m_job_accesses s, of_nat (k - Suc (unat (m_job_index s))), mean_latency s, m_job_lat_max s)] \<and>
    (if k = nat (m_jobs_total s)
     then m_simulation_done s' \<and> s_finite_cores_running s' = s_finite_cores_running s - 1
     else m_simulation_done s' = m_simulation_done s \<and> unat finish < period_start s (Suc k) \<and>
       unat (m_job_release s') = max (unat finish) (period_start s k) \<and>
       unat (m_job_deadline s') = period_start s k + unat (m_deadline_rel s))"
proof -
  let ?j = "m_job_index s" and ?jobs = "m_jobs_total s"
  obtain sk k where skip: "skip_periods (m_start s) (m_period s) finish ?jobs 0 (?j + 1) = (sk, k)" by force
  have total: "nat ?jobs < 2 ^ 63" using assms(1,2) by (simp add: nat_less_iff)
  have "unat ?j + 1 < 2 ^ 64" using assms(3) total by simp
  then have j1: "unat (?j + 1) = Suc (unat ?j)" by (simp add: unat_add1)
  have fits: "period_start s (Suc (nat ?jobs)) < 2 ^ 64" using assms(4) by simp
  have "unat (?j + 1) \<le> nat ?jobs" using assms(3) j1 by simp
  note spec = skip_periods_spec [OF fits assms(1,2) this skip, unfolded j1]
  have sk: "sk = k - (?j + 1)" using spec by simp
  then have index: "?j + (1 + sk) = k" by simp
  have sk_nat: "sk = of_nat (unat k - Suc (unat ?j))"
    using spec unfolding sk by (simp add: of_nat_diff)
  have last: "?jobs \<le> sint k \<longleftrightarrow> unat k = nat ?jobs"
  proof -
    have "sint k = int (unat k)" using spec total by (intro sint_small) simp
    then show ?thesis using spec assms(1) by linarith
  qed
  show ?thesis
  proof (cases "unat k = nat ?jobs")
    case True
    then show ?thesis
      using assms(1,5) spec skip last index sk_nat
      by (intro exI [of _ "unat k"]) (auto simp: finishJob_def jobReport_def coreDone_def mean_latency_def Let_def)
  next
    case False
    have "period_start s (unat k) \<le> period_start s (Suc (nat ?jobs))" using spec by (intro period_start_mono) simp
    then have bound: "period_start s (unat k) + unat (m_deadline_rel s) < 2 ^ 64" using assms(4) by simp
    then have start: "unat (m_start s + k * m_period s) = period_start s (unat k)" by (intro word_period) simp
    have deadline: "unat (m_start s + k * m_period s + m_deadline_rel s) = period_start s (unat k) + unat (m_deadline_rel s)"
      using bound unat_add_lem [of "m_start s + k * m_period s" "m_deadline_rel s"] start by simp
    have "timetable s' = (k, max finish (m_start s + k * m_period s), m_start s + k * m_period s + m_deadline_rel s,
        m_missed_deadlines s + sk, job_reports s @ [(?j, m_job_release s, finish, m_job_deadline s, m_job_deadline s < finish,
          m_job_accesses s, sk, mean_latency s, m_job_lat_max s)], m_simulation_done s, s_finite_cores_running s)"
      using assms(1,5) skip last False index
      by (auto simp: finishJob_def jobReport_def Let_def timetable_def mean_latency_def
          dest!: timetable.expandJob_view [unfolded timetable_def])
    moreover have "unat (max finish (m_start s + k * m_period s)) = max (unat finish) (period_start s (unat k))"
      using start by (simp add: max_def word_le_nat_alt)
    ultimately show ?thesis
      using spec False deadline sk_nat by (intro exI [of _ "unat k"]) (auto simp: timetable_def)
  qed
qed

definition example_task :: cpu where
  "example_task = example_core\<lparr>m_periodic := True, m_period := 100, m_deadline_rel := 80, m_start := 10, m_jobs_total := 6,
     m_job_index := 1, m_job_release := 110, m_job_deadline := 190, m_job_accesses := 2, m_job_lat_sum := 50,
     m_job_lat_max := 30, m_body := [COMPUTE 5, READ_ONE 0x40]\<rparr>"

theorem finished_job_schedules_next_period_witness:
  "\<exists>s'. finishJob 415 example_task = Inr s' \<and> unat (m_job_index s') = 4 \<and> unat (m_job_release s') = 415 \<and>
     unat (m_job_deadline s') = 490"
proof -
  have run: "case finishJob 415 example_task of Inl e \<Rightarrow> False | Inr s' \<Rightarrow> m_job_index s' = 4" by code_simp
  obtain s' where s': "finishJob 415 example_task = Inr s'" "m_job_index s' = 4" using run by (rule case_InrE)
  have e: "m_jobs_total example_task = 6" "m_job_index example_task = 1" "m_deadline_rel example_task = 80"
    "period_start example_task k = 10 + k * 100" for k
    by (simp_all add: example_task_def period_start_def)
  show ?thesis
    using finished_job_schedules_next_period [OF _ _ _ _ s'(1)] s' unfolding e by (auto split: if_splits)
qed

section \<open>The window of outstanding requests\<close>

definition window :: "cpu \<Rightarrow> int \<times> u32 \<times> interface" where
  "window s = (m_sent_requests s, m_number_of_OoO_requests s, cpu_upper_interface s)"

interpretation window: job_frame window
  by unfold_locales (simp_all add: window_def)

definition window_wf :: "cpu \<Rightarrow> bool" where
  "window_wf s \<longleftrightarrow> 0 \<le> m_sent_requests s \<and> m_sent_requests s \<le> uint (m_number_of_OoO_requests s) \<and>
     m_sent_requests s < 2 ^ 31"

text \<open>What a step sends: at most one demand, for which there was room in the window.\<close>

definition sends :: "cpu \<Rightarrow> message list \<Rightarrow> cpu \<Rightarrow> bool" where
  "sends s ms s' \<longleftrightarrow> length ms \<le> 1 \<and> (\<forall>m\<in>set ms. msg_kind m = K_DEMAND) \<and>
     tx_request (cpu_upper_interface s') = tx_request (cpu_upper_interface s) @ ms \<and>
     m_sent_requests s' = m_sent_requests s + int (length ms) \<and>
     m_number_of_OoO_requests s' = m_number_of_OoO_requests s \<and> window_wf s'"

lemma sends_nothing: "window_wf s \<Longrightarrow> window s' = window s \<Longrightarrow> sends s [] s'"
  by (auto simp: sends_def window_def window_wf_def)

lemma sends_from: "sends s1 ms s2 \<Longrightarrow> window s1 = window s \<Longrightarrow> sends s ms s2"
  by (auto simp: sends_def window_def)

lemma window_wf_cong: "window s' = window s \<Longrightarrow> window_wf s' = window_wf s"
  by (simp add: window_def window_wf_def)

lemma push_request:
  assumes "itf_pushMessage i m 0 REQUEST = (i', m', ok)"
  shows "tx_request i' = tx_request i @ (if ok then [m'] else []) \<and> msg_kind m' = msg_kind m"
  using assms
  by (cases i) (auto simp: Triple_pushMessage_def Bus_pushMessage_def Let_def map_prod_def split: prod.splits if_splits)

lemma issue_sends:
  assumes "issue_sample base issued x s = Inr s'" and "window_wf s"
    and "\<And>a b. issued a = Inr b \<Longrightarrow> window b = window a"
  shows "\<exists>ms. sends s ms s'"
proof (cases "may_issue s \<and> base + compute_time x \<le> m_clk_cycle s")
  case False
  then have "s' = s" using assms(1) by (auto simp: issue_sample_def Let_def)
  then show ?thesis using sends_nothing [OF assms(2), of s] by blast
next
  case True
  obtain i m ok where push: "itf_pushMessage (cpu_upper_interface s) ((sample_msg x)\<lparr>msg_cycle :=
      max (base + compute_time x) (read_cycle x), msg_kind := K_DEMAND\<rparr>) 0 REQUEST = (i, m, ok)" by (metis prod_cases3)
  have room: "m_sent_requests s < uint (m_number_of_OoO_requests s)"
  proof -
    have "uint (word_of_int (m_sent_requests s) :: u32) = m_sent_requests s"
      using assms(2) by (simp add: window_wf_def uint_word_of_int_eq take_bit_int_eq_self)
    then show ?thesis using True by (simp add: may_issue_def word_less_def)
  qed
  show ?thesis
  proof (cases ok)
    case True
    then obtain s1 where s1: "issued (s\<lparr>cpu_upper_interface := i, m_sample_in_progess := None\<rparr>) = Inr s1"
        "m_sent_requests s1 \<noteq> 2 ^ 31 - 1" "s' = s1\<lparr>m_sent_requests := m_sent_requests s1 + 1\<rparr>"
      using assms(1) push \<open>may_issue s \<and> _\<close> by (auto simp: issue_sample_def Let_def result_bind_Inr_iff split: if_splits)
    have "sends s [m] s'"
      using assms(2) assms(3) [OF s1(1)] s1(2) push_request [OF push] True room
      by (auto simp: s1(3) sends_def window_def window_wf_def)
    then show ?thesis by blast
  next
    case False
    then have "s' = s\<lparr>cpu_upper_interface := i, m_sample_in_progess := Some (x\<lparr>sample_msg := m\<rparr>)\<rparr>"
      using assms(1) push \<open>may_issue s \<and> _\<close> by (auto simp: issue_sample_def Let_def)
    then have "sends s [] s'" using assms(2) push_request [OF push] False by (auto simp: sends_def window_wf_def)
    then show ?thesis by blast
  qed
qed

lemma next_id_window: "cpu_nextReqId s = Inr (s', i) \<Longrightarrow> window s' = window s"
  by (auto simp: cpu_nextReqId_def window_def split: if_splits)

lemma file_window [simp]: "window (s\<lparr>m_workload_file := f\<rparr>) = window s"
  by (simp add: window_def)

lemma read_message_window: "read_message m s = Inr (s', r) \<Longrightarrow> window s' = window s"
  by (auto simp: read_message_def result_bind_Inr_iff dest!: next_id_window split: option.splits list.splits prod.splits)

lemma read_sample_window: "read_sample now s = Inr (s', r) \<Longrightarrow> window s' = window s"
  by (auto simp: read_sample_def result_bind_Inr_iff dest!: read_message_window split: option.splits list.splits)

lemma note_issue_window: "note_issue s = Inr s' \<Longrightarrow> window s' = window s"
  by (auto simp: note_issue_def window_def split: if_splits)

lemma finishJob_window: "finishJob f s = Inr s' \<Longrightarrow> window s' = window s"
  by (auto simp: finishJob_def jobReport_def coreDone_def window_def Let_def split: if_splits
      dest!: window.expandJob_view [unfolded window_def])

lemma trace_sends:
  assumes "processLogic_trace s = Inr s'" and "window_wf s"
  shows "\<exists>ms. sends s ms s'"
proof (cases "m_sample_in_progess s")
  case (Some x)
  then show ?thesis using assms issue_sends [of _ Inr x s s'] by (auto simp: processLogic_trace_def)
next
  case None
  then obtain s1 r where r: "read_sample (m_clk_cycle s) s = Inr (s1, r)"
    and rest: "(case r of None \<Rightarrow> Inr (if m_sent_requests s1 = 0 then coreDone s1 else s1)
      | Some x \<Rightarrow> issue_sample (m_last_received_msg_cycle s1) Inr x (s1\<lparr>m_sample_in_progess := Some x\<rparr>)) = Inr s'"
    using assms(1) by (auto simp: processLogic_trace_def result_bind_Inr_iff)
  note w = read_sample_window [OF r]
  show ?thesis
  proof (cases r)
    case None
    then have "window s' = window s" using rest w by (auto simp: coreDone_def window_def)
    then show ?thesis using sends_nothing assms(2) by blast
  next
    case (Some x)
    have w2: "window (s1\<lparr>m_sample_in_progess := Some x\<rparr>) = window s" using w by (simp add: window_def)
    then have "window_wf (s1\<lparr>m_sample_in_progess := Some x\<rparr>)" using assms(2) window_wf_cong by blast
    then show ?thesis using rest Some sends_from [OF _ w2] issue_sends by fastforce
  qed
qed

lemma periodic_sends:
  assumes "periodicLogic s = Inr s'" and "window_wf s"
  shows "\<exists>ms. sends s ms s'"
proof -
  have quiet: ?thesis if "window s' = window s" using sends_nothing [OF assms(2) that] by blast
  let ?x = "(m_job_samples s ! m_job_next s)\<lparr>read_cycle := m_clk_cycle s\<rparr>"
  let ?s = "s\<lparr>m_job_next := m_job_next s + 1, m_sample_in_progess := Some ?x\<rparr>"
  have w: "window ?s = window s" by (simp add: window_def)
  consider (quiet) "window s' = window s"
    | (waiting) x where "issue_sample (issue_base s) note_issue x s = Inr s'"
    | (fresh) "issue_sample (issue_base ?s) note_issue ?x ?s = Inr s'"
    using assms(1) by (auto simp: periodicLogic_def Let_def split: if_splits option.splits dest: finishJob_window)
  then show ?thesis
  proof cases
    case waiting
    then show ?thesis using assms(2) issue_sends note_issue_window by blast
  next
    case fresh
    then show ?thesis
      using issue_sends [OF fresh] assms(2) note_issue_window window_wf_cong [OF w] sends_from [OF _ w] by blast
  qed (rule quiet)
qed

text \<open>The requests a cycle takes from the window: one when the interface has a message for a core that runs.\<close>

definition received :: "cpu \<Rightarrow> nat" where
  "received s = (if m_simulation_done s \<or> snd (itf_peekMessage (cpu_upper_interface s)) = None then 0 else 1)"

lemma receive_window:
  assumes "checkReceiveBuffer s = Inr s'" and "\<not> m_simulation_done s" and "window_wf s"
  shows "window_wf s' \<and> m_sent_requests s' = m_sent_requests s - int (received s) \<and>
    m_number_of_OoO_requests s' = m_number_of_OoO_requests s \<and>
    tx_request (cpu_upper_interface s') = tx_request (cpu_upper_interface s)"
proof -
  obtain i r where p: "itf_peekMessage (cpu_upper_interface s) = (i, r)" by force
  have lat: "m_sent_requests (record_latency j a) = m_sent_requests a"
    "m_number_of_OoO_requests (record_latency j a) = m_number_of_OoO_requests a"
    "cpu_upper_interface (record_latency j a) = cpu_upper_interface a" for j a
    by (auto simp: record_latency_def Let_def split: option.splits)
  show ?thesis
    using assms p lat peek_keeps_tx(2) [OF p]
    by (auto simp: checkReceiveBuffer_def received_def window_wf_def result_bind_Inr_iff Let_def
        split: option.splits if_splits dest!: pop_keeps_tx(2))
qed

lemma window_step:
  assumes "window_wf s" and "CPU_cycleProcess s = Inr (s', stop)"
  shows "window_wf s' \<and> m_number_of_OoO_requests s' = m_number_of_OoO_requests s \<and>
    (\<exists>ms. length ms \<le> 1 \<and> (\<forall>m\<in>set ms. msg_kind m = K_DEMAND) \<and>
      tx_request (cpu_upper_interface s') = tx_request (cpu_upper_interface s) @ ms \<and>
      m_sent_requests s' = m_sent_requests s - int (received s) + int (length ms))"
proof (cases "m_simulation_done s")
  case True
  then show ?thesis using assms by (auto simp: CPU_cycleProcess_def window_wf_def received_def)
next
  case False
  then have "result_bind (checkReceiveBuffer s) (\<lambda>s1. result_bind (if m_periodic s1 then periodicLogic s1 else processLogic_trace s1)
      (\<lambda>s2. Inr (s2\<lparr>m_clk_cycle := m_clk_cycle s2 + 1\<rparr>, False))) = Inr (s', stop)"
    using assms(2) by (simp add: CPU_cycleProcess_def)
  then obtain s1 s2 where s1: "checkReceiveBuffer s = Inr s1"
    and s2: "(if m_periodic s1 then periodicLogic s1 else processLogic_trace s1) = Inr s2"
    and s': "s' = s2\<lparr>m_clk_cycle := m_clk_cycle s2 + 1\<rparr>"
    by (elim result_bind_InrE) simp
  note r = receive_window [OF s1 False assms(1)]
  then have "\<exists>ms. sends s1 ms s2"
    using s2 trace_sends [of s1 s2] periodic_sends [of s1 s2] by (auto split: if_splits)
  then obtain ms where "sends s1 ms s2" ..
  then show ?thesis using r unfolding s' by (auto simp: sends_def window_wf_def intro!: exI [of _ ms])
qed

text \<open>
  C34. A core never has more requests outstanding than its window: in every cycle, of a trace or of a task, it sends
  at most one request, a demand, the count of the outstanding ones grows by it and shrinks by the answer that came
  in, and stays between 0 and \<open>m_number_of_OoO_requests\<close>.
\<close>

theorem window_is_respected:
  assumes "window_wf s" and "CPU_cycleProcess s = Inr (s', stop)"
  shows "\<exists>ms. length ms \<le> 1 \<and> (\<forall>m\<in>set ms. msg_kind m = K_DEMAND) \<and>
    tx_request (cpu_upper_interface s') = tx_request (cpu_upper_interface s) @ ms \<and>
    m_sent_requests s' = m_sent_requests s - int (received s) + int (length ms) \<and>
    0 \<le> m_sent_requests s' \<and> m_sent_requests s' \<le> uint (m_number_of_OoO_requests s') \<and>
    m_number_of_OoO_requests s' = m_number_of_OoO_requests s"
  using window_step [OF assms] by (auto simp: window_wf_def)

definition waiting_core :: cpu where
  "waiting_core = example_core\<lparr>m_workload_file := Some [''0x40 1 R 3''],
     m_sample_in_progess := Some \<lparr>compute_time = 0, read_cycle = 0, sample_msg = new_message 7 0x40 0 0 1\<rparr>\<rparr>"

theorem window_is_respected_witness:
  "\<exists>s'. CPU_cycleProcess waiting_core = Inr (s', False) \<and> m_sent_requests s' = 1"
proof -
  have run: "case CPU_cycleProcess waiting_core of Inl e \<Rightarrow> False
      | Inr r \<Rightarrow> \<not> snd r \<and> length (tx_request (cpu_upper_interface (fst r))) = 1" by code_simp
  then obtain s' where s': "CPU_cycleProcess waiting_core = Inr (s', False)" "length (tx_request (cpu_upper_interface s')) = 1"
    by (auto elim!: case_InrE)
  have e: "m_sent_requests waiting_core = 0" "tx_request (cpu_upper_interface waiting_core) = []" "received waiting_core = 0"
    by code_simp+
  have "window_wf waiting_core" by code_simp
  from window_is_respected [OF this s'(1)] show ?thesis using s' unfolding e by auto
qed

text \<open>The constructor's state satisfies the invariant, and neither reading the workload nor \<open>init\<close> changes the window.\<close>

lemma init_window:
  assumes "cpu_init s = Inr s'"
  shows "window s' = window s"
proof -
  consider (idle) "m_idle s" | (task) "\<not> m_idle s" "m_periodic s" | (trace) "\<not> m_idle s" "\<not> m_periodic s" by blast
  then show ?thesis
  proof cases
    case idle
    then show ?thesis using assms by (auto simp: cpu_init_def window_def)
  next
    case task
    then show ?thesis using assms by (auto simp: cpu_init_def window_def dest!: window.expandJob_view [unfolded window_def])
  next
    case trace
    then obtain s1 r where "read_message (new_message 0 0 0 0 0) s = Inr (s1, r)" "window s' = window s1"
      using assms by (auto simp: cpu_init_def result_bind_Inr_iff Let_def window_def)
    then show ?thesis using read_message_window by simp
  qed
qed

lemma new_core_window: "window_wf (new_CPU i ooo itf running next_id)"
  by (simp add: window_wf_def new_CPU_def)

text \<open>
  \<open>init\<close> does not look at whether the trace has a line: with an empty one the core still sends a request, for
  address 0, before it is done.
\<close>

lemma empty_trace_issues_a_request:
  "case result_bind (cpu_init (example_core\<lparr>m_workload_file := Some []\<rparr>)) CPU_cycleProcess of
     Inl e \<Rightarrow> False | Inr r \<Rightarrow> map addr (tx_request (cpu_upper_interface (fst r))) = [0]"
  by code_simp

end
