(* ===== verification/Memory.thy ===== *)
theory Memory
  imports Sending ProcessingQueue
begin

text \<open>
  The two models of main memory: the fixed-latency \<open>MainMemoryController\<close> (src/MainMemoryController.cpp) and the
  adaptor to the DRAM simulator, \<open>MCsimInterface\<close> (src/MCsimInterface.cpp). Log records are left out.
\<close>

section \<open>The fixed-latency memory\<close>

record main_memory =
  mem_id :: int
  mem_llc_id :: int
  mem_clk_cycle :: u64
  m_memory_latency :: u32
  mem_read_count :: u64
  mem_write_count :: u64
  mem_lower_interface :: interface
  mem_processing_queue :: frfcfs

definition DEFAULT_MEM_PROCESSING_QUEUE_SIZE :: int where "DEFAULT_MEM_PROCESSING_QUEUE_SIZE = 32"

text \<open>The queue of the memory has no line order and is always rescanned.\<close>

definition new_MainMemoryController :: "int \<Rightarrow> int \<Rightarrow> u32 \<Rightarrow> int option \<Rightarrow> interface \<Rightarrow> main_memory" where
  "new_MainMemoryController i llc latency qsize itf =
     \<lparr> mem_id = i, mem_llc_id = llc, mem_clk_cycle = 1, m_memory_latency = latency, mem_read_count = 0,
       mem_write_count = 0, mem_lower_interface = itf,
       mem_processing_queue =
         new_FRFCFS (case qsize of Some n \<Rightarrow> n | None \<Rightarrow> DEFAULT_MEM_PROCESSING_QUEUE_SIZE) 0 False \<rparr>"

definition Memory_getRequestState :: "main_memory \<Rightarrow> check_state" where
  "Memory_getRequestState s m st =
     Inr (m, if st = NonReady \<and> msg_cycle m + ucast (m_memory_latency s) \<le> mem_clk_cycle s then Ready else NonReady)"

definition Memory_addRequests :: "main_memory \<Rightarrow> main_memory result" where
  "Memory_addRequests s =
     (case itf_peekMessage (mem_lower_interface s) of
        (i, None) \<Rightarrow> Inr (s\<lparr>mem_lower_interface := i\<rparr>)
      | (i, Some m) \<Rightarrow>
          (case pushBack (m\<lparr>msg_source := LOWER_INTERCONNECT, msg_cycle := mem_clk_cycle s\<rparr>) NonReady False
                  (mem_processing_queue s) of
             (q, ok) \<Rightarrow>
               if ok then result_bind (itf_popFrontMessage i) (\<lambda>i'.
                      Inr (s\<lparr>mem_lower_interface := i', mem_processing_queue := q\<rparr>))
               else Inr (s\<lparr>mem_lower_interface := i, mem_processing_queue := q\<rparr>)))"

definition memory_response :: "message \<Rightarrow> main_memory \<Rightarrow> message" where
  "memory_response m s =
     (new_message (msg_id m) (addr m) (mem_clk_cycle s) 0 (owner m))
       \<lparr>msg_to := [word_of_int (mem_llc_id s)], msg_kind := K_FILL, msg_data := Some (replicate 64 0), data_size := 64\<rparr>"

definition Memory_serve :: "message \<Rightarrow> main_memory \<Rightarrow> main_memory result" where
  "Memory_serve m s =
     (if msg_data m = None
      then (case itf_pushMessage (mem_lower_interface s) (memory_response m s) (mem_clk_cycle s) DATA_RESPONSE of
              (i, _, ok) \<Rightarrow>
                if ok then Inr (s\<lparr>mem_read_count := mem_read_count s + 1, mem_lower_interface := i\<rparr>)
                else Inl (Exit ''MainMemoryController: Cannot insert the Msg into the lower interface FIFO, FIFO is Full''))
      else Inr (s\<lparr>mem_write_count := mem_write_count s + 1\<rparr>))"

definition Memory_processLogic :: "main_memory \<Rightarrow> main_memory result" where
  "Memory_processLogic s =
     result_bind (Memory_addRequests s) (\<lambda>s1.
     result_bind (getFirstReady (Memory_getRequestState s1) None (mem_processing_queue s1)) (\<lambda>(q, r).
       let s2 = s1\<lparr>mem_processing_queue := q\<rparr> in
       case r of None \<Rightarrow> Inr s2 | Some m \<Rightarrow> Memory_serve m s2))"

definition Memory_cycleProcess :: "main_memory \<Rightarrow> main_memory result" where
  "Memory_cycleProcess s =
     result_bind (Memory_processLogic s) (\<lambda>s'. Inr (s'\<lparr>mem_clk_cycle := mem_clk_cycle s' + 1\<rparr>))"

section \<open>The adaptor to the DRAM simulator\<close>

record mcsim_interface =
  mc_id :: int
  mc_llc_id :: int
  mc_clk_cycle :: u64
  mc_read_count :: u64
  mc_write_count :: u64
  mc_pending_requests :: "message list"
  mc_output_buffer :: "message list"
  mc_lower_interface :: interface
  mc_processing_queue :: frfcfs

definition new_MCsimInterface :: "int \<Rightarrow> int \<Rightarrow> u64 \<Rightarrow> interface \<Rightarrow> mcsim_interface result" where
  "new_MCsimInterface i llc clk_period itf =
     (if clk_period = 0 then Inl (Exit ''MCsimInterface: clock period must be non-zero'')
      else Inr \<lparr> mc_id = i, mc_llc_id = llc, mc_clk_cycle = 1, mc_read_count = 0, mc_write_count = 0,
                 mc_pending_requests = [], mc_output_buffer = [], mc_lower_interface = itf,
                 mc_processing_queue = new_FRFCFS (- 1) 0 False \<rparr>)"

definition MCsim_addRequests :: "mcsim_interface \<Rightarrow> mcsim_interface result" where
  "MCsim_addRequests s =
     (case itf_peekMessage (mc_lower_interface s) of
        (i, None) \<Rightarrow> Inr (s\<lparr>mc_lower_interface := i\<rparr>)
      | (i, Some m) \<Rightarrow>
          (case pushBack (m\<lparr>msg_source := LOWER_INTERCONNECT, msg_cycle := mc_clk_cycle s\<rparr>) Ready False
                  (mc_processing_queue s) of
             (q, ok) \<Rightarrow>
               if ok then result_bind (itf_popFrontMessage i) (\<lambda>i'.
                      Inr (s\<lparr>mc_lower_interface := i', mc_processing_queue := q\<rparr>))
               else Inr (s\<lparr>mc_lower_interface := i, mc_processing_queue := q\<rparr>)))"

definition MCsim_getRequestState :: check_state where
  "MCsim_getRequestState m st = Inr (m, Ready)"

text \<open>\<open>accepts\<close> is the answer of \<open>m_mcsim->addRequest\<close>.\<close>

definition MCsim_issue :: "(message \<Rightarrow> bool) \<Rightarrow> mcsim_interface \<Rightarrow> mcsim_interface result" where
  "MCsim_issue accepts s =
     result_bind (getFirstReady MCsim_getRequestState None (mc_processing_queue s)) (\<lambda>(q, r).
       let s' = s\<lparr>mc_processing_queue := q\<rparr> in
       case r of
         None \<Rightarrow> Inr s'
       | Some m \<Rightarrow>
           if \<not> accepts m then Inl (Exit ''MCsimInterface: Error failed to add request to MCsim'')
           else if msg_data m = None then Inr (s'\<lparr>mc_pending_requests := mc_pending_requests s' @ [m]\<rparr>)
           else Inr s')"

definition MCsim_send :: "mcsim_interface \<Rightarrow> mcsim_interface result" where
  "MCsim_send s =
     (case mc_output_buffer s of
        [] \<Rightarrow> Inr s
      | m # ms \<Rightarrow>
          (case itf_pushMessage (mc_lower_interface s) m (mc_clk_cycle s) DATA_RESPONSE of
             (i, _, ok) \<Rightarrow>
               if ok then Inr (s\<lparr>mc_lower_interface := i, mc_output_buffer := ms\<rparr>)
               else Inl (Exit ''MCsimInterface: Cannot insert the Msg into the lower interface FIFO, FIFO is Full'')))"

definition MCsim_processLogic :: "(message \<Rightarrow> bool) \<Rightarrow> mcsim_interface \<Rightarrow> mcsim_interface result" where
  "MCsim_processLogic accepts s =
     result_bind (MCsim_addRequests s) (\<lambda>s1. result_bind (MCsim_issue accepts s1) MCsim_send)"

text \<open>
  \<open>read_callback\<close>. The answer is copied from a local of 8 bytes, the number of reads so far, with a size of 64:
  \<open>beyond\<close> are the 56 bytes that lie behind it.
\<close>

definition read_callback :: "u8 list \<Rightarrow> u64 \<Rightarrow> mcsim_interface \<Rightarrow> mcsim_interface result" where
  "read_callback beyond address s =
     (case first_index (\<lambda>m. addr m = address) (mc_pending_requests s) of
        None \<Rightarrow> Inl (Exit ''MCsimInterface: Error read_callback could not find the pending request'')
      | Some i \<Rightarrow>
          let p = mc_pending_requests s ! i;
              bytes = map (\<lambda>j. ucast (drop_bit (8 * j) (mc_read_count s))) [0..<8] @ beyond in
          result_bind (message_copy_data
              ((new_message (msg_id p) (addr p) (mc_clk_cycle s) 0 (owner p))
                 \<lparr>msg_to := [word_of_int (mc_llc_id s)], msg_kind := K_FILL\<rparr>) bytes 64) (\<lambda>m.
            Inr (s\<lparr>mc_read_count := mc_read_count s + 1, mc_output_buffer := mc_output_buffer s @ [m],
                   mc_pending_requests := erase_at i (mc_pending_requests s)\<rparr>)))"

definition write_callback :: "mcsim_interface \<Rightarrow> mcsim_interface" where
  "write_callback s = s\<lparr>mc_write_count := mc_write_count s + 1\<rparr>"

text \<open>\<open>m_mcsim->update()\<close> makes some of the calls; \<open>None\<close> is a completed write.\<close>

fun mcsim_update :: "u8 list \<Rightarrow> u64 option list \<Rightarrow> mcsim_interface \<Rightarrow> mcsim_interface result" where
  "mcsim_update beyond [] s = Inr s"
| "mcsim_update beyond (None # cs) s = mcsim_update beyond cs (write_callback s)"
| "mcsim_update beyond (Some a # cs) s = result_bind (read_callback beyond a s) (mcsim_update beyond cs)"

definition MCsim_cycleProcess ::
  "(message \<Rightarrow> bool) \<Rightarrow> u8 list \<Rightarrow> u64 option list \<Rightarrow> mcsim_interface \<Rightarrow> mcsim_interface result" where
  "MCsim_cycleProcess accepts beyond calls s =
     result_bind (MCsim_processLogic accepts s) (\<lambda>s1.
     result_bind (mcsim_update beyond calls s1) (\<lambda>s2.
       Inr (s2\<lparr>mc_clk_cycle := mc_clk_cycle s2 + 1\<rparr>)))"

section \<open>The latency of the memory\<close>

text \<open>
  Requests enter one per cycle, so their cycles increase; none of the queued ones is overdue: it arrived less than
  the latency ago, or is due in this cycle.
\<close>

definition waiting_cycles :: "main_memory \<Rightarrow> nat list" where
  "waiting_cycles s = map (\<lambda>e. unat (msg_cycle (item e))) (m_buffer (mem_processing_queue s))"

definition plain_queue :: "frfcfs \<Rightarrow> bool" where
  "plain_queue q \<longleftrightarrow>
     (\<forall>e\<in>set (m_buffer q). el_state e = NonReady) \<and> m_line_mask q = 0 \<and> \<not> m_readiness_state_only q"

definition memory_wf :: "main_memory \<Rightarrow> bool" where
  "memory_wf s \<longleftrightarrow>
     plain_queue (mem_processing_queue s) \<and> sorted_wrt (<) (waiting_cycles s) \<and>
     (\<forall>c\<in>set (waiting_cycles s). c < unat (mem_clk_cycle s) \<and> unat (mem_clk_cycle s) \<le> c + unat (m_memory_latency s))"

definition memory_due :: "main_memory \<Rightarrow> message \<Rightarrow> bool" where
  "memory_due s m \<longleftrightarrow> unat (msg_cycle m) + unat (m_memory_latency s) \<le> unat (mem_clk_cycle s)"

definition memory_items :: "main_memory \<Rightarrow> message list" where
  "memory_items s = map item (m_buffer (mem_processing_queue s))"

text \<open>The request a response is for, where it goes and what it carries.\<close>

definition reply_of :: "main_memory \<Rightarrow> message \<Rightarrow> u64 \<times> u64 \<times> u16 list \<times> u8 list option" where
  "reply_of s m = (msg_id m, addr m, [word_of_int (mem_llc_id s)], Some (replicate 64 0))"

lemma waiting_cycles_items: "waiting_cycles s = map (\<lambda>m. unat (msg_cycle m)) (memory_items s)"
  by (simp add: waiting_cycles_def memory_items_def comp_def)

lemma scan_none_due:
  assumes "\<forall>e\<in>set es. el_state e = NonReady \<and> \<not> msg_cycle (item e) + ucast (m_memory_latency s) \<le> mem_clk_cycle s"
  shows "scan_ready (Memory_getRequestState s) None 0 older es = Inr (None, older @ es)"
  using assms
proof (induction es arbitrary: older)
  case (Cons e es)
  have "\<lparr>item = item e, el_state = NonReady\<rparr> = e" using Cons.prems by (cases e) simp
  then show ?case using Cons by (simp add: blocked_by_older_def Memory_getRequestState_def)
qed simp

lemma get_first_due:
  assumes "plain_queue (mem_processing_queue s)" and "\<And>m. m \<in> set (memory_items s) \<Longrightarrow>
      msg_cycle m + ucast (m_memory_latency s) \<le> mem_clk_cycle s \<longleftrightarrow> memory_due s m"
    and "m_buffer (mem_processing_queue s) = e # es"
    and "\<forall>x\<in>set es. \<not> memory_due s (item x)"
  shows "\<exists>q. getFirstReady (Memory_getRequestState s) None (mem_processing_queue s) =
      Inr (q, if memory_due s (item e) then Some (item e) else None) \<and>
    m_buffer q = (if memory_due s (item e) then es else e # es) \<and> m_line_mask q = 0 \<and> \<not> m_readiness_state_only q"
proof (cases "memory_due s (item e)")
  case True
  then show ?thesis
    using assms
    by (auto simp: getFirstReady_def plain_queue_def memory_items_def blocked_by_older_def Memory_getRequestState_def)
next
  case False
  have "\<forall>x\<in>set (e # es). el_state x = NonReady \<and> \<not> msg_cycle (item x) + ucast (m_memory_latency s) \<le> mem_clk_cycle s"
    using assms False by (auto simp: plain_queue_def memory_items_def)
  from scan_none_due [OF this, of "[]"] show ?thesis
    using assms False by (auto simp: getFirstReady_def plain_queue_def)
qed

lemma intake_one:
  assumes "Memory_addRequests s = Inr s1"
  shows "\<exists>acc i q. (acc = [] \<or> (\<exists>m. acc = [m] \<and> msg_cycle m = mem_clk_cycle s)) \<and>
    s1 = s\<lparr>mem_lower_interface := i, mem_processing_queue := q\<rparr> \<and> tx_response i = tx_response (mem_lower_interface s) \<and>
    m_buffer q = m_buffer (mem_processing_queue s) @ map (\<lambda>m. new_element m NonReady) acc \<and>
    (plain_queue (mem_processing_queue s) \<longrightarrow> plain_queue q)"
proof -
  obtain i r where p: "itf_peekMessage (mem_lower_interface s) = (i, r)" by force
  show ?thesis
  proof (cases r)
    case None
    then have "s1 = s\<lparr>mem_lower_interface := i, mem_processing_queue := mem_processing_queue s\<rparr>"
      using assms p by (auto simp: Memory_addRequests_def)
    then show ?thesis
      using peek_keeps_tx [OF p] by (intro exI [of _ "[]"] exI [of _ i] exI [of _ "mem_processing_queue s"]) simp
  next
    case (Some m)
    let ?m = "m\<lparr>msg_source := LOWER_INTERCONNECT, msg_cycle := mem_clk_cycle s\<rparr>"
    obtain q ok where pb: "pushBack ?m NonReady False (mem_processing_queue s) = (q, ok)" by force
    show ?thesis
    proof (cases ok)
      case True
      then obtain i' where i': "itf_popFrontMessage i = Inr i'" "s1 = s\<lparr>mem_lower_interface := i', mem_processing_queue := q\<rparr>"
        using assms p Some pb by (auto simp: Memory_addRequests_def result_bind_Inr_iff)
      have "m_buffer q = m_buffer (mem_processing_queue s) @ map (\<lambda>m. new_element m NonReady) [?m]"
        "plain_queue (mem_processing_queue s) \<longrightarrow> plain_queue q"
        using pb True by (auto simp: pushBack_def plain_queue_def new_element_def split: if_splits)
      then show ?thesis
        using i' peek_keeps_tx [OF p] pop_keeps_tx [OF i'(1)]
        by (intro exI [of _ "[?m]"] exI [of _ i'] exI [of _ q]) simp
    next
      case False
      then have "q = mem_processing_queue s" using pb by (auto simp: pushBack_def split: if_splits)
      moreover have "s1 = s\<lparr>mem_lower_interface := i, mem_processing_queue := q\<rparr>"
        using assms p Some pb False by (simp add: Memory_addRequests_def)
      ultimately show ?thesis
        using peek_keeps_tx [OF p] by (intro exI [of _ "[]"] exI [of _ i] exI [of _ q]) simp
    qed
  qed
qed

lemma unat_ucast_u32: "unat (ucast (w :: u32) :: u64) = unat w"
  by transfer (simp add: take_bit_take_bit min_def)

lemma word_due:
  assumes "unat (mem_clk_cycle s) + unat (m_memory_latency s) < 2 ^ 64" and "unat (msg_cycle m) \<le> unat (mem_clk_cycle s)"
  shows "msg_cycle m + ucast (m_memory_latency s) \<le> mem_clk_cycle s \<longleftrightarrow> memory_due s m"
proof -
  have "unat (ucast (m_memory_latency s) :: u64) = unat (m_memory_latency s)" by (rule unat_ucast_u32)
  moreover have "unat (msg_cycle m) + unat (m_memory_latency s) < 2 ^ 64" using assms by simp
  ultimately have "unat (msg_cycle m + ucast (m_memory_latency s)) = unat (msg_cycle m) + unat (m_memory_latency s)"
    by (simp add: unat_word_ariths)
  then show ?thesis by (simp add: memory_due_def word_le_nat_alt)
qed

text \<open>Serving what is due: the state after the intake, in which only the oldest request can be due.\<close>

lemma serve_due:
  assumes plain: "plain_queue (mem_processing_queue s)"
    and cycles: "sorted_wrt (<) (waiting_cycles s)"
      "\<forall>c\<in>set (waiting_cycles s). c \<le> unat (mem_clk_cycle s) \<and> unat (mem_clk_cycle s) \<le> c + unat (m_memory_latency s)"
    and fits: "unat (mem_clk_cycle s) + unat (m_memory_latency s) < 2 ^ 64"
    and run: "result_bind (getFirstReady (Memory_getRequestState s) None (mem_processing_queue s)) (\<lambda>(q, r).
       let s2 = s\<lparr>mem_processing_queue := q\<rparr> in
       case r of None \<Rightarrow> Inr s2 | Some m \<Rightarrow> Memory_serve m s2) = Inr s'"
  shows "memory_items s' = filter (\<lambda>m. \<not> memory_due s m) (memory_items s) \<and>
    map answer (tx_response (mem_lower_interface s')) = map answer (tx_response (mem_lower_interface s)) @
      map (reply_of s) (filter (\<lambda>m. memory_due s m \<and> msg_data m = None) (memory_items s)) \<and>
    plain_queue (mem_processing_queue s') \<and> mem_clk_cycle s' = mem_clk_cycle s \<and>
    m_memory_latency s' = m_memory_latency s \<and> mem_llc_id s' = mem_llc_id s"
proof (cases "m_buffer (mem_processing_queue s)")
  case Nil
  then show ?thesis
    using run plain by (auto simp: getFirstReady_def memory_items_def plain_queue_def split: if_splits)
next
  case (Cons e es)
  have rest: "\<not> memory_due s (item x)" if "x \<in> set es" for x
  proof -
    have "unat (msg_cycle (item e)) < unat (msg_cycle (item x))"
      using cycles(1) that by (auto simp: waiting_cycles_def Cons)
    moreover have "unat (mem_clk_cycle s) \<le> unat (msg_cycle (item e)) + unat (m_memory_latency s)"
      using cycles(2) by (simp add: waiting_cycles_def Cons)
    ultimately show ?thesis by (simp add: memory_due_def)
  qed
  have check: "msg_cycle m + ucast (m_memory_latency s) \<le> mem_clk_cycle s \<longleftrightarrow> memory_due s m"
    if "m \<in> set (memory_items s)" for m
    using that cycles(2) by (intro word_due [OF fits]) (auto simp: memory_items_def waiting_cycles_def)
  obtain q where q: "getFirstReady (Memory_getRequestState s) None (mem_processing_queue s) =
      Inr (q, if memory_due s (item e) then Some (item e) else None)"
    "m_buffer q = (if memory_due s (item e) then es else e # es)" "m_line_mask q = 0" "\<not> m_readiness_state_only q"
    using get_first_due [OF plain check Cons] rest by auto
  have pq: "plain_queue q" using q plain Cons by (auto simp: plain_queue_def split: if_splits)
  have keep: "filter (\<lambda>m. \<not> memory_due s m) (map item es) = map item es"
    "filter (\<lambda>m. memory_due s m \<and> msg_data m = None) (map item es) = []"
    using rest by (auto simp: filter_map comp_def)
  show ?thesis
  proof (cases "memory_due s (item e)")
    case False
    then have "s' = s\<lparr>mem_processing_queue := q\<rparr>" using run q by simp
    then show ?thesis using q False pq keep by (simp add: memory_items_def Cons)
  next
    case True
    then have serve: "Memory_serve (item e) (s\<lparr>mem_processing_queue := q\<rparr>) = Inr s'" using run q by simp
    show ?thesis
    proof (cases "msg_data (item e)")
      case (Some d)
      then show ?thesis using serve q True pq keep by (auto simp: Memory_serve_def memory_items_def Cons)
    next
      case None
      let ?s = "s\<lparr>mem_processing_queue := q\<rparr>"
      obtain i m' where push: "itf_pushMessage (mem_lower_interface s) (memory_response (item e) ?s) (mem_clk_cycle s) DATA_RESPONSE
          = (i, m', True)" and s': "s' = ?s\<lparr>mem_read_count := mem_read_count s + 1, mem_lower_interface := i\<rparr>"
        using serve None by (auto simp: Memory_serve_def split: prod.splits if_splits)
      have "answer (memory_response (item e) ?s) = reply_of s (item e)"
        by (simp add: answer_def memory_response_def reply_of_def new_message_def)
      then show ?thesis
        using push_response [OF push] s' q True None pq keep by (simp add: memory_items_def Cons)
    qed
  qed
qed

text \<open>
  C37. The memory has a fixed latency: a request that the controller took from its interface in cycle \<open>c\<close> leaves the
  queue in cycle \<open>c + latency\<close> exactly, however many others wait; at most one request enters per cycle. A read that
  leaves is answered in that cycle, with its number and address, to the shared cache and with 64 zero bytes; a write
  is not answered, and no other response is sent.
\<close>

theorem memory_latency_is_exact:
  assumes "memory_wf s" and "unat (mem_clk_cycle s) + unat (m_memory_latency s) < 2 ^ 64 - 1"
    and "Memory_cycleProcess s = Inr s'"
  shows "\<exists>acc. (acc = [] \<or> (\<exists>m. acc = [m] \<and> msg_cycle m = mem_clk_cycle s)) \<and>
    (\<forall>m\<in>set (memory_items s @ acc).
       memory_due s m \<longleftrightarrow> unat (msg_cycle m) + unat (m_memory_latency s) = unat (mem_clk_cycle s)) \<and>
    memory_items s' = filter (\<lambda>m. \<not> memory_due s m) (memory_items s @ acc) \<and>
    map answer (tx_response (mem_lower_interface s')) = map answer (tx_response (mem_lower_interface s)) @
      map (reply_of s) (filter (\<lambda>m. memory_due s m \<and> msg_data m = None) (memory_items s @ acc)) \<and>
    memory_wf s'"
proof -
  obtain s1 s2 where s1: "Memory_addRequests s = Inr s1" and run: "result_bind (getFirstReady (Memory_getRequestState s1) None
      (mem_processing_queue s1)) (\<lambda>(q, r). let s2 = s1\<lparr>mem_processing_queue := q\<rparr> in
         case r of None \<Rightarrow> Inr s2 | Some m \<Rightarrow> Memory_serve m s2) = Inr s2"
    and s': "s' = s2\<lparr>mem_clk_cycle := mem_clk_cycle s2 + 1\<rparr>"
    using assms(3) unfolding Memory_cycleProcess_def Memory_processLogic_def by (auto simp: result_bind_Inr_iff)
  obtain acc i q where acc: "acc = [] \<or> (\<exists>m. acc = [m] \<and> msg_cycle m = mem_clk_cycle s)"
    and q: "s1 = s\<lparr>mem_lower_interface := i, mem_processing_queue := q\<rparr>" "tx_response i = tx_response (mem_lower_interface s)"
      "m_buffer q = m_buffer (mem_processing_queue s) @ map (\<lambda>m. new_element m NonReady) acc" "plain_queue q"
    using intake_one [OF s1] assms(1) by (auto simp: memory_wf_def)
  have items: "memory_items s1 = memory_items s @ acc" "waiting_cycles s1 = waiting_cycles s @ map (\<lambda>m. unat (msg_cycle m)) acc"
    by (simp_all add: memory_items_def waiting_cycles_def q new_element_def comp_def)
  have same: "mem_clk_cycle s1 = mem_clk_cycle s" "m_memory_latency s1 = m_memory_latency s" "memory_due s1 = memory_due s"
    "reply_of s1 = reply_of s" "mem_lower_interface s1 = i"
    by (simp_all add: q memory_due_def reply_of_def fun_eq_iff)
  have old: "c < unat (mem_clk_cycle s)" "unat (mem_clk_cycle s) \<le> c + unat (m_memory_latency s)"
    if "c \<in> set (waiting_cycles s)" for c using that assms(1) by (auto simp: memory_wf_def)
  have sorted1: "sorted_wrt (<) (waiting_cycles s1)"
    using acc old assms(1) unfolding items by (auto simp: memory_wf_def sorted_wrt_append)
  have bounds: "c \<le> unat (mem_clk_cycle s) \<and> unat (mem_clk_cycle s) \<le> c + unat (m_memory_latency s)"
    if "c \<in> set (waiting_cycles s1)" for c
    using that acc old unfolding items by force
  have served: "memory_items s2 = filter (\<lambda>m. \<not> memory_due s m) (memory_items s @ acc) \<and>
    map answer (tx_response (mem_lower_interface s2)) = map answer (tx_response (mem_lower_interface s)) @
      map (reply_of s) (filter (\<lambda>m. memory_due s m \<and> msg_data m = None) (memory_items s @ acc)) \<and>
    plain_queue (mem_processing_queue s2) \<and> mem_clk_cycle s2 = mem_clk_cycle s \<and>
    m_memory_latency s2 = m_memory_latency s"
    using serve_due [OF _ sorted1 _ _ run] q bounds assms(2) unfolding same items by auto
  have due: "memory_due s m \<longleftrightarrow> unat (msg_cycle m) + unat (m_memory_latency s) = unat (mem_clk_cycle s)"
    if "m \<in> set (memory_items s @ acc)" for m
    using that bounds [of "unat (msg_cycle m)"] unfolding items(1) [symmetric]
    by (auto simp: memory_due_def memory_items_def waiting_cycles_def)
  have now: "unat (mem_clk_cycle s + 1) = unat (mem_clk_cycle s) + 1" using assms(2) by (intro unat_add1) simp
  have cyc: "waiting_cycles s2 = map (\<lambda>m. unat (msg_cycle m)) (filter (\<lambda>m. \<not> memory_due s m) (memory_items s1))"
    unfolding waiting_cycles_items items by (rule arg_cong [OF conjunct1 [OF served]])
  then have "sorted_wrt (<) (waiting_cycles s2)" using sorted1 unfolding waiting_cycles_items cyc by (simp add: sorted_wrt_map sorted_wrt_filter)
  moreover have "c < unat (mem_clk_cycle s + 1) \<and> unat (mem_clk_cycle s + 1) \<le> c + unat (m_memory_latency s)"
    if "c \<in> set (waiting_cycles s2)" for c
  proof -
    obtain m where m: "m \<in> set (memory_items s1)" "\<not> memory_due s m" "c = unat (msg_cycle m)"
      using \<open>c \<in> set (waiting_cycles s2)\<close> unfolding cyc by auto
    then have "c \<in> set (waiting_cycles s1)" by (simp add: waiting_cycles_items)
    with bounds [OF this] m(2,3) show ?thesis unfolding now by (simp add: memory_due_def)
  qed
  ultimately have "memory_wf s'" using served unfolding s' by (simp add: memory_wf_def waiting_cycles_def)
  then show ?thesis
    using acc due served unfolding s' by (intro exI [of _ acc]) (auto simp: memory_items_def)
qed

definition example_memory :: main_memory where
  "example_memory =
     (new_MainMemoryController 20 10 2 None (BusI (new_BusInterface 0 8)))
       \<lparr>mem_clk_cycle := 7,
        mem_processing_queue := (new_FRFCFS 32 0 False)\<lparr>m_buffer :=
          [new_element (new_message 1 64 5 0 0) NonReady, new_element (new_message 2 128 6 0 0) NonReady]\<rparr>\<rparr>"

theorem memory_latency_is_exact_witness:
  "\<exists>s'. Memory_cycleProcess example_memory = Inr s' \<and> map msg_id (memory_items s') = [2] \<and>
     map answer (tx_response (mem_lower_interface s')) = [(1, 64, [10], Some (replicate 64 0))]"
proof -
  have run: "case Memory_cycleProcess example_memory of Inl e \<Rightarrow> False | Inr s' \<Rightarrow> length (memory_items s') = 1" by code_simp
  obtain s' where s': "Memory_cycleProcess example_memory = Inr s'" "length (memory_items s') = 1"
    using run by (rule case_InrE)
  have wf: "memory_wf example_memory" by code_simp
  have it: "memory_items example_memory = [new_message 1 64 5 0 0, new_message 2 128 6 0 0]"
    "mem_clk_cycle example_memory = 7" "m_memory_latency example_memory = 2" "mem_llc_id example_memory = 10"
    "tx_response (mem_lower_interface example_memory) = []"
    by (simp_all add: example_memory_def memory_items_def new_element_def new_MainMemoryController_def new_FRFCFS_def
        new_BusInterface_def)
  have fits: "unat (mem_clk_cycle example_memory) + unat (m_memory_latency example_memory) < 2 ^ 64 - 1"
    unfolding it by simp
  have due: "memory_due example_memory m \<longleftrightarrow> unat (msg_cycle m) \<le> 5" for m
    unfolding memory_due_def it by simp
  obtain acc where acc: "acc = [] \<or> (\<exists>m. acc = [m] \<and> msg_cycle m = 7)"
    "memory_items s' = filter (\<lambda>m. \<not> memory_due example_memory m) (memory_items example_memory @ acc)"
    "map answer (tx_response (mem_lower_interface s')) = map answer (tx_response (mem_lower_interface example_memory)) @
      map (reply_of example_memory) (filter (\<lambda>m. memory_due example_memory m \<and> msg_data m = None) (memory_items example_memory @ acc))"
    using memory_latency_is_exact [OF wf fits s'(1)] unfolding it by blast
  have "acc = []" using acc(1) s'(2) unfolding acc(2) it due by (auto simp: new_message_def)
  then show ?thesis
    using s'(1) acc(2,3) unfolding it due by (simp add: new_message_def reply_of_def it)
qed

section \<open>The adaptor\<close>

text \<open>
  The simulator's answer for an address goes to the oldest read of that address: the pending reads lose that entry
  and the output gains one message for it; an answer nothing waits for stops the simulation.
\<close>

lemma read_callback_spec:
  assumes "length beyond = 56"
  shows "read_callback beyond a s =
    (case first_index (\<lambda>m. addr m = a) (mc_pending_requests s) of
       None \<Rightarrow> Inl (Exit ''MCsimInterface: Error read_callback could not find the pending request'')
     | Some i \<Rightarrow> Inr (s\<lparr>mc_read_count := mc_read_count s + 1,
         mc_output_buffer := mc_output_buffer s @
           [(new_message (msg_id (mc_pending_requests s ! i)) a (mc_clk_cycle s) 0 (owner (mc_pending_requests s ! i)))
              \<lparr>msg_to := [word_of_int (mc_llc_id s)], msg_kind := K_FILL, data_size := 64,
               msg_data := Some (map (\<lambda>j. ucast (drop_bit (8 * j) (mc_read_count s))) [0..<8] @ beyond)\<rparr>],
         mc_pending_requests := erase_at i (mc_pending_requests s)\<rparr>))"
  using assms
  by (auto simp: read_callback_def message_copy_data_def Let_def new_message_def split: option.splits dest: first_index_SomeD)

text \<open>Without the bytes behind the local, the copy reads past its end.\<close>

lemma read_callback_overruns:
  assumes "first_index (\<lambda>m. addr m = a) (mc_pending_requests s) = Some i"
  shows "read_callback [] a s = Inl (Undefined ''Message::copy reads past the source array'')"
  using assms by (simp add: read_callback_def message_copy_data_def Let_def)

end
