(* ===== verification/ExternalCore.thy ===== *)
theory ExternalCore
  imports Sending Controllers
begin

text \<open>
  The core of an embedder, \<open>ExternalCPU\<close> (src/ExternalCPU.cpp): requests come in by \<open>addRequest\<close> and go to the
  attached cache in order, answers go back through callbacks. Registered callbacks are flags, their calls lists of
  events; the log records are left out.
\<close>

section \<open>State and operations\<close>

text \<open>\<open>enum RequestType\<close>\<close>

datatype request_type = READ_REQUEST | WRITE_REQUEST | SETUP_WRITE | SETUP_READ

fun request_code :: "request_type \<Rightarrow> u64" where
  "request_code READ_REQUEST = 0"
| "request_code WRITE_REQUEST = 1"
| "request_code SETUP_WRITE = 2"
| "request_code SETUP_READ = 3"

datatype setup_call = InitializeMemory u64 "u8 list" int | ReadMemory u64

text \<open>A completion: request, address, cycle, kind and bytes.\<close>

type_synonym completion = "u64 \<times> u64 \<times> u64 \<times> u64 \<times> u8 list option"

record external_core =
  ext_id :: int
  ext_clk_cycle :: u64
  m_link_full_holds :: u64
  ext_upper_interface :: interface
  ext_processing_queue :: frfcfs
  m_cpu_callback :: bool
  m_commit_callback :: bool
  m_invalidate_callback :: bool
  m_memory_component :: bool
  ext_next_id :: int
  completions :: "completion list"
  port_events :: "port_call list"
  setup_calls :: "setup_call list"

definition new_ExternalCPU :: "int \<Rightarrow> interface \<Rightarrow> int \<Rightarrow> external_core" where
  "new_ExternalCPU i itf next_id =
     \<lparr> ext_id = i, ext_clk_cycle = 1, m_link_full_holds = 0, ext_upper_interface = itf,
       ext_processing_queue = new_FRFCFS (- 1) 0 False, m_cpu_callback = False, m_commit_callback = False,
       m_invalidate_callback = False, m_memory_component = False, ext_next_id = next_id, completions = [],
       port_events = [], setup_calls = [] \<rparr>"

definition registerCPUCallback :: "external_core \<Rightarrow> external_core" where
  "registerCPUCallback s = s\<lparr>m_cpu_callback := True\<rparr>"

definition registerCommitCallback :: "external_core \<Rightarrow> external_core" where
  "registerCommitCallback s = s\<lparr>m_commit_callback := True\<rparr>"

definition registerInvalidateCallback :: "external_core \<Rightarrow> external_core" where
  "registerInvalidateCallback s = s\<lparr>m_invalidate_callback := True\<rparr>"

definition registerInitializableMemory :: "external_core \<Rightarrow> external_core" where
  "registerInitializableMemory s = s\<lparr>m_memory_component := True\<rparr>"

definition ext_commit :: "u64 \<Rightarrow> u64 \<Rightarrow> external_core \<Rightarrow> external_core" where
  "ext_commit i a s = (if m_commit_callback s then s\<lparr>port_events := port_events s @ [Commit i a]\<rparr> else s)"

definition ext_invalidate :: "u64 \<Rightarrow> external_core \<Rightarrow> external_core" where
  "ext_invalidate a s = (if m_invalidate_callback s then s\<lparr>port_events := port_events s @ [Invalidate a]\<rparr> else s)"

definition ext_isBlocked :: "controller option \<Rightarrow> int \<Rightarrow> bool" where
  "ext_isBlocked cache outstanding = (case cache of None \<Rightarrow> False | Some c \<Rightarrow> demandAdmissionBlocked outstanding c)"

definition outstandingLimit :: "controller option \<Rightarrow> int" where
  "outstandingLimit cache = (case cache of None \<Rightarrow> - 1 | Some c \<Rightarrow> m_processing_queue_size c)"

text \<open>The number of the request, 0 for the set-up kinds. A set-up read does not look whether a memory is there.\<close>

definition ext_addRequest ::
  "u64 \<Rightarrow> request_type \<Rightarrow> u8 list option \<Rightarrow> int \<Rightarrow> external_core \<Rightarrow> (external_core \<times> u64) result" where
  "ext_addRequest a ty bytes n s =
     (if ty = SETUP_WRITE
      then (case bytes of
              None \<Rightarrow> Inl (Exit ''Error addRequest without data'')
            | Some d \<Rightarrow>
                if \<not> m_memory_component s then Inl (Exit ''Error no registered setup function'')
                else Inr (s\<lparr>setup_calls := setup_calls s @ [InitializeMemory a d n]\<rparr>, 0))
      else if ty = SETUP_READ
      then if \<not> m_memory_component s then Inl (Undefined ''ExternalCPU: null memory component'')
        else Inr (s\<lparr>setup_calls := setup_calls s @ [ReadMemory a]\<rparr>, 0)
      else if ext_next_id s = 2 ^ 31 - 1 then Inl (Undefined ''IdGenerator: overflow'')
      else
        let i = word_of_int (ext_next_id s);
            m = (new_message i a 0 (request_code ty) (word_of_int (ext_id s)))
                  \<lparr>msg_source := LOWER_INTERCONNECT, data_size := word_of_int n\<rparr> in
        result_bind (case bytes of
              None \<Rightarrow> Inr m
            | Some d \<Rightarrow> if ty = WRITE_REQUEST then message_copy_data m d (word_of_int n) else Inr m) (\<lambda>m'.
          Inr (s\<lparr>ext_next_id := ext_next_id s + 1,
                 ext_processing_queue := fst (pushBack m' NonReady False (ext_processing_queue s))\<rparr>, i)))"

definition ext_getRequestState :: check_state where
  "ext_getRequestState m st = Inr (m, Ready)"

text \<open>The loop that empties the interface ends because a read message leaves it.\<close>

definition waiting_count :: "interface \<Rightarrow> nat" where
  "waiting_count i = length (rx_request i) + length (rx_response i) + length (rx_service i)"

lemma pop_shrinks:
  assumes "itf_peekMessage i = (i1, Some m)" "itf_popFrontMessage i1 = Inr i2"
  shows "waiting_count i2 < waiting_count i"
proof (cases i)
  case (BusI s)
  then show ?thesis
    using assms by (cases rule: Bus_peekMessage_cases [of s])
      (auto simp: waiting_count_def Bus_popFrontMessage_def map_prod_def erase_at_0 split: if_splits)
next
  case (TripleI s)
  show ?thesis
  proof (cases rule: Triple_peekMessage_cases [of s])
    case service
    then show ?thesis
      using assms TripleI by (auto simp: waiting_count_def Triple_popFrontMessage_def map_prod_def erase_at_0 split: if_splits)
  next
    case bus
    then show ?thesis
      using assms TripleI by (cases rule: Bus_peekMessage_cases [of "s\<lparr>m_service_selected := False\<rparr>"])
        (auto simp: waiting_count_def Triple_popFrontMessage_def Bus_popFrontMessage_def map_prod_def erase_at_0 split: if_splits)
  qed
qed

declare result_bind_cong [fundef_cong]

function ext_addRequests :: "u64 \<Rightarrow> interface \<Rightarrow> frfcfs \<Rightarrow> (interface \<times> frfcfs) result" where
  "ext_addRequests now i q =
     (case itf_peekMessage i of
        (i1, None) \<Rightarrow> Inr (i1, q)
      | (i1, Some m) \<Rightarrow>
          (case pushBack (m\<lparr>msg_source := UPPER_INTERCONNECT, msg_cycle := now\<rparr>) Ready False q of
             (q', ok) \<Rightarrow>
               if ok then result_bind (itf_popFrontMessage i1) (\<lambda>i2. ext_addRequests now i2 q')
               else Inr (i1, q')))"
  by auto
termination
  by (relation "measure (\<lambda>(now, i, q). waiting_count i)") (auto dest: pop_shrinks [OF sym])

declare ext_addRequests.simps [simp del]

text \<open>What the callback that completes a request is given.\<close>

definition completion_of :: "u64 \<Rightarrow> message \<Rightarrow> completion" where
  "completion_of now m = (msg_id m, addr m, now, complementary_value m, msg_data m)"

lemma ext_scan:
  "scan_ready ext_getRequestState None 0 older es = Inr (r, es') \<Longrightarrow>
   (case es of [] \<Rightarrow> r = None \<and> es' = older | e # es2 \<Rightarrow> r = Some (item e) \<and> es' = older @ es2)"
  by (cases es) (auto simp: ext_getRequestState_def blocked_by_older_def split: if_splits)

lemma ext_first_shrinks:
  assumes "getFirstReady ext_getRequestState None q = Inr (q', Some m)"
  shows "length (m_buffer q') < length (m_buffer q)"
proof -
  have "length es' < length older + length es"
    if "scan_ready ext_getRequestState None w older es = Inr (Some m, es')" for w older es es'
    using that
  proof (induction es arbitrary: older)
    case (Cons e es)
    show ?case
    proof (cases "blocked_by_older w older (item e)")
      case True
      then show ?thesis using Cons.IH [of "older @ [e]"] Cons.prems by simp
    next
      case False
      then show ?thesis using Cons.prems by (auto simp: ext_getRequestState_def split: if_splits)
    qed
  qed simp
  from this [of "m_line_mask q" "[]" "m_buffer q"] show ?thesis
    using assms by (auto simp: getFirstReady_def result_bind_Inr_iff split: if_splits option.splits)
qed

text \<open>The loop of \<open>processLogic\<close>; it stops at a link that is full and keeps the request at the front.\<close>

function ext_loop :: "external_core \<Rightarrow> external_core result" where
  "ext_loop s =
     result_bind (getFirstReady ext_getRequestState None (ext_processing_queue s)) (\<lambda>(q, r).
       let s1 = s\<lparr>ext_processing_queue := q\<rparr> in
       case r of
         None \<Rightarrow> Inr s1
       | Some m \<Rightarrow>
           if msg_source m = LOWER_INTERCONNECT
           then (case itf_pushMessage (ext_upper_interface s) (m\<lparr>msg_cycle := ext_clk_cycle s\<rparr>) (ext_clk_cycle s) REQUEST of
                   (i, m', ok) \<Rightarrow>
                     if ok then ext_loop (s1\<lparr>ext_upper_interface := i\<rparr>)
                     else Inr (s1\<lparr>ext_upper_interface := i, ext_processing_queue := fst (pushFront m' q),
                                  m_link_full_holds := m_link_full_holds s + 1\<rparr>))
           else if msg_source m = UPPER_INTERCONNECT
           then if m_cpu_callback s then ext_loop (s1\<lparr>completions := completions s @ [completion_of (ext_clk_cycle s) m]\<rparr>)
             else Inl (Exit ''ExternalCPU: Error CPU Callback is invalid'')
           else ext_loop s1)"
  by auto
termination
  by (relation "measure (\<lambda>s. length (m_buffer (ext_processing_queue s)))") (auto dest: ext_first_shrinks)

declare ext_loop.simps [simp del]

definition ext_processLogic :: "external_core \<Rightarrow> external_core result" where
  "ext_processLogic s =
     result_bind (ext_addRequests (ext_clk_cycle s) (ext_upper_interface s) (ext_processing_queue s)) (\<lambda>(i, q).
       ext_loop (s\<lparr>ext_upper_interface := i, ext_processing_queue := q\<rparr>))"

definition ext_cycleProcess :: "external_core \<Rightarrow> external_core result" where
  "ext_cycleProcess s =
     result_bind (ext_processLogic s) (\<lambda>s'. Inr (s'\<lparr>ext_clk_cycle := ext_clk_cycle s' + 1\<rparr>))"

section \<open>Order\<close>

text \<open>What a request is, whatever cycle and sender the link stamped on it.\<close>

definition request_core :: "message \<Rightarrow> u64 \<times> u64 \<times> u64 \<times> u16 \<times> message_source \<times> u8 list option" where
  "request_core m = (msg_id m, addr m, complementary_value m, owner m, msg_source m, msg_data m)"

definition ext_items :: "external_core \<Rightarrow> message list" where
  "ext_items s = map item (m_buffer (ext_processing_queue s))"

definition plain_ext_queue :: "frfcfs \<Rightarrow> bool" where
  "plain_ext_queue q \<longleftrightarrow> m_line_mask q = 0 \<and> \<not> m_readiness_state_only q \<and> m_max_size q = - 1"

fun request_room :: "interface \<Rightarrow> bool" where
  "request_room (BusI s) \<longleftrightarrow> int (length (m_tx_request_buffer s)) < m_buffer_max_size s"
| "request_room (TripleI s) \<longleftrightarrow> int (length (m_tx_request_buffer s)) < m_buffer_max_size s"

lemma push_request_room:
  assumes "itf_pushMessage i m c REQUEST = (i', m', ok)"
  shows "ok = request_room i \<and> request_core m' = request_core m \<and> tx_request i' = tx_request i @ (if ok then [m'] else []) \<and>
    (\<not> ok \<longrightarrow> i' = i) \<and> tx_response i' = tx_response i"
  using assms
  by (cases i) (auto simp: Triple_pushMessage_def Bus_pushMessage_def Let_def map_prod_def request_core_def stamp_message_def
      split: prod.splits if_splits)

lemma get_first_plain:
  assumes "plain_ext_queue q"
  shows "\<exists>q'. getFirstReady ext_getRequestState None q = Inr (q', case m_buffer q of [] \<Rightarrow> None | e # es \<Rightarrow> Some (item e)) \<and>
    m_buffer q' = tl (m_buffer q) \<and> plain_ext_queue q'"
proof (cases "m_buffer q")
  case Nil
  then show ?thesis using assms by (auto simp: getFirstReady_def plain_ext_queue_def)
next
  case (Cons e es)
  then show ?thesis
    using assms by (auto simp: getFirstReady_def plain_ext_queue_def blocked_by_older_def ext_getRequestState_def)
qed

text \<open>The intake: everything that waits at the interface joins the queue behind what is there.\<close>

lemma ext_addRequests_spec:
  assumes "ext_addRequests now i q = Inr (i', q')" "itf_wf i" "plain_ext_queue q"
  shows "\<exists>got. mset got = itf_queued i \<and> itf_queued i' = {#} \<and> tx_request i' = tx_request i \<and>
    map item (m_buffer q') = map item (m_buffer q) @ map (\<lambda>m. m\<lparr>msg_source := UPPER_INTERCONNECT, msg_cycle := now\<rparr>) got \<and>
    plain_ext_queue q'"
  using assms
proof (induction now i q rule: ext_addRequests.induct)
  case (1 now i q)
  obtain i1 r where p: "itf_peekMessage i = (i1, r)" by force
  show ?case
  proof (cases r)
    case None
    then have "i' = i1" "q' = q" using 1(2) p unfolding ext_addRequests.simps [of now i q] by simp_all
    moreover have "itf_queued i = {#}" using any_rx.peek_None [OF 1(3)] p None by simp
    ultimately show ?thesis
      using any_rx.peek_keeps [OF 1(3) p] peek_keeps_tx(2) [OF p] 1(4) by (intro exI [of _ "[]"]) simp
  next
    case (Some m)
    let ?m = "m\<lparr>msg_source := UPPER_INTERCONNECT, msg_cycle := now\<rparr>"
    obtain q1 where pb: "pushBack ?m Ready False q = (q1, True)"
      and q: "plain_ext_queue q1" "map item (m_buffer q1) = map item (m_buffer q) @ [?m]"
      using 1(4) by (simp add: pushBack_def plain_ext_queue_def new_element_def)
    obtain i2 where i2: "itf_popFrontMessage i1 = Inr i2" "ext_addRequests now i2 q1 = Inr (i', q')"
      using 1(2) p Some pb unfolding ext_addRequests.simps [of now i q] by (auto simp: result_bind_Inr_iff)
    have wf: "itf_wf i2" "itf_queued i = add_mset m (itf_queued i2)"
      using any_rx.peek_pop [OF 1(3) p [unfolded Some]] i2(1) by auto
    obtain got where got: "mset got = itf_queued i2 \<and> itf_queued i' = {#} \<and> tx_request i' = tx_request i2 \<and>
      map item (m_buffer q') = map item (m_buffer q1) @ map (\<lambda>m. m\<lparr>msg_source := UPPER_INTERCONNECT, msg_cycle := now\<rparr>) got \<and>
      plain_ext_queue q'"
      using 1(1) [OF p [symmetric] Some pb [symmetric] TrueI i2 wf(1) q(1)] by blast
    then show ?thesis
      using wf(2) q(2) pop_keeps_tx(2) [OF i2(1)] peek_keeps_tx(2) [OF p] by (intro exI [of _ "m # got"]) simp
  qed
qed

text \<open>What the loop has done when it stops: a prefix of the queue is served, in order.\<close>

definition ext_served :: "external_core \<Rightarrow> message list \<Rightarrow> message list \<Rightarrow> external_core \<Rightarrow> bool" where
  "ext_served s xs rest s' \<longleftrightarrow>
     map request_core (ext_items s') = map request_core rest \<and>
     map request_core (tx_request (ext_upper_interface s')) = map request_core (tx_request (ext_upper_interface s) @
       filter (\<lambda>m. msg_source m = LOWER_INTERCONNECT) xs) \<and>
     completions s' = completions s @ map (completion_of (ext_clk_cycle s)) (filter (\<lambda>m. msg_source m = UPPER_INTERCONNECT) xs) \<and>
     (case rest of
        [] \<Rightarrow> m_link_full_holds s' = m_link_full_holds s
      | m # _ \<Rightarrow> msg_source m = LOWER_INTERCONNECT \<and> \<not> request_room (ext_upper_interface s') \<and>
          m_link_full_holds s' = m_link_full_holds s + 1)"

lemma ext_loop_serves:
  assumes "ext_loop s = Inr s'" "plain_ext_queue (ext_processing_queue s)"
  shows "\<exists>xs rest. ext_items s = xs @ rest \<and> ext_served s xs rest s'"
  using assms
proof (induction s rule: ext_loop.induct)
  case (1 s)
  obtain q where q: "getFirstReady ext_getRequestState None (ext_processing_queue s) =
      Inr (q, case m_buffer (ext_processing_queue s) of [] \<Rightarrow> None | e # es \<Rightarrow> Some (item e))"
    "m_buffer q = tl (m_buffer (ext_processing_queue s))" "plain_ext_queue q"
    using get_first_plain [OF 1(5)] by blast
  show ?case
  proof (cases "m_buffer (ext_processing_queue s)")
    case Nil
    then have "s' = s\<lparr>ext_processing_queue := q\<rparr>" using 1(4) q(1) unfolding ext_loop.simps [of s] by simp
    then have "ext_served s [] [] s'" using Nil q(2) by (simp add: ext_items_def ext_served_def)
    then show ?thesis using Nil by (intro exI [of _ "[]"]) (simp add: ext_items_def)
  next
    case (Cons e es)
    let ?m = "item e" and ?s = "s\<lparr>ext_processing_queue := q\<rparr>"
    have get: "getFirstReady ext_getRequestState None (ext_processing_queue s) = Inr (q, Some ?m)" using q(1) Cons by simp
    have items: "ext_items s = ?m # map item (m_buffer q)" using Cons q(2) by (simp add: ext_items_def)
    consider (low) "msg_source ?m = LOWER_INTERCONNECT" | (up) "msg_source ?m = UPPER_INTERCONNECT" | (self) "msg_source ?m = SELF"
      by (cases "msg_source ?m") auto
    then show ?thesis
    proof cases
      case low
      obtain i m' ok where push: "itf_pushMessage (ext_upper_interface s) (?m\<lparr>msg_cycle := ext_clk_cycle s\<rparr>) (ext_clk_cycle s) REQUEST
          = (i, m', ok)" by (metis prod_cases3)
      have core: "request_core m' = request_core ?m"
        using push_request_room [OF push] by (simp add: request_core_def)
      have room: "ok = request_room (ext_upper_interface s)"
        and sent: "tx_request i = tx_request (ext_upper_interface s) @ (if ok then [m'] else [])"
        and i: "\<not> ok \<Longrightarrow> i = ext_upper_interface s"
        using push_request_room [OF push] by blast+
      show ?thesis
      proof (cases ok)
        case True
        have go: "ext_loop (?s\<lparr>ext_upper_interface := i\<rparr>) = Inr s'"
          using 1(4) get low push True unfolding ext_loop.simps [of s] by simp
        obtain xs rest where ih: "map item (m_buffer q) = xs @ rest" "ext_served (?s\<lparr>ext_upper_interface := i\<rparr>) xs rest s'"
          using 1(1) [OF get refl refl refl low push [symmetric] refl True go] q(3) by (auto simp: ext_items_def)
        have "ext_served s (?m # xs) rest s'"
          using ih(2) sent True core low by (auto simp: ext_served_def split: list.splits)
        then show ?thesis using ih(1) items by (intro exI [of _ "?m # xs"] exI [of _ rest]) simp
      next
        case False
        then have s': "s' = ?s\<lparr>ext_upper_interface := i, ext_processing_queue := fst (pushFront m' q),
            m_link_full_holds := m_link_full_holds s + 1\<rparr>"
          using 1(4) get low push unfolding ext_loop.simps [of s] by simp
        have "ext_served s [] (?m # map item (m_buffer q)) s'"
          using room False core low i
          by (simp add: ext_served_def s' ext_items_def pushFront_def new_element_def insert_at_def)
        then show ?thesis using items by (metis append_Nil)
      qed
    next
      case up
      let ?t = "?s\<lparr>completions := completions s @ [completion_of (ext_clk_cycle s) ?m]\<rparr>"
      have cb: "m_cpu_callback s" and go: "ext_loop ?t = Inr s'"
        using 1(4) get up unfolding ext_loop.simps [of s] by (auto split: if_splits)
      obtain xs rest where ih: "map item (m_buffer q) = xs @ rest" "ext_served ?t xs rest s'"
        using 1(2) [OF get refl refl refl _ up cb go] q(3) up by (auto simp: ext_items_def)
      have "ext_served s (?m # xs) rest s'" using ih(2) up by (auto simp: ext_served_def split: list.splits)
      then show ?thesis using ih(1) items by (intro exI [of _ "?m # xs"] exI [of _ rest]) simp
    next
      case self
      have go: "ext_loop ?s = Inr s'" using 1(4) get self unfolding ext_loop.simps [of s] by simp
      obtain xs rest where ih: "map item (m_buffer q) = xs @ rest" "ext_served ?s xs rest s'"
        using 1(3) [OF get refl refl refl _ _ go] q(3) self by (auto simp: ext_items_def)
      have "ext_served s (?m # xs) rest s'" using ih(2) self by (auto simp: ext_served_def split: list.splits)
      then show ?thesis using ih(1) items by (intro exI [of _ "?m # xs"] exI [of _ rest]) simp
    qed
  qed
qed

text \<open>
  C35. The core of an embedder is a FIFO. In every cycle, of what is queued and then of what the interface has
  (all of which is taken), a prefix is served in order: the requests among it go on the link, in order and
  unchanged but for their stamps, the answers among it go to the completion callback, in order and at this cycle.
  The rest stays queued, in order; there is a rest only when its first message is a request and the link is full,
  which is counted.
\<close>

theorem external_core_is_fifo:
  assumes "ext_processLogic s = Inr s'" and "itf_wf (ext_upper_interface s)" and "plain_ext_queue (ext_processing_queue s)"
  shows "\<exists>got xs rest. mset got = itf_queued (ext_upper_interface s) \<and>
    ext_items s @ map (\<lambda>m. m\<lparr>msg_source := UPPER_INTERCONNECT, msg_cycle := ext_clk_cycle s\<rparr>) got = xs @ rest \<and>
    map request_core (tx_request (ext_upper_interface s')) = map request_core (tx_request (ext_upper_interface s)) @
      map request_core (filter (\<lambda>m. msg_source m = LOWER_INTERCONNECT) xs) \<and>
    completions s' = completions s @
      map (completion_of (ext_clk_cycle s)) (filter (\<lambda>m. msg_source m = UPPER_INTERCONNECT) xs) \<and>
    map request_core (ext_items s') = map request_core rest \<and>
    (case rest of
       [] \<Rightarrow> m_link_full_holds s' = m_link_full_holds s
     | m # _ \<Rightarrow> msg_source m = LOWER_INTERCONNECT \<and> \<not> request_room (ext_upper_interface s') \<and>
         m_link_full_holds s' = m_link_full_holds s + 1)"
proof -
  obtain i q where iq: "ext_addRequests (ext_clk_cycle s) (ext_upper_interface s) (ext_processing_queue s) = Inr (i, q)"
    and loop: "ext_loop (s\<lparr>ext_upper_interface := i, ext_processing_queue := q\<rparr>) = Inr s'"
    using assms(1) by (auto simp: ext_processLogic_def result_bind_Inr_iff)
  obtain got where got: "mset got = itf_queued (ext_upper_interface s)" "tx_request i = tx_request (ext_upper_interface s)"
    "map item (m_buffer q) = ext_items s @ map (\<lambda>m. m\<lparr>msg_source := UPPER_INTERCONNECT, msg_cycle := ext_clk_cycle s\<rparr>) got"
    "plain_ext_queue q"
    using ext_addRequests_spec [OF iq assms(2,3)] by (auto simp: ext_items_def)
  obtain xs rest where xs: "map item (m_buffer q) = xs @ rest"
    "ext_served (s\<lparr>ext_upper_interface := i, ext_processing_queue := q\<rparr>) xs rest s'"
    using ext_loop_serves [OF loop] got(4) by (auto simp: ext_items_def)
  show ?thesis
    using got xs by (intro exI [of _ got] exI [of _ xs] exI [of _ rest]) (auto simp: ext_served_def split: list.splits)
qed

text \<open>The queue of a new core is the one the property asks for, and every operation keeps it so.\<close>

lemma new_external_plain: "plain_ext_queue (ext_processing_queue (new_ExternalCPU i itf next_id))"
  by (simp add: new_ExternalCPU_def plain_ext_queue_def new_FRFCFS_def)

lemma addRequest_plain:
  "ext_addRequest a ty bytes n s = Inr (s', r) \<Longrightarrow> plain_ext_queue (ext_processing_queue s) \<Longrightarrow>
   plain_ext_queue (ext_processing_queue s')"
  by (auto simp: ext_addRequest_def plain_ext_queue_def pushBack_def Let_def result_bind_Inr_iff
      split: if_splits option.splits)

lemma intake_plain:
  assumes "ext_addRequests now i q = Inr (i', q')" "plain_ext_queue q"
  shows "plain_ext_queue q'"
  using assms
proof (induction now i q rule: ext_addRequests.induct)
  case (1 now i q)
  obtain i1 r where p: "itf_peekMessage i = (i1, r)" by force
  show ?case
  proof (cases r)
    case None
    then show ?thesis using 1(2,3) p unfolding ext_addRequests.simps [of now i q] by simp
  next
    case (Some m)
    let ?m = "m\<lparr>msg_source := UPPER_INTERCONNECT, msg_cycle := now\<rparr>"
    obtain q1 where pb: "pushBack ?m Ready False q = (q1, True)" "plain_ext_queue q1"
      using 1(3) by (simp add: pushBack_def plain_ext_queue_def new_element_def)
    obtain i2 where i2: "itf_popFrontMessage i1 = Inr i2" "ext_addRequests now i2 q1 = Inr (i', q')"
      using 1(2) p Some pb unfolding ext_addRequests.simps [of now i q] by (auto simp: result_bind_Inr_iff)
    show ?thesis using 1(1) [OF p [symmetric] Some pb(1) [symmetric] TrueI i2] pb(2) by simp
  qed
qed

lemma pushFront_plain: "plain_ext_queue q \<Longrightarrow> plain_ext_queue (fst (pushFront m q))"
  by (simp add: pushFront_def new_element_def plain_ext_queue_def)

lemma ext_loop_plain:
  assumes "ext_loop s = Inr s'" "plain_ext_queue (ext_processing_queue s)"
  shows "plain_ext_queue (ext_processing_queue s')"
  using assms
proof (induction s rule: ext_loop.induct)
  case (1 s)
  obtain q r where get: "getFirstReady ext_getRequestState None (ext_processing_queue s) = Inr (q, r)" "plain_ext_queue q"
    using get_first_plain [OF 1(5)] by blast
  let ?s = "s\<lparr>ext_processing_queue := q\<rparr>"
  show ?case
  proof (cases r)
    case None
    then show ?thesis using 1(4) get unfolding ext_loop.simps [of s] by auto
  next
    case (Some m)
    obtain i m' ok where push: "itf_pushMessage (ext_upper_interface s) (m\<lparr>msg_cycle := ext_clk_cycle s\<rparr>) (ext_clk_cycle s) REQUEST
        = (i, m', ok)" by (metis prod_cases3)
    consider (low) "msg_source m = LOWER_INTERCONNECT" | (up) "msg_source m = UPPER_INTERCONNECT" | (self) "msg_source m = SELF"
      by (cases "msg_source m") auto
    then show ?thesis
    proof cases
      case low
      show ?thesis
      proof (cases ok)
        case True
        then have go: "ext_loop (?s\<lparr>ext_upper_interface := i\<rparr>) = Inr s'"
          using 1(4) get(1) Some low push unfolding ext_loop.simps [of s] by simp
        show ?thesis using 1(1) [OF get(1) refl refl Some low push [symmetric] refl True go] get(2) by simp
      next
        case False
        then show ?thesis
          using 1(4) get Some low push pushFront_plain unfolding ext_loop.simps [of s] by auto
      qed
    next
      case up
      let ?t = "?s\<lparr>completions := completions s @ [completion_of (ext_clk_cycle s) m]\<rparr>"
      have "m_cpu_callback s" "ext_loop ?t = Inr s'"
        using 1(4) get(1) Some up unfolding ext_loop.simps [of s] by (auto split: if_splits)
      then show ?thesis using 1(2) [OF get(1) refl refl Some _ up] up get(2) by simp
    next
      case self
      then have "ext_loop ?s = Inr s'" using 1(4) get(1) Some unfolding ext_loop.simps [of s] by simp
      then show ?thesis using 1(3) [OF get(1) refl refl Some] self get(2) by simp
    qed
  qed
qed

lemma ext_cycle_plain:
  assumes "ext_cycleProcess s = Inr s'" "plain_ext_queue (ext_processing_queue s)"
  shows "plain_ext_queue (ext_processing_queue s')"
  using assms ext_loop_plain intake_plain
  by (fastforce simp: ext_cycleProcess_def ext_processLogic_def result_bind_Inr_iff)

definition example_external :: external_core where
  "example_external = (new_ExternalCPU 3 (BusI (new_BusInterface 3 1)) 9)
     \<lparr>ext_processing_queue := (new_FRFCFS (- 1) 0 False)\<lparr>m_buffer :=
        [new_element (new_message 1 64 0 0 3) NonReady, new_element (new_message 2 128 0 1 3) NonReady]\<rparr>\<rparr>"

theorem external_core_is_fifo_witness:
  "\<exists>s'. ext_processLogic example_external = Inr s' \<and> map msg_id (tx_request (ext_upper_interface s')) = [1] \<and>
     length (ext_items s') = 1 \<and> m_link_full_holds s' = 1"
proof -
  have run: "case ext_processLogic example_external of Inl e \<Rightarrow> False
      | Inr s' \<Rightarrow> map msg_id (tx_request (ext_upper_interface s')) = [1] \<and> length (ext_items s') = 1"
    by (simp add: example_external_def new_ExternalCPU_def new_BusInterface_def new_FRFCFS_def new_element_def new_message_def
        ext_processLogic_def ext_addRequests.simps ext_loop.simps getFirstReady_def blocked_by_older_def ext_getRequestState_def
        Bus_pushMessage_def Bus_peekMessage_def numeral_2_eq_2 Let_def map_prod_def stamp_message_def ext_items_def pushFront_def insert_at_def
        cong: result_bind_weak)
  then obtain s' where s': "ext_processLogic example_external = Inr s'"
    "map msg_id (tx_request (ext_upper_interface s')) = [1]" "length (ext_items s') = 1"
    by (auto split: sum.splits)
  have wf: "itf_wf (ext_upper_interface example_external)"
    by (simp add: example_external_def new_ExternalCPU_def new_BusInterface_def Bus_wf_def)
  have plain: "plain_ext_queue (ext_processing_queue example_external)"
    by (simp add: example_external_def new_ExternalCPU_def plain_ext_queue_def new_FRFCFS_def)
  have none: "m_link_full_holds example_external = 0" by (simp add: example_external_def new_ExternalCPU_def)
  obtain xs rest :: "message list" where r: "length xs + length rest = 2" "map request_core (ext_items s') = map request_core rest"
    "rest \<noteq> [] \<Longrightarrow> m_link_full_holds s' = m_link_full_holds example_external + 1"
  proof -
    have two: "length (ext_items example_external) = 2" "itf_queued (ext_upper_interface example_external) = {#}"
      by (simp_all add: example_external_def ext_items_def itf_queued_def new_ExternalCPU_def new_BusInterface_def)
    have "\<exists>(xs :: message list) rest. length xs + length rest = 2 \<and> map request_core (ext_items s') = map request_core rest \<and>
        (rest \<noteq> [] \<longrightarrow> m_link_full_holds s' = m_link_full_holds example_external + 1)"
      using external_core_is_fifo [OF s'(1) wf plain]
    proof (elim exE conjE, goal_cases)
      case (1 got xs rest)
      have "length xs + length rest = 2" using arg_cong [OF 1(2), of length] 1(1) two by simp
      moreover have "rest \<noteq> [] \<longrightarrow> m_link_full_holds s' = m_link_full_holds example_external + 1"
        using 1(6) by (cases rest) simp_all
      ultimately show ?case using 1(5) by blast
    qed
    then show ?thesis using that by blast
  qed
  have "rest \<noteq> []" using arg_cong [OF r(2), of length] s'(3) by auto
  then have "m_link_full_holds s' = 1" using r(3) none by simp
  then show ?thesis using s' by (intro exI [of _ s']) simp
qed
section \<open>Evaluation\<close>

text \<open>The loops by projections, so that evaluation does not unfold them under a binder.\<close>

lemma ext_loop_code [code]:
  "ext_loop s =
     (case getFirstReady ext_getRequestState None (ext_processing_queue s) of
        Inl e \<Rightarrow> Inl e
      | Inr p \<Rightarrow>
          (case snd p of
             None \<Rightarrow> Inr (s\<lparr>ext_processing_queue := fst p\<rparr>)
           | Some m \<Rightarrow>
               if msg_source m = LOWER_INTERCONNECT
               then let t = itf_pushMessage (ext_upper_interface s) (m\<lparr>msg_cycle := ext_clk_cycle s\<rparr>) (ext_clk_cycle s) REQUEST in
                    if snd (snd t) then ext_loop (s\<lparr>ext_processing_queue := fst p, ext_upper_interface := fst t\<rparr>)
                    else Inr (s\<lparr>ext_upper_interface := fst t, ext_processing_queue := fst (pushFront (fst (snd t)) (fst p)),
                                  m_link_full_holds := m_link_full_holds s + 1\<rparr>)
               else if msg_source m = UPPER_INTERCONNECT
               then if m_cpu_callback s
                    then ext_loop (s\<lparr>ext_processing_queue := fst p, completions := completions s @ [completion_of (ext_clk_cycle s) m]\<rparr>)
                    else Inl (Exit ''ExternalCPU: Error CPU Callback is invalid'')
               else ext_loop (s\<lparr>ext_processing_queue := fst p\<rparr>)))"
  by (subst ext_loop.simps) (simp add: result_bind_def Let_def split_beta split: sum.splits option.splits)

lemma ext_addRequests_code [code]:
  "ext_addRequests now i q =
     (case snd (itf_peekMessage i) of
        None \<Rightarrow> Inr (fst (itf_peekMessage i), q)
      | Some m \<Rightarrow>
          let r = pushBack (m\<lparr>msg_source := UPPER_INTERCONNECT, msg_cycle := now\<rparr>) Ready False q in
          if snd r
          then case itf_popFrontMessage (fst (itf_peekMessage i)) of Inl e \<Rightarrow> Inl e | Inr i2 \<Rightarrow> ext_addRequests now i2 (fst r)
          else Inr (fst (itf_peekMessage i), fst r))"
  by (subst ext_addRequests.simps) (simp add: result_bind_def Let_def split_beta split: sum.splits option.splits prod.splits)

end
