(* ===== verification/ComponentPorts.thy ===== *)
theory ComponentPorts
  imports ControllerCycle CoreTimetable Memory ExternalCore
begin

text \<open>
  Every component keeps to its ports: a cycle of a controller, a core or a memory only appends to the outgoing queues
  of its interfaces and only takes from the front of the incoming ones. The exceptions are the upper interfaces of a
  perfect shared cache and of the end-to-end controller.
\<close>

section \<open>Controllers\<close>

definition ports_keep :: "controller \<Rightarrow> controller \<Rightarrow> bool" where
  "ports_keep s s' \<longleftrightarrow>
     controller_config s' = controller_config s \<and> array_config (m_data_handler s') = array_config (m_data_handler s) \<and>
     m_cpu_port s' = m_cpu_port s \<and> rand_value s' = rand_value s \<and>
     port_used (m_lower_interface s) (m_lower_interface s') \<and>
     (\<not> m_perfect_llc s \<and> c_kind s \<noteq> End2EndController \<longrightarrow> port_used (m_upper_interface s) (m_upper_interface s'))"

lemma ports_keep_frame:
  assumes "controller_config s' = controller_config s" "array_config (m_data_handler s') = array_config (m_data_handler s)"
    "m_cpu_port s' = m_cpu_port s" "rand_value s' = rand_value s"
    "m_lower_interface s' = m_lower_interface s" "m_upper_interface s' = m_upper_interface s"
  shows "ports_keep s s'"
  using assms by (simp add: ports_keep_def)

interpretation ports: cycle_frame ports_keep
proof unfold_locales
  fix s s' s1 s2 :: controller and m :: message and cas
  show "ports_keep s s2" if "ports_keep s s1" "ports_keep s1 s2"
    using that by (auto simp: ports_keep_def controller_config_def intro: port_used_trans)
  show "ports_keep s s'" if "arrayEnqueue (new_array_op ACTIONS m cas) s = Inr s'"
    using arrayEnqueue_frame [OF that] by (auto intro!: ports_keep_frame simp: controller_config_def)
  show "ports_keep s s'" if "stall m s = Inr s'"
    using that by (auto simp: stall_def controller_config_def split: prod.splits if_splits intro!: ports_keep_frame)
qed (auto simp: ports_keep_def controller_config_def Base_addtoPendingRequests_def saveReqForWriteBack_def set_directory_def)

lemma controller_ports:
  assumes "cycleProcess n s = Some (Inr s')"
  shows "port_used (m_lower_interface s) (m_lower_interface s')"
    "\<not> m_perfect_llc s \<Longrightarrow> c_kind s \<noteq> End2EndController \<Longrightarrow> port_used (m_upper_interface s) (m_upper_interface s')"
    "controller_config s' = controller_config s" "m_cpu_port s' = m_cpu_port s"
  using ports.cycle_keeps [OF assms] by (simp_all add: ports_keep_def)

section \<open>Cores\<close>

lemma window_port: "window s' = window s \<Longrightarrow> port_used (cpu_upper_interface s) (cpu_upper_interface s')"
  by (simp add: window_def)

lemma receive_ports:
  assumes "checkReceiveBuffer s = Inr s'"
  shows "port_used (cpu_upper_interface s) (cpu_upper_interface s')"
proof -
  have lat: "cpu_upper_interface (record_latency t u) = cpu_upper_interface u" for t u
    by (simp add: record_latency_def Let_def split: option.splits)
  obtain i r where p: "itf_peekMessage (cpu_upper_interface s) = (i, r)" by force
  show ?thesis
    using assms p peek_port_used [OF p]
    by (auto simp: checkReceiveBuffer_def Let_def lat result_bind_Inr_iff split: option.splits if_splits
        intro: port_used_trans [OF _ pop_port_used])
qed

lemma issue_ports:
  assumes "issue_sample base issued x s = Inr s'" and "\<And>a b. issued a = Inr b \<Longrightarrow> window b = window a"
  shows "port_used (cpu_upper_interface s) (cpu_upper_interface s')"
proof -
  obtain i m ok where push: "itf_pushMessage (cpu_upper_interface s) ((sample_msg x)\<lparr>msg_cycle :=
      max (base + compute_time x) (read_cycle x), msg_kind := K_DEMAND\<rparr>) 0 REQUEST = (i, m, ok)" by (metis prod_cases3)
  show ?thesis
    using assms(1) push push_port_used [OF push]
    by (auto simp: issue_sample_def Let_def result_bind_Inr_iff window_def split: if_splits dest!: assms(2))
qed

lemma trace_ports:
  assumes "processLogic_trace s = Inr s'"
  shows "port_used (cpu_upper_interface s) (cpu_upper_interface s')"
proof (cases "m_sample_in_progess s")
  case (Some x)
  then show ?thesis using assms issue_ports [of _ Inr x s s'] by (auto simp: processLogic_trace_def)
next
  case None
  then obtain s1 r where r: "read_sample (m_clk_cycle s) s = Inr (s1, r)"
    and rest: "(case r of None \<Rightarrow> Inr (if m_sent_requests s1 = 0 then coreDone s1 else s1)
      | Some x \<Rightarrow> issue_sample (m_last_received_msg_cycle s1) Inr x (s1\<lparr>m_sample_in_progess := Some x\<rparr>)) = Inr s'"
    using assms by (auto simp: processLogic_trace_def result_bind_Inr_iff)
  have "cpu_upper_interface s1 = cpu_upper_interface s" using read_sample_window [OF r] by (simp add: window_def)
  then show ?thesis
    using rest issue_ports [of _ Inr _ "s1\<lparr>m_sample_in_progess := r\<rparr>" s']
    by (cases r) (auto simp: coreDone_def split: if_splits)
qed

lemma periodic_ports:
  assumes "periodicLogic s = Inr s'"
  shows "port_used (cpu_upper_interface s) (cpu_upper_interface s')"
proof -
  let ?x = "(m_job_samples s ! m_job_next s)\<lparr>read_cycle := m_clk_cycle s\<rparr>"
  let ?s = "s\<lparr>m_job_next := m_job_next s + 1, m_sample_in_progess := Some ?x\<rparr>"
  consider (quiet) "window s' = window s"
    | (waiting) x where "issue_sample (issue_base s) note_issue x s = Inr s'"
    | (fresh) "issue_sample (issue_base ?s) note_issue ?x ?s = Inr s'"
    using assms by (auto simp: periodicLogic_def Let_def split: if_splits option.splits dest: finishJob_window)
  then show ?thesis
  proof cases
    case fresh
    then show ?thesis using issue_ports [OF fresh note_issue_window] by simp
  qed (auto intro: window_port issue_ports [OF _ note_issue_window])
qed

lemma CPU_ports:
  assumes "CPU_cycleProcess s = Inr (s', stop)"
  shows "port_used (cpu_upper_interface s) (cpu_upper_interface s')"
proof (cases "m_simulation_done s")
  case True
  then show ?thesis using assms by (simp add: CPU_cycleProcess_def)
next
  case False
  then obtain s1 s2 where s1: "checkReceiveBuffer s = Inr s1"
    and s2: "(if m_periodic s1 then periodicLogic s1 else processLogic_trace s1) = Inr s2"
    and "cpu_upper_interface s' = cpu_upper_interface s2"
    using assms by (auto simp: CPU_cycleProcess_def result_bind_Inr_iff)
  then show ?thesis
    using port_used_trans [OF receive_ports [OF s1]] periodic_ports trace_ports by (metis (full_types))
qed

lemma init_ports: "cpu_init s = Inr s' \<Longrightarrow> cpu_upper_interface s' = cpu_upper_interface s"
  using window.expandJob_view
  by (auto simp: cpu_init_def window_def result_bind_Inr_iff Let_def split: if_splits dest!: read_message_window)

section \<open>The core of an embedder\<close>

lemma intake_ports:
  assumes "ext_addRequests now i q = Inr (i', q')"
  shows "port_used i i'"
  using assms
proof (induction now i q rule: ext_addRequests.induct)
  case (1 now i q)
  obtain i1 r where p: "itf_peekMessage i = (i1, r)" by force
  show ?case
  proof (cases r)
    case None
    then show ?thesis using 1(2) p peek_port_used [OF p] unfolding ext_addRequests.simps [of now i q] by auto
  next
    case (Some m)
    obtain q1 ok where pb: "pushBack (m\<lparr>msg_source := UPPER_INTERCONNECT, msg_cycle := now\<rparr>) Ready False q = (q1, ok)"
      by force
    show ?thesis
    proof (cases ok)
      case False
      then show ?thesis using 1(2) p Some pb peek_port_used [OF p] unfolding ext_addRequests.simps [of now i q] by auto
    next
      case True
      then obtain i2 where i2: "itf_popFrontMessage i1 = Inr i2" "ext_addRequests now i2 q1 = Inr (i', q')"
        using 1(2) p Some pb unfolding ext_addRequests.simps [of now i q] by (auto simp: result_bind_Inr_iff)
      have "port_used i2 i'" using 1(1) [OF p [symmetric] Some pb [symmetric] True i2] .
      then show ?thesis using port_used_trans [OF peek_port_used [OF p] port_used_trans [OF pop_port_used [OF i2(1)]]] by blast
    qed
  qed
qed

lemma ext_loop_ports:
  assumes "ext_loop s = Inr s'"
  shows "port_used (ext_upper_interface s) (ext_upper_interface s')"
  using assms
proof (induction s rule: ext_loop.induct)
  case (1 s)
  obtain q r where get: "getFirstReady ext_getRequestState None (ext_processing_queue s) = Inr (q, r)"
    using 1(4) unfolding ext_loop.simps [of s] by (auto simp: result_bind_Inr_iff)
  let ?s = "s\<lparr>ext_processing_queue := q\<rparr>"
  show ?case
  proof (cases r)
    case None
    then show ?thesis using 1(4) get unfolding ext_loop.simps [of s] by auto
  next
    case (Some m)
    obtain i m' ok where push: "itf_pushMessage (ext_upper_interface s) (m\<lparr>msg_cycle := ext_clk_cycle s\<rparr>) (ext_clk_cycle s) REQUEST
        = (i, m', ok)" by (metis prod_cases3)
    consider (low) "msg_source m = LOWER_INTERCONNECT" | (up) "msg_source m = UPPER_INTERCONNECT" | (self) "msg_source m = SELF"
      by (cases "msg_source m") auto
    then show ?thesis
    proof cases
      case low
      show ?thesis
      proof (cases ok)
        case True
        then have go: "ext_loop (?s\<lparr>ext_upper_interface := i\<rparr>) = Inr s'"
          using 1(4) get Some low push unfolding ext_loop.simps [of s] by simp
        have "port_used i (ext_upper_interface s')"
          using 1(1) [OF get refl refl Some low push [symmetric] refl True go] by simp
        then show ?thesis using port_used_trans [OF push_port_used [OF push]] by blast
      next
        case False
        then show ?thesis
          using 1(4) get Some low push push_port_used [OF push] unfolding ext_loop.simps [of s] by auto
      qed
    next
      case up
      let ?t = "?s\<lparr>completions := completions s @ [completion_of (ext_clk_cycle s) m]\<rparr>"
      have "m_cpu_callback s" "ext_loop ?t = Inr s'"
        using 1(4) get Some up unfolding ext_loop.simps [of s] by (auto split: if_splits)
      then show ?thesis using 1(2) [OF get refl refl Some _ up] up by simp
    next
      case self
      then have "ext_loop ?s = Inr s'" using 1(4) get Some unfolding ext_loop.simps [of s] by simp
      then show ?thesis using 1(3) [OF get refl refl Some] self by simp
    qed
  qed
qed

lemma ext_ports:
  assumes "ext_cycleProcess s = Inr s'"
  shows "port_used (ext_upper_interface s) (ext_upper_interface s')"
proof -
  obtain i q s1 where "ext_addRequests (ext_clk_cycle s) (ext_upper_interface s) (ext_processing_queue s) = Inr (i, q)"
    "ext_loop (s\<lparr>ext_upper_interface := i, ext_processing_queue := q\<rparr>) = Inr s1" "s' = s1\<lparr>ext_clk_cycle := ext_clk_cycle s1 + 1\<rparr>"
    using assms by (auto simp: ext_cycleProcess_def ext_processLogic_def result_bind_Inr_iff)
  then show ?thesis using port_used_trans [OF intake_ports] ext_loop_ports by fastforce
qed

section \<open>Memories\<close>

lemma memory_intake_ports:
  assumes "Memory_addRequests s = Inr s'"
  shows "port_used (mem_lower_interface s) (mem_lower_interface s')"
proof -
  obtain i r where p: "itf_peekMessage (mem_lower_interface s) = (i, r)" by force
  show ?thesis
    using assms p peek_port_used [OF p]
    by (auto simp: Memory_addRequests_def result_bind_Inr_iff split: option.splits prod.splits if_splits
        intro: port_used_trans [OF _ pop_port_used])
qed

lemma memory_ports:
  assumes "Memory_cycleProcess s = Inr s'"
  shows "port_used (mem_lower_interface s) (mem_lower_interface s')"
proof -
  have serve: "port_used (mem_lower_interface u) (mem_lower_interface u')" if "Memory_serve m u = Inr u'" for m u u'
    using that by (auto simp: Memory_serve_def split: if_splits prod.splits intro: push_port_used)
  obtain s1 q r s2 where s1: "Memory_addRequests s = Inr s1"
    and r: "(case r of None \<Rightarrow> Inr (s1\<lparr>mem_processing_queue := q\<rparr>) | Some m \<Rightarrow> Memory_serve m (s1\<lparr>mem_processing_queue := q\<rparr>)) = Inr s2"
    and s': "s' = s2\<lparr>mem_clk_cycle := mem_clk_cycle s2 + 1\<rparr>"
    using assms by (auto simp: Memory_cycleProcess_def Memory_processLogic_def Let_def result_bind_Inr_iff)
  have "port_used (mem_lower_interface s1) (mem_lower_interface s2)"
    using r serve by (cases r) force+
  then show ?thesis using port_used_trans [OF memory_intake_ports [OF s1]] s' by simp
qed

lemma mcsim_intake_ports:
  assumes "MCsim_addRequests s = Inr s'"
  shows "port_used (mc_lower_interface s) (mc_lower_interface s')"
proof -
  obtain i r where p: "itf_peekMessage (mc_lower_interface s) = (i, r)" by force
  show ?thesis
    using assms p peek_port_used [OF p]
    by (auto simp: MCsim_addRequests_def result_bind_Inr_iff split: option.splits prod.splits if_splits
        intro: port_used_trans [OF _ pop_port_used])
qed

lemma mcsim_ports:
  assumes "MCsim_cycleProcess accepts beyond calls s = Inr s'"
  shows "port_used (mc_lower_interface s) (mc_lower_interface s')"
proof -
  have update: "mc_lower_interface u' = mc_lower_interface u" if "mcsim_update beyond cs u = Inr u'" for cs u u'
    using that
    by (induction beyond cs u rule: mcsim_update.induct)
      (auto simp: result_bind_Inr_iff write_callback_def read_callback_def Let_def split: option.splits)
  obtain s1 s2 s3 s4 where s1: "MCsim_addRequests s = Inr s1" and s2: "MCsim_issue accepts s1 = Inr s2"
    and s3: "MCsim_send s2 = Inr s3" and s4: "mcsim_update beyond calls s3 = Inr s4"
    and s': "s' = s4\<lparr>mc_clk_cycle := mc_clk_cycle s4 + 1\<rparr>"
    using assms by (auto simp: MCsim_cycleProcess_def MCsim_processLogic_def result_bind_Inr_iff)
  obtain q r where "getFirstReady MCsim_getRequestState None (mc_processing_queue s1) = Inr (q, r)"
    using s2 by (auto simp: MCsim_issue_def result_bind_Inr_iff)
  then have "mc_lower_interface s2 = mc_lower_interface s1"
    using s2 by (cases r) (auto simp: MCsim_issue_def Let_def split: if_splits)
  moreover have "port_used (mc_lower_interface s2) (mc_lower_interface s3)"
    using s3 by (auto simp: MCsim_send_def split: list.splits prod.splits if_splits intro: push_port_used)
  ultimately show ?thesis using port_used_trans [OF mcsim_intake_ports [OF s1]] update [OF s4] s' by simp
qed

end
