(* ===== verification/Clocks.thy ===== *)
theory Clocks
  imports Prelude
begin

text \<open>
  The clock of the simulator, src/ClockManager.cpp: an event map from (time, registration number) to the clocked
  objects, and the step that runs every object due now. The objects are of any type; what their
  \<open>cycleProcess\<close> does is an argument. Printing is left out.
\<close>

section \<open>Event keys\<close>

datatype event_key = EventKey (time_stamp: u64) (obj_id: u64)

instantiation event_key :: linorder
begin

definition less_event_key :: "event_key \<Rightarrow> event_key \<Rightarrow> bool" where
  "less_event_key a b \<longleftrightarrow>
     time_stamp a < time_stamp b \<or> time_stamp a = time_stamp b \<and> obj_id a < obj_id b"

definition less_eq_event_key :: "event_key \<Rightarrow> event_key \<Rightarrow> bool" where
  "less_eq_event_key a b \<longleftrightarrow> a < b \<or> a = b"

instance
proof
  fix a b :: event_key
  show "a \<le> b \<or> b \<le> a"
    by (cases a; cases b) (auto simp: less_event_key_def less_eq_event_key_def)
qed (auto simp: less_event_key_def less_eq_event_key_def)

end

section \<open>State\<close>

text \<open>\<open>events\<close> is in the order of its keys; \<open>next_obj_id\<close> is the static \<open>ClockManager::obj_id\<close>.\<close>

record 'o clock_manager =
  clk_run :: bool
  current_time :: u64
  clock_triggers :: "'o list"
  events :: "(event_key \<times> 'o) list"
  next_obj_id :: u64

definition new_ClockManager :: "'o clock_manager" where
  "new_ClockManager =
     \<lparr> clk_run = False, current_time = 0, clock_triggers = [], events = [], next_obj_id = 0 \<rparr>"

text \<open>\<open>std::map::insert\<close>: a key that is there keeps its value.\<close>

fun insert_event :: "event_key \<Rightarrow> 'o \<Rightarrow> (event_key \<times> 'o) list \<Rightarrow> (event_key \<times> 'o) list" where
  "insert_event k v [] = [(k, v)]"
| "insert_event k v (x # xs) =
     (if k < fst x then (k, v) # x # xs else if k = fst x then x # xs else x # insert_event k v xs)"

section \<open>Registration\<close>

definition registerCLKObj :: "u64 \<Rightarrow> 'o \<Rightarrow> 'o clock_manager \<Rightarrow> 'o clock_manager" where
  "registerCLKObj clk_period obj s =
     s\<lparr>events := insert_event (EventKey clk_period (next_obj_id s)) obj (events s),
       next_obj_id := next_obj_id s + 1\<rparr>"

definition deregisterCLKObj :: "'o \<Rightarrow> 'o clock_manager \<Rightarrow> 'o clock_manager" where
  "deregisterCLKObj obj s =
     (case first_index (\<lambda>x. snd x = obj) (events s) of
        None \<Rightarrow> s
      | Some i \<Rightarrow> s\<lparr>events := erase_at i (events s)\<rparr>)"

definition registerCLKTrigger :: "'o \<Rightarrow> 'o clock_manager \<Rightarrow> 'o clock_manager" where
  "registerCLKTrigger obj s = s\<lparr>clock_triggers := clock_triggers s @ [obj]\<rparr>"

definition stopClock :: "'o \<Rightarrow> 'o clock_manager \<Rightarrow> 'o clock_manager" where
  "stopClock obj s =
     (let ts = remove1 obj (clock_triggers s)
      in s\<lparr>clock_triggers := ts, clk_run := (if ts = [] then False else clk_run s)\<rparr>)"

text \<open>\<open>init\<close> of every object in the order of the events, then the check of the periods.\<close>

fun init_objects :: "('o \<Rightarrow> 'w \<Rightarrow> 'w result) \<Rightarrow> 'o list \<Rightarrow> 'w \<Rightarrow> 'w result" where
  "init_objects ini [] w = Inr w"
| "init_objects ini (x # xs) w = result_bind (ini x w) (init_objects ini xs)"

definition clock_init :: "('o \<Rightarrow> 'w \<Rightarrow> 'w result) \<Rightarrow> ('o \<Rightarrow> u64) \<Rightarrow> 'o clock_manager \<Rightarrow> 'w \<Rightarrow> 'w result" where
  "clock_init ini period s w =
     result_bind (init_objects ini (map snd (events s)) w) (\<lambda>w'.
       if \<exists>x\<in>set (events s). period (snd x) = 0
       then Inl (Exit ''ClockManager: a clocked object still has period 0 at init'')
       else Inr w')"

text \<open>\<open>getMinPeriod\<close>, \<open>getStepGranularity\<close>; \<open>std::gcd\<close> of 64-bit numbers.\<close>

definition getMinPeriod :: "('o \<Rightarrow> u64) \<Rightarrow> 'o clock_manager \<Rightarrow> u64" where
  "getMinPeriod period s =
     fold (\<lambda>x m. let p = period (snd x) in if p \<noteq> 0 \<and> (m = 0 \<or> p < m) then p else m) (events s) 0"

definition getStepGranularity :: "('o \<Rightarrow> u64) \<Rightarrow> 'o clock_manager \<Rightarrow> u64" where
  "getStepGranularity period s =
     fold (\<lambda>x g. word_of_nat (gcd (unat g) (unat (period (snd x))))) (events s) 0"

section \<open>Running\<close>

text \<open>
  \<open>tick obj w\<close> is \<open>obj->cycleProcess()\<close>: the rest of the system afterwards, and the objects it calls
  \<open>stopClock\<close> for.
\<close>

definition dispatch ::
  "('o \<Rightarrow> 'w \<Rightarrow> ('w \<times> 'o list) result) \<Rightarrow> 'o \<Rightarrow> 'o clock_manager \<Rightarrow> 'w \<Rightarrow> ('o clock_manager \<times> 'w) result" where
  "dispatch tick obj s w = result_bind (tick obj w) (\<lambda>(w', stops). Inr (fold stopClock stops s, w'))"

fun clkStep ::
  "nat \<Rightarrow> ('o \<Rightarrow> 'w \<Rightarrow> ('w \<times> 'o list) result) \<Rightarrow> ('o \<Rightarrow> u64) \<Rightarrow> 'o clock_manager \<Rightarrow> 'w
   \<Rightarrow> ('o clock_manager \<times> 'w) fuelled" where
  "clkStep 0 tick period s w = None"
| "clkStep (Suc n) tick period s w =
     (case events s of
        [] \<Rightarrow> Some (Inl (Undefined ''no event''))
      | (k, obj) # es \<Rightarrow>
          if current_time s < time_stamp k then Some (Inr (s\<lparr>current_time := time_stamp k\<rparr>, w))
          else if time_stamp k < current_time s then Some (Inl (Exit ''ClockManager: CLK event is missed.''))
          else fuel_bind (Some (dispatch tick obj (s\<lparr>events := es\<rparr>) w)) (\<lambda>(s', w').
            clkStep n tick period
              (s'\<lparr>events := insert_event (EventKey (current_time s' + period obj) (obj_id k)) obj (events s')\<rparr>) w'))"

fun clock_loop ::
  "nat \<Rightarrow> ('o \<Rightarrow> 'w \<Rightarrow> ('w \<times> 'o list) result) \<Rightarrow> ('o \<Rightarrow> u64) \<Rightarrow> 'o clock_manager \<Rightarrow> 'w
   \<Rightarrow> ('o clock_manager \<times> 'w) fuelled" where
  "clock_loop 0 tick period s w = None"
| "clock_loop (Suc n) tick period s w =
     (if clk_run s then fuel_bind (clkStep n tick period s w) (\<lambda>(s', w'). clock_loop n tick period s' w')
      else Some (Inr (s, w)))"

definition clock_run ::
  "nat \<Rightarrow> ('o \<Rightarrow> 'w \<Rightarrow> ('w \<times> 'o list) result) \<Rightarrow> ('o \<Rightarrow> u64) \<Rightarrow> 'o clock_manager \<Rightarrow> 'w
   \<Rightarrow> ('o clock_manager \<times> 'w) fuelled" where
  "clock_run n tick period s w = clock_loop n tick period (s\<lparr>clk_run := True\<rparr>) w"

section \<open>The event map\<close>

lemma mset_insert_event:
  "k \<notin> fst ` set es \<Longrightarrow> mset (insert_event k v es) = add_mset (k, v) (mset es)"
  by (induction es) auto

lemma keys_insert_event: "set (map fst (insert_event k v es)) = insert k (set (map fst es))"
  by (induction es) auto

lemma sorted_insert_event:
  "sorted_wrt (<) (map fst es) \<Longrightarrow> sorted_wrt (<) (map fst (insert_event k v es))"
proof (induction es)
  case Nil
  then show ?case by simp
next
  case (Cons x xs)
  show ?case
  proof (cases "fst x < k")
    case True
    then have "\<forall>y\<in>set (map fst (insert_event k v xs)). fst x < y"
      unfolding keys_insert_event using Cons.prems by auto
    moreover have "\<not> k < fst x" "k \<noteq> fst x" using True by auto
    ultimately show ?thesis using Cons by simp
  next
    case False
    then consider "k = fst x" | "k < fst x" by (meson neqE)
    then show ?thesis
    proof cases
      case 2
      then have "\<forall>y\<in>set xs. k < fst y" using Cons.prems less_trans by fastforce
      then show ?thesis using 2 Cons.prems by simp
    qed (use Cons.prems in simp)
  qed
qed

lemma filter_insert_event: "\<not> P (k, v) \<Longrightarrow> filter P (insert_event k v es) = filter P es"
  by (induction es) auto

lemma stopClock_fields [simp]:
  "events (stopClock obj s) = events s" "current_time (stopClock obj s) = current_time s"
  "next_obj_id (stopClock obj s) = next_obj_id s"
  "stopClock obj (s\<lparr>events := es\<rparr>) = (stopClock obj s)\<lparr>events := es\<rparr>"
  by (simp_all add: stopClock_def Let_def)

lemma fold_stopClock [simp]:
  "events (fold stopClock xs s) = events s" "current_time (fold stopClock xs s) = current_time s"
  "next_obj_id (fold stopClock xs s) = next_obj_id s"
  "fold stopClock xs (s\<lparr>events := es\<rparr>) = (fold stopClock xs s)\<lparr>events := es\<rparr>"
  by (induction xs arbitrary: s) simp_all

section \<open>One step\<close>

definition clock_ok :: "'o clock_manager \<Rightarrow> bool" where
  "clock_ok s \<longleftrightarrow>
     events s \<noteq> [] \<and> sorted_wrt (<) (map fst (events s)) \<and> distinct (map (obj_id \<circ> fst) (events s)) \<and>
     (\<forall>x\<in>set (events s). current_time s \<le> time_stamp (fst x))"

text \<open>Every object has a period, and its next event is before the counter of nanoseconds wraps.\<close>

definition periods_fit :: "('o \<Rightarrow> u64) \<Rightarrow> 'o clock_manager \<Rightarrow> bool" where
  "periods_fit period s \<longleftrightarrow>
     (\<forall>x\<in>set (events s). current_time s < current_time s + period (snd x))"

text \<open>The objects due now, in the order of their registration, and the event of each after it has run.\<close>

definition due :: "'o clock_manager \<Rightarrow> 'o list" where
  "due s = map snd (filter (\<lambda>x. time_stamp (fst x) = current_time s) (events s))"

definition reschedule :: "('o \<Rightarrow> u64) \<Rightarrow> u64 \<Rightarrow> event_key \<times> 'o \<Rightarrow> event_key \<times> 'o" where
  "reschedule period t x =
     (if time_stamp (fst x) = t then (EventKey (t + period (snd x)) (obj_id (fst x)), snd x) else x)"

fun run_ticks :: "('o \<Rightarrow> 'w \<Rightarrow> ('w \<times> 'o list) result) \<Rightarrow> 'o list \<Rightarrow> 'w \<Rightarrow> ('w \<times> 'o list) result" where
  "run_ticks tick [] w = Inr (w, [])"
| "run_ticks tick (x # xs) w =
     result_bind (tick x w) (\<lambda>(w1, st). result_bind (run_ticks tick xs w1) (\<lambda>(w2, st2). Inr (w2, st @ st2)))"

text \<open>The clock after a step that dispatched its objects: what an abstract event loop does.\<close>

definition stepped :: "('o \<Rightarrow> u64) \<Rightarrow> 'o list \<Rightarrow> 'o clock_manager \<Rightarrow> 'o clock_manager \<Rightarrow> bool" where
  "stepped period stops s s' \<longleftrightarrow>
     mset (events s') = image_mset (reschedule period (current_time s)) (mset (events s)) \<and>
     sorted_wrt (<) (map fst (events s')) \<and>
     current_time s' = time_stamp (fst (hd (events s'))) \<and> current_time s < current_time s' \<and>
     clock_triggers s' = clock_triggers (fold stopClock stops s) \<and> clk_run s' = clk_run (fold stopClock stops s)"

lemma word_u64_bound: "unat (w :: u64) < 2 ^ 64"
  using unsigned_less [of w] by simp

lemma unat_add_no_wrap:
  fixes t p :: u64
  assumes "t < t + p"
  shows "unat (t + p) = unat t + unat p" and "p \<noteq> 0"
proof -
  show "p \<noteq> 0" using assms by auto
  have "unat t + unat p < 2 ^ 64"
  proof (rule ccontr)
    assume "\<not> unat t + unat p < 2 ^ 64"
    moreover have "unat t < 2 ^ 64" "unat p < 2 ^ 64" by (rule word_u64_bound)+
    ultimately have "unat (t + p) \<le> unat t" by (auto simp: unat_word_ariths mod_if)
    then show False using assms by (simp add: word_less_nat_alt)
  qed
  then show "unat (t + p) = unat t + unat p" by (simp add: unat_word_ariths)
qed

lemma clock_ok_next:
  assumes ok: "clock_ok s" "periods_fit period s" and ev: "events s = (k, obj) # es" and t: "time_stamp k = current_time s"
    and k': "k' = EventKey (current_time s + period obj) (obj_id k)"
    and s2: "events s2 = insert_event k' obj es" "current_time s2 = current_time s"
  shows "clock_ok s2 \<and> periods_fit period s2 \<and> due s = obj # due s2 \<and> k' \<notin> fst ` set es"
proof -
  have later: "current_time s < time_stamp k'"
    using ok(2) ev by (auto simp: k' periods_fit_def)
  have ids: "obj_id k \<notin> (obj_id \<circ> fst) ` set es" "distinct (map (obj_id \<circ> fst) es)"
    using ok(1) ev by (auto simp: clock_ok_def)
  then have new: "k' \<notin> fst ` set es" by (force simp: k')
  have "mset (map (obj_id \<circ> fst) (events s2)) = mset (map (obj_id \<circ> fst) ((k, obj) # es))"
    using mset_insert_event [OF new, of obj] by (simp add: s2 k')
  moreover have "distinct (map (obj_id \<circ> fst) ((k, obj) # es))" using ids by simp
  ultimately have "distinct (map (obj_id \<circ> fst) (events s2))" by (metis mset_eq_imp_distinct_iff)
  moreover have "sorted_wrt (<) (map fst (events s2))"
    using ok(1) ev by (auto simp: s2 clock_ok_def intro: sorted_insert_event)
  moreover have set2: "set (events s2) = insert (k', obj) (set es)"
    using mset_insert_event [OF new, of obj] s2(1) by (metis set_mset_add_mset_insert set_mset_mset)
  moreover have "due s = obj # due s2"
    using later filter_insert_event [of "\<lambda>x. time_stamp (fst x) = current_time s" k' obj es]
    by (simp add: due_def ev t s2)
  ultimately show ?thesis using ok ev later new by (auto simp: clock_ok_def periods_fit_def s2(2))
qed

lemma clkStep_stepped:
  assumes "clock_ok s" and "periods_fit period s" and "length (due s) < n"
  shows "case run_ticks tick (due s) w of
      Inl e \<Rightarrow> clkStep n tick period s w = Some (Inl e)
    | Inr (w', stops) \<Rightarrow> \<exists>s'. clkStep n tick period s w = Some (Inr (s', w')) \<and> stepped period stops s s'"
  using assms
proof (induction n arbitrary: s w)
  case 0
  then show ?case by simp
next
  case (Suc n)
  obtain k obj es where ev: "events s = (k, obj) # es" using Suc.prems(1) by (cases "events s") (auto simp: clock_ok_def)
  have ge: "current_time s \<le> time_stamp k" using Suc.prems(1) ev by (simp add: clock_ok_def)
  show ?case
  proof (cases "time_stamp k = current_time s")
    case False
    then have lt: "current_time s < time_stamp k" using ge by simp
    have all: "current_time s < time_stamp (fst x)" if "x \<in> set (events s)" for x
      using that Suc.prems(1) ev lt by (auto simp: clock_ok_def less_event_key_def)
    then have all_ne: "time_stamp (fst x) \<noteq> current_time s" if "x \<in> set (events s)" for x using that by fastforce
    then have "due s = []" by (simp add: due_def filter_empty_conv)
    moreover have "image_mset (reschedule period (current_time s)) (mset (events s)) = image_mset id (mset (events s))"
      using all_ne by (intro image_mset_cong) (simp add: reschedule_def)
    ultimately show ?thesis using ev lt Suc.prems(1) by (auto simp: stepped_def clock_ok_def)
  next
    case t: True
    let ?k' = "EventKey (current_time s + period obj) (obj_id k)"
    show ?thesis
    proof (cases "tick obj w")
      case (Inl e)
      then show ?thesis using ev t by (simp add: due_def dispatch_def)
    next
      case (Inr r)
      obtain w1 st where r: "r = (w1, st)" by (cases r)
      let ?s2 = "(fold stopClock st s)\<lparr>events := insert_event ?k' obj es\<rparr>"
      have step: "clkStep (Suc n) tick period s w = clkStep n tick period ?s2 w1"
        using ev t Inr r by (simp add: dispatch_def)
      note nxt = clock_ok_next [OF Suc.prems(1,2) ev t refl, of ?s2]
      have d: "due s = obj # due ?s2" and new: "?k' \<notin> fst ` set es" using nxt by auto
      have "length (due ?s2) < n" using Suc.prems(3) d by simp
      note IH = Suc.IH [OF _ _ this, of w1]
      have re: "stepped period (st @ st2) s s'" if "stepped period st2 ?s2 s'" for st2 s'
      proof -
        have "reschedule period (current_time s) (?k', obj) = (?k', obj)"
          using Suc.prems(2) ev by (auto simp: reschedule_def periods_fit_def)
        moreover have "reschedule period (current_time s) (k, obj) = (?k', obj)" using t by (simp add: reschedule_def)
        ultimately have "image_mset (reschedule period (current_time s)) (mset (insert_event ?k' obj es)) =
            image_mset (reschedule period (current_time s)) (mset (events s))"
          using mset_insert_event [OF new, of obj] ev by simp
        then show ?thesis using that by (auto simp: stepped_def)
      qed
      show ?thesis
        using IH nxt unfolding step d
        by (cases "run_ticks tick (due ?s2) w1") (auto simp: Inr r intro: re)
    qed
  qed
qed

text \<open>
  C33. One step of the clock runs exactly the objects due at the current time, each once and in the order of their
  registration, moves the event of each one period on and leaves the other events, and then advances the time to
  the next event; a step with a period of at least 1 for every object ends, with fuel for one turn more than there
  are due objects, and the error of an object stops it.
\<close>

theorem clkStep_runs_due_objects:
  assumes "clock_ok s" and "periods_fit period s" and "length (due s) < n"
  shows "case run_ticks tick (due s) w of
      Inl e \<Rightarrow> clkStep n tick period s w = Some (Inl e)
    | Inr (w', stops) \<Rightarrow> \<exists>s'. clkStep n tick period s w = Some (Inr (s', w')) \<and> stepped period stops s s'"
  by (rule clkStep_stepped [OF assms])

section \<open>Runs\<close>

text \<open>
  An object registers with period 0, or with its own period, before the clock starts: its first event is at 0 or
  after one period.
\<close>

definition clock_start :: "('o \<Rightarrow> u64) \<Rightarrow> 'o clock_manager \<Rightarrow> bool" where
  "clock_start period s \<longleftrightarrow>
     clock_ok s \<and> current_time s = 0 \<and> (\<forall>x\<in>set (events s). time_stamp (fst x) \<in> {0, period (snd x)})"

inductive clock_reach ::
  "('o \<Rightarrow> 'w \<Rightarrow> ('w \<times> 'o list) result) \<Rightarrow> ('o \<Rightarrow> u64) \<Rightarrow> 'o clock_manager \<Rightarrow> 'w \<Rightarrow> bool"
  for tick period where
  start: "clock_start period s \<Longrightarrow> clock_reach tick period s w"
| step: "clock_reach tick period s w \<Longrightarrow> periods_fit period s \<Longrightarrow> clkStep n tick period s w = Some (Inr (s', w')) \<Longrightarrow>
    clock_reach tick period s' w'"

text \<open>The event of an object is at the first multiple of its period that is not in the past.\<close>

definition aligned :: "('o \<Rightarrow> u64) \<Rightarrow> 'o clock_manager \<Rightarrow> bool" where
  "aligned period s \<longleftrightarrow>
     (\<forall>x\<in>set (events s). unat (period (snd x)) dvd unat (time_stamp (fst x)) \<and>
        (current_time s = 0 \<or> unat (time_stamp (fst x)) < unat (current_time s) + unat (period (snd x))))"

lemma clkStep_mono:
  "clkStep n tick period s w = Some r \<Longrightarrow> n \<le> n' \<Longrightarrow> clkStep n' tick period s w = Some r"
proof (induction n arbitrary: s w n')
  case 0
  then show ?case by simp
next
  case (Suc n)
  from Suc.prems(2) obtain m where m: "n' = Suc m" "n \<le> m" by (cases n') auto
  show ?case
  proof (cases "events s")
    case Nil
    then show ?thesis using Suc.prems(1) m by simp
  next
    case (Cons x es)
    obtain k obj where x: "x = (k, obj)" by (cases x)
    show ?thesis
    proof (cases "time_stamp k = current_time s \<and> (\<exists>y. dispatch tick obj (s\<lparr>events := es\<rparr>) w = Inr y)")
      case True
      then obtain s1 w1 where "dispatch tick obj (s\<lparr>events := es\<rparr>) w = Inr (s1, w1)" by auto
      then show ?thesis using Suc.prems(1) Suc.IH [OF _ m(2)] Cons x True m(1) by simp
    next
      case False
      then show ?thesis
        using Suc.prems(1) Cons x m(1) by (cases "dispatch tick obj (s\<lparr>events := es\<rparr>) w") (auto split: if_splits)
    qed
  qed
qed

lemma clkStep_result:
  assumes "clock_ok s" and "periods_fit period s" and "clkStep n tick period s w = Some (Inr (s', w'))"
  shows "\<exists>stops. stepped period stops s s' \<and> run_ticks tick (due s) w = Inr (w', stops)"
proof -
  let ?n = "max n (Suc (length (due s)))"
  have r: "clkStep ?n tick period s w = Some (Inr (s', w'))" by (rule clkStep_mono [OF assms(3)]) simp
  have "length (due s) < ?n" by simp
  from clkStep_stepped [OF assms(1,2) this, of tick w] r show ?thesis
    by (cases "run_ticks tick (due s) w") auto
qed

lemma stepped_set: "stepped period stops s s' \<Longrightarrow> set (events s') = reschedule period (current_time s) ` set (events s)"
  unfolding stepped_def by (metis set_image_mset set_mset_mset)

lemma stepped_ok:
  assumes "stepped period stops s s'" and "clock_ok s"
  shows "clock_ok s'"
proof -
  have "mset (map (obj_id \<circ> fst) (events s')) = mset (map (obj_id \<circ> fst) (events s))"
  proof -
    have "obj_id \<circ> fst \<circ> reschedule period (current_time s) = obj_id \<circ> fst" by (auto simp: reschedule_def)
    moreover have "mset (events s') = image_mset (reschedule period (current_time s)) (mset (events s))"
      using assms(1) by (simp add: stepped_def)
    ultimately show ?thesis by (simp add: multiset.map_comp)
  qed
  then have "distinct (map (obj_id \<circ> fst) (events s'))"
    using assms(2) by (metis clock_ok_def mset_eq_imp_distinct_iff)
  moreover have "events s' \<noteq> []" using stepped_set [OF assms(1)] assms(2) by (auto simp: clock_ok_def)
  moreover have "time_stamp (fst (hd (events s'))) \<le> time_stamp (fst x)" if "x \<in> set (events s')" for x
    using that assms(1) by (cases "events s'") (auto simp: stepped_def less_event_key_def)
  ultimately show ?thesis using assms(1) by (auto simp: clock_ok_def stepped_def)
qed

lemma stepped_aligned:
  assumes "stepped period stops s s'" and "clock_ok s" and "periods_fit period s" and "aligned period s"
    and "current_time s = 0 \<Longrightarrow> \<forall>x\<in>set (events s). time_stamp (fst x) \<in> {0, period (snd x)}"
  shows "aligned period s'"
  unfolding aligned_def
proof
  fix x assume "x \<in> set (events s')"
  then obtain y where y: "y \<in> set (events s)" "x = reschedule period (current_time s) y"
    using stepped_set [OF assms(1)] by blast
  let ?p = "period (snd y)" and ?t = "current_time s"
  have fit: "unat (?t + ?p) = unat ?t + unat ?p" using assms(3) y(1) by (intro unat_add_no_wrap) (simp add: periods_fit_def)
  have time: "unat ?t < unat (current_time s')" using assms(1) by (auto simp: stepped_def word_less_nat_alt)
  have dv: "unat ?p dvd unat (time_stamp (fst y))" using assms(4) y(1) by (auto simp: aligned_def)
  show "unat (period (snd x)) dvd unat (time_stamp (fst x)) \<and>
      (current_time s' = 0 \<or> unat (time_stamp (fst x)) < unat (current_time s') + unat (period (snd x)))"
  proof (cases "time_stamp (fst y) = ?t")
    case True
    then show ?thesis using y(2) dv fit time by (simp add: reschedule_def)
  next
    case False
    have "unat (time_stamp (fst y)) < unat (current_time s') + unat ?p"
    proof (cases "?t = 0")
      case True
      then have "time_stamp (fst y) = ?p" using assms(5) y(1) False by auto
      then show ?thesis using time by simp
    next
      case nz: False
      then have "unat (time_stamp (fst y)) < unat ?t + unat ?p" using assms(4) y(1) by (simp add: aligned_def)
      then show ?thesis using time by simp
    qed
    then show ?thesis using y(2) dv False by (simp add: reschedule_def)
  qed
qed

lemma clock_reach_ok:
  assumes "clock_reach tick period s w"
  shows "clock_ok s \<and> aligned period s \<and>
    (current_time s = 0 \<longrightarrow> (\<forall>x\<in>set (events s). time_stamp (fst x) \<in> {0, period (snd x)}))"
  using assms
proof (induction rule: clock_reach.induct)
  case (start s w)
  then show ?case by (auto simp: clock_start_def aligned_def)
next
  case (step s w n s' w')
  obtain stops where st: "stepped period stops s s'" using clkStep_result [OF _ step.hyps(2,3)] step.IH by blast
  then have "current_time s' \<noteq> 0" by (auto simp: stepped_def)
  then show ?case using stepped_ok [OF st] stepped_aligned [OF st _ step.hyps(2)] step.IH by blast
qed

text \<open>
  C32. The clock is synchronous: whenever it stands at a time after the start, the objects it is about to run are, in
  the order of their registration, exactly the registered ones whose period divides that time. No object drifts,
  misses a cycle or runs twice in one, whatever the objects do.
\<close>

theorem clock_runs_multiples_of_period:
  assumes "clock_reach tick period s w" and "current_time s \<noteq> 0"
    and "\<forall>x\<in>set (events s). period (snd x) \<noteq> 0"
  shows "due s = map snd (filter (\<lambda>x. unat (period (snd x)) dvd unat (current_time s)) (events s))"
proof -
  have "time_stamp (fst x) = current_time s \<longleftrightarrow> unat (period (snd x)) dvd unat (current_time s)"
    if x: "x \<in> set (events s)" for x
  proof -
    let ?p = "unat (period (snd x))" and ?t = "unat (time_stamp (fst x))" and ?c = "unat (current_time s)"
    have r: "?p dvd ?t" "?t < ?c + ?p" "?c \<le> ?t"
      using clock_reach_ok [OF assms(1)] assms(2) x by (auto simp: aligned_def clock_ok_def word_le_nat_alt)
    have "?t = ?c" if d: "?p dvd ?c"
    proof -
      have "?p dvd ?t - ?c" using r(1) d by (rule dvd_diff_nat)
      moreover have "?t - ?c < ?p" using r(2,3) by simp
      ultimately have "?t - ?c = 0" by (metis nat_dvd_not_less neq0_conv)
      then show ?thesis using r(3) by simp
    qed
    then show ?thesis using r(1) by (auto simp: word_unat_eq_iff)
  qed
  then show ?thesis unfolding due_def by (metis (mono_tags, lifting) filter_cong)
qed

text \<open>The time is a multiple of what \<open>getStepGranularity\<close> returns, so a step never advances by less.\<close>

lemma fold_gcd_dvd:
  "unat (fold (\<lambda>x g. word_of_nat (gcd (unat g) (unat (period (snd x))))) es (g :: u64)) dvd unat g \<and>
   (\<forall>x\<in>set es. unat (fold (\<lambda>x g. word_of_nat (gcd (unat g) (unat (period (snd x)))) :: u64) es g) dvd unat (period (snd x) :: u64))"
proof (induction es arbitrary: g)
  case Nil
  then show ?case by simp
next
  case (Cons y es)
  let ?g = "word_of_nat (gcd (unat g) (unat (period (snd y)))) :: u64"
  have small: "gcd (unat a) (unat b) < 2 ^ 64" for a b :: u64
  proof (cases "unat a = 0")
    case True
    then show ?thesis using word_u64_bound [of b] by simp
  next
    case False
    then have "gcd (unat a) (unat b) \<le> unat a" by (intro dvd_imp_le) simp_all
    then show ?thesis using word_u64_bound [of a] by simp
  qed
  have g: "unat ?g = gcd (unat g) (unat (period (snd y)))" using small by (simp add: unat_of_nat)
  have "unat ?g dvd unat g" "unat ?g dvd unat (period (snd y))" unfolding g by simp_all
  then show ?case using Cons.IH [of ?g] by (auto intro: dvd_trans)
qed

lemma granularity_dvd:
  assumes "clock_reach tick period s w"
  shows "unat (getStepGranularity period s) dvd unat (current_time s)"
  using assms
proof (cases rule: clock_reach.cases)
  case start
  then show ?thesis by (simp add: clock_start_def)
next
  case (step s0 w0 n)
  obtain stops where "stepped period stops s0 s"
    using clkStep_result [OF _ step(2,3)] clock_reach_ok [OF step(1)] by blast
  moreover have ok: "clock_ok s \<and> aligned period s" using clock_reach_ok [OF assms] by blast
  ultimately obtain x where x: "x \<in> set (events s)" "current_time s = time_stamp (fst x)"
    by (cases "events s") (auto simp: stepped_def clock_ok_def)
  have "unat (getStepGranularity period s) dvd unat (period (snd x))"
    using fold_gcd_dvd [of period "events s" 0] x(1) by (simp add: getStepGranularity_def)
  also have "unat (period (snd x)) dvd unat (current_time s)" using ok x by (auto simp: aligned_def)
  finally show ?thesis .
qed

text \<open>Two cores of period 2 and 3 and what they run as: the world is the log of the calls.\<close>

definition example_clock :: "nat clock_manager" where
  "example_clock = registerCLKObj 0 3 (registerCLKObj 0 2 new_ClockManager)"

definition log_tick :: "nat \<Rightarrow> nat list \<Rightarrow> (nat list \<times> nat list) result" where
  "log_tick obj w = Inr (w @ [obj], [])"

definition steps :: "nat \<Rightarrow> (nat clock_manager \<times> nat list) fuelled" where
  "steps k = ((\<lambda>r. fuel_bind r (\<lambda>(s, w). clkStep 3 log_tick of_nat s w)) ^^ k) (Some (Inr (example_clock, [])))"

theorem clkStep_runs_due_objects_witness:
  "\<exists>s'. clkStep 3 log_tick of_nat example_clock [] = Some (Inr (s', [2, 3])) \<and> stepped of_nat [] example_clock s' \<and>
     current_time s' = 2"
proof -
  have h: "clock_ok example_clock" "periods_fit of_nat example_clock" "length (due example_clock) < 3"
    and r: "run_ticks log_tick (due example_clock) [] = Inr ([2, 3], [])"
    and t: "case clkStep 3 log_tick of_nat example_clock [] of
       None \<Rightarrow> False | Some q \<Rightarrow> (case q of Inl e \<Rightarrow> False | Inr x \<Rightarrow> current_time (fst x) = 2)"
    by code_simp+
  obtain s' where s': "clkStep 3 log_tick of_nat example_clock [] = Some (Inr (s', [2, 3]))"
    "stepped of_nat [] example_clock s'"
    using clkStep_runs_due_objects [OF h, of log_tick "[]"] unfolding r by auto
  then show ?thesis using t by auto
qed

theorem clock_runs_multiples_of_period_witness:
  "\<exists>s w. steps 4 = Some (Inr (s, w)) \<and> current_time s = 6 \<and> due s = [2, 3] \<and> w = [2, 3, 2, 3, 2]"
proof -
  have next_reach: "clock_reach log_tick of_nat s' w'"
    if "clock_reach log_tick of_nat s w" "periods_fit of_nat s" "clkStep 3 log_tick of_nat s w = Some (Inr (s', w'))"
    for s s' :: "nat clock_manager" and w w'
    using that by (rule clock_reach.step)
  define st where "st k = (case steps k of Some (Inr x) \<Rightarrow> x | _ \<Rightarrow> (example_clock, []))" for k
  have all: "steps k = Some (Inr (st k)) \<and> periods_fit of_nat (fst (st k))" if "k \<le> 4" for k
  proof -
    have "\<forall>k\<in>set [0, 1, 2, 3, 4]. case steps k of Some (Inr x) \<Rightarrow> periods_fit of_nat (fst x) | _ \<Rightarrow> False" by code_simp
    moreover have "k \<in> set [0, 1, 2, 3, 4]" using that by auto
    ultimately show ?thesis by (fastforce simp: st_def split: option.splits sum.splits)
  qed
  have "clock_reach log_tick of_nat (fst (st k)) (snd (st k))" if "k \<le> 4" for k
    using that
  proof (induction k)
    case 0
    have "clock_start of_nat example_clock" by code_simp
    then show ?case by (auto simp: st_def steps_def intro: clock_reach.start)
  next
    case (Suc k)
    have "fuel_bind (steps k) (\<lambda>(s, w). clkStep 3 log_tick of_nat s w) = Some (Inr (st (Suc k)))"
      using all [OF Suc.prems] by (simp add: steps_def)
    then have "clkStep 3 log_tick of_nat (fst (st k)) (snd (st k)) = Some (Inr (fst (st (Suc k)), snd (st (Suc k))))"
      using all [of k] Suc.prems by (simp add: case_prod_beta)
    then show ?case using next_reach [of "fst (st k)" "snd (st k)"] Suc all [of k] by simp
  qed
  then have reach: "clock_reach log_tick of_nat (fst (st 4)) (snd (st 4))" by simp
  have fin: "case steps 4 of Some (Inr x) \<Rightarrow> current_time (fst x) = 6 \<and> snd x = [2, 3, 2, 3, 2] \<and>
      (\<forall>y\<in>set (events (fst x)). (of_nat (snd y) :: u64) \<noteq> 0) \<and> map snd (events (fst x)) = [2, 3] | _ \<Rightarrow> False" by code_simp
  then have f: "current_time (fst (st 4)) = 6" "snd (st 4) = [2, 3, 2, 3, 2]" "map snd (events (fst (st 4))) = [2, 3]"
    "\<forall>y\<in>set (events (fst (st 4))). (of_nat (snd y) :: u64) \<noteq> 0"
    using all [of 4] by auto
  have "map snd (filter (\<lambda>x. unat (of_nat (snd x) :: u64) dvd 6) (events (fst (st 4)))) =
      filter (\<lambda>o'. unat (of_nat o' :: u64) dvd 6) (map snd (events (fst (st 4))))"
    by (simp add: filter_map comp_def)
  also have "\<dots> = [2, 3]" unfolding f(3) by code_simp
  finally have "due (fst (st 4)) = [2, 3]"
    using clock_runs_multiples_of_period [OF reach _ f(4)] f(1) by simp
  then show ?thesis using all [of 4] f by (cases "st 4") auto
qed

end
