(* ===== verification/MultiCore.thy ===== *)
theory MultiCore
  imports ComponentPorts Buses Clocks
begin

text \<open>
  A whole system, src/SystemConfigurations/MultiCoreSystem.cpp: the buses, per core a core model, its direct
  interconnect and its private cache, the shared cache and the memory, all called by the clock. A pointer to an
  interface is its identifier: a component gets the interface for its cycle and leaves it behind changed. What all
  components share (the delivery counter, the next request number, the draws of \<open>rand\<close>, the number of finite
  cores) is part of the system's state. Parameters of the configuration are arguments; the DRAM simulator is one too.
\<close>

section \<open>State\<close>

datatype core = TraceCore cpu | PortCore external_core

datatype memory = BasicMemory main_memory | DramMemory mcsim_interface

text \<open>
  What the DRAM simulator does in the cycle of that number: which requests it takes, the bytes behind the local of
  the read callback, and the callbacks it makes.
\<close>

type_synonym dram = "u64 \<Rightarrow> (message \<Rightarrow> bool) \<times> u8 list \<times> u64 option list"

record multicore =
  ms_buses :: "bus list"
  ms_links :: "direct_interconnect list"
  ms_cores :: "core list"
  ms_caches :: "controller list"
  ms_llc :: controller
  ms_memory :: memory
  ms_memory_port :: int
  ms_seq :: u64
  ms_next_id :: int
  ms_draws :: nat
  ms_running :: int

text \<open>The clocked objects.\<close>

datatype clocked = BusClock nat | LinkClock nat | CoreClock nat | CacheClock nat | LlcClock | MemoryClock

section \<open>One cycle of one object\<close>

definition port_index :: "int \<Rightarrow> interface list \<Rightarrow> nat result" where
  "port_index i itfs =
     (case first_index (\<lambda>x. itf_id x = i) itfs of
        None \<Rightarrow> Inl (Undefined ''null interface'')
      | Some k \<Rightarrow> Inr k)"

text \<open>A run for which the fuel does not suffice is no run.\<close>

definition with_fuel :: "'a fuelled \<Rightarrow> 'a result" where
  "with_fuel r = (case r of None \<Rightarrow> Inl (Undefined ''more fuel needed'') | Some x \<Rightarrow> x)"

definition set_port :: "nat \<Rightarrow> interface \<Rightarrow> bus \<Rightarrow> bus" where
  "set_port k i b = b\<lparr>m_interfaces := (m_interfaces b)[k := i]\<rparr>"

definition set_bus :: "nat \<Rightarrow> bus \<Rightarrow> multicore \<Rightarrow> multicore" where
  "set_bus j b s = s\<lparr>ms_buses := (ms_buses s)[j := b]\<rparr>"

definition set_link :: "nat \<Rightarrow> nat \<Rightarrow> interface \<Rightarrow> multicore \<Rightarrow> multicore" where
  "set_link c k i s =
     s\<lparr>ms_links := (ms_links s)[c := (ms_links s ! c)\<lparr>d_interfaces := (d_interfaces (ms_links s ! c))[k := i]\<rparr>]\<rparr>"

definition bus_tick :: "nat \<Rightarrow> multicore \<Rightarrow> multicore result" where
  "bus_tick j s =
     result_bind (bus_cycleProcess (ms_seq s) (ms_buses s ! j)) (\<lambda>(sq, b). Inr ((set_bus j b s)\<lparr>ms_seq := sq\<rparr>))"

definition link_tick :: "nat \<Rightarrow> multicore \<Rightarrow> multicore result" where
  "link_tick c s =
     result_bind (direct_cycleProcess (ms_seq s) (ms_links s ! c)) (\<lambda>(sq, d).
       Inr (s\<lparr>ms_links := (ms_links s)[c := d], ms_seq := sq\<rparr>))"

definition core_tick :: "nat \<Rightarrow> multicore \<Rightarrow> (multicore \<times> clocked list) result" where
  "core_tick c s =
     result_bind (port_index (- 1) (d_interfaces (ms_links s ! c))) (\<lambda>k.
       let i = d_interfaces (ms_links s ! c) ! k in
       case ms_cores s ! c of
         TraceCore p \<Rightarrow>
           result_bind (CPU_cycleProcess (p\<lparr>cpu_upper_interface := i, cpu_next_id := ms_next_id s,
                          s_finite_cores_running := ms_running s\<rparr>)) (\<lambda>(p', stop).
             Inr ((set_link c k (cpu_upper_interface p') s)\<lparr>ms_cores := (ms_cores s)[c := TraceCore p'],
                    ms_next_id := cpu_next_id p', ms_running := s_finite_cores_running p'\<rparr>,
                  if stop then [CoreClock c] else []))
       | PortCore e \<Rightarrow>
           result_bind (ext_cycleProcess (e\<lparr>ext_upper_interface := i\<rparr>)) (\<lambda>e'.
             Inr ((set_link c k (ext_upper_interface e') s)\<lparr>ms_cores := (ms_cores s)[c := PortCore e']\<rparr>, [])))"

definition load_controller :: "interface \<Rightarrow> interface \<Rightarrow> multicore \<Rightarrow> controller \<Rightarrow> controller" where
  "load_controller lower upper s c =
     c\<lparr>m_lower_interface := lower, m_upper_interface := upper, delivery_seq := ms_seq s,
       next_request_id := ms_next_id s, rand_draws := ms_draws s\<rparr>"

definition store_shared :: "controller \<Rightarrow> multicore \<Rightarrow> multicore" where
  "store_shared c s = s\<lparr>ms_seq := delivery_seq c, ms_next_id := next_request_id c, ms_draws := rand_draws c\<rparr>"

text \<open>The calls a private cache makes on the core that is attached to it.\<close>

fun port_event :: "port_call \<Rightarrow> core \<Rightarrow> core" where
  "port_event (Commit i a) (PortCore e) = PortCore (ext_commit i a e)"
| "port_event (Invalidate a) (PortCore e) = PortCore (ext_invalidate a e)"
| "port_event call (TraceCore p) = TraceCore p"

definition cache_tick :: "nat \<Rightarrow> nat \<Rightarrow> multicore \<Rightarrow> multicore result" where
  "cache_tick n c s =
     (let x = ms_caches s ! c; b = ms_buses s ! 0 in
      result_bind (port_index (c_id x) (d_interfaces (ms_links s ! c))) (\<lambda>l.
      result_bind (port_index (c_id x) (m_interfaces b)) (\<lambda>u.
      result_bind (with_fuel (cycleProcess n
          (load_controller (d_interfaces (ms_links s ! c) ! l) (m_interfaces b ! u) s x))) (\<lambda>x'.
        Inr ((store_shared x' (set_bus 0 (set_port u (m_upper_interface x') b) (set_link c l (m_lower_interface x') s)))
               \<lparr>ms_caches := (ms_caches s)[c := x'\<lparr>m_port_calls := []\<rparr>],
                ms_cores := (ms_cores s)[c := fold port_event (m_port_calls x') (ms_cores s ! c)]\<rparr>)))))"

definition llc_tick :: "nat \<Rightarrow> multicore \<Rightarrow> multicore result" where
  "llc_tick n s =
     (let x = ms_llc s; b0 = ms_buses s ! 0; b1 = ms_buses s ! 1 in
      result_bind (port_index (c_id x) (m_interfaces b0)) (\<lambda>l.
      result_bind (port_index (c_id x) (m_interfaces b1)) (\<lambda>u.
      result_bind (with_fuel (cycleProcess n (load_controller (m_interfaces b0 ! l) (m_interfaces b1 ! u) s x))) (\<lambda>x'.
        Inr ((store_shared x' (set_bus 1 (set_port u (m_upper_interface x') b1)
                (set_bus 0 (set_port l (m_lower_interface x') b0) s)))\<lparr>ms_llc := x'\<rparr>)))))"

definition memory_tick :: "dram \<Rightarrow> multicore \<Rightarrow> multicore result" where
  "memory_tick dram s =
     (let b = ms_buses s ! 1 in
      result_bind (port_index (ms_memory_port s) (m_interfaces b)) (\<lambda>k.
        case ms_memory s of
          BasicMemory m \<Rightarrow>
            result_bind (Memory_cycleProcess (m\<lparr>mem_lower_interface := m_interfaces b ! k\<rparr>)) (\<lambda>m'.
              Inr ((set_bus 1 (set_port k (mem_lower_interface m') b) s)\<lparr>ms_memory := BasicMemory m'\<rparr>))
        | DramMemory m \<Rightarrow>
            (case dram (mc_clk_cycle m) of (accepts, beyond, calls) \<Rightarrow>
               result_bind (MCsim_cycleProcess accepts beyond calls (m\<lparr>mc_lower_interface := m_interfaces b ! k\<rparr>)) (\<lambda>m'.
                 Inr ((set_bus 1 (set_port k (mc_lower_interface m') b) s)\<lparr>ms_memory := DramMemory m'\<rparr>)))))"

text \<open>The virtual \<open>cycleProcess\<close> the clock calls, and the objects that ask it to stop.\<close>

fun system_tick :: "nat \<Rightarrow> dram \<Rightarrow> clocked \<Rightarrow> multicore \<Rightarrow> (multicore \<times> clocked list) result" where
  "system_tick n dram (BusClock j) s = result_bind (bus_tick j s) (\<lambda>s'. Inr (s', []))"
| "system_tick n dram (LinkClock c) s = result_bind (link_tick c s) (\<lambda>s'. Inr (s', []))"
| "system_tick n dram (CoreClock c) s = core_tick c s"
| "system_tick n dram (CacheClock c) s = result_bind (cache_tick n c s) (\<lambda>s'. Inr (s', []))"
| "system_tick n dram LlcClock s = result_bind (llc_tick n s) (\<lambda>s'. Inr (s', []))"
| "system_tick n dram MemoryClock s = result_bind (memory_tick dram s) (\<lambda>s'. Inr (s', []))"

text \<open>The virtual \<open>init\<close>.\<close>

fun system_init :: "clocked \<Rightarrow> multicore \<Rightarrow> multicore result" where
  "system_init (CoreClock c) s =
     (case ms_cores s ! c of
        TraceCore p \<Rightarrow>
          result_bind (cpu_init (p\<lparr>cpu_next_id := ms_next_id s\<rparr>)) (\<lambda>p'.
            Inr (s\<lparr>ms_cores := (ms_cores s)[c := TraceCore p'], ms_next_id := cpu_next_id p'\<rparr>))
      | PortCore e \<Rightarrow> Inr s)"
| "system_init (CacheClock c) s = Inr (s\<lparr>ms_caches := (ms_caches s)[c := controller_init (ms_caches s ! c)]\<rparr>)"
| "system_init LlcClock s = Inr (s\<lparr>ms_llc := controller_init (ms_llc s)\<rparr>)"
| "system_init _ s = Inr s"

section \<open>Construction\<close>

record bus_params =
  bp_type :: string
  bp_controller :: string
  bp_upper_ids :: "int list"
  bp_lower_ids :: "int list"
  bp_size :: int
  bp_period :: u64
  bp_arbiter :: string
  bp_request_latency :: int
  bp_response_latency :: int
  bp_reserve :: "int option"
  bp_candidates :: "int list"
  bp_unset :: "int \<times> bool"

record cache_params =
  cp_id :: int
  cp_shared_id :: int
  cp_perfect :: "bool option"
  cp_queue_size :: int
  cp_num_mshr :: "int option"
  cp_interlock :: "bool option"
  cp_arbiter :: string
  cp_candidates :: "int list"
  cp_protocol :: coherence
  cp_array :: cache
  cp_period :: u64

record core_params =
  kp_window :: u32
  kp_workload :: workload
  kp_period :: u64
  kp_link_size :: int
  kp_link_period :: u64
  kp_cache :: cache_params

record memory_params =
  mp_type :: string
  mp_port :: int
  mp_id :: int
  mp_llc_id :: int
  mp_latency :: u32
  mp_queue_size :: "int option"
  mp_period :: u64

record system_params =
  sp_buses :: "bus_params list"
  sp_external_cores :: bool
  sp_cores :: "core_params list"
  sp_cache_kind :: controller_kind
  sp_llc_kind :: "controller_kind option"
  sp_llc :: cache_params
  sp_memory :: memory_params

text \<open>
  \<open>Bus\<close> and \<open>TripleBus\<close>; the first chooses its controller by name. \<open>bp_unset\<close> are the two members the
  point-to-point controller does not initialise.
\<close>

definition new_bus_interface :: "bus_params \<Rightarrow> int \<Rightarrow> int \<Rightarrow> interface" where
  "new_bus_interface p i n = (if bp_type p = ''TripleBus'' then TripleI (new_TripleBusInterface i n) else BusI (new_BusInterface i n))"

definition new_bus_controller :: "bus_params \<Rightarrow> interface list \<Rightarrow> bus_controller result" where
  "new_bus_controller p itfs =
     (let split = new_SplitBusController (bp_arbiter p) (bp_request_latency p) (bp_response_latency p) (bp_reserve p) itfs in
      if bp_type p = ''TripleBus'' then result_bind split (\<lambda>c. Inr (TripleController c))
      else if bp_controller p = ''Split'' then result_bind split (\<lambda>c. Inr (SplitController c))
      else if bp_controller p = ''Point2Point''
      then result_bind (new_Point2PointController (fst (bp_unset p)) (snd (bp_unset p)) (bp_arbiter p)
             (bp_request_latency p) (bp_response_latency p) (bp_candidates p) (bp_lower_ids p) itfs) (\<lambda>c. Inr (P2PController c))
      else if bp_controller p = ''Unified''
      then result_bind (new_UnifiedBusController (bp_arbiter p) (bp_request_latency p) (bp_response_latency p) (bp_lower_ids p))
             (\<lambda>c. Inr (UnifiedController c))
      else Inl (Undefined ''Bus: the controller is not set''))"

definition new_system_bus :: "bus_params \<Rightarrow> bus result" where
  "new_system_bus p =
     (if bp_type p \<noteq> ''TripleBus'' \<and> bp_type p \<noteq> ''Bus'' then Inl (Exit ''Error unsupported bus type'')
      else
        let itfs = map (\<lambda>i. new_bus_interface p i (bp_size p)) (bp_upper_ids p @ bp_lower_ids p) in
        result_bind (new_bus_controller p itfs) (\<lambda>c.
          Inr (new_Bus (new_bus_interface p) (bp_upper_ids p) (bp_lower_ids p) (bp_size p) c)))"

fun new_system_buses :: "bus_params list \<Rightarrow> bus list result" where
  "new_system_buses [] = Inr []"
| "new_system_buses (p # ps) =
     result_bind (new_system_bus p) (\<lambda>b. result_bind (new_system_buses ps) (\<lambda>bs. Inr (b # bs)))"

text \<open>
  \<open>createController\<close>, for the classes that are modelled; the interfaces are those the first cycle loads. The last
  argument is what \<open>rand\<close> returns.
\<close>

definition createController :: "controller_kind \<Rightarrow> cache_params \<Rightarrow> bool \<Rightarrow> (nat \<Rightarrow> nat) \<Rightarrow> controller result" where
  "createController kind p port draw =
     result_bind (new_CacheController kind (cp_id p) (cp_shared_id p) (cp_perfect p) (cp_queue_size p) (cp_num_mshr p)
         (cp_interlock p) (cp_arbiter p) (cp_candidates p) (cp_protocol p) (cp_array p)
         (BusI (new_BusInterface (cp_id p) 0)) (BusI (new_BusInterface (cp_id p) 0)) 1 draw)
       (\<lambda>c. Inr (c\<lparr>m_cpu_port := port\<rparr>))"

definition new_core :: "(string \<Rightarrow> int) \<Rightarrow> bool \<Rightarrow> core_params \<Rightarrow> int \<Rightarrow> (core \<times> int) result" where
  "new_core ratio external p running =
     (let i = cp_id (kp_cache p); itf = BusI (new_BusInterface (- 1) (kp_link_size p)) in
      if external then Inr (PortCore (new_ExternalCPU i itf 1), running)
      else result_bind (attach_workload ratio (kp_workload p) (new_CPU i (kp_window p) itf running 1)) (\<lambda>c.
        Inr (TraceCore c, s_finite_cores_running c)))"

text \<open>The loop over the cores; the count of finite cores goes through it.\<close>

fun new_nodes ::
  "(string \<Rightarrow> int) \<Rightarrow> (nat \<Rightarrow> nat) \<Rightarrow> bool \<Rightarrow> controller_kind \<Rightarrow> core_params list \<Rightarrow> int
   \<Rightarrow> ((direct_interconnect \<times> core \<times> controller) list \<times> int) result" where
  "new_nodes ratio draw external kind [] running = Inr ([], running)"
| "new_nodes ratio draw external kind (p # ps) running =
     result_bind (new_core ratio external p running) (\<lambda>(k, running').
     result_bind (createController kind (kp_cache p) external draw) (\<lambda>c.
     result_bind (new_nodes ratio draw external kind ps running') (\<lambda>(nodes, total).
       Inr ((new_DirectInterconnect (cp_id (kp_cache p)) (- 1) (kp_link_size p), k, c) # nodes, total))))"

definition new_memory :: "memory_params \<Rightarrow> cache_params \<Rightarrow> memory result" where
  "new_memory p llc =
     (let itf = BusI (new_BusInterface (mp_port p) 0) in
      if mp_type p = ''MCsim''
      then result_bind (new_MCsimInterface (mp_port p) (cp_id llc) (cp_period llc) itf) (\<lambda>m. Inr (DramMemory m))
      else Inr (BasicMemory (new_MainMemoryController (mp_id p) (mp_llc_id p) (mp_latency p) (mp_queue_size p) itf)))"

definition new_MultiCoreSystem :: "(string \<Rightarrow> int) \<Rightarrow> (nat \<Rightarrow> nat) \<Rightarrow> system_params \<Rightarrow> multicore result" where
  "new_MultiCoreSystem ratio draw p =
     result_bind (new_system_buses (sp_buses p)) (\<lambda>buses.
     result_bind (new_nodes ratio draw (sp_external_cores p) (sp_cache_kind p) (sp_cores p) 0) (\<lambda>(nodes, running).
     if length buses < 2 then Inl (Undefined ''MultiCoreSystem: bus[1] out of range'')
     else
       result_bind (createController (case sp_llc_kind p of None \<Rightarrow> sp_cache_kind p | Some k \<Rightarrow> k) (sp_llc p) False draw) (\<lambda>llc.
       result_bind (new_memory (sp_memory p) (sp_llc p)) (\<lambda>mem.
         Inr \<lparr> ms_buses = buses, ms_links = map fst nodes, ms_cores = map (fst \<circ> snd) nodes, ms_caches = map (snd \<circ> snd) nodes,
               ms_llc = llc, ms_memory = mem, ms_memory_port = mp_port (sp_memory p), ms_seq = 0, ms_next_id = 1, ms_draws = 0, ms_running = running \<rparr>))))"

text \<open>The clock: every object registers as it is constructed, a core also as a trigger.\<close>

definition construction_order :: "system_params \<Rightarrow> clocked list" where
  "construction_order p =
     map BusClock [0..<length (sp_buses p)] @
     concat (map (\<lambda>c. [LinkClock c, CoreClock c, CacheClock c]) [0..<length (sp_cores p)]) @ [LlcClock, MemoryClock]"

fun system_period :: "system_params \<Rightarrow> clocked \<Rightarrow> u64" where
  "system_period p (BusClock j) = bp_period (sp_buses p ! j)"
| "system_period p (LinkClock c) = kp_link_period (sp_cores p ! c)"
| "system_period p (CoreClock c) = kp_period (sp_cores p ! c)"
| "system_period p (CacheClock c) = cp_period (kp_cache (sp_cores p ! c))"
| "system_period p LlcClock = cp_period (sp_llc p)"
| "system_period p MemoryClock = (if mp_type (sp_memory p) = ''MCsim'' then cp_period (sp_llc p) else mp_period (sp_memory p))"

definition register_object :: "system_params \<Rightarrow> clocked \<Rightarrow> clocked clock_manager \<Rightarrow> clocked clock_manager" where
  "register_object p ob s =
     (let s' = registerCLKObj (if ob = MemoryClock \<and> mp_type (sp_memory p) = ''MCsim'' then cp_period (sp_llc p) else 0) ob s in
      case ob of CoreClock c \<Rightarrow> if sp_external_cores p then s' else registerCLKTrigger ob s' | _ \<Rightarrow> s')"

definition system_clock :: "system_params \<Rightarrow> clocked clock_manager" where
  "system_clock p = fold (register_object p) (construction_order p) new_ClockManager"

section \<open>The simulation\<close>

text \<open>\<open>CacheSim::CacheSim\<close>: the system is built and initialised.\<close>

definition new_CacheSim ::
  "(string \<Rightarrow> int) \<Rightarrow> (nat \<Rightarrow> nat) \<Rightarrow> system_params \<Rightarrow> (clocked clock_manager \<times> multicore) result" where
  "new_CacheSim ratio draw p =
     result_bind (new_MultiCoreSystem ratio draw p) (\<lambda>s.
     result_bind (clock_init system_init (system_period p) (system_clock p) s) (\<lambda>s'. Inr (system_clock p, s')))"

text \<open>\<open>CacheSim::step\<close>\<close>

definition CacheSim_step ::
  "nat \<Rightarrow> dram \<Rightarrow> system_params \<Rightarrow> clocked clock_manager \<Rightarrow> multicore \<Rightarrow> (clocked clock_manager \<times> multicore) fuelled" where
  "CacheSim_step n dram p clk s = clkStep n (system_tick n dram) (system_period p) clk s"

text \<open>What an embedder does between two steps: it hands over a request or registers a callback.\<close>

datatype embedder_call =
    AddRequest u64 request_type "u8 list option" int
  | RegisterCompletion
  | RegisterCommit
  | RegisterInvalidate
  | RegisterMemory

fun embedder_apply :: "embedder_call \<Rightarrow> external_core \<Rightarrow> (external_core \<times> u64) result" where
  "embedder_apply (AddRequest a ty bytes sz) e = ext_addRequest a ty bytes sz e"
| "embedder_apply RegisterCompletion e = Inr (registerCPUCallback e, 0)"
| "embedder_apply RegisterCommit e = Inr (registerCommitCallback e, 0)"
| "embedder_apply RegisterInvalidate e = Inr (registerInvalidateCallback e, 0)"
| "embedder_apply RegisterMemory e = Inr (registerInitializableMemory e, 0)"

definition embedder_step :: "nat \<Rightarrow> embedder_call \<Rightarrow> multicore \<Rightarrow> (multicore \<times> u64) result" where
  "embedder_step c call s =
     (case ms_cores s ! c of
        TraceCore p \<Rightarrow> Inl (Undefined ''not an external core'')
      | PortCore e \<Rightarrow>
          result_bind (embedder_apply call (e\<lparr>ext_next_id := ms_next_id s\<rparr>)) (\<lambda>(e', i).
            Inr (s\<lparr>ms_cores := (ms_cores s)[c := PortCore e'], ms_next_id := ext_next_id e'\<rparr>, i)))"

end
