(* ===== verification/MultiCoreRuns.thy ===== *)
theory MultiCoreRuns
  imports MultiCore
begin

text \<open>
  Runs of a whole system. A run is watched: for every interface of a bus or a link it is recorded what its component
  puts in and takes out. The properties say what the interconnects make of it, whatever the components do, and that
  every component keeps its own invariants in the company of the others.
\<close>

section \<open>Watched runs\<close>

record port_log =
  sent_requests :: "nat \<Rightarrow> message list"
  read_requests :: "nat \<Rightarrow> message list"
  sent_responses :: "nat \<Rightarrow> message list"
  read_responses :: "nat \<Rightarrow> message list"

definition no_log :: port_log where
  "no_log = \<lparr> sent_requests = (\<lambda>_. []), read_requests = (\<lambda>_. []), sent_responses = (\<lambda>_. []), read_responses = (\<lambda>_. []) \<rparr>"

text \<open>What was appended to a queue, and what was taken from its front.\<close>

definition appended :: "'a list \<Rightarrow> 'a list \<Rightarrow> 'a list" where
  "appended xs ys = drop (length xs) ys"

definition taken :: "'a list \<Rightarrow> 'a list \<Rightarrow> 'a list" where
  "taken xs ys = take (length xs - length ys) xs"

definition extend_log :: "nat \<Rightarrow> (nat \<Rightarrow> 'a list) \<Rightarrow> (nat \<Rightarrow> 'a list) \<Rightarrow> nat \<Rightarrow> 'a list" where
  "extend_log n f g k = (if k < n then f k @ g k else f k)"

definition watch :: "interface list \<Rightarrow> interface list \<Rightarrow> port_log \<Rightarrow> port_log" where
  "watch itfs itfs' l =
     (let n = length itfs in
      \<lparr> sent_requests = extend_log n (sent_requests l) (\<lambda>k. appended (tx_request (itfs ! k)) (tx_request (itfs' ! k))),
        read_requests = extend_log n (read_requests l) (\<lambda>k. taken (rx_request (itfs ! k)) (rx_request (itfs' ! k))),
        sent_responses = extend_log n (sent_responses l) (\<lambda>k. appended (tx_response (itfs ! k)) (tx_response (itfs' ! k))),
        read_responses = extend_log n (read_responses l) (\<lambda>k. taken (rx_response (itfs ! k)) (rx_response (itfs' ! k))) \<rparr>)"

record watched =
  sys :: multicore
  bus_log :: "nat \<Rightarrow> port_log"
  link_log :: "nat \<Rightarrow> port_log"

definition watched_tick :: "nat \<Rightarrow> dram \<Rightarrow> clocked \<Rightarrow> watched \<Rightarrow> (watched \<times> clocked list) result" where
  "watched_tick n dram ob w =
     result_bind (system_tick n dram ob (sys w)) (\<lambda>(s', stops).
       Inr (\<lparr> sys = s',
              bus_log = (\<lambda>j. if ob = BusClock j then bus_log w j
                 else watch (m_interfaces (ms_buses (sys w) ! j)) (m_interfaces (ms_buses s' ! j)) (bus_log w j)),
              link_log = (\<lambda>c. if ob = LinkClock c then link_log w c
                 else watch (d_interfaces (ms_links (sys w) ! c)) (d_interfaces (ms_links s' ! c)) (link_log w c)) \<rparr>, stops))"

text \<open>
  The runs of a simulation: it is built, and then the clock steps and an embedder calls, in any order. \<open>n\<close> is the
  fuel of a step, which may differ from step to step.
\<close>

inductive sim_run :: "system_params \<Rightarrow> dram \<Rightarrow> clocked clock_manager \<Rightarrow> watched \<Rightarrow> bool" for p dram where
  built: "new_CacheSim ratio draw p = Inr (clk, s) \<Longrightarrow>
    sim_run p dram clk \<lparr> sys = s, bus_log = (\<lambda>_. no_log), link_log = (\<lambda>_. no_log) \<rparr>"
| step: "sim_run p dram clk w \<Longrightarrow> clkStep n (watched_tick n dram) (system_period p) clk w = Some (Inr (clk', w')) \<Longrightarrow>
    sim_run p dram clk' w'"
| embedder: "sim_run p dram clk w \<Longrightarrow> embedder_step c call (sys w) = Inr (s', i) \<Longrightarrow> sim_run p dram clk (w\<lparr>sys := s'\<rparr>)"

section \<open>Invariants of the clock's steps\<close>

lemma clkStep_invariant:
  assumes "clkStep n tick period s w = Some (Inr (s', w'))" and "I w" and "\<forall>x\<in>set (events s). Q (snd x)"
    and tick: "\<And>ob v v' st. Q ob \<Longrightarrow> I v \<Longrightarrow> tick ob v = Inr (v', st) \<Longrightarrow> I v'"
  shows "I w' \<and> (\<forall>x\<in>set (events s'). Q (snd x))"
  using assms(1-3)
proof (induction n arbitrary: s w)
  case 0
  then show ?case by simp
next
  case (Suc n)
  show ?case
  proof (cases "events s")
    case Nil
    then show ?thesis using Suc.prems(1) by simp
  next
    case (Cons x es)
    obtain k ob where x: "x = (k, ob)" by (cases x)
    show ?thesis
    proof (cases "current_time s < time_stamp k")
      case True
      then show ?thesis using Suc.prems Cons x by auto
    next
      case False
      then obtain v st where t: "tick ob w = Inr (v, st)" and rec:
          "clkStep n tick period ((fold stopClock st (s\<lparr>events := es\<rparr>))\<lparr>events :=
             insert_event (EventKey (current_time (fold stopClock st (s\<lparr>events := es\<rparr>)) + period ob) (obj_id k)) ob
               (events (fold stopClock st (s\<lparr>events := es\<rparr>)))\<rparr>) v = Some (Inr (s', w'))"
        using Suc.prems(1) Cons x
        by (cases "tick ob w") (auto simp: dispatch_def fuel_bind_def Let_def split: if_splits)
      have "I v" using tick t Suc.prems(2,3) Cons x by auto
      moreover have "set (insert_event k' ob ys) \<subseteq> insert (k', ob) (set ys)" for k' ys
        by (induction ys) auto
      ultimately show ?thesis
        using Suc.IH [OF rec] Suc.prems(3) Cons x fold_stopClock(1) [of st "s\<lparr>events := es\<rparr>"] by fastforce
    qed
  qed
qed

section \<open>What a component does to the interconnects\<close>

definition bus_kept :: "bus \<Rightarrow> bus \<Rightarrow> bool" where
  "bus_kept b b' \<longleftrightarrow>
     interconnect_controller b' = interconnect_controller b \<and> list_all2 port_used (m_interfaces b) (m_interfaces b')"

definition link_kept :: "direct_interconnect \<Rightarrow> direct_interconnect \<Rightarrow> bool" where
  "link_kept d d' \<longleftrightarrow> list_all2 port_used (d_interfaces d) (d_interfaces d')"

lemma ports_refl [simp, intro]: "list_all2 port_used xs xs"
  by (simp add: list_all2_refl)

lemma ports_update: "port_used (xs ! k) i \<Longrightarrow> list_all2 port_used xs (xs[k := i])"
  by (cases "k < length xs") (auto simp: list_all2_conv_all_nth nth_list_update list_update_beyond)

lemma kept_refl [simp, intro]: "bus_kept b b" "link_kept d d"
  by (simp_all add: bus_kept_def link_kept_def)

lemma kept_set_port: "port_used (m_interfaces b ! k) i \<Longrightarrow> bus_kept b (set_port k i b)"
  by (simp add: bus_kept_def set_port_def ports_update)

text \<open>The controllers that use their upper interface only as a port.\<close>

definition plain_controller :: "controller \<Rightarrow> bool" where
  "plain_controller c \<longleftrightarrow> \<not> m_perfect_llc c \<and> c_kind c \<noteq> End2EndController"

definition plain_users :: "nat \<Rightarrow> multicore \<Rightarrow> bool" where
  "plain_users j s \<longleftrightarrow> (j = 0 \<longrightarrow> (\<forall>c\<in>set (ms_caches s). plain_controller c)) \<and> (j = 1 \<longrightarrow> plain_controller (ms_llc s))"

definition object_of :: "multicore \<Rightarrow> clocked \<Rightarrow> bool" where
  "object_of s ob \<longleftrightarrow>
     (case ob of
        BusClock j \<Rightarrow> j < length (ms_buses s)
      | LinkClock c \<Rightarrow> c < length (ms_links s)
      | CoreClock c \<Rightarrow> c < length (ms_cores s)
      | CacheClock c \<Rightarrow> c < length (ms_caches s)
      | _ \<Rightarrow> True)"

definition bus_cycled :: "bus \<Rightarrow> bus \<Rightarrow> bool" where
  "bus_cycled b b' \<longleftrightarrow> (\<exists>sq sq'. bus_cycleProcess sq b = Inr (sq', b'))"

definition link_cycled :: "direct_interconnect \<Rightarrow> direct_interconnect \<Rightarrow> bool" where
  "link_cycled d d' \<longleftrightarrow> (\<exists>sq sq'. direct_cycleProcess sq d = Inr (sq', d'))"

lemma cycledI:
  "bus_cycleProcess sq b = Inr (sq', b') \<Longrightarrow> bus_cycled b b'"
  "direct_cycleProcess sq d = Inr (sq', d') \<Longrightarrow> link_cycled d d'"
  by (auto simp: bus_cycled_def link_cycled_def)

text \<open>One cycle of an object, as the interconnects see it.\<close>

definition cycle_effect :: "clocked \<Rightarrow> multicore \<Rightarrow> multicore \<Rightarrow> bool" where
  "cycle_effect ob s s' \<longleftrightarrow>
     length (ms_buses s') = length (ms_buses s) \<and> length (ms_links s') = length (ms_links s) \<and>
     length (ms_cores s') = length (ms_cores s) \<and> length (ms_caches s') = length (ms_caches s) \<and>
     map controller_config (ms_caches s') = map controller_config (ms_caches s) \<and>
     controller_config (ms_llc s') = controller_config (ms_llc s) \<and>
     (\<forall>j<length (ms_buses s). if ob = BusClock j
        then bus_cycled (ms_buses s ! j) (ms_buses s' ! j)
        else plain_users j s \<longrightarrow> bus_kept (ms_buses s ! j) (ms_buses s' ! j)) \<and>
     (\<forall>c<length (ms_links s). if ob = LinkClock c
        then link_cycled (ms_links s ! c) (ms_links s' ! c)
        else link_kept (ms_links s ! c) (ms_links s' ! c))"

named_theorems system_simps "fields of a system after one of its parts is set"

lemma set_simps [system_simps]:
  "ms_links (set_bus j b s) = ms_links s" "ms_cores (set_bus j b s) = ms_cores s"
  "ms_caches (set_bus j b s) = ms_caches s" "ms_llc (set_bus j b s) = ms_llc s"
  "ms_memory (set_bus j b s) = ms_memory s" "ms_buses (set_bus j b s) = (ms_buses s)[j := b]"
  "ms_buses (set_link c k i s) = ms_buses s" "ms_cores (set_link c k i s) = ms_cores s"
  "ms_caches (set_link c k i s) = ms_caches s" "ms_llc (set_link c k i s) = ms_llc s"
  "ms_memory (set_link c k i s) = ms_memory s"
  "ms_buses (store_shared x s) = ms_buses s" "ms_links (store_shared x s) = ms_links s"
  "ms_cores (store_shared x s) = ms_cores s" "ms_caches (store_shared x s) = ms_caches s"
  "ms_llc (store_shared x s) = ms_llc s" "ms_memory (store_shared x s) = ms_memory s"
  "interconnect_controller (set_port k i b) = interconnect_controller b"
  by (simp_all add: set_bus_def set_link_def store_shared_def set_port_def)

lemma set_link_kept:
  assumes "port_used (d_interfaces (ms_links s ! c) ! k) i"
  shows "c' < length (ms_links s) \<Longrightarrow> link_kept (ms_links s ! c') (ms_links (set_link c k i s) ! c')"
    "length (ms_links (set_link c k i s)) = length (ms_links s)"
  using assms by (cases "c' = c"; simp add: set_link_def link_kept_def ports_update)+

lemma set_bus_kept:
  assumes "bus_kept (ms_buses s ! j) b"
  shows "j' < length (ms_buses s) \<Longrightarrow> bus_kept (ms_buses s ! j') ((ms_buses s)[j := b] ! j')"
  using assms by (cases "j' = j") simp_all

lemma port_index_Inr: "port_index i itfs = Inr k \<longleftrightarrow> first_index (\<lambda>x. itf_id x = i) itfs = Some k"
  by (simp add: port_index_def split: option.splits)

lemma with_fuel_Inr: "with_fuel r = Inr x \<longleftrightarrow> r = Some (Inr x)"
  by (cases r) (auto simp: with_fuel_def)

lemma load_simps [system_simps]:
  "m_lower_interface (load_controller l u s x) = l" "m_upper_interface (load_controller l u s x) = u"
  "controller_config (load_controller l u s x) = controller_config x" "m_perfect_llc (load_controller l u s x) = m_perfect_llc x"
  "c_kind (load_controller l u s x) = c_kind x" "c_id (load_controller l u s x) = c_id x"
  by (simp_all add: load_controller_def controller_config_def)

lemma config_map_update: "f x' = f (xs ! c) \<Longrightarrow> map f (xs[c := x']) = map f xs"
  by (cases "c < length xs") (simp_all add: map_update list_update_beyond list_update_same_conv)

lemma bus_effect:
  assumes "bus_tick j s = Inr s'"
  shows "cycle_effect (BusClock j) s s'"
  using assms
  by (auto simp: bus_tick_def cycle_effect_def result_bind_Inr_iff set_bus_def intro: cycledI)

lemma link_effect:
  assumes "link_tick c s = Inr s'"
  shows "cycle_effect (LinkClock c) s s'"
  using assms
  by (auto simp: link_tick_def cycle_effect_def result_bind_Inr_iff intro: cycledI)

lemma core_effect:
  assumes "core_tick c s = Inr (s', st)"
  shows "cycle_effect (CoreClock c) s s'"
proof -
  obtain k where k: "port_index (- 1) (d_interfaces (ms_links s ! c)) = Inr k"
    using assms by (auto simp: core_tick_def result_bind_Inr_iff)
  let ?i = "d_interfaces (ms_links s ! c) ! k"
  obtain i where i: "port_used ?i i" and s': "ms_buses s' = ms_buses s" "ms_links s' = ms_links (set_link c k i s)"
    "length (ms_cores s') = length (ms_cores s)" "ms_caches s' = ms_caches s" "ms_llc s' = ms_llc s"
  proof (cases "ms_cores s ! c")
    case (TraceCore p)
    then obtain p' stop where p: "CPU_cycleProcess (p\<lparr>cpu_upper_interface := ?i, cpu_next_id := ms_next_id s,
          s_finite_cores_running := ms_running s\<rparr>) = Inr (p', stop)"
      "s' = (set_link c k (cpu_upper_interface p') s)\<lparr>ms_cores := (ms_cores s)[c := TraceCore p'],
          ms_next_id := cpu_next_id p', ms_running := s_finite_cores_running p'\<rparr>"
      using assms k by (auto simp: core_tick_def Let_def result_bind_Inr_iff)
    show ?thesis by (rule that [of "cpu_upper_interface p'"]) (use CPU_ports [OF p(1)] p(2) in \<open>simp_all add: system_simps\<close>)
  next
    case (PortCore e)
    then obtain e' where e: "ext_cycleProcess (e\<lparr>ext_upper_interface := ?i\<rparr>) = Inr e'"
      "s' = (set_link c k (ext_upper_interface e') s)\<lparr>ms_cores := (ms_cores s)[c := PortCore e']\<rparr>"
      using assms k by (auto simp: core_tick_def Let_def result_bind_Inr_iff)
    show ?thesis by (rule that [of "ext_upper_interface e'"]) (use ext_ports [OF e(1)] e(2) in \<open>simp_all add: system_simps\<close>)
  qed
  show ?thesis
    unfolding cycle_effect_def using set_link_kept [OF i] by (simp add: s')
qed

lemma config_fields: "controller_config x' = controller_config x \<Longrightarrow> plain_controller x' = plain_controller x"
  by (auto simp: controller_config_def plain_controller_def)

lemma cache_effect:
  assumes "cache_tick n c s = Inr s'" and "c < length (ms_caches s)"
  shows "cycle_effect (CacheClock c) s s'"
proof -
  let ?x = "ms_caches s ! c" and ?b = "ms_buses s ! 0"
  obtain l u x' where x': "cycleProcess n (load_controller (d_interfaces (ms_links s ! c) ! l) (m_interfaces ?b ! u) s ?x) = Some (Inr x')"
    and s': "s' = (store_shared x' (set_bus 0 (set_port u (m_upper_interface x') ?b) (set_link c l (m_lower_interface x') s)))
               \<lparr>ms_caches := (ms_caches s)[c := x'\<lparr>m_port_calls := []\<rparr>],
                ms_cores := (ms_cores s)[c := fold port_event (m_port_calls x') (ms_cores s ! c)]\<rparr>"
    using assms(1) by (auto simp: cache_tick_def Let_def result_bind_Inr_iff with_fuel_Inr)
  note P = controller_ports [OF x', simplified system_simps]
  have low: "port_used (d_interfaces (ms_links s ! c) ! l) (m_lower_interface x')" by (rule P(1))
  have up: "plain_controller ?x \<Longrightarrow> bus_kept ?b (set_port u (m_upper_interface x') ?b)"
    using P(2) kept_set_port by (auto simp: plain_controller_def)
  have plain: "plain_users 0 s \<Longrightarrow> plain_controller ?x" using assms(2) by (simp add: plain_users_def)
  have conf: "map controller_config ((ms_caches s)[c := x'\<lparr>m_port_calls := []\<rparr>]) = map controller_config (ms_caches s)"
    by (rule config_map_update) (use P(3) in \<open>simp add: controller_config_def\<close>)
  have buses: "plain_users j s \<longrightarrow> bus_kept (ms_buses s ! j) ((ms_buses s)[0 := set_port u (m_upper_interface x') ?b] ! j)"
    if "j < length (ms_buses s)" for j
    using set_bus_kept [OF up that] plain by (cases "j = 0") auto
  show ?thesis
    unfolding cycle_effect_def s' using set_link_kept [OF low] conf buses by (simp add: system_simps)
qed

lemma llc_effect:
  assumes "llc_tick n s = Inr s'"
  shows "cycle_effect LlcClock s s'"
proof -
  let ?x = "ms_llc s" and ?b0 = "ms_buses s ! 0" and ?b1 = "ms_buses s ! 1"
  obtain l u x' where x': "cycleProcess n (load_controller (m_interfaces ?b0 ! l) (m_interfaces ?b1 ! u) s ?x) = Some (Inr x')"
    and s': "s' = (store_shared x' (set_bus 1 (set_port u (m_upper_interface x') ?b1)
                (set_bus 0 (set_port l (m_lower_interface x') ?b0) s)))\<lparr>ms_llc := x'\<rparr>"
    using assms by (auto simp: llc_tick_def Let_def result_bind_Inr_iff with_fuel_Inr)
  note P = controller_ports [OF x', simplified system_simps]
  have low: "bus_kept ?b0 (set_port l (m_lower_interface x') ?b0)" by (rule kept_set_port [OF P(1)])
  have up: "plain_controller ?x \<Longrightarrow> bus_kept ?b1 (set_port u (m_upper_interface x') ?b1)"
    using P(2) kept_set_port by (auto simp: plain_controller_def)
  have "plain_users j s \<longrightarrow> bus_kept (ms_buses s ! j) (ms_buses s' ! j)" if j: "j < length (ms_buses s)" for j
  proof (cases "j = 1")
    case True
    then show ?thesis using up j by (auto simp: s' system_simps plain_users_def)
  next
    case False
    then show ?thesis using set_bus_kept [OF low j] by (simp add: s' system_simps)
  qed
  then show ?thesis
    unfolding cycle_effect_def using P(3) by (simp add: s' system_simps)
qed

lemma memory_effect:
  assumes "memory_tick dram s = Inr s'"
  shows "cycle_effect MemoryClock s s'"
proof -
  let ?b = "ms_buses s ! 1"
  obtain k i where i: "port_used (m_interfaces ?b ! k) i" and s': "ms_buses s' = (ms_buses s)[1 := set_port k i ?b]"
    "ms_links s' = ms_links s" "ms_cores s' = ms_cores s" "ms_caches s' = ms_caches s" "ms_llc s' = ms_llc s"
  proof -
    obtain k where k: "port_index (ms_memory_port s) (m_interfaces ?b) = Inr k"
      using assms by (auto simp: memory_tick_def Let_def result_bind_Inr_iff)
    show ?thesis
    proof (cases "ms_memory s")
      case (BasicMemory m)
      then obtain m' where m': "Memory_cycleProcess (m\<lparr>mem_lower_interface := m_interfaces ?b ! k\<rparr>) = Inr m'"
        "s' = (set_bus 1 (set_port k (mem_lower_interface m') ?b) s)\<lparr>ms_memory := BasicMemory m'\<rparr>"
        using assms k by (auto simp: memory_tick_def Let_def result_bind_Inr_iff)
      show ?thesis by (rule that [of k]) (use memory_ports [OF m'(1)] m'(2) in \<open>simp_all add: system_simps\<close>)
    next
      case (DramMemory m)
      obtain accepts beyond calls where d: "dram (mc_clk_cycle m) = (accepts, beyond, calls)" by (metis prod_cases3)
      then obtain m' where m': "MCsim_cycleProcess accepts beyond calls (m\<lparr>mc_lower_interface := m_interfaces ?b ! k\<rparr>) = Inr m'"
        "s' = (set_bus 1 (set_port k (mc_lower_interface m') ?b) s)\<lparr>ms_memory := DramMemory m'\<rparr>"
        using assms k DramMemory by (auto simp: memory_tick_def Let_def result_bind_Inr_iff)
      show ?thesis by (rule that [of k]) (use mcsim_ports [OF m'(1)] m'(2) in \<open>simp_all add: system_simps\<close>)
    qed
  qed
  have "bus_kept (ms_buses s ! j) (ms_buses s' ! j)" if "j < length (ms_buses s)" for j
    using set_bus_kept [OF kept_set_port [OF i] that] by (simp add: s')
  then show ?thesis unfolding cycle_effect_def by (simp add: s')
qed

lemma tick_effect:
  assumes "system_tick n dram ob s = Inr (s', st)" and "object_of s ob"
  shows "cycle_effect ob s s'"
  using assms
  by (cases ob) (auto simp: result_bind_Inr_iff object_of_def
      dest: bus_effect link_effect core_effect cache_effect llc_effect memory_effect)

section \<open>The order of a bus\<close>

text \<open>The bus and its agents as the total-order broadcast sees them.\<close>

definition log_view :: "split_bus \<Rightarrow> interface list \<Rightarrow> port_log \<Rightarrow> split_bus bus_system" where
  "log_view c itfs l =
     \<lparr> sys_ctl = c, sys_seq = 0, sys_itfs = itfs, sys_sent = concat (map (sent_requests l) [0..<length itfs]),
       sys_read = read_requests l \<rparr>"

definition bus_ordered :: "bus \<Rightarrow> port_log \<Rightarrow> bool" where
  "bus_ordered b l \<longleftrightarrow>
     (case interconnect_controller b of
        SplitController c \<Rightarrow> total_order_inv split_held split_ok (log_view c (m_interfaces b) l)
      | TripleController c \<Rightarrow> total_order_inv split_held split_ok (log_view c (m_interfaces b) l)
      | _ \<Rightarrow> True)"

lemma total_order_seq: "total_order_inv held ok (s\<lparr>sys_seq := q\<rparr>) = total_order_inv held ok s"
  by (simp add: total_order_inv_def)

lemma appended_prefix: "prefix xs ys \<Longrightarrow> xs @ appended xs ys = ys"
  by (auto simp: appended_def prefix_def)

lemma taken_suffix: "suffix ys xs \<Longrightarrow> taken xs ys @ ys = xs"
  by (auto simp: taken_def suffix_def)

lemma mset_concat_both: "mset (concat (map (\<lambda>k. f k @ g k) ks)) = mset (concat (map f ks)) + mset (concat (map g ks))"
  by (induction ks) (simp_all add: ac_simps)

lemma tx_all_nth: "tx_all itfs = mset (concat (map (\<lambda>k. tx_request (itfs ! k)) [0..<length itfs]))"
  unfolding tx_all_def by (metis (no_types, lifting) map_nth map_map comp_apply map_eq_conv)

lemma watch_order:
  assumes inv: "total_order_inv held ok (log_view c itfs l)" and used: "list_all2 port_used itfs itfs'"
  shows "total_order_inv held ok (log_view c itfs' (watch itfs itfs' l))"
proof -
  let ?n = "length itfs" and ?new = "\<lambda>k. appended (tx_request (itfs ! k)) (tx_request (itfs' ! k))"
  have len: "length itfs' = ?n" using used by (simp add: list_all2_lengthD)
  have port: "port_used (itfs ! k) (itfs' ! k)" if "k < ?n" for k using used that by (simp add: list_all2_nthD)
  obtain D where D: "\<forall>k<?n. read_requests l k @ rx_request (itfs ! k) = D"
    "held c + tx_all itfs + mset D = mset (concat (map (sent_requests l) [0..<?n]))"
    using inv by (auto simp: total_order_inv_def log_view_def)
  have tx: "tx_request (itfs' ! k) = tx_request (itfs ! k) @ ?new k" if "k < ?n" for k
    using port [OF that] by (simp add: appended_prefix port_used_def)
  have txs: "map (\<lambda>k. tx_request (itfs' ! k)) [0..<?n] = map (\<lambda>k. tx_request (itfs ! k) @ ?new k) [0..<?n]"
    by (rule map_cong [OF refl]) (metis tx atLeastLessThan_iff set_upt)
  have all: "tx_all itfs' = tx_all itfs + mset (concat (map ?new [0..<?n]))"
    unfolding tx_all_nth len txs by (rule mset_concat_both)
  have sents: "map (sent_requests (watch itfs itfs' l)) [0..<?n] = map (\<lambda>k. sent_requests l k @ ?new k) [0..<?n]"
    by (rule map_cong [OF refl]) (auto simp: watch_def Let_def extend_log_def)
  have sent: "mset (concat (map (sent_requests (watch itfs itfs' l)) [0..<?n])) =
      mset (concat (map (sent_requests l) [0..<?n])) + mset (concat (map ?new [0..<?n]))"
    unfolding sents by (rule mset_concat_both)
  have read: "read_requests (watch itfs itfs' l) k @ rx_request (itfs' ! k) = D" if "k < ?n" for k
    using port [OF that] D(1) that by (simp add: watch_def Let_def extend_log_def port_used_def taken_suffix)
  have wf: "itf_wf (itfs' ! k)" if "k < ?n" for k
    using inv port [OF that] that by (simp add: total_order_inv_def log_view_def port_used_def)
  have "ok ?n c" using inv by (simp add: total_order_inv_def log_view_def)
  moreover have "held c + tx_all itfs' + mset D = mset (concat (map (sent_requests (watch itfs itfs' l)) [0..<?n]))"
    using D(2) all sent by (simp add: ac_simps)
  ultimately show ?thesis
    unfolding total_order_inv_def log_view_def using wf read len by auto
qed

lemma kept_order: "bus_ordered b l \<Longrightarrow> bus_kept b b' \<Longrightarrow> bus_ordered b' (watch (m_interfaces b) (m_interfaces b') l)"
  using watch_order by (auto simp: bus_ordered_def bus_kept_def split: bus_controller.splits)

lemma step_order:
  assumes inv: "total_order_inv split_held split_ok (log_view c itfs l)"
    and run: "stp c t sq itfs = Inr (c', sq', itfs')" and "stp = split_busStep \<or> stp = triple_busStep"
  shows "total_order_inv split_held split_ok (log_view c' itfs' l)"
proof -
  let ?s = "(log_view c itfs l)\<lparr>sys_seq := sq\<rparr>"
  have inv': "total_order_inv split_held split_ok ?s" using inv by (simp add: total_order_seq)
  have r: "bus_event_step stp (BusCycle t) ?s = Inr (?s\<lparr>sys_ctl := c', sys_seq := sq', sys_itfs := itfs'\<rparr>)"
    using run by (simp add: log_view_def)
  have ok: "split_ok (length itfs) c" using inv by (simp add: total_order_inv_def log_view_def)
  have new: "total_order_inv split_held split_ok (?s\<lparr>sys_ctl := c', sys_seq := sq', sys_itfs := itfs'\<rparr>) \<and>
      length itfs' = length itfs"
    using assms(3)
  proof
    assume stp: "stp = split_busStep"
    show ?thesis
      using split_order.event_keeps [OF inv', of "BusCycle t"] r split_order.step_keeps [OF ok run [unfolded stp]]
      by (simp add: stp request_step_def)
  next
    assume stp: "stp = triple_busStep"
    show ?thesis
      using triple_order.event_keeps [OF inv', of "BusCycle t"] r triple_order.step_keeps [OF ok run [unfolded stp]]
      by (simp add: stp request_step_def)
  qed
  then have "length itfs' = length itfs" by blast
  with new show ?thesis by (simp add: total_order_inv_def log_view_def)
qed

lemma cycled_order:
  assumes "bus_ordered b l" and "bus_cycled b b'"
  shows "bus_ordered b' l"
proof -
  obtain sq sq' where r: "bus_cycleProcess sq b = Inr (sq', b')" using assms(2) by (auto simp: bus_cycled_def)
  show ?thesis
  proof (cases "m_bus_cycle_edges b mod 2 = 1")
    case False
    then show ?thesis using assms(1) r by (auto simp: bus_cycleProcess_def bus_ordered_def split: bus_controller.splits)
  next
    case True
    then obtain c itfs where s: "busStep (interconnect_controller b) (m_bus_cycle b) sq (m_interfaces b) = Inr (c, sq', itfs)"
      and b': "interconnect_controller b' = c" "m_interfaces b' = itfs"
      using r by (auto simp: bus_cycleProcess_def result_bind_Inr_iff)
    show ?thesis
      using assms(1) s step_order [of _ "m_interfaces b" l]
      by (cases "interconnect_controller b") (auto simp: bus_ordered_def b' result_bind_Inr_iff)
  qed
qed

section \<open>The order of a link\<close>

text \<open>Between a core and its cache: what one side sent is what the other has read, what waits there, and what is still to go.\<close>

definition link_fifo :: "direct_interconnect \<Rightarrow> port_log \<Rightarrow> bool" where
  "link_fifo d l \<longleftrightarrow>
     length (d_interfaces d) = 2 \<and>
     (\<forall>a<2. let i = d_interfaces d ! a; j = d_interfaces d ! (1 - a) in
        sent_requests l a = read_requests l (1 - a) @ rx_request j @ tx_request i \<and>
        sent_responses l a = read_responses l (1 - a) @ rx_response j @ tx_response i)"

lemma watch_fifo:
  assumes inv: "link_fifo d l" and kept: "link_kept d d'"
  shows "link_fifo d' (watch (d_interfaces d) (d_interfaces d') l)"
proof -
  let ?i = "d_interfaces d" and ?j = "d_interfaces d'"
  have len: "length ?i = 2" "length ?j = 2"
    using inv kept by (auto simp: link_fifo_def link_kept_def dest: list_all2_lengthD)
  have port: "port_used (?i ! a) (?j ! a)" if "a < 2" for a
    using kept that len by (simp add: link_kept_def list_all2_nthD)
  have "sent_requests (watch ?i ?j l) a = read_requests (watch ?i ?j l) (1 - a) @ rx_request (?j ! (1 - a)) @ tx_request (?j ! a) \<and>
      sent_responses (watch ?i ?j l) a = read_responses (watch ?i ?j l) (1 - a) @ rx_response (?j ! (1 - a)) @ tx_response (?j ! a)"
    if a: "a < 2" for a
  proof -
    have b: "1 - a < 2" by simp
    have old: "sent_requests l a = read_requests l (1 - a) @ rx_request (?i ! (1 - a)) @ tx_request (?i ! a)"
      "sent_responses l a = read_responses l (1 - a) @ rx_response (?i ! (1 - a)) @ tx_response (?i ! a)"
      using inv a by (simp_all add: link_fifo_def Let_def)
    have tx: "tx_request (?i ! a) @ appended (tx_request (?i ! a)) (tx_request (?j ! a)) = tx_request (?j ! a)"
      "tx_response (?i ! a) @ appended (tx_response (?i ! a)) (tx_response (?j ! a)) = tx_response (?j ! a)"
      using port [OF a] by (simp_all add: port_used_def appended_prefix)
    have rx: "rx_request (?i ! (1 - a)) = taken (rx_request (?i ! (1 - a))) (rx_request (?j ! (1 - a))) @ rx_request (?j ! (1 - a))"
      "rx_response (?i ! (1 - a)) = taken (rx_response (?i ! (1 - a))) (rx_response (?j ! (1 - a))) @ rx_response (?j ! (1 - a))"
      using port [OF b] by (simp_all add: port_used_def taken_suffix)
    have "sent_requests l a @ appended (tx_request (?i ! a)) (tx_request (?j ! a)) =
        read_requests l (1 - a) @ taken (rx_request (?i ! (1 - a))) (rx_request (?j ! (1 - a))) @ rx_request (?j ! (1 - a)) @
        tx_request (?j ! a)"
      unfolding old by (subst rx(1)) (simp add: tx)
    moreover have "sent_responses l a @ appended (tx_response (?i ! a)) (tx_response (?j ! a)) =
        read_responses l (1 - a) @ taken (rx_response (?i ! (1 - a))) (rx_response (?j ! (1 - a))) @ rx_response (?j ! (1 - a)) @
        tx_response (?j ! a)"
      unfolding old by (subst rx(2)) (simp add: tx)
    ultimately show ?thesis using a b len by (simp add: watch_def Let_def extend_log_def)
  qed
  then show ?thesis using len by (simp add: link_fifo_def Let_def)
qed

lemma cycled_fifo:
  assumes inv: "link_fifo d l" and "link_cycled d d'"
  shows "link_fifo d' l"
proof -
  obtain sq sq' where r: "direct_cycleProcess sq d = Inr (sq', d')" using assms(2) by (auto simp: link_cycled_def)
  show ?thesis
  proof (cases "m_interconnect_cycle_edges d mod 2 = 1")
    case False
    then show ?thesis using inv r by (auto simp: direct_cycleProcess_def link_fifo_def)
  next
    case True
    then obtain sq1 where s: "controllerStep sq (d_interfaces d) = Inr (sq1, d_interfaces d')"
      using r by (auto simp: direct_cycleProcess_def result_bind_Inr_iff)
    have len: "length (d_interfaces d) = 2" using inv by (simp add: link_fifo_def)
    have "length (d_interfaces d') = 2"
      using s len by (auto simp: controllerStep_def result_bind_Inr_iff dest!: direct_loop_length)
    then show ?thesis
      using inv direct_is_fifo [OF len s] by (auto simp: link_fifo_def Let_def)
  qed
qed

section \<open>The components of a system\<close>

definition core_ok :: "core \<Rightarrow> bool" where
  "core_ok k \<longleftrightarrow> (case k of TraceCore p \<Rightarrow> window_wf p | PortCore e \<Rightarrow> plain_ext_queue (ext_processing_queue e))"

definition components_ok :: "multicore \<Rightarrow> bool" where
  "components_ok s \<longleftrightarrow>
     (\<forall>k\<in>set (ms_cores s). core_ok k) \<and> (\<forall>x\<in>set (ms_caches s). controller_wf x) \<and> controller_wf (ms_llc s)"

lemma wf_frame:
  assumes "array_config (m_data_handler s') = array_config (m_data_handler s)"
    "m_pending_requests s' = m_pending_requests s" "m_saved_requests_for_wb s' = m_saved_requests_for_wb s"
    "m_ack_counters (m_directory s') = m_ack_counters (m_directory s)"
    "m_modifying_data_messages s' = m_modifying_data_messages s"
  shows "controller_wf s' = controller_wf s"
  using assms line_table_cong [OF getAddressKey_config [OF assms(1)]] by (simp add: controller_wf_def)

lemma load_wf: "controller_wf (load_controller l u s x) = controller_wf x"
  by (rule wf_frame) (simp_all add: load_controller_def)

lemma cycle_wf:
  "cycleProcess n (load_controller l u s x) = Some (Inr x') \<Longrightarrow> controller_wf x \<Longrightarrow> controller_wf x'"
  using tables.cycle_keeps [of n "load_controller l u s x" x'] by (simp add: tables_keep_def load_wf)

lemma set_update_ok: "(\<forall>y\<in>set ys. P y) \<Longrightarrow> P x \<Longrightarrow> \<forall>y\<in>set (ys[c := x]). P y"
  using set_update_subset_insert [of ys c x] by blast

lemma port_events_ok: "core_ok k \<Longrightarrow> core_ok (fold port_event calls k)"
proof (induction calls arbitrary: k)
  case Nil
  then show ?case by simp
next
  case (Cons call calls)
  have "core_ok (port_event call k)"
    using Cons.prems by (cases call; cases k) (auto simp: core_ok_def ext_commit_def ext_invalidate_def)
  then show ?case using Cons.IH by simp
qed

lemma bus_components: "bus_tick j s = Inr s' \<Longrightarrow> components_ok s' = components_ok s"
  by (auto simp: components_ok_def bus_tick_def result_bind_Inr_iff system_simps)

lemma link_components: "link_tick c s = Inr s' \<Longrightarrow> components_ok s' = components_ok s"
  by (auto simp: components_ok_def link_tick_def result_bind_Inr_iff)

lemma core_components:
  assumes "components_ok s" and "core_tick c s = Inr (s', st)" and "c < length (ms_cores s)"
  shows "components_ok s'"
proof -
  have old: "core_ok (ms_cores s ! c)" using assms(1,3) by (simp add: components_ok_def)
  obtain k where k: "port_index (- 1) (d_interfaces (ms_links s ! c)) = Inr k"
    using assms(2) by (auto simp: core_tick_def result_bind_Inr_iff)
  let ?i = "d_interfaces (ms_links s ! c) ! k"
  obtain x where x: "core_ok x" "ms_cores s' = (ms_cores s)[c := x]" "ms_caches s' = ms_caches s" "ms_llc s' = ms_llc s"
  proof (cases "ms_cores s ! c")
    case (TraceCore p)
    let ?p = "p\<lparr>cpu_upper_interface := ?i, cpu_next_id := ms_next_id s, s_finite_cores_running := ms_running s\<rparr>"
    obtain p' stop where p: "CPU_cycleProcess ?p = Inr (p', stop)"
      "s' = (set_link c k (cpu_upper_interface p') s)\<lparr>ms_cores := (ms_cores s)[c := TraceCore p'],
          ms_next_id := cpu_next_id p', ms_running := s_finite_cores_running p'\<rparr>"
      using assms(2) k TraceCore by (auto simp: core_tick_def Let_def result_bind_Inr_iff)
    have "window_wf ?p" using old TraceCore by (simp add: core_ok_def window_wf_def)
    then have "window_wf p'" using window_step [OF _ p(1)] by blast
    then show ?thesis by (intro that [of "TraceCore p'"]) (simp_all add: p(2) system_simps core_ok_def)
  next
    case (PortCore e)
    let ?e = "e\<lparr>ext_upper_interface := ?i\<rparr>"
    obtain e' where e: "ext_cycleProcess ?e = Inr e'"
      "s' = (set_link c k (ext_upper_interface e') s)\<lparr>ms_cores := (ms_cores s)[c := PortCore e']\<rparr>"
      using assms(2) k PortCore by (auto simp: core_tick_def Let_def result_bind_Inr_iff)
    have "plain_ext_queue (ext_processing_queue e')" using ext_cycle_plain [OF e(1)] old PortCore by (simp add: core_ok_def)
    then show ?thesis by (intro that [of "PortCore e'"]) (simp_all add: e(2) system_simps core_ok_def)
  qed
  show ?thesis using assms(1) set_update_ok [of "ms_cores s" core_ok, OF _ x(1)] by (simp add: components_ok_def x)
qed

lemma cache_components:
  assumes "components_ok s" and "cache_tick n c s = Inr s'" and "c < length (ms_caches s)"
  shows "components_ok s'"
proof -
  let ?x = "ms_caches s ! c" and ?b = "ms_buses s ! 0"
  obtain l u x' where x': "cycleProcess n (load_controller (d_interfaces (ms_links s ! c) ! l) (m_interfaces ?b ! u) s ?x) = Some (Inr x')"
    and s': "s' = (store_shared x' (set_bus 0 (set_port u (m_upper_interface x') ?b) (set_link c l (m_lower_interface x') s)))
               \<lparr>ms_caches := (ms_caches s)[c := x'\<lparr>m_port_calls := []\<rparr>],
                ms_cores := (ms_cores s)[c := fold port_event (m_port_calls x') (ms_cores s ! c)]\<rparr>"
    using assms(2) by (auto simp: cache_tick_def Let_def result_bind_Inr_iff with_fuel_Inr)
  have "controller_wf ?x" using assms(1,3) by (simp add: components_ok_def)
  then have wf: "controller_wf (x'\<lparr>m_port_calls := []\<rparr>)" using cycle_wf [OF x'] wf_frame [of "x'\<lparr>m_port_calls := []\<rparr>" x'] by simp
  have "\<forall>k\<in>set ((ms_cores s)[c := fold port_event (m_port_calls x') (ms_cores s ! c)]). core_ok k"
  proof (cases "c < length (ms_cores s)")
    case True
    then have "core_ok (fold port_event (m_port_calls x') (ms_cores s ! c))"
      using assms(1) port_events_ok by (simp add: components_ok_def)
    then show ?thesis using assms(1) set_update_ok [of "ms_cores s" core_ok] by (simp add: components_ok_def)
  next
    case False
    then show ?thesis using assms(1) by (simp add: components_ok_def list_update_beyond)
  qed
  then show ?thesis
    using assms(1) set_update_ok [of "ms_caches s" controller_wf, OF _ wf] by (simp add: components_ok_def s' system_simps)
qed

lemma llc_components:
  assumes "components_ok s" and "llc_tick n s = Inr s'"
  shows "components_ok s'"
proof -
  let ?b0 = "ms_buses s ! 0" and ?b1 = "ms_buses s ! 1"
  obtain l u x' where x': "cycleProcess n (load_controller (m_interfaces ?b0 ! l) (m_interfaces ?b1 ! u) s (ms_llc s)) = Some (Inr x')"
    and s': "s' = (store_shared x' (set_bus 1 (set_port u (m_upper_interface x') ?b1)
                (set_bus 0 (set_port l (m_lower_interface x') ?b0) s)))\<lparr>ms_llc := x'\<rparr>"
    using assms(2) by (auto simp: llc_tick_def Let_def result_bind_Inr_iff with_fuel_Inr)
  show ?thesis using assms(1) cycle_wf [OF x'] by (simp add: components_ok_def s' system_simps)
qed

lemma memory_components:
  assumes "memory_tick dram s = Inr s'"
  shows "components_ok s' = components_ok s"
proof -
  have "ms_caches s' = ms_caches s \<and> ms_cores s' = ms_cores s \<and> ms_llc s' = ms_llc s"
  proof (cases "ms_memory s")
    case (BasicMemory m)
    then show ?thesis using assms by (auto simp: memory_tick_def Let_def result_bind_Inr_iff system_simps)
  next
    case (DramMemory m)
    obtain accepts beyond calls where "dram (mc_clk_cycle m) = (accepts, beyond, calls)" by (metis prod_cases3)
    then show ?thesis using assms DramMemory by (auto simp: memory_tick_def Let_def result_bind_Inr_iff system_simps)
  qed
  then show ?thesis by (simp add: components_ok_def)
qed

lemma components_tick:
  assumes "components_ok s" and "system_tick n dram ob s = Inr (s', st)" and "object_of s ob"
  shows "components_ok s'"
  using assms
  by (cases ob) (auto simp: result_bind_Inr_iff object_of_def
      dest: bus_components link_components memory_components intro: core_components cache_components llc_components)

section \<open>A new system\<close>

text \<open>The conditions under which the order of a bus is stated; they are not code.\<close>

definition tdm_ok :: "bus_params \<Rightarrow> bool" where
  "tdm_ok p \<longleftrightarrow> (bp_arbiter p = ''TDMArbiter'' \<longrightarrow>
     word_of_int (bp_request_latency p) \<noteq> (0 :: u64) \<and> word_of_int (bp_response_latency p) \<noteq> (0 :: u64) \<and>
     bp_upper_ids p @ bp_lower_ids p \<noteq> [])"

definition plain_kind :: "controller_kind \<Rightarrow> cache_params \<Rightarrow> bool" where
  "plain_kind kind p \<longleftrightarrow> kind \<noteq> End2EndController \<and> cp_perfect p \<noteq> Some True"

definition llc_kind :: "system_params \<Rightarrow> controller_kind" where
  "llc_kind p = (case sp_llc_kind p of None \<Rightarrow> sp_cache_kind p | Some k \<Rightarrow> k)"

text \<open>Whether the upper interfaces on bus \<open>j\<close> are used as ports only: those of the caches on bus 0, of the shared cache on bus 1.\<close>

definition plain_system :: "nat \<Rightarrow> system_params \<Rightarrow> bool" where
  "plain_system j p \<longleftrightarrow>
     (j = 0 \<longrightarrow> (\<forall>k\<in>set (sp_cores p). plain_kind (sp_cache_kind p) (kp_cache k))) \<and>
     (j = 1 \<longrightarrow> plain_kind (llc_kind p) (sp_llc p))"

definition empty_tables :: "controller \<Rightarrow> bool" where
  "empty_tables x \<longleftrightarrow> m_pending_requests x = [] \<and> m_saved_requests_for_wb x = [] \<and>
     m_ack_counters (m_directory x) = [] \<and> m_modifying_data_messages x = []"

lemma empty_tables_wf: "empty_tables x \<Longrightarrow> controller_wf x"
  by (simp add: empty_tables_def controller_wf_def line_table_def ack_table_def modifying_table_def)

lemma init_tables: "empty_tables (controller_init x) = empty_tables x" "plain_controller (controller_init x) = plain_controller x"
  by (auto simp: controller_init_def empty_tables_def plain_controller_def split: coherence.splits prod.splits)

lemma createController_new:
  assumes "createController kind p port draw = Inr x"
  shows "empty_tables x" "plain_kind kind p \<Longrightarrow> plain_controller x"
  using assms
  by (auto simp: createController_def new_CacheController_def result_bind_Inr_iff Let_def empty_tables_def
      plain_kind_def plain_controller_def)

lemma load_rows_sent: "load_rows ratio ls s = Some s' \<Longrightarrow> m_sent_requests s' = m_sent_requests s"
proof (induction ls arbitrary: s)
  case Nil
  then show ?case by simp
next
  case (Cons l ls)
  let ?line = "strip_return l" and ?col = "columns (strip_return l)"
  obtain u where u: "m_sent_requests u = m_sent_requests s" "load_rows ratio ls u = Some s'"
  proof (cases "skipped_line ?line \<or> ?col ! 0 = ''kind''")
    case True
    then show ?thesis using Cons.prems that [of s] by (simp add: Let_def)
  next
    case False
    show ?thesis
    proof (cases "?col ! 0 = ''attr''")
      case True
      then obtain v where v: "load_attr (?col ! 1) (?col ! 2) s = Some v" "load_rows ratio ls v = Some s'"
        using Cons.prems False by (auto simp: Let_def split: option.splits)
      have "m_sent_requests v = m_sent_requests s" using v(1) by (auto simp: load_attr_def split: if_splits)
      with v(2) show ?thesis by (intro that [of v])
    next
      case attr: False
      then obtain ph where "load_rows ratio ls (s\<lparr>m_body := m_body s @ [ph]\<rparr>) = Some s'"
        using Cons.prems False by (auto simp: Let_def split: option.splits)
      then show ?thesis by (intro that [of "s\<lparr>m_body := m_body s @ [ph]\<rparr>"]) simp_all
    qed
  qed
  with Cons.IH [OF u(2)] show ?case by simp
qed

lemma attach_sent:
  assumes "attach_workload ratio wl s = Inr s'"
  shows "m_sent_requests s' = m_sent_requests s"
proof -
  have "m_sent_requests t = m_sent_requests s" if t: "loadTask ratio ls s = Some t" for ls t
  proof -
    obtain u where u: "load_rows ratio ls (s\<lparr>m_periodic := True, m_deadline_rel := 0\<rparr>) = Some u"
      "m_sent_requests t = m_sent_requests u"
      using t by (auto simp: loadTask_def Let_def split: option.splits if_splits)
    show ?thesis using load_rows_sent [OF u(1)] u(2) by simp
  qed
  then show ?thesis
    using assms by (cases wl) (auto simp: attach_workload_def result_bind_Inr_iff split: option.splits)
qed

lemma new_core_ok:
  assumes "new_core ratio external p running = Inr (k, running')"
  shows "core_ok k"
proof (cases external)
  case True
  then show ?thesis using assms by (auto simp: new_core_def Let_def core_ok_def new_external_plain)
next
  case False
  then obtain c where c: "attach_workload ratio (kp_workload p) (new_CPU (cp_id (kp_cache p)) (kp_window p)
      (BusI (new_BusInterface (- 1) (kp_link_size p))) running 1) = Inr c" "k = TraceCore c"
    using assms by (auto simp: new_core_def Let_def result_bind_Inr_iff)
  have "m_sent_requests c = 0" using attach_sent [OF c(1)] by (simp add: new_CPU_def)
  then show ?thesis by (simp add: c(2) core_ok_def window_wf_def)
qed

text \<open>The parts of a system before its first cycle.\<close>

definition new_node :: "controller_kind \<Rightarrow> core_params \<Rightarrow> direct_interconnect \<times> core \<times> controller \<Rightarrow> bool" where
  "new_node kind p = (\<lambda>(d, k, x). d = new_DirectInterconnect (cp_id (kp_cache p)) (- 1) (kp_link_size p) \<and> core_ok k \<and>
     empty_tables x \<and> (plain_kind kind (kp_cache p) \<longrightarrow> plain_controller x))"

lemma new_nodes_new:
  "new_nodes ratio draw external kind ps running = Inr (nodes, tot) \<Longrightarrow> list_all2 (new_node kind) ps nodes"
proof (induction ps arbitrary: running nodes tot)
  case Nil
  then show ?case by simp
next
  case (Cons p ps)
  obtain k r x rest t where r: "new_core ratio external p running = Inr (k, r)"
    "createController kind (kp_cache p) external draw = Inr x" "new_nodes ratio draw external kind ps r = Inr (rest, t)"
    "nodes = (new_DirectInterconnect (cp_id (kp_cache p)) (- 1) (kp_link_size p), k, x) # rest"
    using Cons.prems by (auto simp: result_bind_Inr_iff split_beta)
  show ?case using Cons.IH [OF r(3)] new_core_ok [OF r(1)] createController_new [OF r(2)] by (simp add: r(4) new_node_def)
qed

lemma new_buses_new: "new_system_buses ps = Inr bs \<Longrightarrow> list_all2 (\<lambda>p b. new_system_bus p = Inr b) ps bs"
  by (induction ps arbitrary: bs) (auto simp: result_bind_Inr_iff)

lemma new_interface_fresh: "fresh_interfaces (map (\<lambda>i. new_bus_interface p i n) ids)"
  by (auto simp: fresh_interfaces_def new_bus_interface_def new_BusInterface_def new_TripleBusInterface_def bus_interface.defs
      Bus_wf_def Triple_wf_def)

lemma new_bus_ordered:
  assumes "new_system_bus p = Inr b" and "tdm_ok p"
  shows "bus_ordered b no_log"
proof -
  let ?itfs = "map (\<lambda>i. new_bus_interface p i (bp_size p)) (bp_upper_ids p @ bp_lower_ids p)"
  obtain ctl where ctl: "new_bus_controller p ?itfs = Inr ctl" and b: "m_interfaces b = ?itfs" "interconnect_controller b = ctl"
    using assms(1) by (auto simp: new_system_bus_def Let_def result_bind_Inr_iff new_Bus_def split: if_splits)
  have log: "log_view c ?itfs no_log = new_system c ?itfs" for c
    by (simp add: log_view_def new_system_def no_log_def map_replicate_const)
  have "total_order_inv split_held split_ok (new_system c ?itfs)"
    if c: "new_SplitBusController (bp_arbiter p) (bp_request_latency p) (bp_response_latency p) (bp_reserve p) ?itfs = Inr c" for c
    using new_SplitBusController_ok [OF c] assms(2) new_interface_fresh [of p "bp_size p" "bp_upper_ids p @ bp_lower_ids p"]
    by (intro total_order_new) (auto simp: fresh_interfaces_def tdm_ok_def)
  then show ?thesis
    using ctl unfolding bus_ordered_def b
    by (auto simp: new_bus_controller_def Let_def result_bind_Inr_iff log simp del: map_append split: if_splits)
qed

lemma new_link_fifo: "link_fifo (new_DirectInterconnect u l n) no_log"
  by (auto simp: link_fifo_def new_DirectInterconnect_def no_log_def new_BusInterface_def less_2_cases_iff Let_def)

text \<open>What holds of a run.\<close>

definition run_inv :: "system_params \<Rightarrow> watched \<Rightarrow> bool" where
  "run_inv p w \<longleftrightarrow>
     length (ms_buses (sys w)) = length (sp_buses p) \<and> length (ms_links (sys w)) = length (sp_cores p) \<and>
     length (ms_cores (sys w)) = length (sp_cores p) \<and> length (ms_caches (sys w)) = length (sp_cores p) \<and>
     (\<forall>j. plain_system j p \<longrightarrow> plain_users j (sys w)) \<and>
     (\<forall>j<length (sp_buses p). plain_system j p \<longrightarrow> tdm_ok (sp_buses p ! j) \<longrightarrow>
        bus_ordered (ms_buses (sys w) ! j) (bus_log w j)) \<and>
     (\<forall>c<length (sp_cores p). link_fifo (ms_links (sys w) ! c) (link_log w c)) \<and>
     components_ok (sys w)"

definition unwatched :: "multicore \<Rightarrow> watched" where
  "unwatched s = \<lparr> sys = s, bus_log = (\<lambda>_. no_log), link_log = (\<lambda>_. no_log) \<rparr>"

lemma new_system_inv:
  assumes "new_MultiCoreSystem ratio draw p = Inr s"
  shows "run_inv p (unwatched s) \<and> (\<forall>x\<in>set (ms_caches s). empty_tables x) \<and> empty_tables (ms_llc s)"
proof -
  obtain buses nodes running llc mem where b: "new_system_buses (sp_buses p) = Inr buses"
    and n: "new_nodes ratio draw (sp_external_cores p) (sp_cache_kind p) (sp_cores p) 0 = Inr (nodes, running)"
    and l: "createController (llc_kind p) (sp_llc p) False draw = Inr llc"
    and s: "s = \<lparr> ms_buses = buses, ms_links = map fst nodes, ms_cores = map (fst \<circ> snd) nodes, ms_caches = map (snd \<circ> snd) nodes,
               ms_llc = llc, ms_memory = mem, ms_memory_port = mp_port (sp_memory p), ms_seq = 0, ms_next_id = 1, ms_draws = 0, ms_running = running \<rparr>"
    using assms by (auto simp: new_MultiCoreSystem_def result_bind_Inr_iff llc_kind_def split: if_splits prod.splits)
  note bs = new_buses_new [OF b] and ns = new_nodes_new [OF n]
  have len: "length buses = length (sp_buses p)" "length nodes = length (sp_cores p)"
    using bs ns by (simp_all add: list_all2_lengthD)
  have node: "core_ok k \<and> empty_tables x \<and> (\<exists>q\<in>set (sp_cores p). plain_kind (sp_cache_kind p) (kp_cache q) \<longrightarrow> plain_controller x)"
    if t: "(d, k, x) \<in> set nodes" for d k x
  proof -
    obtain i where i: "i < length nodes" "nodes ! i = (d, k, x)" using t by (auto simp: in_set_conv_nth)
    then have "new_node (sp_cache_kind p) (sp_cores p ! i) (d, k, x)" using list_all2_nthD2 [OF ns i(1)] by simp
    moreover have "sp_cores p ! i \<in> set (sp_cores p)" using i(1) len by simp
    ultimately show ?thesis by (auto simp: new_node_def)
  qed
  have fifo: "link_fifo (map fst nodes ! c) no_log" if "c < length nodes" for c
    using list_all2_nthD2 [OF ns that] new_link_fifo that by (auto simp: new_node_def split: prod.splits)
  have ordered: "bus_ordered (buses ! j) no_log" if "j < length (sp_buses p)" "tdm_ok (sp_buses p ! j)" for j
    using new_bus_ordered [OF list_all2_nthD [OF bs that(1)] that(2)] .
  have users: "plain_users j s" if "plain_system j p" for j
    using that node createController_new(2) [OF l] by (auto simp: plain_users_def plain_system_def s)
  have "components_ok s"
    using node createController_new(1) [OF l] empty_tables_wf by (auto simp: components_ok_def s)
  moreover have "(\<forall>x\<in>set (ms_caches s). empty_tables x) \<and> empty_tables (ms_llc s)"
    using node createController_new(1) [OF l] by (auto simp: s)
  ultimately show ?thesis
    using len fifo ordered users by (auto simp: run_inv_def unwatched_def s)
qed

section \<open>Initialisation\<close>

lemma plain_map: "(\<forall>x\<in>set xs. plain_controller x) = list_all id (map plain_controller xs)"
  by (simp add: list_all_iff)

lemma system_init_inv:
  assumes "system_init ob s = Inr s'" and "run_inv p (unwatched s)" and "object_of s ob"
    and "\<forall>x\<in>set (ms_caches s). empty_tables x" and "empty_tables (ms_llc s)"
  shows "run_inv p (unwatched s') \<and> (\<forall>x\<in>set (ms_caches s'). empty_tables x) \<and> empty_tables (ms_llc s')"
proof (cases ob)
  case (CoreClock c)
  then have "c < length (ms_cores s)" using assms(3) by (simp add: object_of_def)
  then have old: "core_ok (ms_cores s ! c)" using assms(2) by (simp add: run_inv_def unwatched_def components_ok_def)
  show ?thesis
  proof (cases "ms_cores s ! c")
    case (TraceCore q)
    then obtain q' where q: "cpu_init (q\<lparr>cpu_next_id := ms_next_id s\<rparr>) = Inr q'"
      "s' = s\<lparr>ms_cores := (ms_cores s)[c := TraceCore q'], ms_next_id := cpu_next_id q'\<rparr>"
      using assms(1) CoreClock by (auto simp: result_bind_Inr_iff)
    have "window q' = window q" using init_window [OF q(1)] by (simp add: window_def)
    from window_wf_cong [OF this] have "core_ok (TraceCore q')" using old TraceCore by (simp add: core_ok_def)
    then show ?thesis
      using assms(2,4,5) set_update_ok [of "ms_cores s" core_ok]
      by (simp add: q(2) run_inv_def unwatched_def components_ok_def plain_users_def)
  next
    case (PortCore e)
    then show ?thesis using assms CoreClock by simp
  qed
next
  case (CacheClock c)
  let ?x = "ms_caches s ! c"
  have s': "s' = s\<lparr>ms_caches := (ms_caches s)[c := controller_init ?x]\<rparr>" and c: "c < length (ms_caches s)"
    using assms(1,3) CacheClock by (auto simp: object_of_def)
  have empty: "\<forall>x\<in>set (ms_caches s'). empty_tables x"
  proof -
    have "empty_tables (controller_init ?x)" using assms(4) c by (simp add: init_tables)
    from set_update_ok [of "ms_caches s" empty_tables, OF assms(4) this] show ?thesis by (simp add: s')
  qed
  have "plain_users j s' = plain_users j s" for j
  proof -
    have "map plain_controller ((ms_caches s)[c := controller_init ?x]) = map plain_controller (ms_caches s)"
      by (rule config_map_update) (rule init_tables)
    then show ?thesis by (simp add: plain_users_def s' plain_map)
  qed
  then show ?thesis
    using assms(2,5) empty empty_tables_wf by (simp add: s' run_inv_def unwatched_def components_ok_def)
next
  case LlcClock
  then show ?thesis
    using assms empty_tables_wf
    by (auto simp: run_inv_def unwatched_def components_ok_def plain_users_def init_tables)
qed (use assms in simp_all)

lemma run_inv_object:
  "run_inv p w \<Longrightarrow> ob \<in> set (construction_order p) \<Longrightarrow> object_of (sys w) ob"
  by (auto simp: run_inv_def construction_order_def object_of_def)

lemma init_objects_inv:
  assumes "init_objects system_init obs s = Inr s'" and "set obs \<subseteq> set (construction_order p)"
    and "run_inv p (unwatched s)" "\<forall>x\<in>set (ms_caches s). empty_tables x" "empty_tables (ms_llc s)"
  shows "run_inv p (unwatched s')"
  using assms
proof (induction obs arbitrary: s)
  case Nil
  then show ?case by simp
next
  case (Cons ob obs)
  obtain u where u: "system_init ob s = Inr u" "init_objects system_init obs u = Inr s'"
    using Cons.prems(1) by (auto simp: result_bind_Inr_iff)
  have "object_of s ob"
    using run_inv_object [OF Cons.prems(3), of ob] Cons.prems(2) by (simp add: unwatched_def)
  then show ?case using Cons.IH [OF u(2)] system_init_inv [OF u(1) Cons.prems(3) _ Cons.prems(4,5)] Cons.prems(2) by simp
qed

text \<open>The clock knows exactly the objects that are constructed.\<close>

lemma insert_event_objects: "snd ` set (insert_event k ob es) \<subseteq> insert ob (snd ` set es)"
  by (induction es) auto

lemma register_objects: "snd ` set (events (register_object p ob s)) \<subseteq> insert ob (snd ` set (events s))"
proof -
  have "events (register_object p ob s) = insert_event (EventKey (if ob = MemoryClock \<and> mp_type (sp_memory p) = ''MCsim''
      then cp_period (sp_llc p) else 0) (next_obj_id s)) ob (events s)"
    by (cases ob) (simp_all add: register_object_def registerCLKObj_def registerCLKTrigger_def Let_def)
  then show ?thesis using insert_event_objects by metis
qed

lemma clock_objects: "snd ` set (events (system_clock p)) \<subseteq> set (construction_order p)"
proof -
  have "snd ` set (events (fold (register_object p) obs s)) \<subseteq> set obs \<union> snd ` set (events s)" for obs s
  proof (induction obs arbitrary: s)
    case (Cons ob obs)
    then show ?case using register_objects [of p ob s] by (auto dest!: subsetD)
  qed simp
  from this [of "construction_order p" new_ClockManager] show ?thesis
    by (simp add: system_clock_def new_ClockManager_def)
qed

lemma new_CacheSim_inv:
  assumes "new_CacheSim ratio draw p = Inr (clk, s)"
  shows "run_inv p (unwatched s)" "\<forall>x\<in>set (events clk). snd x \<in> set (construction_order p)"
proof -
  obtain s0 where s0: "new_MultiCoreSystem ratio draw p = Inr s0" "clk = system_clock p"
    "clock_init system_init (system_period p) (system_clock p) s0 = Inr s"
    using assms by (auto simp: new_CacheSim_def result_bind_Inr_iff)
  have obs: "init_objects system_init (map snd (events (system_clock p))) s0 = Inr s"
    using s0(3) by (auto simp: clock_init_def result_bind_Inr_iff split: if_splits)
  show "run_inv p (unwatched s)"
    by (rule init_objects_inv [OF obs]) (use new_system_inv [OF s0(1)] clock_objects [of p] in auto)
  show "\<forall>x\<in>set (events clk). snd x \<in> set (construction_order p)"
    using clock_objects [of p] by (auto simp: s0(2))
qed

section \<open>Every run keeps the invariant\<close>

lemma config_plain: "map controller_config xs = map controller_config ys \<Longrightarrow> map plain_controller xs = map plain_controller ys"
proof (induction xs arbitrary: ys)
  case (Cons x xs)
  then obtain y zs where y: "ys = y # zs" by (cases ys) auto
  have "plain_controller x = plain_controller y" by (rule config_fields) (use Cons.prems y in simp)
  then show ?case using Cons y by simp
qed simp

lemma effect_users:
  assumes "cycle_effect ob s s'"
  shows "plain_users j s' = plain_users j s"
proof -
  have "map plain_controller (ms_caches s') = map plain_controller (ms_caches s)"
    by (rule config_plain) (use assms in \<open>simp add: cycle_effect_def\<close>)
  moreover have "plain_controller (ms_llc s') = plain_controller (ms_llc s)"
    by (rule config_fields) (use assms in \<open>simp add: cycle_effect_def\<close>)
  ultimately show ?thesis by (simp add: plain_users_def plain_map)
qed

lemma tick_inv:
  assumes "run_inv p w" and "ob \<in> set (construction_order p)" and "watched_tick n dram ob w = Inr (w', st)"
  shows "run_inv p w'"
proof -
  obtain s' where s': "system_tick n dram ob (sys w) = Inr (s', st)"
    and w': "w' = \<lparr> sys = s',
        bus_log = (\<lambda>j. if ob = BusClock j then bus_log w j
          else watch (m_interfaces (ms_buses (sys w) ! j)) (m_interfaces (ms_buses s' ! j)) (bus_log w j)),
        link_log = (\<lambda>c. if ob = LinkClock c then link_log w c
          else watch (d_interfaces (ms_links (sys w) ! c)) (d_interfaces (ms_links s' ! c)) (link_log w c)) \<rparr>"
    using assms(3) by (auto simp: watched_tick_def result_bind_Inr_iff)
  note ob = run_inv_object [OF assms(1,2)]
  note e = tick_effect [OF s' ob]
  have ordered: "bus_ordered (ms_buses s' ! j) (bus_log w' j)"
    if j: "j < length (sp_buses p)" "plain_system j p" "tdm_ok (sp_buses p ! j)" for j
  proof -
    have old: "bus_ordered (ms_buses (sys w) ! j) (bus_log w j)" and "plain_users j (sys w)" "j < length (ms_buses (sys w))"
      using assms(1) j by (simp_all add: run_inv_def)
    then have "if ob = BusClock j then bus_cycled (ms_buses (sys w) ! j) (ms_buses s' ! j)
        else bus_kept (ms_buses (sys w) ! j) (ms_buses s' ! j)"
      using e by (auto simp: cycle_effect_def)
    then show ?thesis using cycled_order [OF old] kept_order [OF old] by (simp add: w' split: if_splits)
  qed
  have fifo: "link_fifo (ms_links s' ! c) (link_log w' c)" if c: "c < length (sp_cores p)" for c
  proof -
    have old: "link_fifo (ms_links (sys w) ! c) (link_log w c)" and "c < length (ms_links (sys w))"
      using assms(1) c by (simp_all add: run_inv_def)
    then have "if ob = LinkClock c then link_cycled (ms_links (sys w) ! c) (ms_links s' ! c)
        else link_kept (ms_links (sys w) ! c) (ms_links s' ! c)"
      using e by (auto simp: cycle_effect_def)
    then show ?thesis using cycled_fifo [OF old] watch_fifo [OF old] by (simp add: w' split: if_splits)
  qed
  have "components_ok s'" using components_tick [OF _ s' ob] assms(1) by (simp add: run_inv_def)
  then show ?thesis
    using assms(1) ordered fifo e effect_users [OF e] by (simp add: run_inv_def w' cycle_effect_def)
qed

lemma embedder_inv:
  assumes "run_inv p w" and "embedder_step c call (sys w) = Inr (s', i)"
  shows "run_inv p (w\<lparr>sys := s'\<rparr>)"
proof -
  obtain e where e: "ms_cores (sys w) ! c = PortCore e"
    using assms(2) by (cases "ms_cores (sys w) ! c") (auto simp: embedder_step_def)
  then obtain e' where e': "embedder_apply call (e\<lparr>ext_next_id := ms_next_id (sys w)\<rparr>) = Inr (e', i)"
    "s' = (sys w)\<lparr>ms_cores := (ms_cores (sys w))[c := PortCore e'], ms_next_id := ext_next_id e'\<rparr>"
    using assms(2) by (auto simp: embedder_step_def result_bind_Inr_iff)
  have "\<forall>k\<in>set ((ms_cores (sys w))[c := PortCore e']). core_ok k"
  proof (cases "c < length (ms_cores (sys w))")
    case True
    then have "plain_ext_queue (ext_processing_queue e)"
      using assms(1) e by (metis (no_types, lifting) components_ok_def core.simps(6) core_ok_def nth_mem run_inv_def)
    then have "plain_ext_queue (ext_processing_queue e')"
      using e'(1) addRequest_plain
      by (cases call) (force simp: registerCPUCallback_def registerCommitCallback_def registerInvalidateCallback_def
          registerInitializableMemory_def)+
    then have "core_ok (PortCore e')" by (simp add: core_ok_def)
    then show ?thesis using assms(1) set_update_ok [of "ms_cores (sys w)" core_ok] by (simp add: run_inv_def components_ok_def)
  next
    case False
    then show ?thesis using assms(1) by (simp add: run_inv_def components_ok_def list_update_beyond)
  qed
  then show ?thesis using assms(1) by (simp add: run_inv_def e'(2) components_ok_def plain_users_def)
qed

lemma sim_run_inv:
  assumes "sim_run p dram clk w"
  shows "run_inv p w \<and> (\<forall>x\<in>set (events clk). snd x \<in> set (construction_order p))"
  using assms
proof (induction rule: sim_run.induct)
  case (built ratio draw clk s)
  then show ?case using new_CacheSim_inv [OF built] by (simp add: unwatched_def)
next
  case (step clk w n clk' w')
  show ?case
  proof (rule clkStep_invariant [OF step.hyps(2)])
    show "run_inv p w" "\<forall>x\<in>set (events clk). snd x \<in> set (construction_order p)" using step.IH by blast+
  next
    fix ob v v' st
    assume "ob \<in> set (construction_order p)" "run_inv p v" "watched_tick n dram ob v = Inr (v', st)"
    then show "run_inv p v'" using tick_inv by blast
  qed
next
  case (embedder clk w c call s' i)
  then show ?case using embedder_inv by blast
qed

section \<open>Properties\<close>

text \<open>
  C1. In every run of a whole system, however long and whatever its cores, private caches, shared cache and memory send
  and when, a split or triple bus is an atomic broadcast of requests in one total order: what an agent has read of its
  request channel, followed by what waits for it there, is one sequence \<open>D\<close>, the same for all agents; and \<open>D\<close>,
  with what the controller holds and what waits at the senders, is exactly what the agents have sent.

  Two conditions on the configuration. No cache whose upper interface is on the bus (the private caches on bus 0, the
  shared cache on bus 1) is an End2End controller, which takes requests back out of its sender queue and puts fills into
  its own receive queue, or a perfect shared cache, which answers itself: \<open>plain_system\<close>. A TDM arbiter of the bus
  has agents and slots of a non-zero width: \<open>tdm_ok\<close>. Systems outside the two conditions are outside this property.
\<close>

theorem system_bus_order:
  assumes "sim_run p dram clk w" and "j < length (sp_buses p)" and "plain_system j p" and "tdm_ok (sp_buses p ! j)"
    and "interconnect_controller (ms_buses (sys w) ! j) \<in> {SplitController c, TripleController c}"
  shows "let itfs = m_interfaces (ms_buses (sys w) ! j); l = bus_log w j in
    \<exists>D. (\<forall>k<length itfs. read_requests l k @ rx_request (itfs ! k) = D) \<and>
      split_held c + tx_all itfs + mset D = mset (concat (map (sent_requests l) [0..<length itfs]))"
proof -
  have "bus_ordered (ms_buses (sys w) ! j) (bus_log w j)"
    using sim_run_inv [OF assms(1)] assms(2-4) by (simp add: run_inv_def)
  then show ?thesis
    using assms(5) by (auto simp: bus_ordered_def total_order_inv_def log_view_def Let_def)
qed

text \<open>
  C2. In every run the link between a core and its cache is two FIFO channels in each direction: what one side has
  sent is what the other has read, then what waits for it, then what is still at the sender, in this order, for
  requests and for responses.
\<close>

theorem system_links_are_fifo:
  assumes "sim_run p dram clk w" and "c < length (sp_cores p)" and "a < 2"
  shows "let i = d_interfaces (ms_links (sys w) ! c) ! a; j = d_interfaces (ms_links (sys w) ! c) ! (1 - a); l = link_log w c in
    sent_requests l a = read_requests l (1 - a) @ rx_request j @ tx_request i \<and>
    sent_responses l a = read_responses l (1 - a) @ rx_response j @ tx_response i"
  using sim_run_inv [OF assms(1)] assms(2,3) by (auto simp: run_inv_def link_fifo_def Let_def)

text \<open>
  C3. In every run every component keeps its own invariant in the company of the others: a core never has more
  requests outstanding than its window, the queue of a core of an embedder stays a plain one, and the tables of every
  controller stay well formed.
\<close>

theorem system_components_stay_well_formed:
  assumes "sim_run p dram clk w"
  shows "(\<forall>k\<in>set (ms_cores (sys w)). case k of
        TraceCore q \<Rightarrow> 0 \<le> m_sent_requests q \<and> m_sent_requests q \<le> uint (m_number_of_OoO_requests q)
      | PortCore e \<Rightarrow> plain_ext_queue (ext_processing_queue e)) \<and>
    (\<forall>x\<in>set (ms_llc (sys w) # ms_caches (sys w)). controller_wf x)"
  using sim_run_inv [OF assms] by (auto simp: run_inv_def components_ok_def core_ok_def window_wf_def split: core.splits)

text \<open>A system of one external core, its cache, a shared cache and a memory. A request is on its way over the link.\<close>

definition example_bus_params :: "int \<Rightarrow> int \<Rightarrow> bus_params" where
  "example_bus_params u l =
     \<lparr> bp_type = ''Bus'', bp_controller = ''Split'', bp_upper_ids = [u], bp_lower_ids = [l], bp_size = 8, bp_period = 1,
       bp_arbiter = ''RRArbiter'', bp_request_latency = 2, bp_response_latency = 2, bp_reserve = None, bp_candidates = [],
       bp_unset = (0, False) \<rparr>"

definition example_cache_params :: "int \<Rightarrow> int \<Rightarrow> cache_params" where
  "example_cache_params i shared =
     \<lparr> cp_id = i, cp_shared_id = shared, cp_perfect = None, cp_queue_size = 8, cp_num_mshr = None, cp_interlock = None,
       cp_arbiter = ''NULL'', cp_candidates = [], cp_protocol = example_msi, cp_array = example_array False, cp_period = 1 \<rparr>"

definition example_system :: system_params where
  "example_system =
     \<lparr> sp_buses = [example_bus_params 0 10, example_bus_params 10 20], sp_external_cores = True,
       sp_cores = [\<lparr> kp_window = 1, kp_workload = No_workload, kp_period = 1, kp_link_size = 8, kp_link_period = 1,
                     kp_cache = example_cache_params 0 10 \<rparr>],
       sp_cache_kind = PlainController, sp_llc_kind = None, sp_llc = example_cache_params 10 20,
       sp_memory = \<lparr> mp_type = ''MainMemoryController'', mp_port = 20, mp_id = 20, mp_llc_id = 10, mp_latency = 4,
                     mp_queue_size = None, mp_period = 1 \<rparr> \<rparr>"

definition no_dram :: dram where
  "no_dram t = ((\<lambda>_. False), [], [])"

definition example_start :: "(clocked clock_manager \<times> watched) result" where
  "example_start =
     result_bind (new_CacheSim (\<lambda>_. 0) (\<lambda>_. 0) example_system) (\<lambda>(clk, s).
     result_bind (embedder_step 0 (AddRequest 64 READ_REQUEST None 8) s) (\<lambda>(s', i).
       Inr (clk, (unwatched s)\<lparr>sys := s'\<rparr>)))"

lemma example_start_run: "example_start = Inr (clk, w) \<Longrightarrow> sim_run example_system no_dram clk w"
  unfolding example_start_def unwatched_def
  by (auto simp: result_bind_Inr_iff dest: sim_run.embedder [OF sim_run.built])

declare result_bind_def [code_unfold] fuel_bind_def [code_unfold]

text \<open>Watching does not change a run.\<close>

lemma watched_run:
  "clkStep n (system_tick k dram) period clk s = Some (Inr (clk', s')) \<Longrightarrow> sys w = s \<Longrightarrow>
   \<exists>w'. clkStep n (watched_tick k dram) period clk w = Some (Inr (clk', w')) \<and> sys w' = s'"
proof (induction n arbitrary: clk s w)
  case 0
  then show ?case by simp
next
  case (Suc n)
  show ?case
  proof (cases "events clk")
    case Nil
    then show ?thesis using Suc.prems by simp
  next
    case (Cons x es)
    obtain key ob where x: "x = (key, ob)" by (cases x)
    show ?thesis
    proof (cases "current_time clk < time_stamp key")
      case True
      then show ?thesis using Suc.prems Cons x by auto
    next
      case False
      then have now: "\<not> time_stamp key < current_time clk" using Suc.prems(1) Cons x by (cases "time_stamp key < current_time clk") simp_all
      obtain v st where t: "system_tick k dram ob s = Inr (v, st)"
        using Suc.prems(1) Cons x False now
        by (cases "system_tick k dram ob s") (auto simp: dispatch_def fuel_bind_def)
      then obtain w1 where w1: "watched_tick k dram ob w = Inr (w1, st)" "sys w1 = v"
        using Suc.prems(2) by (simp add: watched_tick_def)
      show ?thesis
        using Suc.IH [OF _ w1(2)] Suc.prems(1) Cons x False now t w1(1) by (simp add: dispatch_def)
    qed
  qed
qed

definition example_seen :: "multicore \<Rightarrow> bool" where
  "example_seen s \<longleftrightarrow> map addr (tx_request (d_interfaces (ms_links s ! 0) ! 0)) = [64] \<and>
     (case interconnect_controller (ms_buses s ! 0) of SplitController b \<Rightarrow> True | _ \<Rightarrow> False)"

lemma run_then:
  assumes "case st of Inl e \<Rightarrow> False | Inr (clk, w) \<Rightarrow>
      (case f clk (sys w) of None \<Rightarrow> False | Some r \<Rightarrow> (case r of Inl e \<Rightarrow> False | Inr (clk', s') \<Rightarrow> P s'))"
  obtains clk w clk' s' where "st = Inr (clk, w)" "f clk (sys w) = Some (Inr (clk', s'))" "P s'"
proof -
  obtain clk w where st: "st = Inr (clk, w)" using assms by (cases st) auto
  then obtain r where r: "f clk (sys w) = Some r" using assms by (cases "f clk (sys w)") auto
  then obtain clk' s' where "r = Inr (clk', s')" using assms st by (cases r) auto
  then show thesis using that assms st r by simp
qed

lemma example_run:
  obtains clk w b where "sim_run example_system no_dram clk w"
    "map addr (tx_request (d_interfaces (ms_links (sys w) ! 0) ! 0)) = [64]"
    "interconnect_controller (ms_buses (sys w) ! 0) = SplitController b"
proof -
  have "case example_start of Inl e \<Rightarrow> False | Inr (clk, w) \<Rightarrow>
      (case clkStep 9 (system_tick 9 no_dram) (system_period example_system) clk (sys w) of None \<Rightarrow> False | Some r \<Rightarrow>
        (case r of Inl e \<Rightarrow> False | Inr (clk', s') \<Rightarrow> example_seen s'))"
    by code_simp
  then obtain clk w clk' s' where start: "example_start = Inr (clk, w)"
    and step: "clkStep 9 (system_tick 9 no_dram) (system_period example_system) clk (sys w) = Some (Inr (clk', s'))"
    and seen: "example_seen s'" by (rule run_then)
  obtain w' where w': "clkStep 9 (watched_tick 9 no_dram) (system_period example_system) clk w = Some (Inr (clk', w'))" "sys w' = s'"
    using watched_run [OF step refl] by blast
  obtain b where b: "interconnect_controller (ms_buses (sys w') ! 0) = SplitController b"
    using seen w'(2) by (cases "interconnect_controller (ms_buses (sys w') ! 0)") (auto simp: example_seen_def)
  have "map addr (tx_request (d_interfaces (ms_links (sys w') ! 0) ! 0)) = [64]" using seen w'(2) by (simp add: example_seen_def)
  then show thesis by (rule that [OF sim_run.step [OF example_start_run [OF start] w'(1)] _ b])
qed

text \<open>
  The same system with a table whose loads ask for the line on the bus, and a shared cache with a slow clock. Five
  steps of the clock after the embedder's load of address 64, its request has crossed the link and the bus: the cache
  has read it back, and it waits for the shared cache.
\<close>

definition example_broadcast :: system_params where
  "example_broadcast =
     example_system
       \<lparr>sp_buses := [(example_bus_params 0 10)\<lparr>bp_request_latency := 1\<rparr>, example_bus_params 10 20],
        sp_cores := [\<lparr> kp_window = 1, kp_workload = No_workload, kp_period = 1, kp_link_size = 8, kp_link_period = 1,
          kp_cache = (example_cache_params 0 10)\<lparr>cp_protocol := Snooping
            \<lparr> p_kind = SNOOP_MSI, m_id = 0, m_shared_memory_id = 10,
              m_fsm = example_table\<lparr>m_states := [\<lparr> is_data_valid = True, stable = True, transitions = [],
                fsm_actions = [(0, [2]), (1, [0]), (6, [0])], m_own_state = 0 \<rparr>]\<rparr> \<rparr>\<rparr> \<rparr>],
        sp_llc := (example_cache_params 10 20)\<lparr>cp_period := 9\<rparr>\<rparr>"

definition example_load :: "(clocked clock_manager \<times> watched) result" where
  "example_load =
     result_bind (new_CacheSim (\<lambda>_. 0) (\<lambda>_. 0) example_broadcast) (\<lambda>(clk, s).
     result_bind (embedder_step 0 (AddRequest 64 READ_REQUEST None 8) s) (\<lambda>(s', i).
       Inr (clk, (unwatched s)\<lparr>sys := s'\<rparr>)))"

lemma example_load_run: "example_load = Inr (clk, w) \<Longrightarrow> sim_run example_broadcast no_dram clk w"
  unfolding example_load_def unwatched_def
  by (auto simp: result_bind_Inr_iff dest: sim_run.embedder [OF sim_run.built])

fun clock_steps ::
  "nat \<Rightarrow> nat \<Rightarrow> dram \<Rightarrow> system_params \<Rightarrow> clocked clock_manager \<Rightarrow> multicore \<Rightarrow> (clocked clock_manager \<times> multicore) fuelled" where
  "clock_steps n 0 dram p clk s = Some (Inr (clk, s))"
| "clock_steps n (Suc k) dram p clk s =
     fuel_bind (clkStep n (system_tick n dram) (system_period p) clk s) (\<lambda>(clk', s'). clock_steps n k dram p clk' s')"

lemma clock_steps_run:
  "clock_steps n k dram p clk s = Some (Inr (clk', s')) \<Longrightarrow> sim_run p dram clk w \<Longrightarrow> sys w = s \<Longrightarrow>
   \<exists>w'. sim_run p dram clk' w' \<and> sys w' = s'"
proof (induction k arbitrary: clk s w)
  case 0
  then show ?case by auto
next
  case (Suc k)
  then obtain clk1 s1 where first: "clkStep n (system_tick n dram) (system_period p) clk s = Some (Inr (clk1, s1))"
    and rest: "clock_steps n k dram p clk1 s1 = Some (Inr (clk', s'))"
    by (auto simp: fuel_bind_def split: option.splits sum.splits)
  obtain w1 where "clkStep n (watched_tick n dram) (system_period p) clk w = Some (Inr (clk1, w1))" "sys w1 = s1"
    using watched_run [OF first Suc.prems(3)] by blast
  then show ?case using Suc.IH [OF rest] sim_run.step [OF Suc.prems(2)] by blast
qed

definition broadcast_seen :: "multicore \<Rightarrow> bool" where
  "broadcast_seen s \<longleftrightarrow>
     map (\<lambda>i. map addr (rx_request i)) (m_interfaces (ms_buses s ! 0)) = [[], [64]] \<and>
     (case interconnect_controller (ms_buses s ! 0) of SplitController b \<Rightarrow> True | _ \<Rightarrow> False)"

lemma example_broadcast_run:
  obtains clk w b where "sim_run example_broadcast no_dram clk w"
    "map (\<lambda>i. map addr (rx_request i)) (m_interfaces (ms_buses (sys w) ! 0)) = [[], [64]]"
    "interconnect_controller (ms_buses (sys w) ! 0) = SplitController b"
proof -
  have "case example_load of Inl e \<Rightarrow> False | Inr (clk, w) \<Rightarrow>
      (case clock_steps 9 5 no_dram example_broadcast clk (sys w) of None \<Rightarrow> False | Some r \<Rightarrow>
        (case r of Inl e \<Rightarrow> False | Inr (clk', s') \<Rightarrow> broadcast_seen s'))"
    by code_simp
  then obtain clk w clk' s' where start: "example_load = Inr (clk, w)"
    and run: "clock_steps 9 5 no_dram example_broadcast clk (sys w) = Some (Inr (clk', s'))"
    and seen: "broadcast_seen s'" by (rule run_then)
  obtain w' where w': "sim_run example_broadcast no_dram clk' w'" "sys w' = s'"
    using clock_steps_run [OF run example_load_run [OF start] refl] by blast
  obtain b where "interconnect_controller (ms_buses (sys w') ! 0) = SplitController b"
    using seen w'(2) by (cases "interconnect_controller (ms_buses (sys w') ! 0)") (auto simp: broadcast_seen_def)
  moreover have "map (\<lambda>i. map addr (rx_request i)) (m_interfaces (ms_buses (sys w') ! 0)) = [[], [64]]"
    using seen w'(2) by (simp add: broadcast_seen_def)
  ultimately show thesis by (rule that [OF w'(1), rotated])
qed

theorem system_bus_order_witness:
  "\<exists>clk w b. sim_run example_broadcast no_dram clk w \<and>
     64 \<in> addr ` set (read_requests (bus_log w 0) 0) \<and> 64 \<in> addr ` set (rx_request (m_interfaces (ms_buses (sys w) ! 0) ! 1)) \<and>
     (let itfs = m_interfaces (ms_buses (sys w) ! 0); l = bus_log w 0 in
      \<exists>D. (\<forall>k<length itfs. read_requests l k @ rx_request (itfs ! k) = D) \<and>
        split_held b + tx_all itfs + mset D = mset (concat (map (sent_requests l) [0..<length itfs])))"
proof -
  obtain clk w b where w: "sim_run example_broadcast no_dram clk w"
    "map (\<lambda>i. map addr (rx_request i)) (m_interfaces (ms_buses (sys w) ! 0)) = [[], [64]]"
    "interconnect_controller (ms_buses (sys w) ! 0) = SplitController b" by (rule example_broadcast_run)
  have "plain_system 0 example_broadcast" "tdm_ok (sp_buses example_broadcast ! 0)" "0 < length (sp_buses example_broadcast)"
    by (simp_all add: plain_system_def plain_kind_def tdm_ok_def example_broadcast_def example_system_def
        example_bus_params_def example_cache_params_def)
  note order = system_bus_order [OF w(1) this(3,1,2), of b]
  let ?itfs = "m_interfaces (ms_buses (sys w) ! 0)"
  obtain x y where itfs: "?itfs = [x, y]" "rx_request x = []" "map addr (rx_request y) = [64]"
    using w(2) by (auto simp: map_eq_Cons_conv)
  obtain D where D: "\<forall>k<length ?itfs. read_requests (bus_log w 0) k @ rx_request (?itfs ! k) = D"
    using order w(3) by (auto simp: Let_def)
  have "read_requests (bus_log w 0) 0 = read_requests (bus_log w 0) 1 @ rx_request y"
    using D [rule_format, of 0] D [rule_format, of 1] itfs by simp
  moreover have waits: "64 \<in> addr ` set (rx_request y)" using itfs(3) by (metis list.set_intros(1) set_map)
  ultimately have "64 \<in> addr ` set (read_requests (bus_log w 0) 0)" by auto
  then show ?thesis using order w waits itfs by (intro exI [of _ clk] exI [of _ w] exI [of _ b]) auto
qed

theorem system_links_are_fifo_witness:
  "\<exists>clk w. sim_run example_system no_dram clk w \<and> 64 \<in> addr ` set (sent_requests (link_log w 0) 0)"
proof -
  obtain clk w b where w: "sim_run example_system no_dram clk w"
    "map addr (tx_request (d_interfaces (ms_links (sys w) ! 0) ! 0)) = [64]" by (rule example_run)
  then have "64 \<in> addr ` set (tx_request (d_interfaces (ms_links (sys w) ! 0) ! 0))" by (metis list.set_intros(1) set_map)
  moreover have "0 < length (sp_cores example_system)" by (simp add: example_system_def)
  ultimately show ?thesis
    using system_links_are_fifo [OF w(1), of 0 0] w(1) by (intro exI [of _ clk] exI [of _ w]) (auto simp: Let_def)
qed

theorem system_components_stay_well_formed_witness:
  "\<exists>clk w. sim_run example_system no_dram clk w \<and> tx_request (d_interfaces (ms_links (sys w) ! 0) ! 0) \<noteq> [] \<and>
     controller_wf (ms_llc (sys w))"
proof -
  obtain clk w b where w: "sim_run example_system no_dram clk w"
    "map addr (tx_request (d_interfaces (ms_links (sys w) ! 0) ! 0)) = [64]" by (rule example_run)
  with system_components_stay_well_formed [OF w(1)] show ?thesis by (intro exI [of _ clk] exI [of _ w]) auto
qed

end
