(* ===== verification/Bridge.thy ===== *)
theory Bridge
  imports ExternalCore "HOL-Library.Product_Lexorder"
begin

text \<open>
  The bridge to gem5, src/gem5/octopus.cc: it takes the packets of a gem5 core, submits them to the external core of
  an L1 (ExternalCore), performs each data operation when the simulator commits the request, and answers when it
  completes. gem5 is an argument: what memory makes of a packet, which addresses are memory, and what a requestor
  sends when it is told to retry. What the bridge asks of gem5 is recorded. Debug output, reports and the start-up
  checks of clock periods are left out, and so are the pass-through methods of its ports.
\<close>

section \<open>State\<close>

text \<open>What the bridge reads of a packet: its address, that of its request if it has a physical one, its size and its kind.\<close>

record packet =
  pkt_paddr :: "u64 option"
  pkt_addr :: u64
  pkt_size :: u32
  pkt_is_read :: bool
  pkt_is_write :: bool
  pkt_is_invalidate :: bool
  pkt_is_clean :: bool
  pkt_is_llsc :: bool
  pkt_is_atomic :: bool
  pkt_uncacheable :: bool
  pkt_is_response :: bool

record pending_txn =
  txn_pkt :: packet
  txn_port :: nat
  committed :: bool
  txn_seq :: u64
  data_done :: bool
  completion_arrived :: bool
  issue_tick :: u64

text \<open>Calls on the memory port and on the ports of the core; those for a request carry its place in the order of acceptance, or its number.\<close>

datatype memory_call = Access u64 packet | Bypass packet | Functional packet

datatype cpu_call = Answer u64 nat packet | Reply nat packet | SnoopInvalidate nat u64 | RetryReq nat

text \<open>
  \<open>num_pending_req\<close> is static; the other bridges' requests count in it too. \<open>port_snooping\<close> says which of the cores'
  ports are snoopers, \<open>clock_period\<close> and \<open>cur_tick\<close> are gem5's clock.
\<close>

record bridge =
  ext_cpu :: external_core
  ext_cache :: "controller option"
  pending_requests :: "(u64 \<times> pending_txn) list"
  next_seq :: u64
  held_back_ops :: u64
  port_blocks :: u64
  snoops_sent :: u64
  llsc_loads :: u64
  llsc_stores :: u64
  atomic_ops :: u64
  num_pending_req :: u64
  needs_retry :: "bool list"
  port_snooping :: "bool list"
  block_size :: u32
  clock_period :: u64
  cur_tick :: u64
  read_reqs :: nat
  write_reqs :: nat
  responses :: nat
  latency_cycles :: nat
  memory_calls :: "memory_call list"
  cpu_calls :: "cpu_call list"

record gem5 =
  memory_access :: "packet \<Rightarrow> packet"
  make_response :: "packet \<Rightarrow> packet"
  is_mem_addr :: "u64 \<Rightarrow> bool"
  on_retry :: "nat \<Rightarrow> cpu_call list \<Rightarrow> packet list"

definition new_bridge :: "external_core \<Rightarrow> controller option \<Rightarrow> bool list \<Rightarrow> u32 \<Rightarrow> u64 \<Rightarrow> u64 \<Rightarrow> bridge" where
  "new_bridge e cache snooping bsize period pending =
     \<lparr> ext_cpu = registerInvalidateCallback (registerCommitCallback (registerCPUCallback e)), ext_cache = cache,
       pending_requests = [], next_seq = 0, held_back_ops = 0, port_blocks = 0, snoops_sent = 0, llsc_loads = 0,
       llsc_stores = 0, atomic_ops = 0, num_pending_req = pending, needs_retry = map (\<lambda>_. False) snooping,
       port_snooping = snooping, block_size = bsize, clock_period = period, cur_tick = 0, read_reqs = 0,
       write_reqs = 0, responses = 0, latency_cycles = 0, memory_calls = [], cpu_calls = [] \<rparr>"

section \<open>Admission\<close>

definition pkt_getAddr :: "packet \<Rightarrow> u64" where
  "pkt_getAddr p = (case pkt_paddr p of Some a \<Rightarrow> a | None \<Rightarrow> pkt_addr p)"

text \<open>\<open>emplace\<close> does not insert a number that is there; the panic comes after the statistics.\<close>

definition submit :: "packet \<Rightarrow> request_type \<Rightarrow> nat \<Rightarrow> bridge \<Rightarrow> bridge result" where
  "submit p ty port s =
     result_bind (ext_addRequest (pkt_getAddr p) ty None (sint (pkt_size p)) (ext_cpu s)) (\<lambda>(e, i).
       if map_of (pending_requests s) i \<noteq> None then Inl (Exit ''msg_id issued twice'')
       else
         let s1 = s\<lparr>ext_cpu := e, next_seq := next_seq s + 1,
                    pending_requests := pending_requests s @
                      [(i, \<lparr> txn_pkt = p, txn_port = port, committed = False, txn_seq = next_seq s, data_done = False,
                             completion_arrived = False, issue_tick = cur_tick s \<rparr>)]\<rparr> in
         Inr (if ty = WRITE_REQUEST then s1\<lparr>write_reqs := write_reqs s1 + 1\<rparr> else s1\<lparr>read_reqs := read_reqs s1 + 1\<rparr>))"

definition portBlocked :: "bridge \<Rightarrow> bool" where
  "portBlocked s \<longleftrightarrow> ext_isBlocked (ext_cache s) (int (length (pending_requests s)))"

definition bypass :: "gem5 \<Rightarrow> packet \<Rightarrow> nat \<Rightarrow> bridge \<Rightarrow> bridge" where
  "bypass g p port s =
     (let s1 = s\<lparr>memory_calls := memory_calls s @ [Bypass p]\<rparr>; p' = memory_access g p in
      if pkt_is_response p' then s1\<lparr>cpu_calls := cpu_calls s1 @ [Reply port p']\<rparr> else s1)"

definition count_mix :: "packet \<Rightarrow> bridge \<Rightarrow> bridge" where
  "count_mix p s =
     (if pkt_is_llsc p
      then if pkt_is_write p then s\<lparr>llsc_stores := llsc_stores s + 1\<rparr> else s\<lparr>llsc_loads := llsc_loads s + 1\<rparr>
      else if pkt_is_atomic p then s\<lparr>atomic_ops := atomic_ops s + 1\<rparr> else s)"

definition accessTiming :: "gem5 \<Rightarrow> packet \<Rightarrow> nat \<Rightarrow> bridge \<Rightarrow> (bridge \<times> bool) result" where
  "accessTiming g p port s =
     (if pkt_is_invalidate p \<or> pkt_is_clean p
      then Inr (s\<lparr>cpu_calls := cpu_calls s @ [Reply port (make_response g p)]\<rparr>, True)
      else if \<not> ((pkt_is_read p \<or> pkt_is_write p) \<and> \<not> pkt_uncacheable p \<and> is_mem_addr g (pkt_getAddr p))
      then Inr (bypass g p port s, True)
      else if portBlocked s
      then Inr (s\<lparr>needs_retry := (needs_retry s)[port := True], port_blocks := port_blocks s + 1\<rparr>, False)
      else result_bind (submit p (if pkt_is_write p then WRITE_REQUEST else READ_REQUEST) port (count_mix p s)) (\<lambda>s'.
        Inr (s'\<lparr>num_pending_req := num_pending_req s' + 1\<rparr>, True)))"

text \<open>One retry per unblock; the requestor may send again at once.\<close>

fun send_all :: "gem5 \<Rightarrow> packet list \<Rightarrow> nat \<Rightarrow> bridge \<Rightarrow> bridge result" where
  "send_all g [] port s = Inr s"
| "send_all g (p # ps) port s = result_bind (accessTiming g p port s) (\<lambda>(s', ok). send_all g ps port s')"

definition retryBlockedPorts :: "gem5 \<Rightarrow> bridge \<Rightarrow> bridge result" where
  "retryBlockedPorts g s =
     (if portBlocked s then Inr s
      else case first_index id (needs_retry s) of
        None \<Rightarrow> Inr s
      | Some k \<Rightarrow>
          let s1 = s\<lparr>needs_retry := (needs_retry s)[k := False], cpu_calls := cpu_calls s @ [RetryReq k]\<rparr> in
          send_all g (on_retry g k (cpu_calls s1)) k s1)"

definition anyPortNeedsRetry :: "bridge list \<Rightarrow> bool" where
  "anyPortNeedsRetry bs \<longleftrightarrow> (\<exists>b\<in>set bs. \<exists>r\<in>set (needs_retry b). r)"

section \<open>Data operations\<close>

definition overlaps :: "packet \<Rightarrow> packet \<Rightarrow> bool" where
  "overlaps p q \<longleftrightarrow> pkt_getAddr q < pkt_getAddr p + ucast (pkt_size p) \<and> pkt_getAddr p < pkt_getAddr q + ucast (pkt_size q)"

definition older_write :: "pending_txn \<Rightarrow> pending_txn \<Rightarrow> bool" where
  "older_write t o' \<longleftrightarrow> txn_seq o' < txn_seq t \<and> \<not> data_done o' \<and> pkt_is_write (txn_pkt o') \<and> overlaps (txn_pkt t) (txn_pkt o')"

definition blockedByOlderWrite :: "pending_txn \<Rightarrow> bridge \<Rightarrow> bool" where
  "blockedByOlderWrite t s \<longleftrightarrow> (\<exists>x\<in>set (pending_requests s). older_write t (snd x))"

text \<open>A port number beyond the ports and a request that is not pending are undefined behaviour in \<open>respond\<close>.\<close>

definition respond :: "gem5 \<Rightarrow> u64 \<Rightarrow> bridge \<Rightarrow> bridge result" where
  "respond g i s =
     (case map_of (pending_requests s) i of
        None \<Rightarrow> Inl (Undefined ''Octopus::respond: end iterator'')
      | Some t \<Rightarrow>
          if \<not> pkt_is_response (txn_pkt t) then Inl (Exit ''assert isResponse'')
          else if length (needs_retry s) \<le> txn_port t then Inl (Undefined ''Octopus: cpuPorts out of range'')
          else retryBlockedPorts g
            (s\<lparr>pending_requests := AList.delete i (pending_requests s), num_pending_req := num_pending_req s - 1,
               responses := responses s + 1,
               latency_cycles := latency_cycles s + unat ((cur_tick s - issue_tick t) div clock_period s),
               cpu_calls := cpu_calls s @ [Answer i (txn_port t) (txn_pkt t)]\<rparr>))"

definition held_back :: "bridge \<Rightarrow> u64 list" where
  "held_back s = map snd (sort (map (\<lambda>(i, t). (txn_seq t, i)) (filter (\<lambda>(i, t). committed t \<and> \<not> data_done t) (pending_requests s))))"

text \<open>\<open>performData\<close> and \<open>releaseHeldBack\<close> call each other; the fuel bounds the depth.\<close>

fun performData :: "nat \<Rightarrow> gem5 \<Rightarrow> u64 \<Rightarrow> bridge \<Rightarrow> bridge fuelled"
  and release_loop :: "nat \<Rightarrow> gem5 \<Rightarrow> u64 list \<Rightarrow> bridge \<Rightarrow> bridge fuelled" where
  "performData 0 g i s = None"
| "performData (Suc n) g i s =
     (case map_of (pending_requests s) i of
        None \<Rightarrow> Some (Inl (Throw ''out_of_range''))
      | Some t \<Rightarrow>
          let p = memory_access g (txn_pkt t);
              s1 = s\<lparr>memory_calls := memory_calls s @ [Access (txn_seq t) (txn_pkt t)],
                     pending_requests := AList.update i (t\<lparr>txn_pkt := p, data_done := True\<rparr>) (pending_requests s)\<rparr> in
          if \<not> pkt_is_response p then Some (Inl (Exit ''assert isResponse''))
          else fuel_bind (Some (if completion_arrived t then respond g i s1 else Inr s1)) (\<lambda>s2.
            if pkt_is_write (txn_pkt t) then release_loop n g (held_back s2) s2 else Some (Inr s2)))"
| "release_loop n g [] s = Some (Inr s)"
| "release_loop n g (i # is) s =
     (case map_of (pending_requests s) i of
        None \<Rightarrow> release_loop n g is s
      | Some t \<Rightarrow>
          if data_done t \<or> blockedByOlderWrite t s then release_loop n g is s
          else fuel_bind (performData n g i s) (release_loop n g is))"

definition releaseHeldBack :: "nat \<Rightarrow> gem5 \<Rightarrow> bridge \<Rightarrow> bridge fuelled" where
  "releaseHeldBack n g s = release_loop n g (held_back s) s"

section \<open>Callbacks\<close>

definition onCommit :: "nat \<Rightarrow> gem5 \<Rightarrow> u64 \<Rightarrow> u64 \<Rightarrow> bridge \<Rightarrow> bridge fuelled" where
  "onCommit n g i a s =
     (case map_of (pending_requests s) i of
        None \<Rightarrow> Some (Inl (Exit ''commit for unknown msg_id''))
      | Some t \<Rightarrow>
          if committed t then Some (Inl (Exit ''committed twice''))
          else if pkt_getAddr (txn_pkt t) \<noteq> a then Some (Inl (Exit ''committed with another address''))
          else
            let t' = t\<lparr>committed := True\<rparr>; s1 = s\<lparr>pending_requests := AList.update i t' (pending_requests s)\<rparr> in
            if blockedByOlderWrite t' s1 then Some (Inr (s1\<lparr>held_back_ops := held_back_ops s1 + 1\<rparr>))
            else performData n g i s1)"

definition cacheSimCallback :: "gem5 \<Rightarrow> u64 \<Rightarrow> bridge \<Rightarrow> bridge result" where
  "cacheSimCallback g i s =
     (case map_of (pending_requests s) i of
        None \<Rightarrow> Inl (Exit ''completion for unknown msg_id'')
      | Some t \<Rightarrow>
          if \<not> committed t then Inl (Exit ''completed without a commit'')
          else if \<not> data_done t
          then Inr (s\<lparr>pending_requests := AList.update i (t\<lparr>completion_arrived := True\<rparr>) (pending_requests s)\<rparr>)
          else respond g i s)"

definition deliverInvalidate :: "u64 \<Rightarrow> bridge \<Rightarrow> bridge" where
  "deliverInvalidate a s =
     (let ks = filter (\<lambda>k. port_snooping s ! k) [0..<length (port_snooping s)] in
      s\<lparr>cpu_calls := cpu_calls s @ map (\<lambda>k. SnoopInvalidate k a) ks, snoops_sent := snoops_sent s + of_nat (length ks)\<rparr>)"

definition onInvalidate :: "u64 \<Rightarrow> bridge \<Rightarrow> bridge" where
  "onInvalidate a s = deliverInvalidate (a AND NOT (ucast (block_size s) - 1)) s"

text \<open>
  A functional access is answered by a pending write if one satisfies it, else by memory. \<open>order\<close> is the order in
  which the unordered map happens to be walked, \<open>satisfies\<close> is \<open>trySatisfyFunctional\<close>.
\<close>

definition handleFunctional ::
  "(packet \<Rightarrow> packet \<Rightarrow> bool) \<Rightarrow> u64 list \<Rightarrow> packet \<Rightarrow> bridge \<Rightarrow> bridge \<times> packet option" where
  "handleFunctional satisfies order p s =
     (case find (\<lambda>i. case map_of (pending_requests s) i of
          None \<Rightarrow> False | Some t \<Rightarrow> \<not> committed t \<and> pkt_is_write (txn_pkt t) \<and> satisfies p (txn_pkt t)) order of
        Some i \<Rightarrow> (s, map_option txn_pkt (map_of (pending_requests s) i))
      | None \<Rightarrow> (s\<lparr>memory_calls := memory_calls s @ [Functional p]\<rparr>, None))"

section \<open>The tick\<close>

text \<open>
  \<open>step\<close> is one step of the simulator with the callbacks it makes, \<open>now\<close> its clock. The simulator is driven up to one
  gem5 cycle ahead, in at most 1024 steps.
\<close>

function drive :: "('w \<Rightarrow> u64) \<Rightarrow> ('w \<times> bridge list \<Rightarrow> ('w \<times> bridge list) result) \<Rightarrow> u64 \<Rightarrow> nat \<Rightarrow> 'w \<times> bridge list
    \<Rightarrow> ('w \<times> bridge list) result" where
  "drive now step target guard w =
     (if now (fst w) < target
      then result_bind (step w) (\<lambda>w'. if 1024 < guard + 1 then Inl (Exit ''Octopus advanced too little in 1024 steps'')
             else drive now step target (guard + 1) w')
      else Inr w)"
  by auto
termination by (relation "measure (\<lambda>(now, step, target, guard, w). 1025 - guard)") auto

declare drive.simps [simp del]

fun retry_all :: "gem5 \<Rightarrow> bridge list \<Rightarrow> bridge list result" where
  "retry_all g [] = Inr []"
| "retry_all g (b # bs) =
     result_bind (retryBlockedPorts g b) (\<lambda>b'. result_bind (retry_all g bs) (\<lambda>bs'. Inr (b' # bs')))"

definition bridge_tick ::
  "gem5 \<Rightarrow> ('w \<Rightarrow> u64) \<Rightarrow> ('w \<times> bridge list \<Rightarrow> ('w \<times> bridge list) result) \<Rightarrow> u32 \<Rightarrow> u64 \<Rightarrow> 'w \<times> bridge list
   \<Rightarrow> ('w \<times> bridge list) result" where
  "bridge_tick g now step cycle_ns pending w =
     (if pending \<noteq> 0 \<or> anyPortNeedsRetry (snd w)
      then result_bind (drive now step (now (fst w) + ucast cycle_ns) 0 w) (\<lambda>(sim, bs).
        result_bind (retry_all g bs) (\<lambda>bs'. Inr (sim, bs')))
      else Inr w)"

end
