(* ===== verification/BridgeRuns.thy ===== *)
theory BridgeRuns
  imports Bridge ControllerFrames
begin

text \<open>
  Runs of the bridge: whatever packets the core sends and in whatever order the simulator commits and completes the
  requests, a core sees its own older writes, every request has one data operation and at most one answer, and an
  operation waits only behind a write it must not overtake.
\<close>

section \<open>Runs\<close>

text \<open>
  Between two calls of the bridge the rest of the system may move on: the external core and the controller change
  (numbers are only given out upwards, the queue keeps its bound), other bridges count requests, time passes.
\<close>

inductive bridge_run :: "gem5 \<Rightarrow> bridge \<Rightarrow> bool" for g where
  start: "0 \<le> ext_next_id e \<Longrightarrow> ext_next_id e < 2 ^ 31 \<Longrightarrow> bridge_run g (new_bridge e cache snooping bsize period pending)"
| request: "bridge_run g s \<Longrightarrow> accessTiming g p port s = Inr (s', ok) \<Longrightarrow> bridge_run g s'"
| commit: "bridge_run g s \<Longrightarrow> onCommit n g i a s = Some (Inr s') \<Longrightarrow> bridge_run g s'"
| complete: "bridge_run g s \<Longrightarrow> cacheSimCallback g i s = Inr s' \<Longrightarrow> bridge_run g s'"
| invalidate: "bridge_run g s \<Longrightarrow> bridge_run g (onInvalidate a s)"
| functional: "bridge_run g s \<Longrightarrow> bridge_run g (fst (handleFunctional satisfies order p s))"
| retry: "bridge_run g s \<Longrightarrow> retryBlockedPorts g s = Inr s' \<Longrightarrow> bridge_run g s'"
| other: "bridge_run g s \<Longrightarrow> ext_next_id (ext_cpu s) \<le> ext_next_id e \<Longrightarrow> ext_next_id e < 2 ^ 31 \<Longrightarrow>
    outstandingLimit c = outstandingLimit (ext_cache s) \<Longrightarrow>
    bridge_run g (s\<lparr>ext_cpu := e, ext_cache := c, num_pending_req := k, cur_tick := t\<rparr>)"

fun access_of :: "memory_call \<Rightarrow> (u64 \<times> packet) list" where
  "access_of (Access q p) = [(q, p)]"
| "access_of _ = []"

fun answer_of :: "cpu_call \<Rightarrow> u64 list" where
  "answer_of (Answer i port p) = [i]"
| "answer_of _ = []"

text \<open>The data operations and the answers so far, in order.\<close>

definition accesses :: "bridge \<Rightarrow> (u64 \<times> packet) list" where
  "accesses s = concat (map access_of (memory_calls s))"

definition answered :: "bridge \<Rightarrow> u64 list" where
  "answered s = concat (map answer_of (cpu_calls s))"

definition undone :: "bridge \<Rightarrow> (u64 \<times> pending_txn) list" where
  "undone s = filter (\<lambda>x. \<not> data_done (snd x)) (pending_requests s)"

section \<open>The pending table\<close>

lemma update_as_map:
  "map_of al i = Some t \<Longrightarrow> distinct (map fst al) \<Longrightarrow>
   AList.update i v al = map (\<lambda>x. if fst x = i then (i, v) else x) al"
proof (induction al)
  case (Cons x al)
  show ?case
  proof (cases "fst x = i")
    case True
    then have "i \<notin> fst ` set al" using Cons.prems(2) by auto
    then have "map (\<lambda>x. if fst x = i then (i, v) else x) al = al" by (intro map_idI) force
    then show ?thesis using True by (cases x) simp
  next
    case False
    then show ?thesis using Cons by (cases x) simp
  qed
qed simp

lemma filter_update_length:
  assumes "map_of al i = Some t" "distinct (map fst al)" "Q t" "\<not> Q v"
  shows "Suc (length (filter (\<lambda>x. Q (snd x)) (AList.update i v al))) = length (filter (\<lambda>x. Q (snd x)) al)"
  using assms
proof (induction al)
  case (Cons x al)
  then show ?case by (cases x) (auto split: if_splits)
qed simp

lemma delete_length: "map_of al i = Some t \<Longrightarrow> distinct (map fst al) \<Longrightarrow> Suc (length (AList.delete i al)) = length al"
  unfolding AList.delete_eq
proof (induction al)
  case (Cons x al)
  show ?case
  proof (cases "fst x = i")
    case True
    then have "i \<notin> fst ` set al" using Cons.prems(2) by auto
    then have "filter (\<lambda>(k, u). i \<noteq> k) al = al" by (intro filter_True) force
    then show ?thesis using True by (cases x) simp
  next
    case False
    then show ?thesis using Cons by (cases x) simp
  qed
qed simp

lemma entry_unique:
  assumes "map_of al i = Some t" "distinct (map fst al)" "x \<in> set al" "fst x = i"
  shows "x = (i, t)"
proof -
  have "map_of al (fst x) = Some (snd x)" using assms(2,3) by (intro map_of_is_SomeI) simp_all
  then show ?thesis using assms(1,4) by (cases x) simp
qed

lemma card_words_below: "card {q :: u64. q < w} = unat w"
proof -
  have lt: "unat w < 18446744073709551616" using unsigned_less [of w, where ?'a = nat] by simp
  have "{q :: u64. q < w} = of_nat ` {..<unat w}"
  proof (intro set_eqI iffI)
    fix q :: u64 assume "q \<in> {q. q < w}"
    then have "unat q \<in> {..<unat w}" by (simp add: word_less_nat_alt)
    then show "q \<in> of_nat ` {..<unat w}" by (rule image_eqI [rotated]) simp
  next
    fix q :: u64 assume "q \<in> of_nat ` {..<unat w}"
    then obtain k where k: "q = of_nat k" "k < unat w" by auto
    then show "q \<in> {q. q < w}" using lt by (simp add: word_less_nat_alt unat_of_nat)
  qed
  moreover have "inj_on (of_nat :: nat \<Rightarrow> u64) {..<unat w}"
  proof (rule inj_onI)
    fix a b assume ab: "a \<in> {..<unat w}" "b \<in> {..<unat w}" "(of_nat a :: u64) = of_nat b"
    then have "unat (of_nat a :: u64) = unat (of_nat b :: u64)" by simp
    then show "a = b" using ab(1,2) lt by (simp add: unat_of_nat)
  qed
  ultimately show ?thesis by (simp add: card_image)
qed

text \<open>The part of the invariant that every step keeps, also between a commit and its data operation.\<close>

definition old_id :: "bridge \<Rightarrow> u64 \<Rightarrow> bool" where
  "old_id s i \<longleftrightarrow> (\<exists>k. 0 \<le> k \<and> k < ext_next_id (ext_cpu s) \<and> i = word_of_int k)"

definition ids_ok :: "bridge \<Rightarrow> bool" where
  "ids_ok s \<longleftrightarrow> int (length (answered s) + length (pending_requests s)) \<le> ext_next_id (ext_cpu s) \<and> ext_next_id (ext_cpu s) < 2 ^ 31 \<and>
     distinct (map fst (pending_requests s) @ answered s) \<and>
     (\<forall>i\<in>set (map fst (pending_requests s) @ answered s). old_id s i) \<and>
     responses s = length (answered s) \<and> unat (next_seq s) = length (answered s) + length (pending_requests s)"

definition ops_ok :: "bridge \<Rightarrow> bool" where
  "ops_ok s \<longleftrightarrow> distinct (map (txn_seq \<circ> snd) (pending_requests s)) \<and>
     (\<forall>x\<in>set (pending_requests s). txn_seq (snd x) < next_seq s \<and> (data_done (snd x) \<longrightarrow> committed (snd x))) \<and>
     distinct (map fst (accesses s) @ map (txn_seq \<circ> snd) (undone s)) \<and>
     (\<forall>x\<in>set (accesses s). fst x < next_seq s) \<and> unat (next_seq s) = length (accesses s) + length (undone s)"

definition in_order :: "bridge \<Rightarrow> bool" where
  "in_order s \<longleftrightarrow>
     sorted_wrt (\<lambda>x y. pkt_is_write (snd y) \<and> overlaps (snd x) (snd y) \<longrightarrow> fst x < fst y) (accesses s) \<and>
     (\<forall>x\<in>set (accesses s). \<forall>y\<in>set (undone s). pkt_is_write (txn_pkt (snd y)) \<and> overlaps (snd x) (txn_pkt (snd y)) \<longrightarrow>
        fst x < txn_seq (snd y))"

definition credit_ok :: "bridge \<Rightarrow> bool" where
  "credit_ok s \<longleftrightarrow> (0 \<le> outstandingLimit (ext_cache s) \<longrightarrow> int (length (pending_requests s)) \<le> outstandingLimit (ext_cache s))"

definition core_inv :: "bridge \<Rightarrow> bool" where
  "core_inv s \<longleftrightarrow> ids_ok s \<and> ops_ok s \<and> in_order s \<and> credit_ok s"

text \<open>Outside \<open>X\<close> only operations that must wait are held back.\<close>

definition held_ok :: "u64 set \<Rightarrow> bridge \<Rightarrow> bool" where
  "held_ok X s \<longleftrightarrow> (\<forall>x\<in>set (pending_requests s). fst x \<notin> X \<and> committed (snd x) \<and> \<not> data_done (snd x) \<longrightarrow> blockedByOlderWrite (snd x) s)"

text \<open>An old number stands for a committed request as long as it is pending.\<close>

definition settled :: "bridge \<Rightarrow> u64 \<Rightarrow> bool" where
  "settled s i \<longleftrightarrow> old_id s i \<and> (\<forall>t. map_of (pending_requests s) i = Some t \<longrightarrow> committed t)"

section \<open>Steps\<close>

text \<open>What a step that only accepts requests does.\<close>

definition quiet :: "bridge \<Rightarrow> bridge \<Rightarrow> bool" where
  "quiet s s' \<longleftrightarrow> pending_requests s' = pending_requests s \<and> next_seq s' = next_seq s \<and> accesses s' = accesses s \<and>
     answered s' = answered s \<and> responses s' = responses s \<and> ext_next_id (ext_cpu s) \<le> ext_next_id (ext_cpu s') \<and> ext_next_id (ext_cpu s') < 2 ^ 31 \<and>
     outstandingLimit (ext_cache s') = outstandingLimit (ext_cache s)"

lemma old_id_mono: "old_id s i \<Longrightarrow> ext_next_id (ext_cpu s) \<le> ext_next_id (ext_cpu s') \<Longrightarrow> old_id s' i"
  by (force simp: old_id_def)

lemma quiet_keeps:
  assumes "quiet s s'"
  shows "core_inv s \<Longrightarrow> core_inv s'" "held_ok X s' = held_ok X s" "settled s i \<Longrightarrow> settled s' i"
    "blockedByOlderWrite t s' = blockedByOlderWrite t s"
proof -
  have mono: "old_id s i \<Longrightarrow> old_id s' i" for i
    using old_id_mono assms by (simp add: quiet_def)
  show "core_inv s'" if "core_inv s"
    using that assms mono
    by (auto simp: core_inv_def ids_ok_def ops_ok_def in_order_def credit_ok_def quiet_def undone_def)
  show "blockedByOlderWrite t s' = blockedByOlderWrite t s" for t
    using assms by (simp add: blockedByOlderWrite_def quiet_def)
  then show "held_ok X s' = held_ok X s" using assms by (simp add: held_ok_def quiet_def)
  show "settled s i \<Longrightarrow> settled s' i" using assms mono by (simp add: settled_def quiet_def)
qed

text \<open>A request is accepted.\<close>

definition accepts :: "bridge \<Rightarrow> packet \<Rightarrow> bridge \<Rightarrow> bool" where
  "accepts s p s' \<longleftrightarrow> (\<exists>t. pending_requests s' = pending_requests s @ [(word_of_int (ext_next_id (ext_cpu s)), t)] \<and>
     txn_pkt t = p \<and> \<not> committed t \<and> \<not> data_done t \<and> \<not> completion_arrived t \<and> txn_seq t = next_seq s) \<and>
     next_seq s' = next_seq s + 1 \<and> accesses s' = accesses s \<and> answered s' = answered s \<and> responses s' = responses s \<and>
     ext_next_id (ext_cpu s) < 2 ^ 31 - 1 \<and> ext_next_id (ext_cpu s') = ext_next_id (ext_cpu s) + 1 \<and>
     ext_cache s' = ext_cache s \<and> \<not> portBlocked s"

lemma ext_addRequest_next:
  assumes "ext_addRequest a ty None n e = Inr (e', i)" and "ty = READ_REQUEST \<or> ty = WRITE_REQUEST"
  shows "i = word_of_int (ext_next_id e)" "ext_next_id e' = ext_next_id e + 1" "ext_next_id e \<noteq> 2 ^ 31 - 1"
  using assms by (auto simp: ext_addRequest_def Let_def result_bind_Inr_iff split: if_splits)

lemma no_access [simp]:
  "accesses (s\<lparr>cpu_calls := c\<rparr>) = accesses s" "answered (s\<lparr>memory_calls := m\<rparr>) = answered s"
  by (simp_all add: accesses_def answered_def)

lemma mix_simps [simp]:
  "pending_requests (count_mix p s) = pending_requests s" "next_seq (count_mix p s) = next_seq s"
  "ext_cpu (count_mix p s) = ext_cpu s" "ext_cache (count_mix p s) = ext_cache s" "memory_calls (count_mix p s) = memory_calls s"
  "cpu_calls (count_mix p s) = cpu_calls s" "responses (count_mix p s) = responses s" "cur_tick (count_mix p s) = cur_tick s"
  by (simp_all add: count_mix_def)

lemma access_cases:
  assumes "accessTiming g p port s = Inr (s', ok)" and "ext_next_id (ext_cpu s) < 2 ^ 31"
  shows "quiet s s' \<or> accepts s p s'"
proof -
  consider (reply) "pkt_is_invalidate p \<or> pkt_is_clean p"
    | (bypass) "\<not> (pkt_is_invalidate p \<or> pkt_is_clean p)"
        "\<not> ((pkt_is_read p \<or> pkt_is_write p) \<and> \<not> pkt_uncacheable p \<and> is_mem_addr g (pkt_getAddr p))"
    | (go) "\<not> (pkt_is_invalidate p \<or> pkt_is_clean p)"
        "(pkt_is_read p \<or> pkt_is_write p) \<and> \<not> pkt_uncacheable p \<and> is_mem_addr g (pkt_getAddr p)" by blast
  then show ?thesis
  proof cases
    case reply
    then show ?thesis using assms by (auto simp: accessTiming_def quiet_def answered_def)
  next
    case bypass
    then show ?thesis
      using assms by (auto simp: accessTiming_def bypass_def quiet_def answered_def accesses_def Let_def)
  next
    case go
    show ?thesis
    proof (cases "portBlocked s")
      case True
      then show ?thesis using assms go by (auto simp: accessTiming_def quiet_def accesses_def answered_def)
    next
      case False
      let ?ty = "if pkt_is_write p then WRITE_REQUEST else READ_REQUEST"
      obtain s1 where s1: "submit p ?ty port (count_mix p s) = Inr s1" "s' = s1\<lparr>num_pending_req := num_pending_req s1 + 1\<rparr>"
        using assms(1) go False by (auto simp: accessTiming_def result_bind_Inr_iff)
      then obtain e i where e: "ext_addRequest (pkt_getAddr p) ?ty None (sint (pkt_size p)) (ext_cpu s) = Inr (e, i)"
        by (auto simp: submit_def result_bind_Inr_iff)
      have ids: "i = word_of_int (ext_next_id (ext_cpu s))" "ext_next_id e = ext_next_id (ext_cpu s) + 1"
        "ext_next_id (ext_cpu s) \<noteq> 2 ^ 31 - 1" using ext_addRequest_next [OF e] by simp_all
      have "ext_next_id (ext_cpu s) < 2 ^ 31 - 1" using ids assms(2) by simp
      then have "accepts s p s'"
        using s1 e ids False
        by (auto simp: accepts_def submit_def Let_def accesses_def answered_def split: if_splits)
      then show ?thesis ..
    qed
  qed
qed

lemma word_of_int_inj_small:
  assumes "0 \<le> a" "a < 2 ^ 31" "0 \<le> b" "b < 2 ^ 31" "(word_of_int a :: u64) = word_of_int b"
  shows "a = b"
proof -
  have small: "uint (word_of_int x :: u64) = x" if "0 \<le> x" "x < 2 ^ 31" for x
  proof -
    have "x < 2 ^ LENGTH(64)" using that(2) by simp
    then show ?thesis unfolding uint_word_of_int_eq by (rule take_bit_int_eq_self [OF that(1)])
  qed
  have "uint (word_of_int a :: u64) = a" "uint (word_of_int b :: u64) = b" by (rule small; fact assms)+
  then show ?thesis using assms(5) by metis
qed

lemma new_id_fresh:
  assumes "0 \<le> ext_next_id (ext_cpu s)" "ext_next_id (ext_cpu s) < 2 ^ 31"
  shows "\<not> old_id s (word_of_int (ext_next_id (ext_cpu s)))"
proof
  assume "old_id s (word_of_int (ext_next_id (ext_cpu s)))"
  then obtain k where k: "0 \<le> k" "k < ext_next_id (ext_cpu s)" "(word_of_int (ext_next_id (ext_cpu s)) :: u64) = word_of_int k"
    by (auto simp: old_id_def)
  then show False using word_of_int_inj_small [OF assms k(1) _ k(3)] assms by simp
qed

lemma unblocked_room: "\<not> portBlocked s \<Longrightarrow> 0 \<le> outstandingLimit (ext_cache s) \<Longrightarrow> int (length (pending_requests s)) < outstandingLimit (ext_cache s)"
  by (auto simp: portBlocked_def ext_isBlocked_def outstandingLimit_def demandAdmissionBlocked_def Base_demandAdmissionBlocked_def
      split: option.splits)

definition waiting :: "bridge \<Rightarrow> nat" where
  "waiting s = length (filter (\<lambda>x. committed (snd x) \<and> \<not> data_done (snd x)) (pending_requests s))"

text \<open>What a step keeps that begins and ends no data operation.\<close>

definition keeps_all :: "bridge \<Rightarrow> bridge \<Rightarrow> bool" where
  "keeps_all s s' \<longleftrightarrow> (core_inv s \<longrightarrow> core_inv s' \<and> (\<forall>X. held_ok X s \<longrightarrow> held_ok X s') \<and> (\<forall>i. settled s i \<longrightarrow> settled s' i) \<and>
     waiting s' = waiting s)"

lemma keeps_refl [simp]: "keeps_all s s"
  by (simp add: keeps_all_def)

lemma keeps_trans: "keeps_all s s1 \<Longrightarrow> keeps_all s1 s2 \<Longrightarrow> keeps_all s s2"
  by (simp add: keeps_all_def)

lemma quiet_keeps_all: "quiet s s' \<Longrightarrow> keeps_all s s'"
  using quiet_keeps [of s s'] by (simp add: keeps_all_def) (simp add: waiting_def quiet_def)

lemma older_write_seq: "older_write t u \<Longrightarrow> txn_seq u < txn_seq t"
  by (simp add: older_write_def)

lemma accepts_keeps_all:
  assumes "accepts s p s'"
  shows "keeps_all s s'"
  unfolding keeps_all_def
proof (intro impI conjI allI)
  assume inv: "core_inv s"
  let ?i = "word_of_int (ext_next_id (ext_cpu s)) :: u64"
  obtain t where t: "pending_requests s' = pending_requests s @ [(?i, t)]" "\<not> committed t" "\<not> data_done t" "txn_seq t = next_seq s"
    and s': "next_seq s' = next_seq s + 1" "accesses s' = accesses s" "answered s' = answered s" "responses s' = responses s"
      "ext_next_id (ext_cpu s) < 2 ^ 31 - 1" "ext_next_id (ext_cpu s') = ext_next_id (ext_cpu s) + 1" "ext_cache s' = ext_cache s"
      "\<not> portBlocked s"
    using assms by (auto simp: accepts_def)
  have ids: "ids_ok s" and ops: "ops_ok s" and order: "in_order s" and credit: "credit_ok s" using inv by (simp_all add: core_inv_def)
  have next0: "0 \<le> ext_next_id (ext_cpu s)" using ids by (simp add: ids_ok_def)
  have mono: "old_id s i \<Longrightarrow> old_id s' i" for i using old_id_mono s'(6) by simp
  have new: "old_id s' ?i" using next0 s'(6) by (force simp: old_id_def)
  have fresh: "\<not> old_id s ?i" using new_id_fresh [OF next0] s'(5) by simp
  have small: "unat (next_seq s) < 2 ^ 31" using ids by (simp add: ids_ok_def)
  have succ: "unat (next_seq s + 1) = Suc (unat (next_seq s))"
    using small by (subst unat_word_ariths(1)) simp
  then have less: "x < next_seq s \<Longrightarrow> x < next_seq s + 1" "next_seq s < next_seq s + 1" for x :: u64
    by (simp_all add: word_less_nat_alt)
  have undone: "undone s' = undone s @ [(?i, t)]" using t by (simp add: undone_def)
  have "?i \<notin> set (map fst (pending_requests s) @ answered s)" using ids fresh by (auto simp: ids_ok_def)
  moreover have "\<forall>i\<in>set (map fst (pending_requests s) @ answered s). old_id s' i" using ids mono by (simp add: ids_ok_def)
  ultimately have "ids_ok s'"
    using ids new s'(5) by (simp add: ids_ok_def t(1) s'(1,3,4,6) succ)
  moreover have "ops_ok s'"
  proof -
    have "next_seq s \<notin> txn_seq ` snd ` set (pending_requests s)" "next_seq s \<notin> fst ` set (accesses s)"
      "\<forall>x\<in>set (pending_requests s). txn_seq (snd x) < next_seq s + 1" "\<forall>x\<in>set (accesses s). fst x < next_seq s + 1"
      using ops less(1) by (auto simp: ops_ok_def)
    moreover have "\<forall>x\<in>set (undone s). txn_seq (snd x) \<noteq> next_seq s" using ops by (auto simp: undone_def ops_ok_def)
    ultimately show ?thesis
      using ops less(2) t(2-4) by (auto simp: ops_ok_def t(1) s'(1,2) succ undone)
  qed
  moreover have "in_order s'"
    using order ops t(4) by (auto simp: in_order_def ops_ok_def s'(2) undone)
  moreover have "credit_ok s'"
    using credit unblocked_room [OF s'(8)] t s'(7) by (auto simp: credit_ok_def)
  ultimately show "core_inv s'" by (simp add: core_inv_def)
  have seq: "x \<in> set (pending_requests s) \<Longrightarrow> txn_seq (snd x) < next_seq s" for x using ops by (simp add: ops_ok_def)
  have "blockedByOlderWrite u s \<Longrightarrow> blockedByOlderWrite u s'" for u using t(1) by (auto simp: blockedByOlderWrite_def)
  then show "held_ok X s'" if "held_ok X s" for X using that t by (auto simp: held_ok_def)
  show "settled s' i" if "settled s i" for i
  proof -
    have "i \<noteq> ?i" using that fresh by (auto simp: settled_def)
    then show ?thesis using that t(1) mono by (auto simp: settled_def map_add_Some_iff)
  qed
  show "waiting s' = waiting s" using t by (simp add: waiting_def)
qed

lemma access_keeps_all:
  assumes "accessTiming g p port s = Inr (s', ok)"
  shows "keeps_all s s'"
proof (cases "ext_next_id (ext_cpu s) < 2 ^ 31")
  case True
  then show ?thesis using access_cases [OF assms] quiet_keeps_all accepts_keeps_all by blast
next
  case False
  then show ?thesis by (simp add: keeps_all_def core_inv_def ids_ok_def)
qed

lemma send_all_keeps: "send_all g ps port s = Inr s' \<Longrightarrow> keeps_all s s'"
proof (induction ps arbitrary: s)
  case Nil
  then show ?case by simp
next
  case (Cons p ps)
  then obtain s1 ok where "accessTiming g p port s = Inr (s1, ok)" "send_all g ps port s1 = Inr s'"
    by (auto simp: result_bind_Inr_iff)
  then show ?case using Cons.IH keeps_trans access_keeps_all by blast
qed

lemma quiet_retry: "quiet s (s\<lparr>needs_retry := r, cpu_calls := cpu_calls s @ [RetryReq k]\<rparr>) \<longleftrightarrow> ext_next_id (ext_cpu s) < 2 ^ 31"
  by (simp add: quiet_def answered_def accesses_def)

lemma retry_keeps_all:
  assumes "retryBlockedPorts g s = Inr s'"
  shows "keeps_all s s'"
proof (cases "ext_next_id (ext_cpu s) < 2 ^ 31")
  case True
  show ?thesis
  proof (cases "portBlocked s \<or> first_index id (needs_retry s) = None")
    case True
    then show ?thesis using assms by (auto simp: retryBlockedPorts_def split: if_splits)
  next
    case False
    then obtain k where "first_index id (needs_retry s) = Some k" by blast
    with False assms have "send_all g (on_retry g k (cpu_calls s @ [RetryReq k])) k
        (s\<lparr>needs_retry := (needs_retry s)[k := False], cpu_calls := cpu_calls s @ [RetryReq k]\<rparr>) = Inr s'"
      by (simp add: retryBlockedPorts_def Let_def)
    from send_all_keeps [OF this] show ?thesis using keeps_trans quiet_keeps_all quiet_retry True by blast
  qed
next
  case False
  then show ?thesis by (simp add: keeps_all_def core_inv_def ids_ok_def)
qed

section \<open>Answers and data operations\<close>

lemma delete_entry:
  assumes inv: "core_inv s" and t: "map_of (pending_requests s) i = Some t" and "data_done t"
    and s': "pending_requests s' = AList.delete i (pending_requests s)" "next_seq s' = next_seq s" "accesses s' = accesses s"
      "answered s' = answered s @ [i]" "responses s' = responses s + 1" "ext_cpu s' = ext_cpu s" "ext_cache s' = ext_cache s"
  shows "core_inv s'" "held_ok X s \<Longrightarrow> held_ok X s'" "settled s j \<Longrightarrow> settled s' j" "waiting s' = waiting s"
proof -
  have ids: "ids_ok s" and ops: "ops_ok s" and order: "in_order s" and credit: "credit_ok s" using inv by (simp_all add: core_inv_def)
  have keys: "distinct (map fst (pending_requests s))" using ids by (simp add: ids_ok_def)
  have old: "old_id s' = old_id s" by (simp add: old_id_def fun_eq_iff s'(6))
  have mem: "(i, t) \<in> set (pending_requests s)" using t by (rule map_of_SomeD)
  have only: "x \<in> set (pending_requests s) \<Longrightarrow> fst x = i \<Longrightarrow> x = (i, t)" for x
    using entry_unique [OF t keys] by blast
  have len: "Suc (length (pending_requests s')) = length (pending_requests s)" using delete_length [OF t keys] by (simp add: s'(1))
  have del: "pending_requests s' = filter (\<lambda>x. fst x \<noteq> i) (pending_requests s)"
    unfolding s'(1) AList.delete_eq by (rule filter_cong) auto
  have same: "filter P (filter (\<lambda>x. fst x \<noteq> i) (pending_requests s)) = filter P (pending_requests s)" if "\<not> P (i, t)" for P
    using only that by (auto intro!: filter_cong)
  have undone: "undone s' = undone s" using same [of "\<lambda>x. \<not> data_done (snd x)"] assms(3) by (simp add: undone_def del)
  have "ids_ok s'"
  proof -
    have "i \<in> set (map fst (pending_requests s))" using mem by force
    then have i: "old_id s i" "i \<notin> set (answered s)" using ids by (auto simp: ids_ok_def)
    have set: "set (map fst (pending_requests s')) = set (map fst (pending_requests s)) - {i}" by (auto simp: del)
    have "distinct (map fst (pending_requests s'))" using keys by (simp add: del distinct_map_filter)
    then have "distinct (map fst (pending_requests s') @ answered s')" using ids i(2) set by (auto simp: ids_ok_def s'(4))
    moreover have "\<forall>k\<in>set (map fst (pending_requests s') @ answered s'). old_id s' k"
      using ids i(1) set by (auto simp: ids_ok_def s'(4) old)
    ultimately show ?thesis using ids len by (simp add: ids_ok_def s'(2,4-6))
  qed
  moreover have "ops_ok s'" using ops by (auto simp: ops_ok_def undone s'(2,3) del distinct_map_filter)
  moreover have "in_order s'" using order by (simp add: in_order_def undone s'(3))
  moreover have "credit_ok s'" using credit len by (auto simp: credit_ok_def s'(7))
  ultimately show "core_inv s'" by (simp add: core_inv_def)
  have blocked: "blockedByOlderWrite u s' = blockedByOlderWrite u s" for u
  proof -
    have "fst x \<noteq> i" if "x \<in> set (pending_requests s)" "older_write u (snd x)" for x
      using only [OF that(1)] that(2) assms(3) by (cases x) (auto simp: older_write_def)
    then show ?thesis unfolding blockedByOlderWrite_def del set_filter by blast
  qed
  show "held_ok X s'" if "held_ok X s" using that blocked by (auto simp: held_ok_def del)
  show "settled s' j" if "settled s j" using that by (auto simp: settled_def old s'(1) delete_conv' split: if_splits)
  show "waiting s' = waiting s" using same [of "\<lambda>x. committed (snd x) \<and> \<not> data_done (snd x)"] assms(3) by (simp add: waiting_def del)
qed

lemma respond_keeps:
  assumes "respond g i s = Inr s'" and inv: "core_inv s" and t: "map_of (pending_requests s) i = Some t" "data_done t"
  shows "core_inv s'" "held_ok X s \<Longrightarrow> held_ok X s'" "settled s j \<Longrightarrow> settled s' j" "waiting s' = waiting s"
proof -
  let ?s = "s\<lparr>pending_requests := AList.delete i (pending_requests s), num_pending_req := num_pending_req s - 1,
               responses := responses s + 1,
               latency_cycles := latency_cycles s + unat ((cur_tick s - issue_tick t) div clock_period s),
               cpu_calls := cpu_calls s @ [Answer i (txn_port t) (txn_pkt t)]\<rparr>"
  have r: "retryBlockedPorts g ?s = Inr s'" using assms(1) t by (simp add: respond_def split: if_splits)
  have fields: "pending_requests ?s = AList.delete i (pending_requests s)" "next_seq ?s = next_seq s" "accesses ?s = accesses s"
      "answered ?s = answered s @ [i]" "responses ?s = responses s + 1" "ext_cpu ?s = ext_cpu s" "ext_cache ?s = ext_cache s"
    by (simp_all add: accesses_def answered_def)
  note d = delete_entry [OF inv t fields]
  have k: "core_inv s' \<and> (\<forall>X. held_ok X ?s \<longrightarrow> held_ok X s') \<and> (\<forall>i. settled ?s i \<longrightarrow> settled s' i) \<and> waiting s' = waiting ?s"
    by (rule mp [OF retry_keeps_all [OF r, unfolded keeps_all_def] d(1)])
  show "core_inv s'" using k by blast
  show "held_ok X s \<Longrightarrow> held_ok X s'" using k d(2) by blast
  show "settled s j \<Longrightarrow> settled s' j" using k d(3) by blast
  show "waiting s' = waiting s" using k d(4) by simp
qed

text \<open>The data operation of a request that need not wait.\<close>

lemma operate:
  assumes inv: "core_inv s" and t: "map_of (pending_requests s) i = Some t" "committed t" "\<not> data_done t" "\<not> blockedByOlderWrite t s"
    and v: "v = t\<lparr>txn_pkt := p, data_done := True\<rparr>"
    and s': "s' = s\<lparr>memory_calls := memory_calls s @ [Access (txn_seq t) (txn_pkt t)], pending_requests := AList.update i v (pending_requests s)\<rparr>"
  shows "core_inv s'" "\<not> pkt_is_write (txn_pkt t) \<Longrightarrow> held_ok (insert i X) s \<Longrightarrow> held_ok X s'"
    "settled s j \<Longrightarrow> settled s' j" "Suc (waiting s') = waiting s" "map_of (pending_requests s') i = Some v"
proof -
  have ids: "ids_ok s" and ops: "ops_ok s" and order: "in_order s" and credit: "credit_ok s" using inv by (simp_all add: core_inv_def)
  have keys: "distinct (map fst (pending_requests s))" using ids by (simp add: ids_ok_def)
  have mem: "(i, t) \<in> set (pending_requests s)" using t(1) by (rule map_of_SomeD)
  have only: "x \<in> set (pending_requests s) \<Longrightarrow> fst x = i \<Longrightarrow> x = (i, t)" for x
    using entry_unique [OF t(1) keys] by blast
  have upd: "pending_requests s' = map (\<lambda>x. if fst x = i then (i, v) else x) (pending_requests s)"
    using update_as_map [OF t(1) keys] by (simp add: s')
  have fields: "next_seq s' = next_seq s" "accesses s' = accesses s @ [(txn_seq t, txn_pkt t)]" "answered s' = answered s"
    "responses s' = responses s" "ext_cpu s' = ext_cpu s" "ext_cache s' = ext_cache s"
    by (simp_all add: s' accesses_def answered_def)
  have old: "old_id s' = old_id s" by (simp add: old_id_def fun_eq_iff fields)
  have map_s': "map_of (pending_requests s') = (map_of (pending_requests s))(i \<mapsto> v)" by (simp add: s' update_conv')
  have vt: "txn_seq v = txn_seq t" "committed v" "data_done v" using t(2) by (simp_all add: v)
  have seqs: "map (txn_seq \<circ> snd) (pending_requests s') = map (txn_seq \<circ> snd) (pending_requests s)"
    and fsts: "map fst (pending_requests s') = map fst (pending_requests s)"
    using only vt(1) by (auto simp: upd)
  have undone: "undone s' = filter (\<lambda>x. fst x \<noteq> i) (undone s)"
  proof -
    have "filter (\<lambda>x. \<not> data_done (snd x)) (map (\<lambda>x. if fst x = i then (i, v) else x) xs) =
        filter (\<lambda>x. fst x \<noteq> i) (filter (\<lambda>x. \<not> data_done (snd x)) xs)" for xs
      by (induction xs) (auto simp: vt(3))
    then show ?thesis by (simp add: undone_def upd)
  qed
  have in_undone: "(i, t) \<in> set (undone s)" using mem t(3) by (simp add: undone_def)
  have len: "Suc (length (undone s')) = length (undone s)"
    using filter_update_length [OF t(1) keys, of "\<lambda>u. \<not> data_done u" v] t(3) vt(3) by (simp add: undone_def s')
  have inj: "x = y" if "x \<in> set (pending_requests s)" "y \<in> set (pending_requests s)" "txn_seq (snd x) = txn_seq (snd y)" for x y
    using ops that by (auto simp: ops_ok_def distinct_map inj_on_def)
  have sub: "x \<in> set (undone s) \<Longrightarrow> x \<in> set (pending_requests s)" for x by (simp add: undone_def)
  have other: "txn_seq (snd y) \<noteq> txn_seq t" if "y \<in> set (undone s')" for y
    using that inj [OF _ mem, of y] sub by (auto simp: undone)
  have "ids_ok s'" using ids by (simp add: ids_ok_def fields old fsts) (simp add: upd)
  moreover have "ops_ok s'"
  proof -
    have "distinct (map fst (accesses s) @ map (txn_seq \<circ> snd) (undone s))" using ops by (simp add: ops_ok_def)
    then have "txn_seq t \<notin> fst ` set (accesses s)" "distinct (map fst (accesses s))" "distinct (map (txn_seq \<circ> snd) (undone s'))"
      "fst ` set (accesses s) \<inter> (txn_seq \<circ> snd) ` set (undone s') = {}"
      using in_undone by (force simp: undone distinct_map_filter)+
    then have "distinct (map fst (accesses s') @ map (txn_seq \<circ> snd) (undone s'))"
      using other by (fastforce simp: fields)
    moreover have "\<forall>x\<in>set (pending_requests s'). txn_seq (snd x) < next_seq s' \<and> (data_done (snd x) \<longrightarrow> committed (snd x))"
      using ops vt mem by (auto simp: ops_ok_def upd fields)
    moreover have "\<forall>x\<in>set (accesses s'). fst x < next_seq s'" using ops mem by (auto simp: ops_ok_def fields)
    ultimately show ?thesis using ops len by (simp add: ops_ok_def seqs fields)
  qed
  moreover have "in_order s'"
  proof -
    have "txn_seq t < txn_seq (snd y)"
      if y: "y \<in> set (undone s')" "pkt_is_write (txn_pkt (snd y))" "overlaps (txn_pkt t) (txn_pkt (snd y))" for y
    proof -
      have "y \<in> set (pending_requests s)" "\<not> data_done (snd y)" using y(1) unfolding undone by (auto simp: undone_def)
      then have "\<not> txn_seq (snd y) < txn_seq t" using t(4) y by (auto simp: blockedByOlderWrite_def older_write_def)
      then show ?thesis using other [OF y(1)] by simp
    qed
    moreover have old_order: "fst x < txn_seq (snd y)"
      if "x \<in> set (accesses s)" "y \<in> set (undone s)" "pkt_is_write (txn_pkt (snd y))" "overlaps (snd x) (txn_pkt (snd y))" for x y
      using order that by (simp add: in_order_def)
    moreover have "fst x < txn_seq t"
      if "x \<in> set (accesses s)" "pkt_is_write (txn_pkt t)" "overlaps (snd x) (txn_pkt t)" for x
      using old_order [OF that(1) in_undone] that by simp
    moreover have "y \<in> set (undone s') \<Longrightarrow> y \<in> set (undone s)" for y by (simp add: undone)
    moreover have "sorted_wrt (\<lambda>x y. pkt_is_write (snd y) \<and> overlaps (snd x) (snd y) \<longrightarrow> fst x < fst y) (accesses s)"
      using order by (simp add: in_order_def)
    ultimately show ?thesis unfolding in_order_def fields(2) sorted_wrt_append by simp
  qed
  moreover have "credit_ok s'" using credit by (simp add: credit_ok_def fields upd)
  ultimately show "core_inv s'" by (simp add: core_inv_def)
  show "held_ok X s'" if "\<not> pkt_is_write (txn_pkt t)" "held_ok (insert i X) s"
  proof -
    have "blockedByOlderWrite u s'" if "blockedByOlderWrite u s" for u
      using that \<open>\<not> pkt_is_write (txn_pkt t)\<close> only by (force simp: blockedByOlderWrite_def older_write_def upd)
    then show ?thesis using that(2) vt by (auto simp: held_ok_def upd)
  qed
  show "settled s' j" if "settled s j" using that vt by (auto simp: settled_def old map_s' split: if_splits)
  show "Suc (waiting s') = waiting s"
    using filter_update_length [OF t(1) keys, of "\<lambda>u. committed u \<and> \<not> data_done u" v] t(2,3) vt(3) by (simp add: waiting_def s')
  show "map_of (pending_requests s') i = Some v" by (simp add: s' update_conv')
qed

lemma performData_SucE:
  assumes "performData (Suc n) g i s = Some (Inr s')" and t: "map_of (pending_requests s) i = Some t"
  obtains s1 s2 where "s1 = s\<lparr>memory_calls := memory_calls s @ [Access (txn_seq t) (txn_pkt t)],
      pending_requests := AList.update i (t\<lparr>txn_pkt := memory_access g (txn_pkt t), data_done := True\<rparr>) (pending_requests s)\<rparr>"
    "(if completion_arrived t then respond g i s1 else Inr s1) = Inr s2"
    "if pkt_is_write (txn_pkt t) then release_loop n g (held_back s2) s2 = Some (Inr s') else s' = s2"
    "pkt_is_response (memory_access g (txn_pkt t))"
proof -
  let ?s = "s\<lparr>memory_calls := memory_calls s @ [Access (txn_seq t) (txn_pkt t)],
      pending_requests := AList.update i (t\<lparr>txn_pkt := memory_access g (txn_pkt t), data_done := True\<rparr>) (pending_requests s)\<rparr>"
  let ?r = "if completion_arrived t then respond g i ?s else Inr ?s"
  have resp: "pkt_is_response (memory_access g (txn_pkt t))" using assms by (simp add: Let_def split: if_splits)
  then have run: "fuel_bind (Some ?r) (\<lambda>s2. if pkt_is_write (txn_pkt t) then release_loop n g (held_back s2) s2 else Some (Inr s2)) = Some (Inr s')"
    using assms by (simp only: performData.simps Let_def option.case not_not if_True if_False refl simp_thms)
  then obtain s2 where s2: "?r = Inr s2" by (cases ?r) (simp_all add: fuel_bind_def)
  show thesis by (rule that [OF refl s2 _ resp]) (use run in \<open>simp only: s2 fuel_bind_simps split: if_splits; simp\<close>)
qed

lemma held_mono: "held_ok X s \<Longrightarrow> X \<subseteq> Y \<Longrightarrow> held_ok Y s"
  by (auto simp: held_ok_def)

lemma set_held_back: "set (held_back s) = fst ` {x \<in> set (pending_requests s). committed (snd x) \<and> \<not> data_done (snd x)}"
  by (force simp: held_back_def)

lemma held_back_ok: "held_ok (X \<union> set (held_back s)) s"
  by (auto simp: held_ok_def set_held_back)

lemma held_back_settled:
  assumes "core_inv s" "i \<in> set (held_back s)"
  shows "settled s i"
proof -
  obtain t where t: "(i, t) \<in> set (pending_requests s)" "committed t" using assms(2) by (auto simp: set_held_back)
  have keys: "distinct (map fst (pending_requests s))" using assms(1) by (simp add: core_inv_def ids_ok_def)
  have "old_id s i" using assms(1) t(1) by (force simp: core_inv_def ids_ok_def)
  moreover have "map_of (pending_requests s) i = Some t" using map_of_is_SomeI [OF keys t(1)] .
  ultimately show ?thesis using t(2) by (simp add: settled_def)
qed

lemma perform_release:
  "performData n g i s = Some (Inr s') \<Longrightarrow> core_inv s \<Longrightarrow> map_of (pending_requests s) i = Some t \<Longrightarrow> committed t \<Longrightarrow>
     \<not> data_done t \<Longrightarrow> \<not> blockedByOlderWrite t s \<Longrightarrow> held_ok (insert i X) s \<Longrightarrow>
     core_inv s' \<and> held_ok X s' \<and> (\<forall>j. settled s j \<longrightarrow> settled s' j) \<and> waiting s' < waiting s"
  "release_loop n g is s = Some (Inr s') \<Longrightarrow> core_inv s \<Longrightarrow> \<forall>i\<in>set is. settled s i \<Longrightarrow> held_ok (X \<union> set is) s \<Longrightarrow>
     core_inv s' \<and> held_ok X s' \<and> (\<forall>j. settled s j \<longrightarrow> settled s' j) \<and> waiting s' \<le> waiting s"
proof (induction n g i s and n g "is" s arbitrary: s' t X and s' X rule: performData_release_loop.induct)
  case (1 g i s)
  then show ?case by simp
next
  case (2 n g i s)
  let ?v = "t\<lparr>txn_pkt := memory_access g (txn_pkt t), data_done := True\<rparr>"
  obtain s1 s2 where s1: "s1 = s\<lparr>memory_calls := memory_calls s @ [Access (txn_seq t) (txn_pkt t)],
      pending_requests := AList.update i ?v (pending_requests s)\<rparr>"
    and s2: "(if completion_arrived t then respond g i s1 else Inr s1) = Inr s2"
    and rest: "if pkt_is_write (txn_pkt t) then release_loop n g (held_back s2) s2 = Some (Inr s') else s' = s2"
    and resp: "pkt_is_response (memory_access g (txn_pkt t))"
    by (rule performData_SucE [OF "2.prems"(1,3)])
  note op = operate [OF "2.prems"(2-6) refl s1]
  have s2': "core_inv s2 \<and> (\<forall>Y. held_ok Y s1 \<longrightarrow> held_ok Y s2) \<and> (\<forall>j. settled s1 j \<longrightarrow> settled s2 j) \<and> waiting s2 = waiting s1"
  proof (cases "completion_arrived t")
    case True
    then have r: "respond g i s1 = Inr s2" using s2 by simp
    show ?thesis using respond_keeps [OF r op(1) op(5)] by simp
  next
    case False
    then show ?thesis using s2 op(1) by simp
  qed
  show ?case
  proof (cases "pkt_is_write (txn_pkt t)")
    case False
    then have "held_ok X s1" by (rule op(2) [OF _ "2.prems"(7)])
    then show ?thesis using False rest s2' op(3,4) by auto
  next
    case True
    then have go: "release_loop n g (held_back s2) s2 = Some (Inr s')" using rest by simp
    have "core_inv s' \<and> held_ok X s' \<and> (\<forall>j. settled s2 j \<longrightarrow> settled s' j) \<and> waiting s' \<le> waiting s2"
    proof (rule "2.IH" [OF "2.prems"(3) refl refl _ True go])
      show "\<not> \<not> pkt_is_response (memory_access g (txn_pkt t))" using resp by simp
      show "core_inv s2" using s2' by blast
      then show "\<forall>i\<in>set (held_back s2). settled s2 i" using held_back_settled by blast
      show "held_ok (X \<union> set (held_back s2)) s2" by (rule held_back_ok)
    qed
    then show ?thesis using s2' op(3,4) by auto
  qed
next
  case (3 n g s)
  then show ?case by simp
next
  case (4 n g i "is" s)
  show ?case
  proof (cases "map_of (pending_requests s) i")
    case None
    then have "i \<notin> fst ` set (pending_requests s)" by (simp add: map_of_eq_None_iff)
    then have "held_ok (X \<union> set is) s" using "4.prems"(4) by (force simp: held_ok_def)
    then show ?thesis using "4.IH"(1) [OF None, of s' X] "4.prems" None by simp
  next
    case (Some t)
    have t: "committed t" using "4.prems"(3) Some by (simp add: settled_def)
    have keys: "distinct (map fst (pending_requests s))" using "4.prems"(2) by (simp add: core_inv_def ids_ok_def)
    show ?thesis
    proof (cases "data_done t \<or> blockedByOlderWrite t s")
      case True
      have "held_ok (X \<union> set is) s"
        unfolding held_ok_def
      proof (intro ballI impI)
        fix x assume x: "x \<in> set (pending_requests s)" "fst x \<notin> X \<union> set is \<and> committed (snd x) \<and> \<not> data_done (snd x)"
        show "blockedByOlderWrite (snd x) s"
        proof (cases "fst x = i")
          case True
          then show ?thesis using entry_unique [OF Some keys x(1)] x(2) \<open>data_done t \<or> blockedByOlderWrite t s\<close> by auto
        next
          case False
          then show ?thesis using "4.prems"(4) x by (auto simp: held_ok_def)
        qed
      qed
      then show ?thesis using "4.IH"(2) [OF Some True, of s' X] "4.prems" Some True by simp
    next
      case False
      then obtain u where u: "performData n g i s = Some (Inr u)" "release_loop n g is u = Some (Inr s')"
        using "4.prems"(1) Some by (cases "performData n g i s") (auto simp: fuel_bind_def split: sum.splits)
      have 1: "core_inv u \<and> held_ok (X \<union> set is) u \<and> (\<forall>j. settled s j \<longrightarrow> settled u j) \<and> waiting u < waiting s"
        using "4.IH"(3) [OF Some False u(1) "4.prems"(2) Some t] False "4.prems"(4) by simp
      have 2: "core_inv s' \<and> held_ok X s' \<and> (\<forall>j. settled u j \<longrightarrow> settled s' j) \<and> waiting s' \<le> waiting u"
        using "4.IH"(4) [OF Some False u(2), of X] 1 "4.prems"(3) by simp
      show ?thesis using 1 2 by auto
    qed
  qed
qed

lemma perform_returns:
  "core_inv s \<Longrightarrow> map_of (pending_requests s) i = Some t \<Longrightarrow> committed t \<Longrightarrow> \<not> data_done t \<Longrightarrow>
     \<not> blockedByOlderWrite t s \<Longrightarrow> waiting s \<le> n \<Longrightarrow> performData n g i s \<noteq> None"
  "core_inv s \<Longrightarrow> \<forall>i\<in>set is. settled s i \<Longrightarrow> waiting s \<le> n \<Longrightarrow> release_loop n g is s \<noteq> None"
proof (induction n g i s and n g "is" s arbitrary: t and rule: performData_release_loop.induct)
  case (1 g i s)
  then show ?case using operate(4) [OF 1(1-5) refl refl] by simp
next
  case (2 n g i s)
  let ?v = "t\<lparr>txn_pkt := memory_access g (txn_pkt t), data_done := True\<rparr>"
  let ?s1 = "s\<lparr>memory_calls := memory_calls s @ [Access (txn_seq t) (txn_pkt t)],
      pending_requests := AList.update i ?v (pending_requests s)\<rparr>"
  let ?r = "if completion_arrived t then respond g i ?s1 else Inr ?s1"
  obtain s1 where s1: "s1 = ?s1" by blast
  note op = operate [OF "2.prems"(1-5) refl s1]
  show ?case
  proof (cases "pkt_is_response (memory_access g (txn_pkt t)) \<and> pkt_is_write (txn_pkt t) \<and> (\<exists>s2. ?r = Inr s2)")
    case False
    then show ?thesis
      using "2.prems"(2) by (cases ?r) (auto simp: Let_def fuel_bind_def)
  next
    case True
    then obtain s2 where s2: "?r = Inr s2" by blast
    have "core_inv s2 \<and> waiting s2 = waiting s1"
    proof (cases "completion_arrived t")
      case True
      then have "respond g i s1 = Inr s2" using s2 s1 by simp
      then show ?thesis using respond_keeps(1,4) [OF _ op(1) op(5)] by simp
    next
      case False
      then have "s2 = s1" using s2 s1 by simp
      then show ?thesis using op(1) by simp
    qed
    then have "core_inv s2" "waiting s2 \<le> n" using op(4) "2.prems"(6) by simp_all
    then have "release_loop n g (held_back s2) s2 \<noteq> None"
      using "2.IH" [OF "2.prems"(2) refl refl, of s2] True held_back_settled by blast
    moreover have "performData (Suc n) g i s = fuel_bind (Some ?r) (\<lambda>s2. release_loop n g (held_back s2) s2)"
      using "2.prems"(2) True by (simp add: Let_def)
    ultimately show ?thesis by (simp only: s2 fuel_bind_simps simp_thms)
  qed
next
  case (3 n g s)
  then show ?case by simp
next
  case (4 n g i "is" s)
  show ?case
  proof (cases "map_of (pending_requests s) i")
    case None
    then show ?thesis using "4.IH"(1) [OF None] "4.prems" by simp
  next
    case (Some t)
    have t: "committed t" using "4.prems"(2) Some by (simp add: settled_def)
    show ?thesis
    proof (cases "data_done t \<or> blockedByOlderWrite t s")
      case True
      then show ?thesis using "4.IH"(2) [OF Some True] "4.prems" Some by simp
    next
      case False
      have "performData n g i s \<noteq> None"
        using "4.IH"(3) [OF Some False "4.prems"(1) Some t] False "4.prems"(3) by simp
      then obtain r where r: "performData n g i s = Some r" by blast
      show ?thesis
      proof (cases r)
        case (Inl e)
        then show ?thesis using Some False r by simp
      next
        case (Inr u)
        have "held_ok (insert i UNIV) s" by (simp add: held_ok_def)
        then have "core_inv u \<and> (\<forall>j. settled s j \<longrightarrow> settled u j) \<and> waiting u < waiting s"
          using perform_release(1) [OF r [unfolded Inr] "4.prems"(1) Some t, of UNIV] False by simp
        then have "release_loop n g is u \<noteq> None"
          using "4.IH"(4) [OF Some False, of u] "4.prems"(2,3) by simp
        then show ?thesis using Some False r Inr by simp
      qed
    qed
  qed
qed

section \<open>Every run keeps the invariant\<close>

text \<open>A flag of an entry is set.\<close>

lemma flag_entry:
  assumes inv: "core_inv s" and t: "map_of (pending_requests s) i = Some t"
    and v: "txn_pkt v = txn_pkt t" "txn_seq v = txn_seq t" "data_done v = data_done t" "committed t \<longrightarrow> committed v"
  defines "s' \<equiv> s\<lparr>pending_requests := AList.update i v (pending_requests s)\<rparr>"
  shows "core_inv s'" "blockedByOlderWrite u s' = blockedByOlderWrite u s" "held_ok X s \<Longrightarrow> held_ok (insert i X) s'"
    "map_of (pending_requests s') i = Some v"
proof -
  have ids: "ids_ok s" and ops: "ops_ok s" and order: "in_order s" and credit: "credit_ok s" using inv by (simp_all add: core_inv_def)
  have keys: "distinct (map fst (pending_requests s))" using ids by (simp add: ids_ok_def)
  have mem: "(i, t) \<in> set (pending_requests s)" using t by (rule map_of_SomeD)
  have only: "x \<in> set (pending_requests s) \<Longrightarrow> fst x = i \<Longrightarrow> x = (i, t)" for x
    using entry_unique [OF t keys] by blast
  have upd: "pending_requests s' = map (\<lambda>x. if fst x = i then (i, v) else x) (pending_requests s)"
    using update_as_map [OF t keys] by (simp add: s'_def)
  have fields: "next_seq s' = next_seq s" "accesses s' = accesses s" "answered s' = answered s" "responses s' = responses s"
    "ext_cpu s' = ext_cpu s" "ext_cache s' = ext_cache s"
    by (simp_all add: s'_def accesses_def answered_def)
  have old: "old_id s' = old_id s" by (simp add: old_id_def fun_eq_iff fields)
  have view: "map (\<lambda>x. (fst x, txn_pkt (snd x), txn_seq (snd x), data_done (snd x))) (pending_requests s') =
      map (\<lambda>x. (fst x, txn_pkt (snd x), txn_seq (snd x), data_done (snd x))) (pending_requests s)"
    using only v by (auto simp: upd)
  have undone: "map (\<lambda>x. (txn_pkt (snd x), txn_seq (snd x))) (undone s') = map (\<lambda>x. (txn_pkt (snd x), txn_seq (snd x))) (undone s)"
  proof -
    have "map (\<lambda>x. (txn_pkt (snd x), txn_seq (snd x))) (filter (\<lambda>x. \<not> data_done (snd x)) xs) =
        map (\<lambda>x. (fst (snd x), fst (snd (snd x)))) (filter (\<lambda>x. \<not> snd (snd (snd x)))
          (map (\<lambda>x. (fst x, txn_pkt (snd x), txn_seq (snd x), data_done (snd x))) xs))" for xs :: "(u64 \<times> pending_txn) list"
      by (induction xs) auto
    then show ?thesis by (simp add: undone_def view)
  qed
  have seqs: "map (txn_seq \<circ> snd) (undone s') = map (txn_seq \<circ> snd) (undone s)"
    using arg_cong [OF undone, of "map snd"] by (simp add: comp_def)
  have "ids_ok s'"
  proof -
    have "map fst (pending_requests s') = map fst (pending_requests s)" using only by (auto simp: upd)
    then show ?thesis using ids by (simp add: ids_ok_def fields old) (simp add: upd)
  qed
  moreover have "ops_ok s'"
  proof -
    have "map (txn_seq \<circ> snd) (pending_requests s') = map (txn_seq \<circ> snd) (pending_requests s)" using only v by (auto simp: upd)
    moreover have "length (undone s') = length (undone s)" using arg_cong [OF seqs, of length] by simp
    moreover have "\<forall>x\<in>set (pending_requests s'). txn_seq (snd x) < next_seq s \<and> (data_done (snd x) \<longrightarrow> committed (snd x))"
      using ops v mem by (auto simp: ops_ok_def upd)
    ultimately show ?thesis using ops by (simp add: ops_ok_def fields seqs)
  qed
  moreover have "in_order s'"
  proof -
    have twin: "\<exists>y'\<in>set (undone s). txn_pkt (snd y') = txn_pkt (snd y) \<and> txn_seq (snd y') = txn_seq (snd y)"
      if y: "y \<in> set (undone s')" for y
    proof -
      have "(txn_pkt (snd y), txn_seq (snd y)) \<in> set (map (\<lambda>x. (txn_pkt (snd x), txn_seq (snd x))) (undone s'))" using y by simp
      then obtain y' where "(txn_pkt (snd y), txn_seq (snd y)) = (txn_pkt (snd y'), txn_seq (snd y'))" "y' \<in> set (undone s)"
        unfolding undone set_map by (rule imageE)
      then show ?thesis by (intro bexI [of _ y']) simp_all
    qed
    show ?thesis
      unfolding in_order_def fields
    proof (intro conjI ballI)
      show "sorted_wrt (\<lambda>x y. pkt_is_write (snd y) \<and> overlaps (snd x) (snd y) \<longrightarrow> fst x < fst y) (accesses s)"
        using order by (simp add: in_order_def)
      fix x y assume x: "x \<in> set (accesses s)" and y: "y \<in> set (undone s')"
      obtain y' where y': "y' \<in> set (undone s)" "txn_pkt (snd y') = txn_pkt (snd y)" "txn_seq (snd y') = txn_seq (snd y)"
        using twin [OF y] by blast
      have "pkt_is_write (txn_pkt (snd y')) \<and> overlaps (snd x) (txn_pkt (snd y')) \<longrightarrow> fst x < txn_seq (snd y')"
        using order x y'(1) unfolding in_order_def by blast
      then show "pkt_is_write (txn_pkt (snd y)) \<and> overlaps (snd x) (txn_pkt (snd y)) \<longrightarrow> fst x < txn_seq (snd y)"
        unfolding y'(2,3) .
    qed
  qed
  moreover have "credit_ok s'" using credit by (simp add: credit_ok_def fields upd)
  ultimately show "core_inv s'" by (simp add: core_inv_def)
  show blocked: "blockedByOlderWrite u s' = blockedByOlderWrite u s" for u
  proof -
    have "older_write u (snd (if fst x = i then (i, v) else x)) = older_write u (snd x)" if "x \<in> set (pending_requests s)" for x
    proof (cases "fst x = i")
      case True
      then show ?thesis using only [OF that] v by (simp add: older_write_def)
    qed simp
    then have "(\<exists>x\<in>set (pending_requests s). older_write u (snd (if fst x = i then (i, v) else x))) =
        (\<exists>x\<in>set (pending_requests s). older_write u (snd x))" by (intro bex_cong refl)
    then show ?thesis unfolding blockedByOlderWrite_def upd set_map bex_simps .
  qed
  show "held_ok (insert i X) s'" if "held_ok X s"
    using that by (auto simp: held_ok_def blocked upd)
  show "map_of (pending_requests s') i = Some v" by (simp add: s'_def update_conv')
qed

lemma commit_keeps:
  assumes "onCommit n g i a s = Some (Inr s')" and inv: "core_inv s" and held: "held_ok {} s"
  shows "core_inv s' \<and> held_ok {} s'"
proof -
  obtain t where t: "map_of (pending_requests s) i = Some t"
    using assms(1) by (cases "map_of (pending_requests s) i") (simp_all add: onCommit_def)
  let ?t = "t\<lparr>committed := True\<rparr>" and ?s = "s\<lparr>pending_requests := AList.update i (t\<lparr>committed := True\<rparr>) (pending_requests s)\<rparr>"
  have open': "\<not> data_done t" using assms(1) t inv map_of_SomeD [OF t]
    by (auto simp: onCommit_def core_inv_def ops_ok_def split: if_splits)
  have v: "txn_pkt ?t = txn_pkt t" "txn_seq ?t = txn_seq t" "data_done ?t = data_done t" "committed t \<longrightarrow> committed ?t" by simp_all
  note f = flag_entry [OF inv t v]
  show ?thesis
  proof (cases "blockedByOlderWrite ?t ?s")
    case True
    then have s': "s' = ?s\<lparr>held_back_ops := held_back_ops ?s + 1\<rparr>"
      using assms(1) t by (auto simp: onCommit_def Let_def split: if_splits)
    have q: "quiet ?s s'" using f(1) by (simp add: s' quiet_def accesses_def answered_def core_inv_def ids_ok_def)
    have "held_ok {} ?s"
      unfolding held_ok_def
    proof (intro ballI impI)
      fix x assume x: "x \<in> set (pending_requests ?s)" "fst x \<notin> {} \<and> committed (snd x) \<and> \<not> data_done (snd x)"
      have keys: "distinct (map fst (pending_requests ?s))" using f(1) by (simp add: core_inv_def ids_ok_def)
      show "blockedByOlderWrite (snd x) ?s"
      proof (cases "fst x = i")
        case True
        then show ?thesis using entry_unique [OF f(4) keys x(1)] \<open>blockedByOlderWrite ?t ?s\<close> by simp
      next
        case False
        then show ?thesis using f(3) [OF held] x by (auto simp: held_ok_def)
      qed
    qed
    then show ?thesis using quiet_keeps_all [OF q] f(1) by (auto simp: keeps_all_def)
  next
    case False
    then have "performData n g i ?s = Some (Inr s')"
      using assms(1) t by (auto simp: onCommit_def Let_def split: if_splits)
    then show ?thesis using perform_release(1) [OF _ f(1) f(4), of n g s' "{}"] open' False f(3) [OF held] by simp
  qed
qed

lemma complete_keeps:
  assumes "cacheSimCallback g i s = Inr s'" and inv: "core_inv s" and held: "held_ok {} s"
  shows "core_inv s' \<and> held_ok {} s'"
proof -
  obtain t where t: "map_of (pending_requests s) i = Some t" "committed t"
    using assms(1) by (cases "map_of (pending_requests s) i") (auto simp: cacheSimCallback_def split: if_splits)
  show ?thesis
  proof (cases "data_done t")
    case True
    then have "respond g i s = Inr s'" using assms(1) t by (simp add: cacheSimCallback_def)
    then show ?thesis using respond_keeps(1,2) [OF _ inv t(1) True] held by blast
  next
    case False
    let ?t = "t\<lparr>completion_arrived := True\<rparr>"
    have s': "s' = s\<lparr>pending_requests := AList.update i ?t (pending_requests s)\<rparr>" using assms(1) t False by (simp add: cacheSimCallback_def)
    have v: "txn_pkt ?t = txn_pkt t" "txn_seq ?t = txn_seq t" "data_done ?t = data_done t" "committed t \<longrightarrow> committed ?t" by simp_all
    note f = flag_entry [OF inv t(1) v, folded s']
    have keys: "distinct (map fst (pending_requests s'))" using f(1) by (simp add: core_inv_def ids_ok_def)
    have blocked: "blockedByOlderWrite t s" using held map_of_SomeD [OF t(1)] t(2) False by (force simp: held_ok_def)
    have "held_ok {} s'"
      unfolding held_ok_def
    proof (intro ballI impI)
      fix x assume x: "x \<in> set (pending_requests s')" "fst x \<notin> {} \<and> committed (snd x) \<and> \<not> data_done (snd x)"
      show "blockedByOlderWrite (snd x) s'"
      proof (cases "fst x = i")
        case True
        then have "snd x = ?t" using entry_unique [OF f(4) keys x(1)] by simp
        then show ?thesis using blocked f(2) by (simp add: blockedByOlderWrite_def older_write_def)
      next
        case False
        then show ?thesis using f(3) [OF held] x by (auto simp: held_ok_def)
      qed
    qed
    then show ?thesis using f(1) by simp
  qed
qed

lemma run_inv: "bridge_run g s \<Longrightarrow> core_inv s \<and> held_ok {} s"
proof (induction rule: bridge_run.induct)
  case (start e cache snooping bsize period pending)
  then show ?case
    by (auto simp: core_inv_def ids_ok_def ops_ok_def in_order_def credit_ok_def held_ok_def new_bridge_def accesses_def
        answered_def undone_def registerInvalidateCallback_def registerCommitCallback_def registerCPUCallback_def)
next
  case (request s p port s' ok)
  then show ?case using access_keeps_all by (auto simp: keeps_all_def)
next
  case (commit s n i a s')
  show ?case by (rule commit_keeps [OF commit(2)]) (use commit.IH in simp_all)
next
  case (complete s i s')
  show ?case by (rule complete_keeps [OF complete(2)]) (use complete.IH in simp_all)
next
  case (invalidate s a)
  have "quiet s (onInvalidate a s)" using invalidate.IH
    by (simp add: quiet_def onInvalidate_def deliverInvalidate_def Let_def accesses_def answered_def core_inv_def ids_ok_def comp_def)
  then show ?case using invalidate.IH quiet_keeps_all by (auto simp: keeps_all_def)
next
  case (functional s satisfies order p)
  have "quiet s (fst (handleFunctional satisfies order p s))" using functional.IH
    by (simp add: quiet_def handleFunctional_def accesses_def answered_def core_inv_def ids_ok_def split: option.splits)
  then show ?case using functional.IH quiet_keeps_all by (auto simp: keeps_all_def)
next
  case (retry s s')
  then show ?case using retry_keeps_all by (auto simp: keeps_all_def)
next
  case (other s e c t k)
  have "quiet s (s\<lparr>ext_cpu := e, ext_cache := c, num_pending_req := k, cur_tick := t\<rparr>)" using other
    by (simp add: quiet_def accesses_def answered_def)
  then show ?case using other.IH quiet_keeps_all by (auto simp: keeps_all_def)
qed

section \<open>Properties\<close>

text \<open>
  A core of gem5 with two stores to one word: the second commits and completes before the first commits, waits for it,
  and both are answered in the end.
\<close>

definition store_of :: "u64 \<Rightarrow> packet" where
  "store_of a = \<lparr> pkt_paddr = Some a, pkt_addr = a, pkt_size = 8, pkt_is_read = False, pkt_is_write = True,
     pkt_is_invalidate = False, pkt_is_clean = False, pkt_is_llsc = False, pkt_is_atomic = False, pkt_uncacheable = False,
     pkt_is_response = False \<rparr>"

definition demo_gem5 :: gem5 where
  "demo_gem5 = \<lparr> memory_access = pkt_is_response_update (\<lambda>_. True), make_response = pkt_is_response_update (\<lambda>_. True),
     is_mem_addr = (\<lambda>a. True), on_retry = (\<lambda>k calls. []) \<rparr>"

definition ok_or :: "'a \<Rightarrow> 'a result \<Rightarrow> 'a" where
  "ok_or d r = (case r of Inl e \<Rightarrow> d | Inr x \<Rightarrow> x)"

definition demo_bridge :: "controller option \<Rightarrow> bridge" where
  "demo_bridge cache = new_bridge (new_ExternalCPU 0 (BusI (new_BusInterface 2 4)) 7) cache [True] 64 1000 0"

definition bridge0 :: bridge where
  "bridge0 = demo_bridge None"

definition bridge2 :: bridge where
  "bridge2 = (let s = fst (ok_or (bridge0, False) (accessTiming demo_gem5 (store_of 64) 0 bridge0)) in
     fst (ok_or (s, False) (accessTiming demo_gem5 (store_of 64) 0 s)))"

definition bridge3 :: bridge where
  "bridge3 = (case onCommit 2 demo_gem5 8 64 bridge2 of None \<Rightarrow> bridge2 | Some r \<Rightarrow> ok_or bridge2 r)"

definition bridge4 :: bridge where
  "bridge4 = ok_or bridge3 (cacheSimCallback demo_gem5 8 bridge3)"

definition bridge5 :: bridge where
  "bridge5 = (case onCommit 2 demo_gem5 7 64 bridge4 of None \<Rightarrow> bridge4 | Some r \<Rightarrow> ok_or bridge4 r)"

lemma run_ok:
  "bridge_run g s \<Longrightarrow> bridge_run g (fst (ok_or (s, False) (accessTiming g p port s)))"
  "bridge_run g s \<Longrightarrow> bridge_run g (ok_or s (cacheSimCallback g i s))"
  "bridge_run g s \<Longrightarrow> bridge_run g (case onCommit n g i a s of None \<Rightarrow> s | Some r \<Rightarrow> ok_or s r)"
  by (auto simp: ok_or_def split: sum.splits option.splits intro: bridge_run.request bridge_run.complete bridge_run.commit)

lemma demo_bridge_run: "bridge_run g (demo_bridge cache)"
  unfolding demo_bridge_def by (rule bridge_run.start) (simp_all add: new_ExternalCPU_def)

lemma demo_runs: "bridge_run demo_gem5 bridge0" "bridge_run demo_gem5 bridge2" "bridge_run demo_gem5 bridge3" "bridge_run demo_gem5 bridge4"
  "bridge_run demo_gem5 bridge5"
proof -
  show 0: "bridge_run demo_gem5 bridge0" unfolding bridge0_def by (rule demo_bridge_run)
  show 2: "bridge_run demo_gem5 bridge2" unfolding bridge2_def Let_def by (intro run_ok(1) 0)
  show 3: "bridge_run demo_gem5 bridge3" unfolding bridge3_def by (rule run_ok(3) [OF 2])
  show 4: "bridge_run demo_gem5 bridge4" unfolding bridge4_def by (rule run_ok(2) [OF 3])
  show "bridge_run demo_gem5 bridge5" unfolding bridge5_def by (rule run_ok(3) [OF 4])
qed

lemma demo_values:
  "map fst (accesses bridge5) = [0, 1] \<and> answered bridge5 = [8] \<and> map (txn_seq \<circ> snd) (pending_requests bridge5) = [0]"
  by code_simp

text \<open>
  C4. A core sees its own older writes: in every run, when two data operations of the bridge touch common bytes and the
  second is a write, it is also the younger; and no operation is performed while an older write to its bytes is pending.
\<close>

theorem bridge_keeps_program_order:
  assumes "bridge_run g s"
  shows "sorted_wrt (\<lambda>x y. pkt_is_write (snd y) \<and> overlaps (snd x) (snd y) \<longrightarrow> fst x < fst y) (accesses s) \<and>
    (\<forall>x\<in>set (accesses s). \<forall>y\<in>set (undone s). pkt_is_write (txn_pkt (snd y)) \<and> overlaps (snd x) (txn_pkt (snd y)) \<longrightarrow>
       fst x < txn_seq (snd y))"
  using run_inv [OF assms] by (simp add: core_inv_def in_order_def)

theorem bridge_keeps_program_order_witness: "fst (accesses bridge5 ! 0) < fst (accesses bridge5 ! 1)"
proof -
  have v: "length (accesses bridge5) = 2 \<and> pkt_is_write (snd (accesses bridge5 ! 1)) \<and> overlaps (snd (accesses bridge5 ! 0)) (snd (accesses bridge5 ! 1))"
    by code_simp
  have "sorted_wrt (\<lambda>x y. pkt_is_write (snd y) \<and> overlaps (snd x) (snd y) \<longrightarrow> fst x < fst y) (accesses bridge5)"
    using bridge_keeps_program_order [OF demo_runs(5)] ..
  from sorted_wrt_nth_less [OF this, of 0 1] show ?thesis using v by simp
qed

text \<open>
  C6. Every accepted request has one data operation and at most one answer: in every run the answers are for different
  requests, none of them pending, the operations carry different numbers below the next one, and every number given out
  belongs to an operation done or to a pending request, and to an answer or a pending request.
\<close>

theorem bridge_serves_once:
  assumes "bridge_run g s"
  shows "distinct (map fst (pending_requests s) @ answered s) \<and>
    distinct (map fst (accesses s) @ map (txn_seq \<circ> snd) (undone s)) \<and>
    fst ` set (accesses s) \<union> (txn_seq \<circ> snd) ` set (undone s) = {q. q < next_seq s} \<and>
    unat (next_seq s) = length (answered s) + length (pending_requests s) \<and> responses s = length (answered s)"
proof -
  have inv: "ids_ok s" "ops_ok s" using run_inv [OF assms] by (simp_all add: core_inv_def)
  have d: "distinct (map fst (accesses s) @ map (txn_seq \<circ> snd) (undone s))" using inv(2) by (simp add: ops_ok_def)
  let ?A = "fst ` set (accesses s) \<union> (txn_seq \<circ> snd) ` set (undone s)"
  have "card ?A = length (accesses s) + length (undone s)" using distinct_card [OF d] by (simp add: image_comp)
  moreover have "card {q :: u64. q < next_seq s} = unat (next_seq s)" by (rule card_words_below)
  moreover have "?A \<subseteq> {q. q < next_seq s}" using inv(2) by (auto simp: ops_ok_def undone_def)
  ultimately have "?A = {q. q < next_seq s}"
    using inv(2) by (intro card_subset_eq) (simp_all add: ops_ok_def)
  then show ?thesis using inv(1) d by (simp add: ids_ok_def)
qed

theorem bridge_serves_once_witness: "unat (next_seq bridge5) = length (answered bridge5) + length (pending_requests bridge5) \<and> answered bridge5 = [8]"
  using bridge_serves_once [OF demo_runs(5)] demo_values by simp

text \<open>
  C5. Nothing is held back for ever: in every run, once all pending writes that are older than a committed request
  are committed, its data operation is done. So a request waits only while an older write has not committed.
\<close>

theorem held_back_only_for_uncommitted_writes:
  assumes run: "bridge_run g s" and "x \<in> set (pending_requests s)" and "committed (snd x)"
    and "\<And>y. y \<in> set (pending_requests s) \<Longrightarrow> pkt_is_write (txn_pkt (snd y)) \<Longrightarrow> txn_seq (snd y) < txn_seq (snd x) \<Longrightarrow> committed (snd y)"
  shows "data_done (snd x)"
  using assms(2-4)
proof (induction "unat (txn_seq (snd x))" arbitrary: x rule: less_induct)
  case less
  show ?case
  proof (rule ccontr)
    assume "\<not> data_done (snd x)"
    then have "blockedByOlderWrite (snd x) s" using run_inv [OF run] less.prems(1,2) by (auto simp: held_ok_def)
    then obtain y where y: "y \<in> set (pending_requests s)" "older_write (snd x) (snd y)" by (auto simp: blockedByOlderWrite_def)
    then have seq: "txn_seq (snd y) < txn_seq (snd x)" and y': "\<not> data_done (snd y)" "pkt_is_write (txn_pkt (snd y))"
      by (simp_all add: older_write_def)
    have "data_done (snd y)"
    proof (rule less.hyps [OF _ y(1)])
      show "unat (txn_seq (snd y)) < unat (txn_seq (snd x))" using seq by (simp add: word_less_nat_alt)
      show "committed (snd y)" using less.prems(3) y(1) y'(2) seq by blast
      show "committed (snd z)" if "z \<in> set (pending_requests s)" "pkt_is_write (txn_pkt (snd z))" "txn_seq (snd z) < txn_seq (snd y)" for z
        using less.prems(3) [OF that(1,2)] that(3) seq by simp
    qed
    then show False using y'(1) by simp
  qed
qed

theorem held_back_only_for_uncommitted_writes_witness: "map (data_done \<circ> snd) (pending_requests bridge5) = [True]"
proof -
  obtain x where x: "pending_requests bridge5 = [x]" using demo_values by auto
  have all: "\<forall>y\<in>set (pending_requests bridge5). committed (snd y)" by code_simp
  have "data_done (snd x)"
    by (rule held_back_only_for_uncommitted_writes [OF demo_runs(5)]) (use all x in simp_all)
  then show ?thesis using x by simp
qed

text \<open>
  C8. The bridge never has more requests outstanding than its cache admits: in every run the pending table is within the
  bound of the processing queue when there is one, so the links to the cache cannot overflow.
\<close>

theorem pending_within_credit:
  "bridge_run g s \<Longrightarrow> 0 \<le> outstandingLimit (ext_cache s) \<Longrightarrow> int (length (pending_requests s)) \<le> outstandingLimit (ext_cache s)"
  using run_inv [of g s] by (simp add: core_inv_def credit_ok_def)

text \<open>A cache that admits one miss: of two stores the second is refused, and its port waits for a retry.\<close>

definition bridge_full :: bridge where
  "bridge_full =
     (let c = example_controller PlainController example_msi (example_array False);
          s = demo_bridge (Some (c\<lparr>m_processing_queue_size := 1\<rparr>));
          s1 = fst (ok_or (s, False) (accessTiming demo_gem5 (store_of 64) 0 s)) in
      fst (ok_or (s1, False) (accessTiming demo_gem5 (store_of 128) 0 s1)))"

theorem pending_within_credit_witness:
  "int (length (pending_requests bridge_full)) \<le> 1 \<and> length (pending_requests bridge_full) = 1 \<and> needs_retry bridge_full = [True]"
proof -
  have val: "length (pending_requests bridge_full) = 1 \<and> needs_retry bridge_full = [True] \<and> outstandingLimit (ext_cache bridge_full) = 1"
    by code_simp
  have "bridge_run demo_gem5 bridge_full"
    unfolding bridge_full_def Let_def by (intro run_ok(1) demo_bridge_run)
  from pending_within_credit [OF this] show ?thesis using val by simp
qed

text \<open>
  C7. A commit always comes to an end: performing an operation can release others, which answer, retry and release in
  turn, but in every run no more calls nest than there are pending requests, whatever memory and the core do.
\<close>

theorem onCommit_returns:
  assumes "bridge_run g s" and "length (pending_requests s) \<le> n"
  shows "onCommit n g i a s \<noteq> None"
proof (cases "map_of (pending_requests s) i")
  case None
  then show ?thesis by (simp add: onCommit_def)
next
  case (Some t)
  have inv: "core_inv s" using run_inv [OF assms(1)] by simp
  let ?t = "t\<lparr>committed := True\<rparr>" and ?s = "s\<lparr>pending_requests := AList.update i (t\<lparr>committed := True\<rparr>) (pending_requests s)\<rparr>"
  show ?thesis
  proof (cases "committed t \<or> pkt_getAddr (txn_pkt t) \<noteq> a \<or> blockedByOlderWrite ?t ?s")
    case True
    then show ?thesis using Some by (auto simp: onCommit_def Let_def)
  next
    case False
    have v: "txn_pkt ?t = txn_pkt t" "txn_seq ?t = txn_seq t" "data_done ?t = data_done t" "committed t \<longrightarrow> committed ?t" by simp_all
    note f = flag_entry [OF inv Some v]
    have "\<not> data_done t" using inv False map_of_SomeD [OF Some] by (auto simp: core_inv_def ops_ok_def)
    moreover have "waiting ?s \<le> n"
    proof -
      have "distinct (map fst (pending_requests s))" using inv by (simp add: core_inv_def ids_ok_def)
      then have "length (pending_requests ?s) = length (pending_requests s)" using update_as_map [OF Some] by simp
      then have "length (pending_requests ?s) \<le> n" using assms(2) by simp
      then show ?thesis unfolding waiting_def by (rule order_trans [OF length_filter_le])
    qed
    ultimately have "performData n g i ?s \<noteq> None" using perform_returns(1) [OF f(1) f(4), of n g] False by simp
    then show ?thesis using Some False by (simp add: onCommit_def Let_def)
  qed
qed

theorem onCommit_returns_witness: "onCommit 2 demo_gem5 7 64 bridge4 \<noteq> None"
proof (rule onCommit_returns [OF demo_runs(4)])
  show "length (pending_requests bridge4) \<le> 2" by code_simp
qed

section \<open>Functional reads\<close>

text \<open>
  A functional read looks for its bytes only in writes that are not committed: those of a write that is committed and
  held back are in its packet alone as well, but the read goes to memory, which does not have them yet.
\<close>

lemma functional_read_misses_held_back_write:
  "let s = fst (ok_or (bridge0, False) (accessTiming demo_gem5 (store_of 64) 0 bridge0));
       s2 = fst (ok_or (s, False) (accessTiming demo_gem5 (store_of 68) 0 s));
       s3 = (case onCommit 2 demo_gem5 8 68 s2 of None \<Rightarrow> s2 | Some r \<Rightarrow> ok_or s2 r);
       p = (store_of 72)\<lparr>pkt_size := 4, pkt_is_read := True, pkt_is_write := False\<rparr>
   in snd (handleFunctional overlaps [7, 8] p s2) = Some (store_of 68) \<and> snd (handleFunctional overlaps [7, 8] p s3) = None \<and>
      map (pkt_getAddr \<circ> txn_pkt \<circ> snd) (undone s3) = [64, 68]"
  by code_simp

end
