(* ===== verification/Configuration.thy ===== *)
theory Configuration
  imports Cores
begin

text \<open>
  Configurations: \<open>Configurable\<close> (src/Configurable.cpp), which reads parameter files and the overrides of a command line
  into maps, and \<open>CLParser\<close> (src/CLParser.cpp), which sorts the words of a command line. Files and the current
  directory are arguments, and so is what \<open>%lf\<close> makes of a text. A fixed buffer that is overrun or read before it is
  written is undefined behaviour. Printing the configuration is left out.
\<close>

section \<open>Parameters\<close>

datatype 'd param_value =
    Integer int
  | Double 'd
  | String string
  | Vector_Integer "int list"
  | Vector_Double "'d list"
  | Vector_String "string list"

record 'd parameter =
  param_name :: string
  param_value :: "'d param_value"

type_synonym 'd parameters_map = "(string \<times> 'd parameter) list"

record 'd configurable =
  parameters :: "'d parameters_map"
  subordinate_param :: "(string \<times> 'd parameters_map) list"

abbreviation comma :: char where "comma \<equiv> CHR '',''"
abbreviation newline :: char where "newline \<equiv> CHR 0x0A"
abbreviation return_char :: char where "return_char \<equiv> CHR 0x0D"

section \<open>Lines\<close>

definition checkComment :: "string \<Rightarrow> bool" where
  "checkComment line =
     (let s = dropWhile (\<lambda>c. c \<in> {comma, CHR '' '', newline, return_char}) (dropWhile (\<lambda>c. c = CHR '' '') line)
      in s = [] \<or> hd s = CHR ''#'')"

text \<open>\<open>"%*[^,],"\<close>: the text after the first comma, which must not be the first character.\<close>

definition after_comma :: "string \<Rightarrow> string option" where
  "after_comma line =
     (if line = [] \<or> hd line = comma then None
      else case dropWhile (\<lambda>c. c \<noteq> comma) line of [] \<Rightarrow> None | _ # rest \<Rightarrow> Some rest)"

text \<open>\<open>"%[^,\r\n]"\<close>, and \<open>"%d"\<close>: a number beyond \<open>int\<close> is undefined behaviour.\<close>

definition field_text :: "string \<Rightarrow> string" where
  "field_text = takeWhile (\<lambda>c. c \<notin> {comma, return_char, newline})"

definition scan_int :: "string \<Rightarrow> int option result" where
  "scan_int s =
     (case scan_number 10 s of
        None \<Rightarrow> Inr None
      | Some (neg, n, _) \<Rightarrow>
          let v = (if neg then - n else n) in
          if - (2 ^ 31) \<le> v \<and> v < 2 ^ 31 then Inr (Some v) else Inl (Undefined ''sscanf: %d out of range''))"

text \<open>An empty field in the middle of a vector of strings reads the buffer before it is written.\<close>

definition scan_string :: "string \<Rightarrow> string option result" where
  "scan_string s = (if field_text s = [] then Inl (Undefined ''parseVector: uninitialised buffer'') else Inr (Some (field_text s)))"

function parseVector :: "(string \<Rightarrow> 'a option result) \<Rightarrow> string \<Rightarrow> 'a list result" where
  "parseVector scan line =
     (case first_index (\<lambda>c. c = comma) line of
        None \<Rightarrow> Inr []
      | Some position \<Rightarrow>
          if checkComment (drop position line) then Inr []
          else result_bind (scan (drop (Suc position) line)) (\<lambda>v.
            result_bind (parseVector scan (drop (Suc position) line)) (\<lambda>vs.
              Inr (case v of None \<Rightarrow> vs | Some x \<Rightarrow> x # vs))))"
  by auto
termination by (relation "measure (\<lambda>(scan, line). length line)") (auto simp: first_index_Some_iff)

declare parseVector.simps [simp del]

definition indicator :: "string \<Rightarrow> string" where
  "indicator line =
     (if line = [] \<or> hd line = CHR ''('' then []
      else case dropWhile (\<lambda>c. c \<noteq> CHR ''('') line of [] \<Rightarrow> [] | _ # rest \<Rightarrow> takeWhile (\<lambda>c. c \<noteq> CHR '')'') rest)"

definition parseLine :: "(string \<Rightarrow> ('d::zero) option) \<Rightarrow> string \<Rightarrow> 'd parameter result" where
  "parseLine scan_lf line =
     (let name = takeWhile (\<lambda>c. c \<noteq> CHR ''('') line;
          ind = indicator line;
          value = (case after_comma line of None \<Rightarrow> [] | Some v \<Rightarrow> v);
          param = (\<lambda>v. Inr \<lparr>param_name = name, param_value = v\<rparr>)
      in if 100 \<le> length name then Inl (Undefined ''parseLine: param_name overrun'')
         else if 10 \<le> length ind then Inl (Undefined ''parseLine: param_indicator overrun'')
         else if ind = ''i'' then result_bind (scan_int value) (\<lambda>v. param (Integer (case v of None \<Rightarrow> 0 | Some i \<Rightarrow> i)))
         else if ind = ''d'' then param (Double (case scan_lf value of None \<Rightarrow> 0 | Some d \<Rightarrow> d))
         else if ind = ''s'' then param (String (field_text value))
         else if ind = ''vi'' then result_bind (parseVector scan_int line) (\<lambda>vs. param (Vector_Integer vs))
         else if ind = ''vd'' then result_bind (parseVector (\<lambda>s. Inr (scan_lf s)) line) (\<lambda>vs. param (Vector_Double vs))
         else if ind = ''vs'' then result_bind (parseVector scan_string line) (\<lambda>vs. param (Vector_String vs))
         else Inl (Exit ''Wrong Parameter type''))"

definition parseCLparam :: "(string \<Rightarrow> ('d::zero) option) \<Rightarrow> string \<Rightarrow> 'd parameter result" where
  "parseCLparam scan_lf line =
     (if 4096 \<le> length line then Inl (Exit ''Configurable: command-line parameter longer than 4096 characters'')
      else parseLine scan_lf (case first_index (\<lambda>c. c = CHR ''='') line of None \<Rightarrow> line | Some i \<Rightarrow> line[i := comma]))"

section \<open>Maps\<close>

definition addParameter2Map :: "'d parameter \<Rightarrow> 'd configurable \<Rightarrow> 'd configurable" where
  "addParameter2Map p c =
     (case first_index (\<lambda>x. x = CHR ''.'') (param_name p) of
        None \<Rightarrow> c\<lparr>parameters := AList.update (param_name p) p (parameters c)\<rparr>
      | Some i \<Rightarrow>
          let sub = take i (param_name p); name = drop (Suc i) (param_name p);
              m = (case map_of (subordinate_param c) sub of None \<Rightarrow> [] | Some m \<Rightarrow> m) in
          c\<lparr>subordinate_param := AList.update sub (AList.update name (p\<lparr>param_name := name\<rparr>) m) (subordinate_param c)\<rparr>)"

fun show_nat :: "nat \<Rightarrow> string" where
  "show_nat n = (if n < 10 then [] else show_nat (n div 10)) @ [char_of (48 + n mod 10)]"

declare show_nat.simps [simp del]

definition to_string :: "int \<Rightarrow> string" where
  "to_string i = (if i < 0 then ''-'' else []) @ show_nat (nat \<bar>i\<bar>)"

definition sub_name :: "string \<Rightarrow> int \<Rightarrow> string" where
  "sub_name comp_name i = (if i = - 1 then comp_name else comp_name @ ''['' @ to_string i @ '']'')"

text \<open>\<open>insert\<close> of a range keeps what is there.\<close>

definition insert_map :: "'d parameters_map \<Rightarrow> 'd parameters_map \<Rightarrow> 'd parameters_map" where
  "insert_map m sub = m @ filter (\<lambda>kv. map_of m (fst kv) = None) sub"

definition getSubMap :: "string \<Rightarrow> int \<Rightarrow> 'd configurable \<Rightarrow> 'd parameters_map" where
  "getSubMap comp_name i c =
     (let wild = map_of (subordinate_param c) (comp_name @ ''[*]'') in
      case map_of (subordinate_param c) (sub_name comp_name i) of
        Some m \<Rightarrow> (case wild of Some w \<Rightarrow> insert_map m w | None \<Rightarrow> m)
      | None \<Rightarrow> (case wild of Some w \<Rightarrow> w | None \<Rightarrow> []))"

section \<open>Files\<close>

text \<open>
  \<open>fscanf(file, "%[^\n]\n", line)\<close>: the rest of the line, then all white space that follows. A line that is empty can
  only be the first one, and leaves the buffer unwritten.
\<close>

definition next_line :: "string \<Rightarrow> (string \<times> string) option result" where
  "next_line text =
     (if text = [] then Inr None
      else let line = takeWhile (\<lambda>c. c \<noteq> newline) text in
        if line = [] then Inl (Undefined ''parseFile: uninitialised line'')
        else if 4096 \<le> length line then Inl (Undefined ''parseFile: line overrun'')
        else Inr (Some (line, skip_blanks (drop (length line) text))))"

definition checkKeywords :: "string \<Rightarrow> string option result" where
  "checkKeywords line =
     (let keyword = takeWhile (\<lambda>c. c \<noteq> comma) line in
      if keyword = [] then Inl (Undefined ''checkKeywords: uninitialised keyword'')
      else if 100 \<le> length keyword then Inl (Undefined ''checkKeywords: keyword overrun'')
      else if keyword = ''Extends''
      then (let path = (case after_comma line of None \<Rightarrow> [] | Some v \<Rightarrow> field_text (skip_blanks v)) in
            if path = [] then Inl (Undefined ''checkKeywords: uninitialised path'') else Inr (Some path))
      else Inr None)"

lemma skip_blanks_shorter: "length (skip_blanks s) \<le> length s"
  by (induction s) (auto simp: le_SucI)

lemma next_line_shorter:
  assumes "next_line text = Inr (Some (line, rest))"
  shows "length rest < length text"
proof -
  have "line \<noteq> []" "text \<noteq> []" "rest = skip_blanks (drop (length line) text)"
    using assms by (auto simp: next_line_def Let_def split: if_splits)
  then have "0 < length line" "0 < length text" "length rest \<le> length text - length line"
    using skip_blanks_shorter [of "drop (length line) text"] by simp_all
  then show ?thesis by linarith
qed

text \<open>The loop of \<open>parseFile\<close>, from a line that has been read and the text behind it.\<close>

function parse_lines :: "(string \<Rightarrow> ('d::zero) option) \<Rightarrow> string \<Rightarrow> string \<Rightarrow> 'd configurable \<Rightarrow> 'd configurable result" where
  "parse_lines scan_lf line text c =
     result_bind (if checkComment line then Inr c else result_bind (parseLine scan_lf line) (\<lambda>p. Inr (addParameter2Map p c))) (\<lambda>c'.
       case next_line text of
         Inl e \<Rightarrow> Inl e
       | Inr None \<Rightarrow> Inr c'
       | Inr (Some (line', text')) \<Rightarrow> parse_lines scan_lf line' text' c')"
  by pat_completeness auto
termination by (relation "measure (\<lambda>(scan_lf, line, text, c). length text)") (auto dest: next_line_shorter)

declare parse_lines.simps [simp del]

text \<open>A file that extends itself is read for ever: the fuel bounds the depth.\<close>

fun parseFile :: "nat \<Rightarrow> (string \<Rightarrow> ('d::zero) option) \<Rightarrow> (string \<Rightarrow> string option) \<Rightarrow> string \<Rightarrow> 'd configurable \<Rightarrow> 'd configurable fuelled" where
  "parseFile 0 scan_lf files name c = None"
| "parseFile (Suc n) scan_lf files name c =
     (case files name of
        None \<Rightarrow> Some (Inl (Exit ''Failed to open configuration file''))
      | Some text \<Rightarrow>
          (case next_line text of
             Inl e \<Rightarrow> Some (Inl e)
           | Inr None \<Rightarrow> Some (Inl (Undefined ''parseFile: uninitialised line''))
           | Inr (Some (line, rest)) \<Rightarrow>
               (case checkKeywords line of
                  Inl e \<Rightarrow> Some (Inl e)
                | Inr None \<Rightarrow> Some (parse_lines scan_lf line rest c)
                | Inr (Some path) \<Rightarrow>
                    fuel_bind (parseFile n scan_lf files path c) (\<lambda>c'.
                      case next_line rest of
                        Inl e \<Rightarrow> Some (Inl e)
                      | Inr None \<Rightarrow> Some (Inr c')
                      | Inr (Some (line', rest')) \<Rightarrow> Some (parse_lines scan_lf line' rest' c')))))"

section \<open>Objects\<close>

definition empty_config :: "'d configurable" where
  "empty_config = \<lparr> parameters = [], subordinate_param = [] \<rparr>"

definition new_Configurable :: "nat \<Rightarrow> (string \<Rightarrow> ('d::zero) option) \<Rightarrow> (string \<Rightarrow> string option) \<Rightarrow> string \<Rightarrow> 'd configurable fuelled" where
  "new_Configurable n scan_lf files name = parseFile n scan_lf files name empty_config"

definition new_Configurable_map ::
  "nat \<Rightarrow> (string \<Rightarrow> ('d::zero) option) \<Rightarrow> (string \<Rightarrow> string option) \<Rightarrow> 'd parameters_map \<Rightarrow> string \<Rightarrow> 'd configurable fuelled" where
  "new_Configurable_map n scan_lf files m name =
     fuel_bind (new_Configurable n scan_lf files name) (\<lambda>c. Some (Inr (fold (\<lambda>kv. addParameter2Map (snd kv)) m c)))"

fun add_cl_params :: "(string \<Rightarrow> ('d::zero) option) \<Rightarrow> string list \<Rightarrow> bool \<Rightarrow> 'd configurable \<Rightarrow> ('d configurable \<times> bool) result" where
  "add_cl_params scan_lf [] explicit c = Inr (c, explicit)"
| "add_cl_params scan_lf (line # lines) explicit c =
     result_bind (parseCLparam scan_lf line) (\<lambda>p.
       add_cl_params scan_lf lines (explicit \<or> param_name p = ''workload_path'') (addParameter2Map p c))"

text \<open>\<open>std::filesystem\<close> on POSIX: \<open>base / path\<close> of a relative path, and \<open>lexically_normal\<close>.\<close>

definition is_relative :: "string \<Rightarrow> bool" where
  "is_relative p \<longleftrightarrow> p = [] \<or> hd p \<noteq> CHR ''/''"

definition path_append :: "string \<Rightarrow> string \<Rightarrow> string" where
  "path_append base p =
     (if \<not> is_relative p then p
      else if base = [] \<or> last base = CHR ''/'' then base @ p else base @ ''/'' @ p)"

fun path_names :: "string \<Rightarrow> string \<Rightarrow> string list" where
  "path_names cur [] = (if cur = [] then [] else [cur])"
| "path_names cur (c # cs) =
     (if c = CHR ''/'' then (if cur = [] then path_names [] cs else cur # path_names [] cs) else path_names (cur @ [c]) cs)"

text \<open>The names that stay, the last one first.\<close>

fun normal_names :: "bool \<Rightarrow> string list \<Rightarrow> string list \<Rightarrow> string list" where
  "normal_names root [] stack = stack"
| "normal_names root (x # xs) stack =
     normal_names root xs
       (if x = ''.'' then stack
        else if x \<noteq> ''..'' then x # stack
        else case stack of [] \<Rightarrow> (if root then [] else [''..'']) | y # ys \<Rightarrow> if y = ''..'' then ''..'' # stack else ys)"

fun join_names :: "string list \<Rightarrow> string" where
  "join_names [] = []"
| "join_names [x] = x"
| "join_names (x # y # xs) = x @ ''/'' @ join_names (y # xs)"

definition lexically_normal :: "string \<Rightarrow> string" where
  "lexically_normal p =
     (if p = [] then []
      else let root = (hd p = CHR ''/''); names = path_names [] p; stack = normal_names root names [];
               directory = (last p = CHR ''/'' \<or> names \<noteq> [] \<and> last names \<in> {''.'', ''..''});
               body = join_names (rev stack) in
        if stack = [] then (if root then ''/'' else ''.'')
        else (if root then ''/'' else []) @ body @ (if directory \<and> hd stack \<noteq> ''..'' then ''/'' else []))"

definition new_Configurable_cl ::
  "nat \<Rightarrow> (string \<Rightarrow> ('d::zero) option) \<Rightarrow> (string \<Rightarrow> string option) \<Rightarrow> string \<Rightarrow> string \<Rightarrow> string list \<Rightarrow> string \<Rightarrow> 'd configurable fuelled" where
  "new_Configurable_cl n scan_lf files current_path CONFIGURATION_PATH cl_params name =
     fuel_bind (new_Configurable n scan_lf files name) (\<lambda>c.
       fuel_bind (Some (add_cl_params scan_lf cl_params False c)) (\<lambda>(c', explicit).
         case map_of (parameters c') ''workload_path'' of
           None \<Rightarrow> Some (Inr c')
         | Some p \<Rightarrow>
             (case param_value p of
                String w \<Rightarrow>
                  let base = (if explicit then current_path else lexically_normal (path_append CONFIGURATION_PATH ''..''));
                      path = (if is_relative w then path_append base w else w) in
                  Some (Inr (addParameter2Map \<lparr>param_name = ''workload_path'', param_value = String (lexically_normal path)\<rparr> c'))
              | _ \<Rightarrow> Some (Inl (Throw ''bad_variant_access'')))))"

section \<open>Command lines\<close>

text \<open>Options with one letter and \<open>--config\<close> take the next word along.\<close>

fun rearrange :: "string list \<Rightarrow> string list" where
  "rearrange [] = []"
| "rearrange [x] = [x]"
| "rearrange (x # y # xs) =
     (if length x = 2 \<and> hd x = CHR ''-'' \<or> x = ''--config''
      then ((if x = ''-c'' then ''--config'' else x) @ '' '' @ y) # rearrange xs
      else x # rearrange (y # xs))"

definition new_CLParser :: "string list \<Rightarrow> string list" where
  "new_CLParser argv = (case argv of [] \<Rightarrow> [] | program # args \<Rightarrow> rearrange args)"

text \<open>The loop from the end stops before the first character.\<close>

definition trim_option :: "string \<Rightarrow> string" where
  "trim_option s =
     (case dropWhile (\<lambda>c. c = CHR '' '') s of
        [] \<Rightarrow> []
      | c # cs \<Rightarrow> c # rev (dropWhile (\<lambda>x. x = CHR '' '') (rev cs)))"

definition getParam :: "string \<Rightarrow> string list \<Rightarrow> string list" where
  "getParam identifier lines =
     map (\<lambda>line. trim_option (drop (length identifier) line))
       (filter (\<lambda>line. take (length identifier) line = identifier \<and>
          (length identifier < length line \<longrightarrow> line ! length identifier = CHR '' '')) lines)"

text \<open>The check at the start of the main program, and what it hands to the simulator.\<close>

definition missing_value :: "string list \<Rightarrow> bool" where
  "missing_value argv \<longleftrightarrow>
     (\<exists>i\<in>set [1..<length argv]. argv ! i \<in> {''-o'', ''-c'', ''--config''} \<and>
        (i + 1 = length argv \<or> argv ! (i + 1) = [] \<or> hd (argv ! (i + 1)) = CHR ''-''))"

record sim_arguments =
  system_name :: string
  cl_params :: "string list"
  print_config :: bool
  config_file :: string
  output_dir :: string
  trace_on :: bool

definition main_arguments :: "string list \<Rightarrow> sim_arguments option" where
  "main_arguments argv =
     (let ls = new_CLParser argv;
          last_or_empty = (\<lambda>xs :: string list. if xs = [] then [] else last xs) in
      if missing_value argv \<or> getParam ''-s'' ls = [] then None
      else Some \<lparr> system_name = last (getParam ''-s'' ls), cl_params = getParam ''-p'' ls,
                  print_config = (getParam ''--PrintConfig'' ls \<noteq> []), config_file = last_or_empty (getParam ''--config'' ls),
                  output_dir = last_or_empty (getParam ''-o'' ls), trace_on = (getParam ''--trace'' ls \<noteq> []) \<rparr>)"

section \<open>The file of a system\<close>

text \<open>The parts of a path: the text after the last \<open>/\<close>, before it, and the extension of the former.\<close>

definition filename_of :: "string \<Rightarrow> string" where
  "filename_of p = rev (takeWhile (\<lambda>c. c \<noteq> CHR ''/'') (rev p))"

definition parent_of :: "string \<Rightarrow> string" where
  "parent_of p =
     (let d = rev (dropWhile (\<lambda>c. c = CHR ''/'') (dropWhile (\<lambda>c. c \<noteq> CHR ''/'') (rev p))) in
      if d = [] \<and> CHR ''/'' \<in> set p then ''/'' else d)"

definition extension_of :: "string \<Rightarrow> string" where
  "extension_of p =
     (let f = filename_of p; e = takeWhile (\<lambda>c. c \<noteq> CHR ''.'') (rev f) in
      if f \<in> {''.'', ''..''} \<or> length f \<le> Suc (length e) then [] else CHR ''.'' # rev e)"

definition stem_of :: "string \<Rightarrow> string" where
  "stem_of p = take (length (filename_of p) - length (extension_of p)) (filename_of p)"

text \<open>The directory and the name of the configuration of a system; \<open>readable\<close> says which files can be read.\<close>

definition find_config :: "(string \<Rightarrow> bool) \<Rightarrow> string \<Rightarrow> string \<Rightarrow> string \<Rightarrow> string \<Rightarrow> (string \<times> string) result" where
  "find_config readable current_path CONFIGURATION_PATH system config =
     (let c = (if config = [] then system else config);
          c1 = (if CHR ''/'' \<in> set c then c else path_append (path_append CONFIGURATION_PATH ''SystemConfigurations'') c);
          c2 = (if extension_of c1 = ''.csv'' then c1 else c1 @ ''.csv'');
          file = lexically_normal (if is_relative c2 then path_append current_path c2 else c2)
      in if readable file then Inr (parent_of file, stem_of file) else Inl (Exit ''Cannot read system configuration''))"

end
