(* ===== verification/Settings.thy ===== *)
theory Settings
  imports Configuration
begin

text \<open>
  What a configuration means: which of several entries for one parameter counts, that what is printed is read back, that
  files that extend each other are read in finitely many steps, and which words of a command line belong to an option.
\<close>

section \<open>The value of a parameter\<close>

text \<open>The value a configuration has for a parameter, by the full name under which it is entered.\<close>

definition setting :: "'d configurable \<Rightarrow> string \<Rightarrow> 'd param_value option" where
  "setting c k = map_option param_value
     (case first_index (\<lambda>x. x = CHR ''.'') k of
        None \<Rightarrow> map_of (parameters c) k
      | Some i \<Rightarrow> (case map_of (subordinate_param c) (take i k) of None \<Rightarrow> None | Some m \<Rightarrow> map_of m (drop (Suc i) k)))"

definition last_value :: "'d parameter list \<Rightarrow> string \<Rightarrow> 'd param_value option" where
  "last_value ps k = map_option param_value (find (\<lambda>p. param_name p = k) (rev ps))"

lemma split_at_dot:
  assumes "first_index P k = Some i" "first_index P l = Some j" "take i k = take j l" "drop (Suc i) k = drop (Suc j) l"
    and "\<And>x y. P x \<Longrightarrow> P y \<Longrightarrow> x = y"
  shows "k = l"
proof -
  have i: "i < length k" "P (k ! i)" and j: "j < length l" "P (l ! j)" using assms(1,2) by (auto simp: first_index_Some_iff)
  have "k = take i k @ k ! i # drop (Suc i) k" by (rule id_take_nth_drop [OF i(1)])
  also have "\<dots> = take j l @ l ! j # drop (Suc j) l" using assms(3-5) i(2) j(2) by simp
  also have "\<dots> = l" by (rule id_take_nth_drop [OF j(1), symmetric])
  finally show ?thesis .
qed

lemma setting_add: "setting (addParameter2Map p c) k = (if k = param_name p then Some (param_value p) else setting c k)"
proof (cases "first_index (\<lambda>x. x = CHR ''.'') (param_name p)")
  case None
  then show ?thesis
    by (cases "first_index (\<lambda>x. x = CHR ''.'') k") (auto simp: setting_def addParameter2Map_def update_conv')
next
  case i: (Some i)
  show ?thesis
  proof (cases "first_index (\<lambda>x. x = CHR ''.'') k")
    case None
    then have "k \<noteq> param_name p" using i by auto
    then show ?thesis using i None by (simp add: setting_def addParameter2Map_def Let_def)
  next
    case j: (Some j)
    show ?thesis
    proof (cases "k = param_name p")
      case True
      then show ?thesis using i by (simp add: setting_def addParameter2Map_def Let_def update_conv')
    next
      case False
      then have "take j k \<noteq> take i (param_name p) \<or> drop (Suc j) k \<noteq> drop (Suc i) (param_name p)"
        using split_at_dot [OF j i] by blast
      then show ?thesis
      proof (cases "take j k = take i (param_name p)")
        case True
        then show ?thesis using i j \<open>k \<noteq> param_name p\<close> \<open>_ \<or> _\<close>
          by (cases "map_of (subordinate_param c) (take i (param_name p))")
            (simp_all add: setting_def addParameter2Map_def Let_def update_conv')
      next
        case neq: False
        then show ?thesis using i j False by (simp add: setting_def addParameter2Map_def Let_def update_conv')
      qed
    qed
  qed
qed

lemma setting_fold:
  "setting (fold addParameter2Map ps c) k = (case last_value ps k of Some v \<Rightarrow> Some v | None \<Rightarrow> setting c k)"
proof (induction ps rule: rev_induct)
  case Nil
  then show ?case by (simp add: last_value_def)
next
  case (snoc p ps)
  then show ?case by (auto simp: setting_add last_value_def)
qed

section \<open>The parameters of a component\<close>

text \<open>Every entry is filed once, under its own name.\<close>

definition map_wf :: "'d parameters_map \<Rightarrow> bool" where
  "map_wf m \<longleftrightarrow> distinct (map fst m) \<and> (\<forall>kv\<in>set m. param_name (snd kv) = fst kv)"

definition config_wf :: "'d configurable \<Rightarrow> bool" where
  "config_wf c \<longleftrightarrow> (\<forall>x\<in>set (subordinate_param c). map_wf (snd x))"

lemma set_update_le: "set (AList.update k v al) \<subseteq> insert (k, v) (set al)"
  by (induction al) auto

lemma map_wf_update: "map_wf m \<Longrightarrow> map_wf (AList.update (param_name p) p m)"
  using set_update_le [of "param_name p" p m] by (force simp: map_wf_def distinct_update)

lemma config_wf_add:
  assumes wf: "config_wf c"
  shows "config_wf (addParameter2Map p c)"
proof (cases "first_index (\<lambda>x. x = CHR ''.'') (param_name p)")
  case None
  then show ?thesis using wf by (simp add: config_wf_def addParameter2Map_def)
next
  case (Some i)
  let ?sub = "take i (param_name p)" and ?q = "p\<lparr>param_name := drop (Suc i) (param_name p)\<rparr>"
  let ?m = "case map_of (subordinate_param c) ?sub of None \<Rightarrow> [] | Some m \<Rightarrow> m"
  have "map_wf ?m"
  proof (cases "map_of (subordinate_param c) ?sub")
    case None
    then show ?thesis by (simp add: map_wf_def)
  next
    case (Some m)
    then show ?thesis using wf map_of_SomeD [OF Some] by (auto simp: config_wf_def)
  qed
  then have "map_wf (AList.update (param_name ?q) ?q ?m)" by (rule map_wf_update)
  moreover have "map_wf (snd x)" if "x \<in> set (AList.update ?sub m (subordinate_param c))" "map_wf m" for x m
    using subsetD [OF set_update_le that(1)] that(2) wf by (auto simp: config_wf_def)
  ultimately show ?thesis using Some by (simp add: config_wf_def addParameter2Map_def Let_def)
qed

lemma config_wf_fold: "config_wf c \<Longrightarrow> config_wf (fold addParameter2Map ps c)"
  by (induction ps arbitrary: c) (simp_all add: config_wf_add)

lemma first_dot: "CHR ''.'' \<notin> set s \<Longrightarrow> first_index (\<lambda>x. x = CHR ''.'') (s @ CHR ''.'' # t) = Some (length s)"
  by (induction s) auto

lemma char_digit: "char_of (48 + n mod 10 :: nat) \<noteq> CHR ''.''"
proof -
  have "48 + n mod 10 \<noteq> (46 :: nat)" "48 + n mod 10 < (256 :: nat)" by simp_all
  then have "of_char (char_of (48 + n mod 10 :: nat) :: char) \<noteq> (of_char (CHR ''.'') :: nat)" by simp
  then show ?thesis by metis
qed

lemma no_dot_in_number: "CHR ''.'' \<notin> set (show_nat n)"
proof (induction n rule: show_nat.induct)
  case (1 n)
  then show ?case using char_digit [of n] by (subst show_nat.simps) (auto simp del: char_of_def)
qed

lemma no_dot_in_name: "CHR ''.'' \<notin> set cn \<Longrightarrow> CHR ''.'' \<notin> set (sub_name cn i)"
  using no_dot_in_number by (auto simp: sub_name_def to_string_def)

lemma map_of_filter_keys: "map_of (filter (\<lambda>kv. P (fst kv)) m) k = (if P k then map_of m k else None)"
  by (induction m) auto

lemma insert_map_lookup: "map_of (insert_map m sub) k = (case map_of m k of Some p \<Rightarrow> Some p | None \<Rightarrow> map_of sub k)"
  by (auto simp: insert_map_def map_of_filter_keys [where P = "\<lambda>k. map_of m k = None"] map_add_def split: option.splits)

lemma drop_past: "drop (Suc (length s)) (s @ x # t) = t"
  by (induction s) auto

lemma setting_dot:
  "CHR ''.'' \<notin> set s \<Longrightarrow> setting c (s @ ''.'' @ k) =
    map_option param_value (case map_of (subordinate_param c) s of None \<Rightarrow> None | Some m \<Rightarrow> map_of m k)"
  by (simp add: setting_def first_dot drop_past split: option.split)

lemma getSubMap_lookup:
  assumes "CHR ''.'' \<notin> set cn"
  shows "map_option param_value (map_of (getSubMap cn i c) k) =
    (case setting c (sub_name cn i @ ''.'' @ k) of Some v \<Rightarrow> Some v | None \<Rightarrow> setting c (cn @ ''[*].'' @ k))"
proof -
  have "CHR ''.'' \<notin> set (cn @ ''[*]'')" using assms by simp
  from setting_dot [OF this, of c k] have wild: "setting c (cn @ ''[*].'' @ k) =
      map_option param_value (case map_of (subordinate_param c) (cn @ ''[*]'') of None \<Rightarrow> None | Some m \<Rightarrow> map_of m k)"
    by simp
  show ?thesis unfolding wild setting_dot [OF no_dot_in_name [OF assms]]
    by (auto simp: getSubMap_def Let_def insert_map_lookup split: option.splits)
qed

lemma getSubMap_wf:
  assumes "config_wf c"
  shows "map_wf (getSubMap cn i c)"
proof -
  have m: "map_wf m" if "map_of (subordinate_param c) s = Some m" for s m
    using assms map_of_SomeD [OF that] by (auto simp: config_wf_def)
  have "map_wf (insert_map m w)" if "map_wf m" "map_wf w" for m w :: "'a parameters_map"
  proof -
    have "distinct (map fst (filter (\<lambda>kv. map_of m (fst kv) = None) w))" using that(2) by (simp add: map_wf_def distinct_map_filter)
    moreover have "fst ` set m \<inter> fst ` set (filter (\<lambda>kv. map_of m (fst kv) = None) w) = {}"
      by (auto simp: map_of_eq_None_iff image_iff)
    ultimately show ?thesis using that by (auto simp: map_wf_def insert_map_def)
  qed
  moreover have "map_wf ([] :: 'a parameters_map)" by (simp add: map_wf_def)
  ultimately show ?thesis using m by (simp add: getSubMap_def Let_def split: option.split)
qed

lemma last_value_map:
  assumes "map_wf m"
  shows "last_value (map snd m) k = map_option param_value (map_of m k)"
proof -
  have "find (\<lambda>p. param_name p = k) (rev (map snd m)) = map_of m k"
    using assms
  proof (induction m)
    case (Cons x m)
    have IH: "find (\<lambda>p. param_name p = k) (rev (map snd m)) = map_of m k" using Cons by (simp add: map_wf_def)
    have find_append: "find P (xs @ ys) = (case find P xs of None \<Rightarrow> find P ys | Some y \<Rightarrow> Some y)" for P and xs ys :: "'a parameter list"
      by (induction xs) auto
    have "map_of m (fst x) = None" using Cons.prems by (auto simp: map_wf_def map_of_eq_None_iff)
    then show ?case using Cons.prems IH by (cases x) (auto simp: find_append map_wf_def split: option.splits)
  qed simp
  then show ?thesis by (simp add: last_value_def)
qed

section \<open>Files\<close>

text \<open>The lines of a text as the reader finds them.\<close>

function lines_of :: "string \<Rightarrow> string list" where
  "lines_of text = (case next_line text of Inr (Some (line, rest)) \<Rightarrow> line # lines_of rest | _ \<Rightarrow> [])"
  by pat_completeness auto
termination by (relation "measure length") (auto dest: next_line_shorter)

declare lines_of.simps [simp del]

lemma parse_lines_fold:
  "parse_lines scan_lf line t c = Inr c' \<Longrightarrow>
   \<exists>ps. list_all2 (\<lambda>l p. parseLine scan_lf l = Inr p) (filter (\<lambda>l. \<not> checkComment l) (line # lines_of t)) ps \<and>
     c' = fold addParameter2Map ps c"
proof (induction scan_lf line t c rule: parse_lines.induct)
  case (1 scan_lf line t c)
  obtain c1 where c1: "(if checkComment line then Inr c else result_bind (parseLine scan_lf line) (\<lambda>p. Inr (addParameter2Map p c))) = Inr c1"
    and rest: "(case next_line t of Inl e \<Rightarrow> Inl e | Inr None \<Rightarrow> Inr c1
       | Inr (Some (line', t')) \<Rightarrow> parse_lines scan_lf line' t' c1) = Inr c'"
    using "1.prems" by (subst (asm) parse_lines.simps) (auto simp: result_bind_Inr_iff)
  obtain ps where ps: "list_all2 (\<lambda>l p. parseLine scan_lf l = Inr p) (filter (\<lambda>l. \<not> checkComment l) [line]) ps"
    "c1 = fold addParameter2Map ps c"
  proof (cases "checkComment line")
    case True
    then show ?thesis using that [of "[]"] c1 by simp
  next
    case False
    then obtain p where "parseLine scan_lf line = Inr p" "c1 = addParameter2Map p c"
      using c1 by (auto simp: result_bind_Inr_iff)
    then show ?thesis using that [of "[p]"] False by simp
  qed
  show ?case
  proof (cases "next_line t")
    case (Inl e)
    then show ?thesis using rest by simp
  next
    case (Inr r)
    show ?thesis
    proof (cases r)
      case None
      then have "lines_of t = []" using Inr by (simp add: lines_of.simps)
      then show ?thesis using rest ps None Inr by (intro exI [of _ ps]) simp
    next
      case (Some lt)
      obtain line' t' where lt: "lt = (line', t')" by (cases lt)
      have nxt: "next_line t = Inr (Some (line', t'))" using Inr Some lt by simp
      have "parse_lines scan_lf line' t' c1 = Inr c'" using rest nxt by simp
      from "1.IH" [OF nxt refl refl this] obtain qs where qs:
        "list_all2 (\<lambda>l p. parseLine scan_lf l = Inr p) (filter (\<lambda>l. \<not> checkComment l) (line' # lines_of t')) qs"
        "c' = fold addParameter2Map qs c1" by blast
      have "lines_of t = line' # lines_of t'" using nxt by (subst lines_of.simps) simp
      then have split: "filter P (line # lines_of t) = filter P [line] @ filter P (line' # lines_of t')" for P by simp
      show ?thesis
        unfolding split
        by (rule exI [of _ "ps @ qs"], rule conjI, rule list_all2_appendI [OF ps(1) qs(1)]) (simp only: qs(2) ps(2) fold_append comp_apply)
    qed
  qed
qed

lemma parse_file_cases:
  assumes "parseFile (Suc n) scan_lf files name c = Some (Inr c')"
  obtains (plain) t line rest where "files name = Some t" "next_line t = Inr (Some (line, rest))" "checkKeywords line = Inr None"
      "parse_lines scan_lf line rest c = Inr c'"
    | (extends) t line rest path base where "files name = Some t" "next_line t = Inr (Some (line, rest))" "checkKeywords line = Inr (Some path)"
      "parseFile n scan_lf files path c = Some (Inr base)"
      "next_line rest = Inr None \<and> c' = base \<or>
        (\<exists>line' rest'. next_line rest = Inr (Some (line', rest')) \<and> parse_lines scan_lf line' rest' base = Inr c')"
proof -
  obtain t where t: "files name = Some t" using assms by (cases "files name") simp_all
  then obtain lr where lr: "next_line t = Inr (Some lr)" using assms by (auto split: sum.splits option.splits)
  obtain line rest where l: "lr = (line, rest)" by (cases lr)
  obtain k where k: "checkKeywords line = Inr k" using assms t lr l by (auto split: sum.splits)
  show thesis
  proof (cases k)
    case None
    then show ?thesis using plain [OF t] lr l k assms t by simp
  next
    case (Some path)
    let ?tail = "\<lambda>c1. case next_line rest of Inl e \<Rightarrow> Some (Inl e) | Inr None \<Rightarrow> Some (Inr c1)
        | Inr (Some (line', rest')) \<Rightarrow> Some (parse_lines scan_lf line' rest' c1)"
    have run: "fuel_bind (parseFile n scan_lf files path c) ?tail = Some (Inr c')"
      using assms t lr l k Some by simp
    then obtain base where base: "parseFile n scan_lf files path c = Some (Inr base)" "?tail base = Some (Inr c')"
      by (auto simp: fuel_bind_def split: option.splits sum.splits)
    then show ?thesis using extends [OF t _ _ base(1)] lr l k Some by (auto split: sum.splits option.splits)
  qed
qed

lemma parse_file_fold: "parseFile n scan_lf files name c = Some (Inr c') \<Longrightarrow> \<exists>ps. c' = fold addParameter2Map ps c"
proof (induction n arbitrary: name c')
  case (Suc n)
  from Suc.prems show ?case
  proof (cases rule: parse_file_cases)
    case plain
    then show ?thesis using parse_lines_fold by blast
  next
    case (extends t line rest path base)
    then obtain ps where ps: "base = fold addParameter2Map ps c" using Suc.IH by blast
    show ?thesis
    proof (cases "c' = base")
      case False
      then obtain qs where "c' = fold addParameter2Map qs base" using extends(5) parse_lines_fold by blast
      then show ?thesis using ps by (intro exI [of _ "ps @ qs"]) simp
    qed (use ps in blast)
  qed
qed simp

lemma new_config_wf: "new_Configurable n scan_lf files name = Some (Inr c) \<Longrightarrow> config_wf c"
  using parse_file_fold [of n scan_lf files name empty_config c] config_wf_fold [of empty_config]
  by (auto simp: new_Configurable_def config_wf_def empty_config_def)

lemma cl_params_fold:
  "add_cl_params scan_lf lines x c = Inr (c', y) \<Longrightarrow>
   \<exists>ps. list_all2 (\<lambda>l p. parseCLparam scan_lf l = Inr p) lines ps \<and> c' = fold addParameter2Map ps c"
proof (induction lines arbitrary: x c)
  case (Cons l lines)
  then obtain p where p: "parseCLparam scan_lf l = Inr p"
    "add_cl_params scan_lf lines (x \<or> param_name p = ''workload_path'') (addParameter2Map p c) = Inr (c', y)"
    by (auto simp: result_bind_Inr_iff)
  then obtain ps where "list_all2 (\<lambda>l p. parseCLparam scan_lf l = Inr p) lines ps" "c' = fold addParameter2Map ps (addParameter2Map p c)"
    using Cons.IH by blast
  then show ?case using p(1) by (intro exI [of _ "p # ps"]) simp
qed simp

lemma cl_config:
  assumes "new_Configurable_cl n scan_lf files cur cfg args name = Some (Inr c)"
  obtains base ps qs where "new_Configurable n scan_lf files name = Some (Inr base)"
    "list_all2 (\<lambda>l p. parseCLparam scan_lf l = Inr p) args ps" "c = fold addParameter2Map qs (fold addParameter2Map ps base)"
    "\<forall>q\<in>set qs. param_name q = ''workload_path''"
proof -
  let ?rest = "\<lambda>(c', explicit). case map_of (parameters c') ''workload_path'' of
           None \<Rightarrow> Some (Inr c')
         | Some p \<Rightarrow>
             (case param_value p of
                String w \<Rightarrow>
                  let b = (if explicit then cur else lexically_normal (path_append cfg ''..''));
                      path = (if is_relative w then path_append b w else w) in
                  Some (Inr (addParameter2Map \<lparr>param_name = ''workload_path'', param_value = String (lexically_normal path)\<rparr> c'))
              | _ \<Rightarrow> Some (Inl (Throw ''bad_variant_access'')))"
  obtain base where base: "new_Configurable n scan_lf files name = Some (Inr base)"
    and run: "fuel_bind (Some (add_cl_params scan_lf args False base)) ?rest = Some (Inr c)"
    using assms unfolding new_Configurable_cl_def by (cases "new_Configurable n scan_lf files name") (auto simp: fuel_bind_def split: sum.splits)
  obtain r where r: "add_cl_params scan_lf args False base = Inr r" "?rest r = Some (Inr c)"
    using run by (cases "add_cl_params scan_lf args False base") simp_all
  obtain c' x where x: "r = (c', x)" by (cases r)
  obtain ps where ps: "list_all2 (\<lambda>l p. parseCLparam scan_lf l = Inr p) args ps" "c' = fold addParameter2Map ps base"
    using cl_params_fold r(1) x by blast
  have "\<exists>qs. c = fold addParameter2Map qs c' \<and> (\<forall>q\<in>set qs. param_name q = ''workload_path'')"
  proof (cases "map_of (parameters c') ''workload_path''")
    case None
    then show ?thesis using r(2) x by (intro exI [of _ "[]"]) simp
  next
    case (Some p)
    then obtain w where "c = addParameter2Map \<lparr>param_name = ''workload_path'', param_value = String w\<rparr> c'"
      using r(2) x by (auto simp: Let_def split: param_value.splits)
    then show ?thesis by (intro exI [of _ "[\<lparr>param_name = ''workload_path'', param_value = String w\<rparr>]"]) simp
  qed
  then show ?thesis using that base ps by blast
qed

section \<open>Which entry counts\<close>

text \<open>Texts of files and what the witnesses read: a system that extends a base and gives its caches their parameters.\<close>

definition text_of :: "string list \<Rightarrow> string" where
  "text_of ls = concat (map (\<lambda>l. l @ [newline]) ls)"

definition demo_files :: "string \<Rightarrow> string option" where
  "demo_files name =
     (if name = ''System'' then Some (text_of [''Extends,Base,,'', ''# the caches'', ''cache[*].num_mshr(i),16,,#depth'', ''cache[0].num_mshr(i),4'', ''cache[*].protocol(s),MSI,''])
      else if name = ''Base'' then Some (text_of [''num_cores(i),4,,#cores'', ''bus_type(vs),TripleBus,Bus,,#buses''])
      else if name = ''Cache'' then Some (text_of [''num_mshr(i),8'', ''protocol(s),NONE'', ''queue(i),-1''])
      else None)"

definition demo_scan :: "string \<Rightarrow> int option" where
  "demo_scan s = map_option (\<lambda>(neg, n, _). if neg then - n else n) (scan_number 10 s)"

definition demo_args :: "string list" where
  "demo_args = [''num_cores(i)=2'', ''cache[1].num_mshr(i)=6'', ''num_cores(i)=1'']"

definition entry_of :: "string \<Rightarrow> 'd param_value \<Rightarrow> string \<times> 'd parameter" where
  "entry_of n v = (n, \<lparr>param_name = n, param_value = v\<rparr>)"

definition demo_system :: "int configurable" where
  "demo_system =
     \<lparr> parameters = [entry_of ''num_cores'' (Integer 1), entry_of ''bus_type'' (Vector_String [''TripleBus'', ''Bus''])],
       subordinate_param =
         [(''cache[*]'', [entry_of ''num_mshr'' (Integer 16), entry_of ''protocol'' (String ''MSI'')]),
          (''cache[0]'', [entry_of ''num_mshr'' (Integer 4)]), (''cache[1]'', [entry_of ''num_mshr'' (Integer 6)])] \<rparr>"

definition demo_own :: "int configurable" where
  "demo_own = \<lparr> parameters = [entry_of ''num_mshr'' (Integer 8), entry_of ''protocol'' (String ''NONE''), entry_of ''queue'' (Integer (- 1))],
     subordinate_param = [] \<rparr>"

definition demo_cache0 :: "int configurable" where
  "demo_cache0 = \<lparr> parameters = [entry_of ''num_mshr'' (Integer 4), entry_of ''protocol'' (String ''MSI''), entry_of ''queue'' (Integer (- 1))],
     subordinate_param = [] \<rparr>"

lemma demo_runs_ok:
  "new_Configurable_cl 2 demo_scan demo_files ''/home'' ''/opt/cfg'' demo_args ''System'' = Some (Inr demo_system)"
  "new_Configurable 1 demo_scan demo_files ''Cache'' = Some (Inr demo_own)"
  "new_Configurable_map 1 demo_scan demo_files (getSubMap ''cache'' 0 demo_system) ''Cache'' = Some (Inr demo_cache0)"
  by code_simp+

text \<open>
  C9. Which entry counts for a component: its parameter has the value the system's configuration gives for exactly this
  component, else the value given for all components of its name, else the one in the component's own file.
\<close>

theorem component_takes_most_specific:
  assumes "new_Configurable_cl n scan_lf files cur cfg args name = Some (Inr sys)" and "CHR ''.'' \<notin> set cn"
    and "new_Configurable m scan_lf files' cname = Some (Inr own)"
    and "new_Configurable_map m scan_lf files' (getSubMap cn i sys) cname = Some (Inr c)"
  shows "setting c k =
    (case setting sys (sub_name cn i @ ''.'' @ k) of Some v \<Rightarrow> Some v
     | None \<Rightarrow> (case setting sys (cn @ ''[*].'' @ k) of Some v \<Rightarrow> Some v | None \<Rightarrow> setting own k))"
proof -
  obtain base ps qs where "new_Configurable n scan_lf files name = Some (Inr base)"
    "sys = fold addParameter2Map qs (fold addParameter2Map ps base)" using assms(1) by (rule cl_config)
  then have "config_wf sys" using new_config_wf config_wf_fold by blast
  note wf = getSubMap_wf [OF this, of cn i]
  have "c = fold addParameter2Map (map snd (getSubMap cn i sys)) own"
    using assms(3,4) by (simp add: new_Configurable_map_def fold_map comp_def)
  then show ?thesis
    by (simp only: setting_fold last_value_map [OF wf] getSubMap_lookup [OF assms(2)]) (simp split: option.split)
qed

theorem component_takes_most_specific_witness:
  "setting demo_cache0 ''num_mshr'' = Some (Integer 4) \<and> setting demo_cache0 ''protocol'' = Some (String ''MSI'') \<and>
   setting demo_cache0 ''queue'' = Some (Integer (- 1))"
proof -
  have vals: "setting demo_system (sub_name ''cache'' 0 @ ''.'' @ ''num_mshr'') = Some (Integer 4)"
    "setting demo_system (sub_name ''cache'' 0 @ ''.'' @ ''protocol'') = None"
    "setting demo_system (''cache'' @ ''[*].'' @ ''protocol'') = Some (String ''MSI'')"
    "setting demo_system (sub_name ''cache'' 0 @ ''.'' @ ''queue'') = None"
    "setting demo_system (''cache'' @ ''[*].'' @ ''queue'') = None" "setting demo_own ''queue'' = Some (Integer (- 1))"
    by code_simp+
  have "CHR ''.'' \<notin> set ''cache''" by simp
  note pick = component_takes_most_specific [OF demo_runs_ok(1) this demo_runs_ok(2,3)]
  show ?thesis
    by (simp only: pick [where k = "''num_mshr''"] pick [where k = "''protocol''"] pick [where k = "''queue''"] vals option.case simp_thms)
qed

text \<open>
  C11. The command line overrides the files: a parameter other than the trace directory \<open>workload_path\<close>, which the
  constructor rewrites, has the value of the last override that names it, or without one that of the files.
\<close>

theorem command_line_overrides_files:
  assumes "new_Configurable_cl n scan_lf files cur cfg args name = Some (Inr c)" and "k \<noteq> ''workload_path''"
  shows "\<exists>base ps. new_Configurable n scan_lf files name = Some (Inr base) \<and>
    list_all2 (\<lambda>l p. parseCLparam scan_lf l = Inr p) args ps \<and>
    setting c k = (case last_value ps k of Some v \<Rightarrow> Some v | None \<Rightarrow> setting base k)"
proof -
  obtain base ps qs where base: "new_Configurable n scan_lf files name = Some (Inr base)"
    "list_all2 (\<lambda>l p. parseCLparam scan_lf l = Inr p) args ps" "c = fold addParameter2Map qs (fold addParameter2Map ps base)"
    "\<forall>q\<in>set qs. param_name q = ''workload_path''" using assms(1) by (rule cl_config)
  have "last_value qs k = None" using base(4) assms(2) by (auto simp: last_value_def find_None_iff)
  then have "setting c k = (case last_value ps k of Some v \<Rightarrow> Some v | None \<Rightarrow> setting base k)"
    by (simp add: base(3) setting_fold)
  then show ?thesis using base(1,2) by blast
qed

theorem command_line_overrides_files_witness: "setting demo_system ''num_cores'' = Some (Integer 1)"
proof -
  obtain base ps where b: "list_all2 (\<lambda>l p. parseCLparam demo_scan l = Inr p) demo_args ps"
    "setting demo_system ''num_cores'' = (case last_value ps ''num_cores'' of Some v \<Rightarrow> Some v | None \<Rightarrow> setting base ''num_cores'')"
    using command_line_overrides_files [OF demo_runs_ok(1), of "''num_cores''"] by auto
  have "map (\<lambda>l. case parseCLparam demo_scan l of Inr p \<Rightarrow> (param_name p, param_value p)) demo_args =
      [(''num_cores'', Integer 2), (''cache[1].num_mshr'', Integer 6), (''num_cores'', Integer 1)]" by code_simp
  then have "map (\<lambda>p. (param_name p, param_value p)) ps = [(''num_cores'', Integer 2), (''cache[1].num_mshr'', Integer 6), (''num_cores'', Integer 1)]"
    using b(1) by (auto simp: demo_args_def list_all2_Cons1)
  then show ?thesis using b(2) by (auto simp: last_value_def)
qed

text \<open>
  C12. What a file adds to the one it extends: the base is read first, and on top of it the entries of the file's other
  lines in order, comments left out, so that a later line overrides an earlier one and the file its base.
\<close>

theorem file_refines_its_base:
  assumes "parseFile (Suc n) scan_lf files name c = Some (Inr c')"
    and "files name = Some t" "next_line t = Inr (Some (line, rest))" "checkKeywords line = Inr (Some path)"
  shows "\<exists>base ps. parseFile n scan_lf files path c = Some (Inr base) \<and>
    list_all2 (\<lambda>l p. parseLine scan_lf l = Inr p) (filter (\<lambda>l. \<not> checkComment l) (lines_of rest)) ps \<and>
    setting c' k = (case last_value ps k of Some v \<Rightarrow> Some v | None \<Rightarrow> setting base k)"
  using assms(1)
proof (cases rule: parse_file_cases)
  case (plain t' line' rest')
  then show ?thesis using assms(2-4) by simp
next
  case (extends t' line' rest' path' base)
  then have base: "parseFile n scan_lf files path c = Some (Inr base)"
    and tail: "next_line rest = Inr None \<and> c' = base \<or>
        (\<exists>line' rest'. next_line rest = Inr (Some (line', rest')) \<and> parse_lines scan_lf line' rest' base = Inr c')"
    using assms(2-4) by auto
  from tail show ?thesis
  proof (elim disjE exE conjE)
    assume "next_line rest = Inr None" "c' = base"
    moreover from this have "lines_of rest = []" by (simp add: lines_of.simps)
    ultimately show ?thesis using base by (intro exI [of _ base] exI [of _ "[]"]) (simp add: last_value_def)
  next
    fix line' rest' assume l: "next_line rest = Inr (Some (line', rest'))" "parse_lines scan_lf line' rest' base = Inr c'"
    then have "lines_of rest = line' # lines_of rest'" by (subst lines_of.simps) simp
    moreover obtain ps where "list_all2 (\<lambda>l p. parseLine scan_lf l = Inr p) (filter (\<lambda>l. \<not> checkComment l) (line' # lines_of rest')) ps"
      "c' = fold addParameter2Map ps base" using parse_lines_fold [OF l(2)] by blast
    ultimately show ?thesis using base by (intro exI [of _ base] exI [of _ ps]) (simp only: setting_fold simp_thms)
  qed
qed

definition demo_base :: "int configurable" where
  "demo_base = \<lparr> parameters = [entry_of ''num_cores'' (Integer 4), entry_of ''bus_type'' (Vector_String [''TripleBus'', ''Bus''])],
     subordinate_param = [] \<rparr>"

definition demo_files_read :: "int configurable" where
  "demo_files_read = demo_base\<lparr>subordinate_param :=
     [(''cache[*]'', [entry_of ''num_mshr'' (Integer 16), entry_of ''protocol'' (String ''MSI'')]), (''cache[0]'', [entry_of ''num_mshr'' (Integer 4)])]\<rparr>"

definition demo_lines :: "string list" where
  "demo_lines = [''cache[*].num_mshr(i),16,,#depth'', ''cache[0].num_mshr(i),4'', ''cache[*].protocol(s),MSI,'']"

definition demo_rest :: string where
  "demo_rest = text_of (''# the caches'' # demo_lines)"

definition demo_entries :: "(string \<times> int param_value) list" where
  "demo_entries = [(''cache[*].num_mshr'', Integer 16), (''cache[0].num_mshr'', Integer 4), (''cache[*].protocol'', String ''MSI'')]"

lemma demo_parsed:
  assumes "list_all2 (\<lambda>l p. parseLine demo_scan l = Inr p) demo_lines ps"
  shows "map (\<lambda>p. (param_name p, param_value p)) ps = demo_entries"
proof -
  have "map (\<lambda>l. case parseLine demo_scan l of Inr p \<Rightarrow> (param_name p, param_value p)) demo_lines = demo_entries" by code_simp
  moreover have "map (\<lambda>l. case parseLine demo_scan l of Inr p \<Rightarrow> (param_name p, param_value p)) ls = map (\<lambda>p. (param_name p, param_value p)) ps"
    if "list_all2 (\<lambda>l p. parseLine demo_scan l = Inr p) ls ps" for ls
    using that by (induction ls ps rule: list_all2_induct) simp_all
  ultimately show ?thesis using assms by simp
qed

lemma find_of_map: "find P (map f xs) = map_option f (find (P \<circ> f) xs)"
  by (induction xs) auto

theorem file_refines_its_base_witness:
  "setting demo_files_read ''num_cores'' = Some (Integer 4) \<and> setting demo_files_read ''cache[0].num_mshr'' = Some (Integer 4)"
proof -
  define t where "t = ''Extends,Base,,'' @ newline # demo_rest"
  have run: "parseFile (Suc 1) demo_scan demo_files ''System'' empty_config = Some (Inr demo_files_read)" by code_simp
  have base: "parseFile 1 demo_scan demo_files ''Base'' empty_config = Some (Inr demo_base)" by code_simp
  have sys: "demo_files ''System'' = Some t" unfolding t_def by code_simp
  have first: "next_line t = Inr (Some (''Extends,Base,,'', demo_rest))" unfolding t_def by code_simp
  have ext: "checkKeywords ''Extends,Base,,'' = Inr (Some ''Base'')" by code_simp
  have lines: "filter (\<lambda>l. \<not> checkComment l) (lines_of demo_rest) = demo_lines" by code_simp
  have val: "setting demo_files_read k = (case map_option snd (find (\<lambda>p. fst p = k) (rev demo_entries)) of Some x \<Rightarrow> Some x | None \<Rightarrow> setting demo_base k)" for k
  proof -
    obtain base' ps where b: "parseFile 1 demo_scan demo_files ''Base'' empty_config = Some (Inr base')"
      "list_all2 (\<lambda>l p. parseLine demo_scan l = Inr p) demo_lines ps"
      "setting demo_files_read k = (case last_value ps k of Some x \<Rightarrow> Some x | None \<Rightarrow> setting base' k)"
      using file_refines_its_base [OF run sys first ext, of k, unfolded lines] by (elim exE conjE)
    have "last_value ps k = map_option snd (find (\<lambda>p. fst p = k) (rev demo_entries))"
      unfolding last_value_def demo_parsed [OF b(2), symmetric] rev_map find_of_map by (simp add: option.map_comp comp_def)
    moreover have "base' = demo_base" using b(1) unfolding base by (simp only: option.inject sum.inject)
    ultimately show ?thesis using b(3) by (simp only:)
  qed
  have "setting demo_base ''num_cores'' = Some (Integer 4)" by code_simp
  then show ?thesis by (simp only: val) code_simp
qed

text \<open>The file a file extends.\<close>

definition base_of :: "(string \<Rightarrow> string option) \<Rightarrow> string \<Rightarrow> string option" where
  "base_of files name =
     (case files name of None \<Rightarrow> None
      | Some t \<Rightarrow> (case next_line t of Inr (Some (line, rest)) \<Rightarrow> (case checkKeywords line of Inr k \<Rightarrow> k | Inl e \<Rightarrow> None) | _ \<Rightarrow> None))"

text \<open>
  C14. Reading ends unless files extend each other in a circle: when every file ranks above the one it extends, reading
  nests no deeper than its rank and ends with a configuration or an error.
\<close>

theorem parseFile_terminates:
  assumes "\<And>a b. base_of files a = Some b \<Longrightarrow> rank b < rank a"
  shows "parseFile (Suc (rank name)) scan_lf files name c \<noteq> None"
proof -
  have deep: "rank name < n \<Longrightarrow> parseFile n scan_lf files name c \<noteq> None" for n
  proof (induction n arbitrary: name)
    case (Suc n)
    show ?case
    proof (cases "base_of files name")
      case None
      then show ?thesis by (auto simp: base_of_def split: option.splits sum.splits)
    next
      case (Some b)
      then have "parseFile n scan_lf files b c \<noteq> None" using Suc assms [OF Some] by simp
      then show ?thesis using Some
        by (auto simp: base_of_def fuel_bind_def split: option.splits sum.splits)
    qed
  qed simp
  show ?thesis by (rule deep) simp
qed

lemma circular_file_never_read: "base_of files name = Some name \<Longrightarrow> parseFile n scan_lf files name c = None"
  by (induction n) (auto simp: base_of_def split: option.splits sum.splits)

theorem parseFile_terminates_witness: "parseFile 2 demo_scan demo_files ''System'' empty_config \<noteq> None"
proof -
  define rank :: "string \<Rightarrow> nat" where "rank = (\<lambda>s. if s = ''System'' then 1 else 0)"
  have vals: "base_of demo_files ''System'' = Some ''Base''" "base_of demo_files ''Base'' = None" "base_of demo_files ''Cache'' = None" by code_simp+
  have "rank b < rank a" if ab: "base_of demo_files a = Some b" for a b
  proof -
    have "a \<in> {''System'', ''Base'', ''Cache''}" using ab by (auto simp: base_of_def demo_files_def split: if_splits)
    then show ?thesis using ab vals by (auto simp: rank_def)
  qed
  from parseFile_terminates [of demo_files rank "''System''" demo_scan empty_config, OF this] show ?thesis by (simp add: rank_def numeral_2_eq_2)
qed

section \<open>Printing and reading\<close>

lemma digit_char: "k < 10 \<Longrightarrow> char_of (48 + k :: nat) \<in> set ''0123456789'' \<and> digit_of (char_of (48 + k :: nat)) = int k"
proof -
  assume "k < 10"
  then have "k = 0 \<or> k = 1 \<or> k = 2 \<or> k = 3 \<or> k = 4 \<or> k = 5 \<or> k = 6 \<or> k = 7 \<or> k = 8 \<or> k = 9" by arith
  then show ?thesis by (elim disjE) (simp_all, code_simp+)
qed

lemma show_nat_ne: "show_nat n \<noteq> []"
  by (subst show_nat.simps) simp

lemma show_nat_chars: "set (show_nat n) \<subseteq> set ''0123456789''"
proof (induction n rule: show_nat.induct)
  case (1 n)
  then show ?case using digit_char [of "n mod 10"] by (subst show_nat.simps) simp
qed

lemma scan_digits_show: "scan_digits 10 0 (show_nat n @ t) = scan_digits 10 (int n) t"
proof (induction n arbitrary: t rule: show_nat.induct)
  case (1 n)
  let ?d = "char_of (48 + n mod 10 :: nat) :: char"
  have d: "digit_of ?d = int (n mod 10)" using digit_char [of "n mod 10"] by simp
  show ?case
  proof (cases "n < 10")
    case True
    then have "show_nat n = [?d]" by (subst show_nat.simps) simp
    then show ?thesis using True d by simp
  next
    case False
    then have "show_nat n = show_nat (n div 10) @ [?d]" by (subst show_nat.simps) simp
    then have "scan_digits 10 0 (show_nat n @ t) = scan_digits 10 (int (n div 10)) (?d # t)" using "1.IH" [OF False, of "?d # t"] by simp
    also have "\<dots> = scan_digits 10 (10 * int (n div 10) + int (n mod 10)) t" by (simp only: scan_digits.simps d) simp
    also have "10 * int (n div 10) + int (n mod 10) = int n" by (metis mult_div_mod_eq of_nat_add of_nat_mult of_nat_numeral)
    finally show ?thesis .
  qed
qed

lemma scan_to_string:
  assumes "t = [] \<or> hd t = comma"
  shows "scan_number 10 (to_string i @ t) = Some (i < 0, \<bar>i\<bar>, t)"
proof -
  have stop: "scan_digits 10 k t = (k, t)" for k using assms by (cases t) (auto simp: digit_of_def)
  obtain c cs where sh: "show_nat (nat \<bar>i\<bar>) = c # cs" using show_nat_ne by (cases "show_nat (nat \<bar>i\<bar>)") auto
  then have c: "c \<in> set ''0123456789''" using show_nat_chars [of "nat \<bar>i\<bar>"] by simp
  have digit: "digit_of c < 10" "c \<noteq> CHR ''-''" "c \<noteq> CHR ''+''" "skip_blanks (c # xs) = c # xs" for xs
    using c by (auto simp: digit_of_def)
  have num: "scan_digits 10 0 (c # cs @ t) = (\<bar>i\<bar>, t)"
    using scan_digits_show [of "nat \<bar>i\<bar>" t] stop by (simp add: sh)
  have minus: "skip_blanks (CHR ''-'' # xs) = CHR ''-'' # xs" for xs by simp
  have str: "to_string i = (if i < 0 then ''-'' else []) @ c # cs" by (simp only: to_string_def sh)
  note rules = digit num minus starts_with_digit_def scan_number_def str Let_def
  show ?thesis
  proof (cases "i < 0")
    case True
    then show ?thesis by (simp add: rules del: scan_digits.simps skip_blanks.simps)
  next
    case False
    then show ?thesis by (simp add: rules del: scan_digits.simps skip_blanks.simps)
  qed
qed

text \<open>A line for a parameter, and the same as an override.\<close>

definition param_line :: "string \<Rightarrow> string \<Rightarrow> string list \<Rightarrow> string" where
  "param_line name ind parts = name @ ''('' @ ind @ '')'' @ concat (map ((#) comma) parts)"

definition cl_line :: "string \<Rightarrow> string \<Rightarrow> string list \<Rightarrow> string" where
  "cl_line name ind parts =
     name @ ''('' @ ind @ '')'' @ (case parts of [] \<Rightarrow> [] | f # fs \<Rightarrow> ''='' @ f @ concat (map ((#) comma) fs))"

lemma dropWhile_weaker: "(\<And>x. Q x \<Longrightarrow> P x) \<Longrightarrow> dropWhile P (dropWhile Q xs) = dropWhile P xs"
  by (induction xs) auto

lemma dropWhile_append_ne: "dropWhile P xs \<noteq> [] \<Longrightarrow> dropWhile P (xs @ ys) = dropWhile P xs @ ys"
  by (induction xs) auto

lemma checkComment_eq:
  "checkComment line \<longleftrightarrow> (let s = dropWhile (\<lambda>c. c \<in> {comma, CHR '' '', newline, return_char}) line in s = [] \<or> hd s = CHR ''#'')"
  unfolding checkComment_def by (subst dropWhile_weaker) simp_all

lemma not_comment_in_line:
  assumes "\<not> checkComment f"
  shows "\<not> checkComment (comma # f @ t)"
proof -
  have "dropWhile (\<lambda>c. c \<in> {comma, CHR '' '', newline, return_char}) (comma # f @ t) =
      dropWhile (\<lambda>c. c \<in> {comma, CHR '' '', newline, return_char}) (f @ t)" by simp
  then show ?thesis
    using assms dropWhile_append_ne [of "\<lambda>c. c \<in> {comma, CHR '' '', newline, return_char}" f t]
    unfolding checkComment_eq Let_def by (metis hd_append2 append_is_Nil_conv)
qed

lemma first_at: "\<forall>y\<in>set s. \<not> P y \<Longrightarrow> P x \<Longrightarrow> first_index P (s @ x # t) = Some (length s)"
  by (induction s) simp_all

lemma parseVector_fields:
  "list_all2 (\<lambda>f v. comma \<notin> set f \<and> \<not> checkComment f \<and> (\<forall>t. t = [] \<or> hd t = comma \<longrightarrow> scan (f @ t) = Inr (Some v))) fs vs \<Longrightarrow>
   comma \<notin> set pre \<Longrightarrow> parseVector scan (pre @ concat (map ((#) comma) fs)) = Inr vs"
proof (induction fs vs arbitrary: pre rule: list_all2_induct)
  case Nil
  then have "first_index (\<lambda>c. c = comma) pre = None" by (auto simp: first_index_None_iff)
  then show ?case by (subst parseVector.simps) simp
next
  case (Cons f fs v vs)
  let ?t = "concat (map ((#) comma) fs)"
  have at: "first_index (\<lambda>c. c = comma) (pre @ comma # f @ ?t) = Some (length pre)"
    using Cons.prems by (intro first_at) auto
  have f: "comma \<notin> set f" "\<not> checkComment f" and scan: "t = [] \<or> hd t = comma \<Longrightarrow> scan (f @ t) = Inr (Some v)" for t
    using Cons.hyps(1) by blast+
  have "?t = [] \<or> hd ?t = comma" by (cases fs) simp_all
  from scan [OF this] have "scan (f @ ?t) = Inr (Some v)" .
  moreover have "parseVector scan (f @ ?t) = Inr vs" by (rule Cons.IH [OF f(1)])
  moreover have "\<not> checkComment (comma # f @ ?t)" by (rule not_comment_in_line [OF f(2)])
  ultimately have "parseVector scan (pre @ comma # f @ ?t) = Inr (v # vs)"
    by (subst parseVector.simps) (simp add: at drop_past)
  then show ?case by simp
qed

text \<open>Doubles are left out: how they are read is an argument.\<close>

fun printed :: "'d param_value \<Rightarrow> string \<times> string list" where
  "printed (Integer i) = (''i'', [to_string i])"
| "printed (String s) = (''s'', [s])"
| "printed (Vector_Integer is) = (''vi'', map to_string is)"
| "printed (Vector_String ss) = (''vs'', ss)"
| "printed _ = ([], [])"

definition int_ok :: "int \<Rightarrow> bool" where
  "int_ok i \<longleftrightarrow> - (2 ^ 31) \<le> i \<and> i < 2 ^ 31"

definition text_ok :: "string \<Rightarrow> bool" where
  "text_ok s \<longleftrightarrow> set s \<inter> {comma, return_char, newline} = {}"

fun printable :: "'d param_value \<Rightarrow> bool" where
  "printable (Integer i) \<longleftrightarrow> int_ok i"
| "printable (String s) \<longleftrightarrow> text_ok s"
| "printable (Vector_Integer is) \<longleftrightarrow> list_all int_ok is"
| "printable (Vector_String ss) \<longleftrightarrow> list_all (\<lambda>s. text_ok s \<and> \<not> checkComment s) ss"
| "printable _ \<longleftrightarrow> False"

definition name_ok :: "string \<Rightarrow> bool" where
  "name_ok n \<longleftrightarrow> n \<noteq> [] \<and> length n < 100 \<and> set n \<inter> {CHR ''('', comma, CHR ''=''} = {}"

lemma takeWhile_until: "\<forall>y\<in>set s. P y \<Longrightarrow> \<not> P x \<Longrightarrow> takeWhile P (s @ x # t) = s"
  by (induction s) simp_all

lemma dropWhile_until: "\<forall>y\<in>set s. P y \<Longrightarrow> \<not> P x \<Longrightarrow> dropWhile P (s @ x # t) = x # t"
  by (induction s) simp_all

lemma param_line_parts:
  assumes "name_ok name" "CHR '')'' \<notin> set ind" "comma \<notin> set ind"
  shows "takeWhile (\<lambda>c. c \<noteq> CHR ''('') (param_line name ind fs) = name" "indicator (param_line name ind fs) = ind"
    "after_comma (param_line name ind (f # fs)) = Some (f @ concat (map ((#) comma) fs))"
proof -
  have n: "\<forall>y\<in>set name. y \<noteq> CHR ''(''" "\<forall>y\<in>set name. y \<noteq> comma" "name \<noteq> []" using assms(1) by (auto simp: name_ok_def)
  have i: "\<forall>y\<in>set ind. y \<noteq> CHR '')''" "\<forall>y\<in>set ind. y \<noteq> comma" using assms(2,3) by auto
  show "takeWhile (\<lambda>c. c \<noteq> CHR ''('') (param_line name ind fs) = name"
    using takeWhile_until [OF n(1)] by (simp add: param_line_def)
  have "hd (param_line name ind fs) \<noteq> CHR ''(''" using n(1,3) by (simp add: param_line_def)
  then show "indicator (param_line name ind fs) = ind"
    using dropWhile_until [OF n(1)] takeWhile_until [OF i(1)] by (simp add: indicator_def param_line_def)
  have "hd (param_line name ind (f # fs)) \<noteq> comma" using n(2,3) by (simp add: param_line_def)
  moreover have "dropWhile (\<lambda>c. c \<noteq> comma) (param_line name ind (f # fs)) = comma # f @ concat (map ((#) comma) fs)"
    using dropWhile_until [of "name @ ''('' @ ind @ '')''" "\<lambda>c. c \<noteq> comma" comma] n(2) i(2) by (simp add: param_line_def)
  ultimately show "after_comma (param_line name ind (f # fs)) = Some (f @ concat (map ((#) comma) fs))"
    using n(3) by (simp add: after_comma_def param_line_def)
qed

lemma scan_int_printed: "int_ok i \<Longrightarrow> t = [] \<or> hd t = comma \<Longrightarrow> scan_int (to_string i @ t) = Inr (Some i)"
  unfolding scan_int_def by (subst scan_to_string) (auto simp: int_ok_def Let_def)

lemma to_string_chars: "set (to_string i) \<subseteq> insert (CHR ''-'') (set ''0123456789'')"
proof -
  have "set (to_string i) \<subseteq> insert (CHR ''-'') (set (show_nat (nat \<bar>i\<bar>)))" by (auto simp: to_string_def)
  then show ?thesis using show_nat_chars [of "nat \<bar>i\<bar>"] by blast
qed

lemma to_string_no_comma: "comma \<notin> set (to_string i)"
proof
  assume "comma \<in> set (to_string i)"
  then have "comma \<in> insert (CHR ''-'') (set ''0123456789'')" by (rule subsetD [OF to_string_chars])
  then show False by simp
qed

lemma to_string_not_comment: "\<not> checkComment (to_string i)"
proof -
  have "to_string i \<noteq> []" by (simp add: to_string_def show_nat_ne)
  then obtain c cs where c: "to_string i = c # cs" by (cases "to_string i") simp_all
  then have "c \<in> set (to_string i)" by simp
  then have "c \<in> insert (CHR ''-'') (set ''0123456789'')" by (rule subsetD [OF to_string_chars])
  then have "c = CHR ''-'' \<or> c = CHR ''0'' \<or> c = CHR ''1'' \<or> c = CHR ''2'' \<or> c = CHR ''3'' \<or> c = CHR ''4'' \<or> c = CHR ''5'' \<or>
      c = CHR ''6'' \<or> c = CHR ''7'' \<or> c = CHR ''8'' \<or> c = CHR ''9''" by simp
  then show ?thesis unfolding checkComment_eq c Let_def by (elim disjE) simp_all
qed

lemma field_text_ok:
  assumes "text_ok s" and "t = [] \<or> hd t = comma"
  shows "field_text (s @ t) = s"
proof -
  let ?P = "\<lambda>c. c \<notin> {comma, return_char, newline}"
  have s: "\<forall>y\<in>set s. ?P y" using assms(1) by (auto simp: text_ok_def)
  show ?thesis
  proof (cases t)
    case Nil
    then show ?thesis using s unfolding field_text_def by (simp only: append_Nil2 takeWhile_eq_all_conv)
  next
    case (Cons x u)
    then have "takeWhile ?P (s @ t) = s" using takeWhile_until [OF s, of comma u] assms(2) by simp
    then show ?thesis by (simp only: field_text_def)
  qed
qed

lemma text_ok_comma: "text_ok s \<Longrightarrow> comma \<notin> set s"
  by (auto simp: text_ok_def)

lemma list_all2_self_map: "list_all P xs \<Longrightarrow> (\<And>x. P x \<Longrightarrow> R (f x) x) \<Longrightarrow> list_all2 R (map f xs) xs"
  by (induction xs) simp_all

lemma printed_line_read:
  assumes "name_ok name" "printable v"
  shows "parseLine scan_lf (param_line name (fst (printed v)) (snd (printed v))) = Inr \<lparr>param_name = name, param_value = v\<rparr>"
proof -
  have len: "\<not> 100 \<le> length name" using assms(1) by (simp add: name_ok_def)
  have pre: "comma \<notin> set (name @ ''('' @ ind @ '')'')" if "comma \<notin> set ind" for ind
    using assms(1) that by (auto simp: name_ok_def)
  show ?thesis
  proof (cases v)
    case (Integer i)
    note p = param_line_parts [OF assms(1), where ind = "''i''" and fs = "[to_string i]", simplified]
      param_line_parts(3) [OF assms(1), where ind = "''i''" and f = "to_string i" and fs = "[]", simplified]
    show ?thesis using assms(2) scan_int_printed [of i "[]"] by (simp add: Integer parseLine_def Let_def len p)
  next
    case (String s)
    note p = param_line_parts [OF assms(1), where ind = "''s''" and fs = "[s]", simplified]
      param_line_parts(3) [OF assms(1), where ind = "''s''" and f = s and fs = "[]", simplified]
    show ?thesis using assms(2) field_text_ok [of s "[]"] by (simp add: String parseLine_def Let_def len p)
  next
    case (Vector_Integer "is")
    have "list_all2 (\<lambda>f v. comma \<notin> set f \<and> \<not> checkComment f \<and> (\<forall>t. t = [] \<or> hd t = comma \<longrightarrow> scan_int (f @ t) = Inr (Some v))) (map to_string is) is"
      using assms(2) Vector_Integer
      by (intro list_all2_self_map [where P = int_ok]) (simp_all add: to_string_no_comma to_string_not_comment scan_int_printed)
    from parseVector_fields [OF this pre [of "''vi''"]]
    have "parseVector scan_int (param_line name ''vi'' (map to_string is)) = Inr is" by (simp add: param_line_def)
    then show ?thesis using param_line_parts(1,2) [OF assms(1), where ind = "''vi''" and fs = "map to_string is", simplified]
      by (simp add: Vector_Integer parseLine_def Let_def len)
  next
    case (Vector_String ss)
    have ok: "scan_string (s @ t) = Inr (Some s)" if "text_ok s" "\<not> checkComment s" "t = [] \<or> hd t = comma" for s t
      using field_text_ok [OF that(1,3)] that(2) by (auto simp: scan_string_def checkComment_def)
    have "list_all2 (\<lambda>f v. comma \<notin> set f \<and> \<not> checkComment f \<and> (\<forall>t. t = [] \<or> hd t = comma \<longrightarrow> scan_string (f @ t) = Inr (Some v))) (map id ss) ss"
      using assms(2) Vector_String text_ok_comma ok
      by (intro list_all2_self_map [where P = "\<lambda>s. text_ok s \<and> \<not> checkComment s"]) auto
    from parseVector_fields [OF this pre [of "''vs''"]]
    have "parseVector scan_string (param_line name ''vs'' ss) = Inr ss" by (simp add: param_line_def)
    then show ?thesis using param_line_parts(1,2) [OF assms(1), where ind = "''vs''" and fs = ss, simplified]
      by (simp add: Vector_String parseLine_def Let_def len)
  qed (use assms(2) in simp_all)
qed

lemma cl_line_read:
  assumes "name_ok name" "CHR ''='' \<notin> set ind" "length (cl_line name ind parts) < 4096"
  shows "parseCLparam scan_lf (cl_line name ind parts) = parseLine scan_lf (param_line name ind parts)"
proof (cases parts)
  case Nil
  have "first_index (\<lambda>c. c = CHR ''='') (cl_line name ind parts) = None"
    using assms(1,2) unfolding Nil cl_line_def first_index_None_iff by (auto simp: name_ok_def)
  moreover have "cl_line name ind parts = param_line name ind parts" by (simp add: Nil cl_line_def param_line_def)
  ultimately show ?thesis using assms(3) by (simp add: parseCLparam_def)
next
  case (Cons f fs)
  let ?pre = "name @ ''('' @ ind @ '')''" and ?t = "f @ concat (map ((#) comma) fs)"
  have line: "cl_line name ind parts = ?pre @ CHR ''='' # ?t" by (simp add: Cons cl_line_def)
  have "\<forall>y\<in>set ?pre. y \<noteq> CHR ''=''" using assms(1,2) by (auto simp: name_ok_def)
  then have "first_index (\<lambda>c. c = CHR ''='') (?pre @ CHR ''='' # ?t) = Some (length ?pre)" by (rule first_at) simp
  moreover have "(?pre @ CHR ''='' # ?t)[length ?pre := comma] = ?pre @ comma # ?t" by (rule list_update_length)
  moreover have "param_line name ind parts = ?pre @ comma # ?t" by (simp add: Cons param_line_def)
  moreover have "\<not> 4096 \<le> length (?pre @ CHR ''='' # ?t)" using assms(3) unfolding line by (simp only: not_le)
  ultimately show ?thesis unfolding line parseCLparam_def by (simp only: option.case if_False)
qed

text \<open>
  C10. What is printed is read back: a parameter of any type but a double that is written as a line of a file, or as an
  override for the command line, is read as the same parameter. The name has 1 to 99 characters, none of them an opening
  parenthesis, a comma or an equals sign (\<open>name_ok\<close>); integers have 32 bits, texts no comma and no line end, and the
  texts of a vector do not start as a comment (\<open>printable\<close>); an override has less than 4096 characters.
\<close>

theorem parameter_round_trip:
  assumes "name_ok name" and "printable v"
  shows "parseLine scan_lf (param_line name (fst (printed v)) (snd (printed v))) = Inr \<lparr>param_name = name, param_value = v\<rparr> \<and>
    (length (cl_line name (fst (printed v)) (snd (printed v))) < 4096 \<longrightarrow>
     parseCLparam scan_lf (cl_line name (fst (printed v)) (snd (printed v))) = Inr \<lparr>param_name = name, param_value = v\<rparr>)"
proof -
  have "CHR ''='' \<notin> set (fst (printed v))" using assms(2) by (cases v) simp_all
  note read = cl_line_read [OF assms(1) this, of "snd (printed v)" scan_lf]
  show ?thesis by (intro conjI impI) (simp_all only: printed_line_read [OF assms] read)
qed

theorem parameter_round_trip_witness:
  "parseCLparam demo_scan ''cache[0].ids(vi)=10,-3,7'' = Inr \<lparr>param_name = ''cache[0].ids'', param_value = Vector_Integer [10, - 3, 7]\<rparr>"
proof -
  let ?v = "Vector_Integer [10, - 3, 7] :: int param_value"
  have line: "cl_line ''cache[0].ids'' (fst (printed ?v)) (snd (printed ?v)) = ''cache[0].ids(vi)=10,-3,7''"
    and ok: "name_ok ''cache[0].ids''" "printable ?v" by code_simp+
  have "length (cl_line ''cache[0].ids'' (fst (printed ?v)) (snd (printed ?v))) < 4096" unfolding line by simp
  then show ?thesis using parameter_round_trip [OF ok, of demo_scan] unfolding line by blast
qed

section \<open>Options\<close>

text \<open>A command line as options with a value and flags without one.\<close>

definition takes_value :: "string \<Rightarrow> bool" where
  "takes_value x \<longleftrightarrow> length x = 2 \<and> hd x = CHR ''-'' \<or> x = ''--config''"

definition canonical :: "string \<Rightarrow> string" where
  "canonical x = (if x = ''-c'' then ''--config'' else x)"

fun item_words :: "string \<times> string option \<Rightarrow> string list" where
  "item_words (x, Some v) = [x, v]"
| "item_words (x, None) = [x]"

fun item_line :: "string \<times> string option \<Rightarrow> string" where
  "item_line (x, Some v) = canonical x @ '' '' @ v"
| "item_line (x, None) = x"

definition item_ok :: "string \<times> string option \<Rightarrow> bool" where
  "item_ok it \<longleftrightarrow> CHR '' '' \<notin> set (fst it) \<and> (snd it \<noteq> None \<longleftrightarrow> takes_value (fst it))"

lemma rearrange_items: "list_all item_ok its \<Longrightarrow> rearrange (concat (map item_words its)) = map item_line its"
proof (induction its)
  case (Cons it its)
  then have IH: "rearrange (concat (map item_words its)) = map item_line its" and ok: "item_ok it" by simp_all
  obtain x v where it: "it = (x, v)" by (cases it)
  show ?case
  proof (cases v)
    case None
    then have "\<not> (length x = 2 \<and> hd x = CHR ''-'' \<or> x = ''--config'')" using ok by (simp add: it item_ok_def takes_value_def)
    moreover from this have "x \<noteq> ''-c''" by auto
    ultimately have "rearrange (x # ws) = x # rearrange ws" for ws by (cases ws) simp_all
    then show ?thesis using IH by (simp add: it None)
  next
    case (Some w)
    then have "length x = 2 \<and> hd x = CHR ''-'' \<or> x = ''--config''" using ok by (simp add: it item_ok_def takes_value_def)
    then show ?thesis using IH by (simp add: it Some canonical_def)
  qed
qed simp

lemma trim_leading: "trim_option (CHR '' '' # v) = trim_option v"
  by (simp add: trim_option_def)

lemma option_matches:
  assumes "CHR '' '' \<notin> set identifier" "CHR '' '' \<notin> set x" "rest = [] \<or> hd rest = CHR '' ''"
  shows "take (length identifier) (x @ rest) = identifier \<and>
      (length identifier < length (x @ rest) \<longrightarrow> (x @ rest) ! length identifier = CHR '' '') \<longleftrightarrow> x = identifier"
proof
  let ?l = "x @ rest"
  assume l: "take (length identifier) ?l = identifier \<and> (length identifier < length ?l \<longrightarrow> ?l ! length identifier = CHR '' '')"
  have word: "takeWhile (\<lambda>c. c \<noteq> CHR '' '') (y @ r) = y" if "CHR '' '' \<notin> set y" "r = [] \<or> hd r = CHR '' ''" for y r
  proof (cases r)
    case Nil
    then show ?thesis using that(1) by (auto simp: takeWhile_eq_all_conv)
  next
    case (Cons c u)
    have "\<forall>z\<in>set y. z \<noteq> CHR '' ''" using that(1) by auto
    from takeWhile_until [OF this, of "CHR '' ''" u] show ?thesis using that(2) Cons by simp
  qed
  have "drop (length identifier) ?l = [] \<or> hd (drop (length identifier) ?l) = CHR '' ''"
    using l by (cases "length identifier < length ?l") (simp_all add: hd_drop_conv_nth del: drop_append take_append length_append)
  from word [OF assms(1) this] have "takeWhile (\<lambda>c. c \<noteq> CHR '' '') ?l = identifier"
    using l append_take_drop_id [of "length identifier" ?l] by simp
  then show "x = identifier" using word [OF assms(2,3)] by simp
next
  assume "x = identifier"
  then show "take (length identifier) (x @ rest) = identifier \<and>
      (length identifier < length (x @ rest) \<longrightarrow> (x @ rest) ! length identifier = CHR '' '')"
    using assms(3) by (cases rest) (simp_all add: nth_append)
qed

text \<open>
  C13. Which words belong to an option: on a command line of options with their values and flags, \<open>getParam\<close> returns
  the values given with the option, in order and without surrounding blanks, and nothing of any other option; \<open>-c\<close>
  counts as \<open>--config\<close>.
\<close>

theorem getParam_collects_values:
  assumes "list_all item_ok its" and "CHR '' '' \<notin> set identifier"
  shows "getParam identifier (new_CLParser (program # concat (map item_words its))) =
    map (\<lambda>it. case snd it of None \<Rightarrow> [] | Some v \<Rightarrow> trim_option v)
      (filter (\<lambda>it. (if snd it = None then fst it else canonical (fst it)) = identifier) its)"
proof -
  have lines: "new_CLParser (program # concat (map item_words its)) = map item_line its"
    using rearrange_items [OF assms(1)] by (simp add: new_CLParser_def)
  show ?thesis
    unfolding lines using assms(1)
  proof (induction its)
    case (Cons it its)
    let ?x = "if snd it = None then fst it else canonical (fst it)"
    let ?tl = "case snd it of None \<Rightarrow> [] | Some v \<Rightarrow> CHR '' '' # v"
    have line: "item_line it = ?x @ ?tl" by (cases it rule: item_line.cases) simp_all
    have "CHR '' '' \<notin> set ?x" "?tl = [] \<or> hd ?tl = CHR '' ''"
      using Cons.prems by (auto simp: item_ok_def canonical_def split: option.splits)
    note m = option_matches [OF assms(2) this, folded line]
    have val: "trim_option (drop (length identifier) (item_line it)) = (case snd it of None \<Rightarrow> [] | Some v \<Rightarrow> trim_option v)"
      if "?x = identifier"
      using that line by (auto simp: trim_leading trim_option_def split: option.splits)
    have IH: "getParam identifier (map item_line its) = map (\<lambda>it. case snd it of None \<Rightarrow> [] | Some v \<Rightarrow> trim_option v)
      (filter (\<lambda>it. (if snd it = None then fst it else canonical (fst it)) = identifier) its)" using Cons by simp
    have "getParam identifier (map item_line (it # its)) =
        (if ?x = identifier then [trim_option (drop (length identifier) (item_line it))] else []) @ getParam identifier (map item_line its)"
      using m by (simp add: getParam_def)
    then show ?case using IH val by (simp split: if_splits)
  qed (simp add: getParam_def)
qed

theorem getParam_collects_values_witness:
  "getParam ''--config'' (new_CLParser [''sim'', ''-s'', ''Multi'', ''-c'', ''a.csv'', ''--trace'', ''--config'', '' b.csv '']) = [''a.csv'', ''b.csv'']"
proof -
  let ?its = "[(''-s'', Some ''Multi''), (''-c'', Some ''a.csv''), (''--trace'', None), (''--config'', Some '' b.csv '')]"
  have "list_all item_ok ?its" "CHR '' '' \<notin> set ''--config''" by code_simp+
  from getParam_collects_values [OF this, of "''sim''"] show ?thesis by (simp add: canonical_def trim_option_def)
qed

end
