(* ===== verification/Spec2Isabelle.thy ===== *)
theory Spec2Isabelle
  imports Networks Coherence MultiCoreRuns BridgeRuns Settings
begin

text \<open>
  A model of the Octopus simulator of multi-core cache systems, with the properties that make its parts correct.

  The program. A clock (src/ClockManager.cpp) calls the clocked objects of a system once per period: cores
  (src/CPU.cpp) that replay a trace or run a periodic task, cache controllers (src/CacheControllers), interconnects
  (src/Interconnect) and a memory (src/MainMemoryController.cpp, src/MCsimInterface.cpp). They exchange messages
  through interfaces, pairs of bounded queues that an interconnect empties and fills. A controller takes messages
  into its processing queue, picks the first that is ready, asks its protocol object for the actions to take and
  runs them; the protocol object looks its transitions up in a CSV table (Protocols_FSM), read by src/FSMReader.cpp.

  Theories, in the order of their dependencies.
  Prelude: word types, errors as values (\<open>sim_error\<close>: an \<open>exit\<close>, an uncaught exception, or undefined behaviour),
  results with fuel, vectors and order lemmas.
  Messages: \<open>Message\<close> of header/Interconnect/CommunicationInterface.h.
  Arbiters: src/Arbiters. Elections conserve messages, choose what they promise, isolate cores under time division and
  serve everyone under round robin.
  Interfaces: BusInterface.cpp and TripleBusInterface.cpp; every message is read once and in bus order. Sending: what
  a push and a read leave alone. Ports: a use of an interface appends to its outgoing queues and takes from the front
  of its incoming ones.
  Buses: the bus, the split, triple, unified, point-to-point and direct controllers; latency of a slot and the total
  order all agents see.
  Mesh: MeshInterface.cpp, MeshController.cpp, Mesh.cpp and the network on chip, NoCInterface.cpp, NoCController.cpp and
  NoC.cpp, over a record of the interface that the NoC extends by its routing table. Networks: on links
  of at least two cycles, and with switches that have a route and room for what they pass on, neither loses or
  duplicates a copy queued for a linked destination in any run (locale \<open>delivering\<close> for the way a link sends,
  \<open>network\<close> for a whole interconnect, both interpreted on the mesh and on the NoC), and the cases in which they do
  lose messages.
  ProcessingQueue: header/FRFCFS_Buffer.h; the requests of one line that came from the same side leave in
  the order they were queued, while a bus message goes ahead of the core's waiting requests (locale \<open>line_fifo\<close>); the
  skipped rescan is a full one.
  Replacement: the replacement policies. CacheData: lines, the data handlers, miss and write-back registers, way
  partitions; what a fill does and keeps.
  FSM: the table parser and its look-ups. SnoopProtocols and DirectoryProtocols: events and action handlers of every
  protocol; the home counts the invalidations it sends. Coherence: two private caches on the shipped MSI table
  (Protocols_FSM/MSI_splitBus_snooping.csv, included as text) have a single writer and never reach a fault.
  Controllers: the state of BaseController, CacheController, CacheControllerDirectory, CacheControllerExclusive and
  CacheController_End2End as one record with the class in \<open>c_kind\<close>, and every operation up to \<open>cycleProcess\<close>.
  ControllerFrames: views of a controller that an operation does not change (locale \<open>action_frame\<close> and its
  extensions, interpreted on the array, the tables and the configuration). ArrayScheduling: the pipelined data array.
  ProcessingLoop: the loop of \<open>processLogic\<close> and the address interlock. ControllerActions: what single actions do to
  the pending and parked requests. ControllerCycle: the shape of the tables in every run, and that a cycle of a
  controller with a pipelined array ends, for every protocol whose table gives its stall the number 0.
  Clocks: the event queue; objects run in lock-step with their periods. Memory: both memories.
  Cores and CoreTimetable: the core, the window of outstanding requests and the timetable of a task (docs/Tasks.md).
  ExternalCore: the core of an embedder (ExternalCPU.cpp), a FIFO between callbacks and a link.
  Bridge: the embedder gem5/octopus.cc, which performs the data operations of a gem5 core when its requests commit.
  BridgeRuns: in every run a core sees its own older writes, each request is performed and answered once, and nothing
  waits but for an older write that has not committed.
  Configuration: parameter files, overrides and the words of a command line (Configurable.cpp, CLParser.cpp,
  Octopus_Simulator.cpp). Settings: which entry counts for a parameter of a component, that what is printed is read
  back, that reading ends, and which words belong to an option.
  MultiCore: a whole system, SystemConfigurations/MultiCoreSystem.cpp and CacheSim.cpp: construction, registration with
  the clock and the cycle of every object over the interfaces it shares with others. ComponentPorts: a cycle of a
  controller, a core or a memory is a use of its interfaces in the sense of Ports. MultiCoreRuns: in every run of a
  system, with steps of the clock and calls of an embedder in any order, the links are FIFOs, the split and
  triple buses keep one order of requests (as long as no End2End controller and no perfect shared cache has its upper
  interface on the bus, and a TDM arbiter has agents and non-empty slots) and every component keeps its invariant.

  Conventions. An integer has the width it has in the source (\<open>u64 = 64 word\<close> and so on), the signed counters are
  \<open>int\<close> and their overflow is an error value where it can happen. A container indexed by a key is an association list with one entry per key.
  Raises, calls of \<open>exit\<close> and undefined behaviour end a computation with \<open>Inl\<close>. The loops that end only because of
  what the rest of the program keeps (\<open>process_loop\<close>, \<open>pipelineStep\<close>, \<open>clkStep\<close>, \<open>performData\<close>, \<open>parseFile\<close>) take fuel; the theorems
  \<open>process_loop_terminates\<close> (a multiple of the queue), \<open>pipelineStep_completes_due_accesses\<close> (the accesses),
  \<open>clkStep_runs_due_objects\<close> (the due objects), \<open>onCommit_returns\<close> (the pending requests),
  \<open>parseFile_terminates\<close> (the length of a chain of files) and \<open>cycleProcess_terminates\<close> say how much is enough.
  A value the code gets from outside is an argument: \<open>rand\<close>, the random state of a replacement policy, the answers and
  callbacks of the DRAM simulator, \<open>atof\<close> and \<open>%lf\<close>, the cycle of a clocked object, what gem5 does with a packet.

  Not modelled. Of the protocol tables only the one of MSI is included. Controllers and cores are modelled over bus
  interfaces, not over those of a mesh, and so is the system; in a system the calls of an embedder come between the
  steps of the clock, not from inside a callback. Left out
  for good: reports, debug output and traces of events, and third-party code (TinyXML, MCsim, the CommandLine of ns-3). The
  parameters that the constructors take from a configuration are arguments.
\<close>

end
